(* ===== verification/Prelude.thy ===== *)
theory Prelude
  imports Main "HOL-Library.Word" "HOL-Library.Monad_Syntax" "HOL-Library.Multiset"
begin

text \<open>
  Shared vocabulary of the development: the machine integer types of the C code, the option
  monad in which operations that can trap (a NULL dereference, an index outside an array, a
  division by zero, an endless spin) are written, loops over lists in that monad, and the
  generic facts the component theories share.

  \<open>None\<close> always means that the C call does not return normally; \<open>Some s\<close> is the state it
  returns in.
\<close>

section \<open>Machine integers\<close>

type_synonym u8 = "8 word"
type_synonym u32 = "32 word"
type_synonym u64 = "64 word"

abbreviation UINT32_MAX :: u32 where
  "UINT32_MAX \<equiv> - 1"

section \<open>Rule collections\<close>

named_theorems opt_simps \<open>evaluation of the option monad\<close>
named_theorems frame \<open>what an operation leaves unchanged\<close>
named_theorems keeps \<open>preservation of an invariant by one operation\<close>

section \<open>The option monad\<close>

lemma bind_Some_iff [opt_simps]:
  "Option.bind m f = Some y \<longleftrightarrow> (\<exists>x. m = Some x \<and> f x = Some y)"
  by (cases m) auto

lemma bind_None_iff [opt_simps]:
  "Option.bind m f = None \<longleftrightarrow> m = None \<or> (\<exists>x. m = Some x \<and> f x = None)"
  by (cases m) auto

lemma bind_SomeE:
  assumes "Option.bind m f = Some y"
  obtains x where "m = Some x" and "f x = Some y"
  using assms by (cases m) auto

lemma if_Some_iff [opt_simps]:
  "(if b then Some x else None) = Some y \<longleftrightarrow> b \<and> x = y"
  by auto

subsection \<open>Array reads and writes\<close>

text \<open>An array of the C code is a list; reading or writing outside it is a trap.\<close>

definition idx :: "'a list \<Rightarrow> nat \<Rightarrow> 'a option" where
  "idx xs i = (if i < length xs then Some (xs ! i) else None)"

definition upd_idx :: "'a list \<Rightarrow> nat \<Rightarrow> 'a \<Rightarrow> 'a list option" where
  "upd_idx xs i v = (if i < length xs then Some (xs[i := v]) else None)"

lemma idx_Some_iff [opt_simps]: "idx xs i = Some y \<longleftrightarrow> i < length xs \<and> xs ! i = y"
  by (simp add: idx_def)

lemma idx_None_iff [opt_simps]: "idx xs i = None \<longleftrightarrow> length xs \<le> i"
  by (simp add: idx_def)

lemma idx_nth: "i < length xs \<Longrightarrow> idx xs i = Some (xs ! i)"
  by (simp add: idx_def)

lemma upd_idx_Some_iff [opt_simps]:
  "upd_idx xs i v = Some ys \<longleftrightarrow> i < length xs \<and> ys = xs[i := v]"
  by (auto simp: upd_idx_def)

subsection \<open>Loops over a list\<close>

fun foldM :: "('a \<Rightarrow> 's \<Rightarrow> 's option) \<Rightarrow> 'a list \<Rightarrow> 's \<Rightarrow> 's option" where
  "foldM f [] s = Some s"
| "foldM f (x # xs) s = Option.bind (f x s) (foldM f xs)"

lemma foldM_append: "foldM f (xs @ ys) s = Option.bind (foldM f xs s) (foldM f ys)"
proof (induction xs arbitrary: s)
  case Nil
  then show ?case by simp
next
  case (Cons x xs)
  then show ?case by (cases "f x s") simp_all
qed

lemma foldM_keeps:
  assumes "foldM f xs s = Some s'" and "I s"
    and "\<And>x s s'. x \<in> set xs \<Longrightarrow> I s \<Longrightarrow> f x s = Some s' \<Longrightarrow> I s'"
  shows "I s'"
  using assms by (induction xs arbitrary: s) (auto simp: opt_simps)

lemma foldM_returns:
  assumes "I s"
    and "\<And>x s. x \<in> set xs \<Longrightarrow> I s \<Longrightarrow> \<exists>s'. f x s = Some s' \<and> I s'"
  shows "\<exists>s'. foldM f xs s = Some s' \<and> I s'"
  using assms
proof (induction xs arbitrary: s)
  case Nil
  then show ?case by simp
next
  case (Cons x xs)
  then obtain t where "f x s = Some t" and "I t" by (meson list.set_intros(1))
  with Cons show ?case by simp
qed

lemma foldM_Some_map:
  "(\<And>x s. x \<in> set xs \<Longrightarrow> f x s = Some (g x s)) \<Longrightarrow> foldM f xs s = Some (fold g xs s)"
  by (induction xs arbitrary: s) auto

lemma foldM_cong [fundef_cong]:
  assumes "xs = ys" and "s = t" and "\<And>x s. x \<in> set ys \<Longrightarrow> f x s = g x s"
  shows "foldM f xs s = foldM g ys t"
  using assms(3) unfolding assms(1,2)
proof (induction ys arbitrary: t)
  case Nil
  then show ?case by simp
next
  case (Cons x xs)
  then show ?case by (cases "g x t") auto
qed

section \<open>Integer division\<close>

lemma int_le_div_iff:
  assumes "0 < (q :: int)"
  shows "b \<le> p div q \<longleftrightarrow> b * q \<le> p"
proof
  assume "b \<le> p div q"
  then have "b * q \<le> p div q * q" using assms by simp
  also have "\<dots> \<le> p" using assms by (simp add: minus_mod_eq_div_mult [symmetric])
  finally show "b * q \<le> p" .
next
  assume "b * q \<le> p"
  then have "b * q div q \<le> p div q" using assms by (intro zdiv_mono1)
  then show "b \<le> p div q" using assms by simp
qed

lemma int_div_less_iff: "0 < (q :: int) \<Longrightarrow> p div q < b \<longleftrightarrow> p < b * q"
  using int_le_div_iff [of q b p] by linarith

section \<open>Words as naturals\<close>

lemma unat_u32_less [simp]: "unat (x :: u32) < 4294967296"
  by (rule order.strict_trans2 [OF unsigned_less]) simp

lemma unat_u64_less [simp]: "unat (x :: u64) < 18446744073709551616"
  by (rule order.strict_trans2 [OF unsigned_less]) simp

lemma unat_ucast_u64 [simp]: "unat (ucast x :: u64) = unat x" for x :: u32
  by (simp add: unsigned_ucast_eq take_bit_nat_eq_self_iff order_less_trans [OF unat_u32_less])

lemma unat_plus_if_small:
  fixes a b :: "'a::len word"
  assumes "unat a + unat b < 2 ^ LENGTH('a)"
  shows "unat (a + b) = unat a + unat b"
  using assms by (simp add: unat_word_ariths)

lemma unat_Suc_small:
  fixes a :: "'a::len word"
  assumes "unat a + 1 < 2 ^ LENGTH('a)"
  shows "unat (a + 1) = Suc (unat a)"
proof -
  have "unat (1 :: 'a word) = 1" by simp
  with assms show ?thesis by (simp add: unat_plus_if_small)
qed

lemma unat_minus_if_le:
  fixes a b :: "'a::len word"
  assumes "b \<le> a"
  shows "unat (a - b) = unat a - unat b"
  using assms by (simp add: unat_sub word_le_nat_alt)

lemma word_eq_iff_unat: "a = b \<longleftrightarrow> unat a = unat b" for a b :: "'a::len word"
  by (simp add: word_unat_eq_iff)

section \<open>Total and partial correctness\<close>

text \<open>
  \<open>wp m Q\<close>: the operation \<open>m\<close> returns and its result satisfies \<open>Q\<close>. \<open>wlp m Q\<close>: if it returns, its
  result satisfies \<open>Q\<close>. The rules for loops hold for both and are proved once.
\<close>

definition wp :: "'a option \<Rightarrow> ('a \<Rightarrow> bool) \<Rightarrow> bool" where
  "wp m Q = (case m of None \<Rightarrow> False | Some x \<Rightarrow> Q x)"

definition wlp :: "'a option \<Rightarrow> ('a \<Rightarrow> bool) \<Rightarrow> bool" where
  "wlp m Q = (case m of None \<Rightarrow> True | Some x \<Rightarrow> Q x)"

lemma wp_simps [simp]:
  "wp (Some x) Q \<longleftrightarrow> Q x" "wp None Q \<longleftrightarrow> False"
  "wp (Option.bind m f) P \<longleftrightarrow> wp m (\<lambda>x. wp (f x) P)"
  by (simp_all add: wp_def split: option.splits)

lemma wlp_simps [simp]:
  "wlp (Some x) Q \<longleftrightarrow> Q x" "wlp None Q \<longleftrightarrow> True"
  "wlp (Option.bind m f) P \<longleftrightarrow> wlp m (\<lambda>x. wlp (f x) P)"
  by (simp_all add: wlp_def split: option.splits)

lemma wp_cong [fundef_cong]: "m = n \<Longrightarrow> (\<And>x. n = Some x \<Longrightarrow> P x = Q x) \<Longrightarrow> wp m P = wp n Q"
  by (auto simp: wp_def split: option.splits)

lemma wp_iff: "wp m Q \<longleftrightarrow> (\<exists>x. m = Some x \<and> Q x)"
  by (simp add: wp_def split: option.splits)

lemma wlp_iff: "wlp m Q \<longleftrightarrow> (\<forall>x. m = Some x \<longrightarrow> Q x)"
  by (simp add: wlp_def split: option.splits)

lemma wp_mono: "wp m P \<Longrightarrow> (\<And>x. P x \<Longrightarrow> Q x) \<Longrightarrow> wp m Q"
  by (auto simp: wp_iff)

lemma wlp_mono: "wlp m P \<Longrightarrow> (\<And>x. P x \<Longrightarrow> Q x) \<Longrightarrow> wlp m Q"
  by (auto simp: wlp_iff)

lemma wp_of_wlp: "m \<noteq> None \<Longrightarrow> wlp m Q \<Longrightarrow> wp m Q"
  by (auto simp: wp_iff wlp_iff)

lemma wp_conj_wlp: "wp m P \<Longrightarrow> wlp m Q \<Longrightarrow> wp m (\<lambda>x. P x \<and> Q x)"
  by (auto simp: wp_iff wlp_iff)

lemma wp_conj: "wp m P \<Longrightarrow> wp m Q \<Longrightarrow> wp m (\<lambda>x. P x \<and> Q x)"
  by (auto simp: wp_iff)

lemma wp_wlp: "wp m Q \<Longrightarrow> wlp m Q"
  by (auto simp: wp_iff wlp_iff)

lemma wp_if: "wp (if b then m else n) Q \<longleftrightarrow> (if b then wp m Q else wp n Q)"
  by simp

lemma wlp_if: "wlp (if b then m else n) Q \<longleftrightarrow> (if b then wlp m Q else wlp n Q)"
  by simp

locale outcome =
  fixes holds :: "'s option \<Rightarrow> ('s \<Rightarrow> bool) \<Rightarrow> bool"
  assumes holds_Some: "Q x \<Longrightarrow> holds (Some x) Q"
    and holds_bind: "holds m (\<lambda>x. holds (f x) Q) \<Longrightarrow> holds (Option.bind m f) Q"
    and holds_mono: "holds m P \<Longrightarrow> (\<And>x. P x \<Longrightarrow> Q x) \<Longrightarrow> holds m Q"
begin

lemma loop:
  assumes "I xs s" and "\<And>x xs s. I (x # xs) s \<Longrightarrow> holds (f x s) (I xs)"
    and "\<And>s. I [] s \<Longrightarrow> Q s"
  shows "holds (foldM f xs s) Q"
  using assms(1)
proof (induction xs arbitrary: s)
  case Nil
  then show ?case by (auto intro: holds_Some assms(3))
next
  case (Cons x xs)
  from assms(2) [OF Cons.prems] have "holds (f x s) (\<lambda>t. holds (foldM f xs t) Q)"
    by (rule holds_mono) (rule Cons.IH)
  then show ?case by (auto intro: holds_bind)
qed

lemma loop_inv:
  assumes "I s" and "\<And>x s. x \<in> set xs \<Longrightarrow> I s \<Longrightarrow> holds (f x s) I"
  shows "holds (foldM f xs s) I"
proof (rule loop [where I = "\<lambda>ys s. set ys \<subseteq> set xs \<and> I s"])
  show "set xs \<subseteq> set xs \<and> I s" using assms(1) by simp
  show "holds (f x s) (\<lambda>s. set ys \<subseteq> set xs \<and> I s)" if "set (x # ys) \<subseteq> set xs \<and> I s" for x ys s
    using that by (auto intro: holds_mono [OF assms(2)])
qed simp

end

interpretation total: outcome wp
  by unfold_locales (auto simp: wp_iff)

interpretation partial: outcome wlp
  by unfold_locales (auto simp: wlp_iff bind_Some_iff)

section \<open>Step relations\<close>

inductive reachable :: "('s \<Rightarrow> bool) \<Rightarrow> ('s \<Rightarrow> 's \<Rightarrow> bool) \<Rightarrow> 's \<Rightarrow> bool"
  for init :: "'s \<Rightarrow> bool" and step :: "'s \<Rightarrow> 's \<Rightarrow> bool"
  where
    start: "init s \<Longrightarrow> reachable init step s"
  | move: "reachable init step s \<Longrightarrow> step s t \<Longrightarrow> reachable init step t"

text \<open>The contract of an inductive invariant, interpreted by every concurrent component.\<close>

locale inductive_invariant =
  fixes init :: "'s \<Rightarrow> bool" and step :: "'s \<Rightarrow> 's \<Rightarrow> bool" and inv :: "'s \<Rightarrow> bool"
  assumes inv_init: "init s \<Longrightarrow> inv s"
    and inv_step: "inv s \<Longrightarrow> step s t \<Longrightarrow> inv t"
begin

lemma inv_reachable: "reachable init step s \<Longrightarrow> inv s"
  by (induction rule: reachable.induct) (auto intro: inv_init inv_step)

lemma inv_star: "step\<^sup>*\<^sup>* s t \<Longrightarrow> inv s \<Longrightarrow> inv t"
  by (induction rule: rtranclp_induct) (auto intro: inv_step)

end

subsection \<open>What threads hold\<close>

text \<open>\<open>f pc\<close> is what a thread at \<open>pc\<close> has claimed, if anything: no two threads hold the same.\<close>

definition unshared :: "('p \<Rightarrow> 'k option) \<Rightarrow> (nat \<Rightarrow> 'p) \<Rightarrow> bool" where
  "unshared f pc \<longleftrightarrow> (\<forall>i j k. f (pc i) = Some k \<longrightarrow> f (pc j) = Some k \<longrightarrow> i = j)"

definition holder :: "('p \<Rightarrow> 'k option) \<Rightarrow> (nat \<Rightarrow> 'p) \<Rightarrow> 'k \<Rightarrow> bool" where
  "holder f pc k \<longleftrightarrow> (\<exists>i. f (pc i) = Some k)"

lemma unshared_move:
  assumes "unshared f pc" and "\<And>k. f p = Some k \<Longrightarrow> f (pc i) = Some k \<or> \<not> holder f pc k"
  shows "unshared f (pc(i := p))"
  unfolding unshared_def
proof (intro allI impI)
  fix a b k assume "f ((pc(i := p)) a) = Some k" "f ((pc(i := p)) b) = Some k"
  then show "a = b" using assms unfolding unshared_def holder_def
    by (cases "a = i"; cases "b = i") (fastforce+)
qed

lemma holder_new: "f p = Some k \<Longrightarrow> holder f (pc(i := p)) k"
  unfolding holder_def by (rule exI [of _ i]) simp

lemma holder_move:
  assumes "holder f pc k" and "f (pc i) = Some k \<Longrightarrow> f p = Some k"
  shows "holder f (pc(i := p)) k"
proof -
  obtain j where "f (pc j) = Some k" using assms(1) by (auto simp: holder_def)
  then show ?thesis using assms(2) unfolding holder_def by (intro exI [of _ j]) auto
qed

lemma holder_upd:
  assumes "unshared f pc"
  shows "holder f (pc(i := p)) k \<longleftrightarrow> f p = Some k \<or> holder f pc k \<and> f (pc i) \<noteq> Some k"
proof
  assume "holder f (pc(i := p)) k"
  then obtain j where j: "f ((pc(i := p)) j) = Some k" by (auto simp: holder_def)
  then show "f p = Some k \<or> holder f pc k \<and> f (pc i) \<noteq> Some k"
    using assms unfolding unshared_def holder_def by (cases "j = i") auto
next
  assume "f p = Some k \<or> holder f pc k \<and> f (pc i) \<noteq> Some k"
  then show "holder f (pc(i := p)) k" by (auto intro: holder_new holder_move)
qed

lemma holder_at: "f (pc i) = Some k \<Longrightarrow> holder f pc k"
  by (auto simp: holder_def)

lemma holder_same:
  assumes "unshared f pc" and "f p = f (pc i)"
  shows "holder f (pc(i := p)) = holder f pc"
proof
  fix k show "holder f (pc(i := p)) k = holder f pc k"
    using holder_upd [OF assms(1), of i p k] assms(2) holder_at [of f pc i k] by auto
qed

end
