(* ===== verification/RingBuffer.thy ===== *)
theory RingBuffer
  imports Prelude
begin

text \<open>
  The bounded queue of \<^verbatim>\<open>include/lib/ring_buffer.h\<close>, run by one thread at a time: two 64-bit
  counters, a sequence number per slot and the slots. A ring buffer and its arrays are one record,
  so the NULL test on the buffer pointer has no counterpart; the element pointer is an option.
  The spinning operations return \<open>None\<close> when the slot they wait for is not ready, because no
  other thread will change it. The concurrent behaviour is the subject of theory
  \<^theory_text>\<open>RingBufferMPMC\<close>.
\<close>

section \<open>State and operations\<close>

record 'e ring_buffer =
  rb_head :: u64
  rb_tail :: u64
  rb_seq :: "u64 list"
  rb_buf_size :: u64
  rb_buf_elem_size :: u64
  rb_buffer :: "'e list"

definition EINVAL :: int where "EINVAL = 22"
definition ENOSPC :: int where "ENOSPC = 28"
definition EAGAIN :: int where "EAGAIN = 11"

definition slot :: "'e ring_buffer \<Rightarrow> u64 \<Rightarrow> nat option" where
  "slot rb t = (if rb_buf_size rb = 0 then None else Some (unat (t mod rb_buf_size rb)))"

definition seq_at :: "'e ring_buffer \<Rightarrow> u64 \<Rightarrow> u64 option" where
  "seq_at rb t = do { i \<leftarrow> slot rb t; idx (rb_seq rb) i }"

definition set_seq :: "u64 \<Rightarrow> u64 \<Rightarrow> 'e ring_buffer \<Rightarrow> 'e ring_buffer option" where
  "set_seq t v rb = do {
     i \<leftarrow> slot rb t;
     s \<leftarrow> upd_idx (rb_seq rb) i v;
     Some (rb\<lparr>rb_seq := s\<rparr>) }"

definition copy_in :: "u64 \<Rightarrow> 'e \<Rightarrow> 'e ring_buffer \<Rightarrow> 'e ring_buffer option" where
  "copy_in t e rb = do {
     i \<leftarrow> slot rb t;
     b \<leftarrow> upd_idx (rb_buffer rb) i e;
     Some (rb\<lparr>rb_buffer := b\<rparr>) }"

definition copy_out :: "u64 \<Rightarrow> 'e ring_buffer \<Rightarrow> 'e option" where
  "copy_out t rb = do { i \<leftarrow> slot rb t; idx (rb_buffer rb) i }"

definition ring_buffer_init ::
  "'e ring_buffer \<Rightarrow> u64 \<Rightarrow> 'e list \<Rightarrow> u64 list \<Rightarrow> u64 \<Rightarrow> (int \<times> 'e ring_buffer) option" where
  "ring_buffer_init rb sz buffer seq elem_size =
     (if sz < 3 then Some (- EINVAL, rb)
      else do {
        s \<leftarrow> foldM (\<lambda>i s. upd_idx s i (of_nat i)) [0..<unat sz] seq;
        Some (0, rb\<lparr>rb_buf_size := sz, rb_buffer := buffer, rb_buf_elem_size := elem_size,
                    rb_seq := s, rb_head := 0, rb_tail := 0\<rparr>) })"

definition ring_buffer_try_enqueue ::
  "'e option \<Rightarrow> 'e ring_buffer \<Rightarrow> (int \<times> 'e ring_buffer) option" where
  "ring_buffer_try_enqueue elem rb =
     (case elem of None \<Rightarrow> Some (- EINVAL, rb)
      | Some e \<Rightarrow> do {
          let tail = rb_tail rb;
          s \<leftarrow> seq_at rb tail;
          if s \<noteq> tail then Some (- ENOSPC, rb)
          else if rb_tail rb \<noteq> tail then Some (- EAGAIN, rb)
          else do {
            let rb = rb\<lparr>rb_tail := tail + 1\<rparr>;
            rb \<leftarrow> copy_in tail e rb;
            rb \<leftarrow> set_seq tail (tail + 1) rb;
            Some (0, rb) } })"

definition ring_buffer_enqueue :: "'e \<Rightarrow> 'e ring_buffer \<Rightarrow> (int \<times> 'e ring_buffer) option" where
  "ring_buffer_enqueue e rb = do {
     let tail = rb_tail rb;
     let rb = rb\<lparr>rb_tail := tail + 1\<rparr>;
     s \<leftarrow> seq_at rb tail;
     if s \<noteq> tail then None
     else do {
       rb \<leftarrow> copy_in tail e rb;
       rb \<leftarrow> set_seq tail (tail + 1) rb;
       Some (0, rb) } }"

text \<open>The dequeue operations take the element the out parameter points to and return its value.\<close>

definition ring_buffer_try_dequeue ::
  "'e option \<Rightarrow> 'e ring_buffer \<Rightarrow> (int \<times> 'e option \<times> 'e ring_buffer) option" where
  "ring_buffer_try_dequeue elem rb =
     (case elem of None \<Rightarrow> Some (- EINVAL, elem, rb)
      | Some e \<Rightarrow> do {
          let head = rb_head rb;
          s \<leftarrow> seq_at rb head;
          if s \<noteq> head + 1 then Some (- EAGAIN, elem, rb)
          else if rb_head rb \<noteq> head then Some (- EAGAIN, elem, rb)
          else do {
            let rb = rb\<lparr>rb_head := head + 1\<rparr>;
            v \<leftarrow> copy_out head rb;
            rb \<leftarrow> set_seq head (head + rb_buf_size rb) rb;
            Some (0, Some v, rb) } })"

definition ring_buffer_dequeue :: "'e ring_buffer \<Rightarrow> (int \<times> 'e \<times> 'e ring_buffer) option" where
  "ring_buffer_dequeue rb = do {
     let head = rb_head rb;
     let rb = rb\<lparr>rb_head := head + 1\<rparr>;
     s \<leftarrow> seq_at rb head;
     if s \<noteq> head + 1 then None
     else do {
       v \<leftarrow> copy_out head rb;
       rb \<leftarrow> set_seq head (head + rb_buf_size rb) rb;
       Some (0, v, rb) } }"

definition ring_buffer_clear :: "'e ring_buffer \<Rightarrow> 'e ring_buffer option" where
  "ring_buffer_clear rb = do {
     let head = rb_head rb;
     let tail = rb_tail rb;
     rb \<leftarrow> foldM (\<lambda>i rb. set_seq (of_nat i) (of_nat i + rb_buf_size rb) rb)
                [unat head..<unat tail] rb;
     Some (rb\<lparr>rb_head := tail\<rparr>) }"

text \<open>The elements \<^verbatim>\<open>ring_buffer_iter_read_unsafe\<close> visits, in its order.\<close>

definition ring_buffer_iter_read_unsafe :: "'e ring_buffer \<Rightarrow> 'e list option" where
  "ring_buffer_iter_read_unsafe rb =
     foldM (\<lambda>i xs. do { v \<leftarrow> copy_out (of_nat i) rb; Some (xs @ [v]) })
       [unat (rb_head rb)..<unat (rb_tail rb)] []"

section \<open>Invariant and contents\<close>

definition rb_contents :: "'e ring_buffer \<Rightarrow> 'e list" where
  "rb_contents rb = map (\<lambda>k. rb_buffer rb ! (k mod unat (rb_buf_size rb)))
     [unat (rb_head rb)..<unat (rb_tail rb)]"

text \<open>
  \<open>rb_inv b rb\<close>: the counters are at most the size apart, every slot between them holds the
  sequence number of a published element, every other slot that of a free one, and at least \<open>b\<close>
  more enqueues are possible before the 64-bit counters wrap.
\<close>

definition rb_inv :: "nat \<Rightarrow> 'e ring_buffer \<Rightarrow> bool" where
  "rb_inv b rb \<longleftrightarrow>
     (let n = unat (rb_buf_size rb); h = unat (rb_head rb); t = unat (rb_tail rb) in
      2 \<le> n \<and> length (rb_seq rb) = n \<and> length (rb_buffer rb) = n
      \<and> h \<le> t \<and> t \<le> h + n \<and> t + n + b < 2 ^ 64
      \<and> (\<forall>k\<in>{h..<t}. rb_seq rb ! (k mod n) = of_nat (k + 1))
      \<and> (\<forall>k\<in>{t..<h + n}. rb_seq rb ! (k mod n) = of_nat k))"

definition rb_room :: "'e ring_buffer \<Rightarrow> nat" where
  "rb_room rb = unat (rb_buf_size rb) - (unat (rb_tail rb) - unat (rb_head rb))"

subsection \<open>Arithmetic of slots\<close>

lemma window_inj:
  assumes "i < j" and "j < i + n"
  shows "i mod n \<noteq> j mod (n :: nat)"
proof
  assume "i mod n = j mod n"
  then have "n dvd j - i" using assms(1) by (metis less_imp_le mod_eq_dvd_iff_nat)
  with assms show False by (auto dest: dvd_imp_le)
qed

lemma window_neq:
  "h \<le> i \<Longrightarrow> i < h + n \<Longrightarrow> h \<le> j \<Longrightarrow> j < h + n \<Longrightarrow> i \<noteq> j \<Longrightarrow> i mod n \<noteq> j mod (n :: nat)"
  using window_inj [of i j n] window_inj [of j i n] by (cases "i < j") auto

lemma unat_of_nat_u64: "i < 2 ^ 64 \<Longrightarrow> unat (of_nat i :: u64) = i"
  by (simp add: of_nat_inverse)

lemma slot_nat:
  assumes "2 \<le> unat (rb_buf_size rb)"
  shows "slot rb t = Some (unat t mod unat (rb_buf_size rb))"
  using assms by (auto simp: slot_def unat_mod unat_eq_0)

lemma rb_invD:
  assumes "rb_inv b rb"
  shows "2 \<le> unat (rb_buf_size rb)" and "length (rb_seq rb) = unat (rb_buf_size rb)"
    and "length (rb_buffer rb) = unat (rb_buf_size rb)"
    and "unat (rb_head rb) \<le> unat (rb_tail rb)"
    and "unat (rb_tail rb) \<le> unat (rb_head rb) + unat (rb_buf_size rb)"
    and "unat (rb_tail rb) + unat (rb_buf_size rb) + b < 2 ^ 64"
    and "\<And>k. unat (rb_head rb) \<le> k \<Longrightarrow> k < unat (rb_tail rb) \<Longrightarrow>
           rb_seq rb ! (k mod unat (rb_buf_size rb)) = of_nat (k + 1)"
    and "\<And>k. unat (rb_tail rb) \<le> k \<Longrightarrow> k < unat (rb_head rb) + unat (rb_buf_size rb) \<Longrightarrow>
           rb_seq rb ! (k mod unat (rb_buf_size rb)) = of_nat k"
  using assms unfolding rb_inv_def Let_def by auto

lemma rb_inv_weaken: "rb_inv b rb \<Longrightarrow> c \<le> b \<Longrightarrow> rb_inv c rb"
  unfolding rb_inv_def Let_def by auto

lemma seq_at_tail:
  assumes "rb_inv b rb"
  shows "seq_at rb (rb_tail rb) =
           Some (if rb_room rb = 0 then of_nat (unat (rb_head rb) + 1) else rb_tail rb)"
proof -
  note I = rb_invD [OF assms]
  let ?n = "unat (rb_buf_size rb)" and ?t = "unat (rb_tail rb)" and ?h = "unat (rb_head rb)"
  have "seq_at rb (rb_tail rb) = Some (rb_seq rb ! (?t mod ?n))"
    using I(1,2) by (simp add: seq_at_def slot_nat idx_def)
  moreover have "rb_seq rb ! (?t mod ?n) = rb_tail rb" if "?t < ?h + ?n"
    using I(8) [of ?t] that by simp
  moreover have "rb_seq rb ! (?t mod ?n) = of_nat (?h + 1)" if "?t = ?h + ?n"
    using I(7) [of ?h] I(1) that by simp
  ultimately show ?thesis using I(4,5) by (cases "?t < ?h + ?n") (auto simp: rb_room_def)
qed

lemma seq_at_head:
  assumes "rb_inv b rb"
  shows "seq_at rb (rb_head rb) =
           Some (if rb_contents rb = [] then rb_head rb else rb_head rb + 1)"
proof -
  note I = rb_invD [OF assms]
  let ?n = "unat (rb_buf_size rb)" and ?t = "unat (rb_tail rb)" and ?h = "unat (rb_head rb)"
  have "seq_at rb (rb_head rb) = Some (rb_seq rb ! (?h mod ?n))"
    using I(1,2) by (simp add: seq_at_def slot_nat idx_def)
  moreover have "rb_seq rb ! (?h mod ?n) = rb_head rb" if "\<not> ?h < ?t"
    using I(8) [of ?h] I(1,4) that by simp
  moreover have "rb_seq rb ! (?h mod ?n) = rb_head rb + 1" if "?h < ?t"
    using I(7) [of ?h] that by simp
  ultimately show ?thesis using I(4) by (cases "?h < ?t") (auto simp: rb_contents_def)
qed

lemma head_full_neq_tail:
  assumes "rb_inv b rb" and "rb_room rb = 0"
  shows "of_nat (unat (rb_head rb) + 1) \<noteq> rb_tail rb"
proof
  note I = rb_invD [OF assms(1)]
  assume "of_nat (unat (rb_head rb) + 1) = rb_tail rb"
  then have "unat (of_nat (unat (rb_head rb) + 1) :: u64) = unat (rb_tail rb)" by simp
  moreover have "unat (rb_head rb) + 1 < 2 ^ 64" using I(1,4,6) by simp
  ultimately have "unat (rb_tail rb) = unat (rb_head rb) + 1" by (simp only: unat_of_nat_u64)
  with assms(2) I(1,4) show False by (simp add: rb_room_def)
qed

subsection \<open>Enqueue and dequeue on the contents\<close>

definition rb_push :: "'e \<Rightarrow> 'e ring_buffer \<Rightarrow> 'e ring_buffer" where
  "rb_push e rb =
     (let i = unat (rb_tail rb) mod unat (rb_buf_size rb) in
      rb\<lparr>rb_tail := rb_tail rb + 1, rb_buffer := (rb_buffer rb)[i := e],
         rb_seq := (rb_seq rb)[i := rb_tail rb + 1]\<rparr>)"

definition rb_pop :: "'e ring_buffer \<Rightarrow> 'e ring_buffer" where
  "rb_pop rb =
     (let i = unat (rb_head rb) mod unat (rb_buf_size rb) in
      rb\<lparr>rb_head := rb_head rb + 1,
         rb_seq := (rb_seq rb)[i := rb_head rb + rb_buf_size rb]\<rparr>)"

lemma rb_push:
  assumes "rb_inv (Suc b) rb" and "0 < rb_room rb"
  shows "rb_inv b (rb_push e rb)" and "rb_contents (rb_push e rb) = rb_contents rb @ [e]"
    and "rb_room rb = Suc (rb_room (rb_push e rb))"
    and "rb_buf_size (rb_push e rb) = rb_buf_size rb"
proof -
  note I = rb_invD [OF assms(1)]
  let ?n = "unat (rb_buf_size rb)" and ?t = "unat (rb_tail rb)" and ?h = "unat (rb_head rb)"
  have room: "?t < ?h + ?n" using assms(2) I(4) by (simp add: rb_room_def)
  have t1: "unat (rb_tail rb + 1) = ?t + 1" using I(6) by (simp add: unat_Suc_small)
  have tw: "of_nat (?t + 1) = rb_tail rb + 1" by simp
  have other: "?t mod ?n \<noteq> k mod ?n" if "?h \<le> k" "k < ?h + ?n" "k \<noteq> ?t" for k
    using that room I(4) by (intro window_neq [of ?h]) auto
  have "\<forall>k\<in>{?h..<?t + 1}. (rb_seq rb)[?t mod ?n := rb_tail rb + 1] ! (k mod ?n) = of_nat (k + 1)"
  proof
    fix k assume k: "k \<in> {?h..<?t + 1}"
    show "(rb_seq rb)[?t mod ?n := rb_tail rb + 1] ! (k mod ?n) = of_nat (k + 1)"
    proof (cases "k = ?t")
      case True
      then show ?thesis using I(1,2) tw by simp
    next
      case False
      with k room other [of k] I(7) [of k] show ?thesis by (simp add: nth_list_update)
    qed
  qed
  moreover have
    "\<forall>k\<in>{?t + 1..<?h + ?n}. (rb_seq rb)[?t mod ?n := rb_tail rb + 1] ! (k mod ?n) = of_nat k"
    using I(4,8) other by (simp add: nth_list_update)
  ultimately show "rb_inv b (rb_push e rb)"
    using I room unfolding rb_inv_def rb_push_def Let_def by (simp add: t1)
  have "map (\<lambda>k. (rb_buffer rb)[?t mod ?n := e] ! (k mod ?n)) [?h..<?t]
        = map (\<lambda>k. rb_buffer rb ! (k mod ?n)) [?h..<?t]"
    using other room by (simp add: nth_list_update)
  then show "rb_contents (rb_push e rb) = rb_contents rb @ [e]"
    using I(1,3,4) unfolding rb_contents_def rb_push_def Let_def by (simp add: t1)
  show "rb_room rb = Suc (rb_room (rb_push e rb))"
    using room I(4) by (simp add: rb_room_def rb_push_def Let_def t1)
qed (simp add: rb_push_def Let_def)

lemma rb_pop:
  assumes "rb_inv b rb" and "rb_contents rb \<noteq> []"
  shows "rb_inv b (rb_pop rb)" and "rb_contents (rb_pop rb) = tl (rb_contents rb)"
    and "rb_room (rb_pop rb) = Suc (rb_room rb)"
    and "hd (rb_contents rb) = rb_buffer rb ! (unat (rb_head rb) mod unat (rb_buf_size rb))"
proof -
  note I = rb_invD [OF assms(1)]
  let ?n = "unat (rb_buf_size rb)" and ?t = "unat (rb_tail rb)" and ?h = "unat (rb_head rb)"
  have ht: "?h < ?t" using assms(2) by (simp add: rb_contents_def)
  have h1: "unat (rb_head rb + 1) = ?h + 1" using I(6) ht by (simp add: unat_Suc_small)
  have hw: "of_nat (?h + ?n) = rb_head rb + rb_buf_size rb" by simp
  have "\<forall>k\<in>{?h + 1..<?t}.
          (rb_seq rb)[?h mod ?n := rb_head rb + rb_buf_size rb] ! (k mod ?n) = of_nat (k + 1)"
    using I(5,7) window_neq [of ?h ?h ?n] by (simp add: nth_list_update)
  moreover have "\<forall>k\<in>{?t..<?h + 1 + ?n}.
          (rb_seq rb)[?h mod ?n := rb_head rb + rb_buf_size rb] ! (k mod ?n) = of_nat k"
  proof
    fix k assume k: "k \<in> {?t..<?h + 1 + ?n}"
    show "(rb_seq rb)[?h mod ?n := rb_head rb + rb_buf_size rb] ! (k mod ?n) = of_nat k"
    proof (cases "k = ?h + ?n")
      case True
      then show ?thesis using I(1,2) hw by simp
    next
      case False
      with k ht have "?h mod ?n \<noteq> k mod ?n" by (intro window_neq [of ?h]) auto
      with k False I(8) [of k] show ?thesis by (simp add: nth_list_update)
    qed
  qed
  ultimately show "rb_inv b (rb_pop rb)"
    using I ht unfolding rb_inv_def rb_pop_def Let_def by (simp add: h1)
  show "rb_contents (rb_pop rb) = tl (rb_contents rb)"
    using ht unfolding rb_contents_def rb_pop_def Let_def by (simp add: h1 upt_conv_Cons)
  show "rb_room (rb_pop rb) = Suc (rb_room rb)"
    using I(4,5) ht by (simp add: rb_room_def rb_pop_def Let_def h1)
  show "hd (rb_contents rb) = rb_buffer rb ! (?h mod ?n)"
    using ht by (simp add: rb_contents_def upt_conv_Cons)
qed

lemma ring_buffer_enqueue_eq:
  assumes "rb_inv b rb"
  shows "ring_buffer_enqueue e rb = (if rb_room rb = 0 then None else Some (0, rb_push e rb))"
proof -
  note I = rb_invD [OF assms]
  let ?rb = "rb\<lparr>rb_tail := rb_tail rb + 1\<rparr>"
  have "seq_at ?rb (rb_tail rb) = seq_at rb (rb_tail rb)" by (simp add: seq_at_def slot_def)
  with seq_at_tail [OF assms] head_full_neq_tail [OF assms] I(1,2,3) show ?thesis
    by (auto simp: ring_buffer_enqueue_def Let_def copy_in_def set_seq_def slot_nat upd_idx_def
        rb_push_def)
qed

lemma ring_buffer_try_enqueue_eq:
  assumes "rb_inv b rb"
  shows "ring_buffer_try_enqueue (Some e) rb =
           Some (if rb_room rb = 0 then (- ENOSPC, rb) else (0, rb_push e rb))"
  using seq_at_tail [OF assms] head_full_neq_tail [OF assms] rb_invD [OF assms]
  by (auto simp: ring_buffer_try_enqueue_def Let_def copy_in_def set_seq_def slot_nat upd_idx_def
      rb_push_def)

lemma ring_buffer_try_dequeue_eq:
  assumes "rb_inv b rb"
  shows "ring_buffer_try_dequeue (Some e) rb =
           Some (if rb_contents rb = [] then (- EAGAIN, Some e, rb)
                 else (0, Some (hd (rb_contents rb)), rb_pop rb))"
  using seq_at_head [OF assms] rb_invD [OF assms] rb_pop(4) [OF assms]
  by (auto simp: ring_buffer_try_dequeue_def Let_def copy_out_def set_seq_def slot_nat upd_idx_def
      idx_def rb_pop_def)

lemma ring_buffer_dequeue_eq:
  assumes "rb_inv b rb"
  shows "ring_buffer_dequeue rb =
           (if rb_contents rb = [] then None else Some (0, hd (rb_contents rb), rb_pop rb))"
proof -
  let ?rb = "rb\<lparr>rb_head := rb_head rb + 1\<rparr>"
  have "seq_at ?rb (rb_head rb) = seq_at rb (rb_head rb)" by (simp add: seq_at_def slot_def)
  with seq_at_head [OF assms] rb_invD [OF assms] rb_pop(4) [OF assms] show ?thesis
    by (auto simp: ring_buffer_dequeue_def Let_def copy_out_def set_seq_def slot_nat upd_idx_def
        idx_def rb_pop_def)
qed

section \<open>Initialisation, clearing and iteration\<close>

lemma init_seq_loop:
  "m \<le> length seq \<Longrightarrow>
   foldM (\<lambda>i s. upd_idx s i (of_nat i)) [0..<m] seq = Some (map of_nat [0..<m] @ drop m seq)"
proof (induction m)
  case 0
  then show ?case by simp
next
  case (Suc m)
  then have "drop m seq = seq ! m # drop (Suc m) seq" by (simp add: Cons_nth_drop_Suc)
  with Suc show ?case by (simp add: foldM_append upd_idx_def list_update_append)
qed

lemma ring_buffer_init_ok:
  assumes "3 \<le> sz" and "length buffer = unat sz" and "length seq = unat sz"
    and "unat sz + b < 2 ^ 64"
  shows "\<exists>rb'. ring_buffer_init rb sz buffer seq es = Some (0, rb')
           \<and> rb_inv b rb' \<and> rb_contents rb' = [] \<and> rb_room rb' = unat sz
           \<and> rb_buf_size rb' = sz"
proof -
  have "3 \<le> unat sz" using assms(1) by (simp add: word_le_nat_alt)
  then show ?thesis using assms
    by (simp add: ring_buffer_init_def init_seq_loop rb_inv_def rb_contents_def rb_room_def
        not_less [symmetric])
qed

lemma clear_loop:
  assumes I: "rb_inv b rb" and "m \<le> unat (rb_tail rb) - unat (rb_head rb)"
  shows "\<exists>s. foldM (\<lambda>i rb. set_seq (of_nat i) (of_nat i + rb_buf_size rb) rb)
               [unat (rb_head rb)..<unat (rb_head rb) + m] rb = Some (rb\<lparr>rb_seq := s\<rparr>)
           \<and> length s = unat (rb_buf_size rb)
           \<and> (\<forall>k\<in>{unat (rb_head rb)..<unat (rb_head rb) + m}.
                s ! (k mod unat (rb_buf_size rb)) = of_nat (k + unat (rb_buf_size rb)))
           \<and> (\<forall>k\<in>{unat (rb_head rb) + m..<unat (rb_head rb) + unat (rb_buf_size rb)}.
                s ! (k mod unat (rb_buf_size rb)) = rb_seq rb ! (k mod unat (rb_buf_size rb)))"
  using assms(2)
proof (induction m)
  case 0
  have "rb\<lparr>rb_seq := rb_seq rb\<rparr> = rb" by simp
  then show ?case using rb_invD(2) [OF I] by (intro exI [of _ "rb_seq rb"]) simp
next
  case (Suc m)
  note D = rb_invD [OF I]
  let ?h = "unat (rb_head rb)" and ?n = "unat (rb_buf_size rb)"
  let ?f = "\<lambda>i rb. set_seq (of_nat i) (of_nat i + rb_buf_size rb) (rb :: 'a ring_buffer)"
  from Suc obtain s where s: "foldM ?f [?h..<?h + m] rb = Some (rb\<lparr>rb_seq := s\<rparr>)"
    and len: "length s = ?n"
    and lo: "\<And>k. ?h \<le> k \<Longrightarrow> k < ?h + m \<Longrightarrow> s ! (k mod ?n) = of_nat (k + ?n)"
    and hi: "\<And>k. ?h + m \<le> k \<Longrightarrow> k < ?h + ?n \<Longrightarrow> s ! (k mod ?n) = rb_seq rb ! (k mod ?n)"
    by auto
  let ?s = "s[(?h + m) mod ?n := of_nat (?h + m + ?n)]"
  have "?h + m < 2 ^ 64" using Suc.prems D(6) by simp
  then have u: "unat (of_nat (?h + m) :: u64) = ?h + m" by (rule unat_of_nat_u64)
  have "?f (?h + m) (rb\<lparr>rb_seq := s\<rparr>) = Some (rb\<lparr>rb_seq := ?s\<rparr>)"
    using D(1) len u by (simp add: set_seq_def slot_nat upd_idx_def del: of_nat_add) simp
  with s have "foldM ?f [?h..<?h + Suc m] rb = Some (rb\<lparr>rb_seq := ?s\<rparr>)"
    by (simp add: foldM_append)
  moreover have "?s ! (k mod ?n) = of_nat (k + ?n)" if "?h \<le> k" "k < ?h + Suc m" for k
  proof (cases "k = ?h + m")
    case True
    then show ?thesis using D(1) len by simp
  next
    case False
    have "(?h + m) mod ?n \<noteq> k mod ?n"
      using that False Suc.prems D(5) by (intro window_neq [of ?h]) auto
    then show ?thesis using that False lo [of k] by (simp add: nth_list_update)
  qed
  moreover have "?s ! (k mod ?n) = rb_seq rb ! (k mod ?n)"
    if "?h + Suc m \<le> k" "k < ?h + ?n" for k
  proof -
    have "(?h + m) mod ?n \<noteq> k mod ?n" using that by (intro window_neq [of ?h]) auto
    then show ?thesis using that hi [of k] by (simp add: nth_list_update)
  qed
  ultimately show ?case using len by (intro exI [of _ ?s]) auto
qed

lemma ring_buffer_clear_eq:
  assumes I: "rb_inv b rb"
  shows "\<exists>rb'. ring_buffer_clear rb = Some rb' \<and> rb_inv b rb' \<and> rb_contents rb' = []
           \<and> rb_room rb' = unat (rb_buf_size rb) \<and> rb_buf_size rb' = rb_buf_size rb"
proof -
  note D = rb_invD [OF I]
  let ?h = "unat (rb_head rb)" and ?n = "unat (rb_buf_size rb)" and ?t = "unat (rb_tail rb)"
  have ht: "?h + (?t - ?h) = ?t" using D(4) by simp
  from clear_loop [OF I order_refl, unfolded ht] obtain s where
    f: "foldM (\<lambda>i rb. set_seq (of_nat i) (of_nat i + rb_buf_size rb) rb) [?h..<?t] rb
          = Some (rb\<lparr>rb_seq := s\<rparr>)"
    and len: "length s = ?n"
    and lo: "\<And>k. ?h \<le> k \<Longrightarrow> k < ?t \<Longrightarrow> s ! (k mod ?n) = of_nat (k + ?n)"
    and hi: "\<And>k. ?t \<le> k \<Longrightarrow> k < ?h + ?n \<Longrightarrow> s ! (k mod ?n) = rb_seq rb ! (k mod ?n)"
    by auto
  have "s ! (k mod ?n) = of_nat k" if "?t \<le> k" "k < ?t + ?n" for k
  proof (cases "k < ?h + ?n")
    case True
    then show ?thesis using that hi D(8) by simp
  next
    case False
    then have "(k - ?n) mod ?n = k mod ?n" by (simp add: le_mod_geq)
    then show ?thesis using False that lo [of "k - ?n"] by simp
  qed
  with f len D show ?thesis
    by (simp add: ring_buffer_clear_def Let_def rb_inv_def rb_contents_def rb_room_def)
qed

lemma iter_read_loop:
  assumes "2 \<le> unat (rb_buf_size rb)" and "length (rb_buffer rb) = unat (rb_buf_size rb)"
    and "h + m < 2 ^ 64"
  shows "foldM (\<lambda>i xs. do { v \<leftarrow> copy_out (of_nat i) rb; Some (xs @ [v]) }) [h..<h + m] acc
         = Some (acc @ map (\<lambda>k. rb_buffer rb ! (k mod unat (rb_buf_size rb))) [h..<h + m])"
  using assms(3)
proof (induction m)
  case 0
  then show ?case by simp
next
  case (Suc m)
  then have "unat (of_nat (h + m) :: u64) = h + m" by (intro unat_of_nat_u64) simp
  with Suc assms(1,2) show ?case
    by (simp add: foldM_append copy_out_def slot_nat idx_def del: of_nat_add)
qed

lemma ring_buffer_iter_eq:
  assumes "rb_inv b rb"
  shows "ring_buffer_iter_read_unsafe rb = Some (rb_contents rb)"
  using rb_invD [OF assms]
    iter_read_loop [of rb "unat (rb_head rb)" "unat (rb_tail rb) - unat (rb_head rb)" "[]"]
  by (simp add: ring_buffer_iter_read_unsafe_def rb_contents_def)

section \<open>The queue interface\<close>

text \<open>
  What the IPC code, the migration code and the logger rely on: a bounded first-in first-out
  queue. \<open>put\<close> blocks (is \<open>None\<close>) when there is no room; \<open>get\<close> is \<open>None\<close> when there is nothing
  to take; \<open>ok b\<close> is the invariant with a budget of \<open>b\<close> further puts.
\<close>

locale fifo_queue =
  fixes contents :: "'q \<Rightarrow> 'e list" and room :: "'q \<Rightarrow> nat" and ok :: "nat \<Rightarrow> 'q \<Rightarrow> bool"
    and put :: "'e \<Rightarrow> 'q \<Rightarrow> 'q option" and get :: "'q \<Rightarrow> ('e \<times> 'q) option"
  assumes put_full: "ok b q \<Longrightarrow> room q = 0 \<Longrightarrow> put e q = None"
    and put_room: "ok (Suc b) q \<Longrightarrow> 0 < room q \<Longrightarrow>
      \<exists>q'. put e q = Some q' \<and> ok b q' \<and> contents q' = contents q @ [e] \<and> room q = Suc (room q')"
    and get_empty: "ok b q \<Longrightarrow> contents q = [] \<Longrightarrow> get q = None"
    and get_head: "ok b q \<Longrightarrow> contents q = x # xs \<Longrightarrow>
      \<exists>q'. get q = Some (x, q') \<and> ok b q' \<and> contents q' = xs \<and> room q' = Suc (room q)"
begin

lemma put_all:
  "ok (length es + b) q \<Longrightarrow> length es \<le> room q \<Longrightarrow>
   \<exists>q'. foldM put es q = Some q' \<and> ok b q' \<and> contents q' = contents q @ es
        \<and> room q = room q' + length es"
proof (induction es arbitrary: q)
  case Nil
  then show ?case by simp
next
  case (Cons e es)
  then obtain q1 where q1: "put e q = Some q1" "ok (length es + b) q1"
    "contents q1 = contents q @ [e]" "room q = Suc (room q1)"
    using put_room [of "length es + b" q e] by auto
  with Cons.IH [of q1] Cons.prems show ?case by auto
qed

lemma put_all_blocks:
  "ok (length es + b) q \<Longrightarrow> room q < length es \<Longrightarrow> foldM put es q = None"
proof (induction es arbitrary: q)
  case Nil
  then show ?case by simp
next
  case (Cons e es)
  show ?case
  proof (cases "room q = 0")
    case True
    then show ?thesis using put_full Cons.prems by simp
  next
    case False
    then obtain q1 where "put e q = Some q1" "ok (length es + b) q1" "room q = Suc (room q1)"
      using put_room [of "length es + b" q e] Cons.prems by auto
    with Cons show ?thesis by simp
  qed
qed

text \<open>
  A loop that takes elements until the queue is empty and runs a body on each is the fold of the
  body over the contents.
\<close>

lemma drain:
  assumes loop: "\<And>q s. loop q s = (case get q of None \<Rightarrow> Some (q, s)
      | Some (e, q') \<Rightarrow> Option.bind (body e s) (loop q'))"
    and "ok b q"
  shows "\<exists>q'. ok b q' \<and> contents q' = [] \<and>
           loop q s = Option.bind (foldM body (contents q) s) (\<lambda>s'. Some (q', s'))"
  using assms(2)
proof (induction "contents q" arbitrary: q s)
  case Nil
  then show ?case by (subst loop) (auto simp: get_empty)
next
  case (Cons x xs)
  then obtain q1 where q1: "get q = Some (x, q1)" "ok b q1" "contents q1 = xs"
    using get_head [of b q x xs] by auto
  then have l: "loop q s = Option.bind (body x s) (loop q1)" by (subst loop) simp
  from q1 have "xs = contents q1" by simp
  note IH = Cons(1) [OF this q1(2)]
  show ?case
  proof (cases "body x s")
    case None
    with IH l Cons(2) show ?thesis by (metis bind.bind_lzero foldM.simps(2))
  next
    case (Some s1)
    with IH [of s1] l Cons(2) q1 show ?thesis by (metis bind.bind_lunit foldM.simps(2))
  qed
qed

end

definition rb_put :: "'e \<Rightarrow> 'e ring_buffer \<Rightarrow> 'e ring_buffer option" where
  "rb_put e rb = map_option snd (ring_buffer_enqueue e rb)"

definition rb_get :: "'e \<Rightarrow> 'e ring_buffer \<Rightarrow> ('e \<times> 'e ring_buffer) option" where
  "rb_get e0 rb =
     (case ring_buffer_try_dequeue (Some e0) rb of
        Some (r, Some v, rb') \<Rightarrow> if r = 0 then Some (v, rb') else None
      | _ \<Rightarrow> None)"

interpretation rbq: fifo_queue rb_contents rb_room rb_inv rb_put "rb_get e0" for e0
proof unfold_locales
  fix b and q :: "'a ring_buffer" and e
  show "rb_inv b q \<Longrightarrow> rb_room q = 0 \<Longrightarrow> rb_put e q = None"
    by (simp add: rb_put_def ring_buffer_enqueue_eq)
  show "\<exists>q'. rb_put e q = Some q' \<and> rb_inv b q' \<and> rb_contents q' = rb_contents q @ [e]
            \<and> rb_room q = Suc (rb_room q')" if "rb_inv (Suc b) q" "0 < rb_room q"
    using rb_push [OF that, of e] ring_buffer_enqueue_eq [OF that(1), of e] that(2)
    by (simp add: rb_put_def)
  show "rb_get e0 q = None" if "rb_inv b q" "rb_contents q = []"
    using that by (simp add: rb_get_def ring_buffer_try_dequeue_eq EAGAIN_def)
  show "\<exists>q'. rb_get e0 q = Some (x, q') \<and> rb_inv b q' \<and> rb_contents q' = xs
            \<and> rb_room q' = Suc (rb_room q)" if "rb_inv b q" "rb_contents q = x # xs" for x xs
    using rb_pop [of b q] that by (simp add: rb_get_def ring_buffer_try_dequeue_eq)
qed

section \<open>Queues with a lifetime budget\<close>

text \<open>
  \<open>rb_live n b rb\<close>: a well-formed queue of \<open>n\<close> slots that can hold or still accept \<open>b\<close> elements in
  total before its counters wrap. Putting an element keeps the budget, taking one costs one.
\<close>

definition rb_live :: "nat \<Rightarrow> nat \<Rightarrow> 'e ring_buffer \<Rightarrow> bool" where
  "rb_live n b rb \<longleftrightarrow> unat (rb_buf_size rb) = n \<and> n \<le> b
     \<and> (\<exists>a. rb_inv a rb \<and> b \<le> a + length (rb_contents rb))"

lemma rb_room_length:
  "rb_inv a rb \<Longrightarrow> rb_room rb + length (rb_contents rb) = unat (rb_buf_size rb)"
  by (drule rb_invD) (simp add: rb_room_def rb_contents_def)

lemma rb_live_length: "rb_live n b rb \<Longrightarrow> rb_room rb + length (rb_contents rb) = n"
  by (auto simp: rb_live_def rb_room_length)

lemma rb_live_put:
  assumes "rb_live n b rb"
  shows "ring_buffer_enqueue e rb = (if rb_room rb = 0 then None else Some (0, rb_push e rb))"
    and "0 < rb_room rb \<Longrightarrow> rb_live n b (rb_push e rb)"
    and "0 < rb_room rb \<Longrightarrow> rb_contents (rb_push e rb) = rb_contents rb @ [e]"
proof -
  from assms obtain a where a: "rb_inv a rb" "b \<le> a + length (rb_contents rb)"
    and n: "unat (rb_buf_size rb) = n" "n \<le> b" by (auto simp: rb_live_def)
  show "ring_buffer_enqueue e rb = (if rb_room rb = 0 then None else Some (0, rb_push e rb))"
    using a(1) by (rule ring_buffer_enqueue_eq)
  assume r: "0 < rb_room rb"
  then have "0 < a" using rb_room_length [OF a(1)] a(2) n by simp
  then obtain a' where a': "a = Suc a'" by (cases a) auto
  note P = rb_push [OF a(1) [unfolded a'] r, of e]
  show "rb_contents (rb_push e rb) = rb_contents rb @ [e]" by (rule P(2))
  then show "rb_live n b (rb_push e rb)" unfolding rb_live_def
    using P(1,4) a(2) a' n by (intro conjI exI [of _ a']) simp_all
qed

lemma rb_live_take:
  assumes "rb_live n b rb"
  shows "ring_buffer_try_dequeue (Some e) rb =
           Some (if rb_contents rb = [] then (- EAGAIN, Some e, rb)
                 else (0, Some (hd (rb_contents rb)), rb_pop rb))"
    and "rb_contents rb \<noteq> [] \<Longrightarrow> n < b \<Longrightarrow> rb_live n (b - 1) (rb_pop rb)"
    and "rb_contents rb \<noteq> [] \<Longrightarrow> rb_contents (rb_pop rb) = tl (rb_contents rb)"
proof -
  from assms obtain a where a: "rb_inv a rb" "b \<le> a + length (rb_contents rb)"
    and n: "unat (rb_buf_size rb) = n" by (auto simp: rb_live_def)
  show "ring_buffer_try_dequeue (Some e) rb =
           Some (if rb_contents rb = [] then (- EAGAIN, Some e, rb)
                 else (0, Some (hd (rb_contents rb)), rb_pop rb))"
    using a(1) by (rule ring_buffer_try_dequeue_eq)
  assume ne: "rb_contents rb \<noteq> []"
  note P = rb_pop [OF a(1) ne]
  show c: "rb_contents (rb_pop rb) = tl (rb_contents rb)" by (rule P(2))
  assume "n < b"
  then show "rb_live n (b - 1) (rb_pop rb)" unfolding rb_live_def
    using P(1) a(2) n c ne by (intro conjI exI [of _ a]) (auto simp: rb_pop_def Let_def)
qed

lemma rb_live_mono: "rb_live n b rb \<Longrightarrow> n \<le> c \<Longrightarrow> c \<le> b \<Longrightarrow> rb_live n c rb"
  by (auto simp: rb_live_def)

section \<open>Properties\<close>

text \<open>
  The contract: a bounded list, written as a machine that answers each call with a result code and
  the element handed out. \<open>rb_calls\<close> runs the code on a sequence of calls, \<open>fifo_calls\<close> the list.
\<close>

datatype 'e rb_call = TryEnqueue 'e | TryDequeue

fun rb_calls :: "'e \<Rightarrow> 'e rb_call list \<Rightarrow> 'e ring_buffer \<Rightarrow> ((int \<times> 'e option) list \<times> 'e ring_buffer) option"
where
  "rb_calls e0 [] rb = Some ([], rb)"
| "rb_calls e0 (TryEnqueue e # cs) rb = do {
     (r, rb) \<leftarrow> ring_buffer_try_enqueue (Some e) rb;
     (rs, rb) \<leftarrow> rb_calls e0 cs rb;
     Some ((r, None) # rs, rb) }"
| "rb_calls e0 (TryDequeue # cs) rb = do {
     (r, v, rb) \<leftarrow> ring_buffer_try_dequeue (Some e0) rb;
     (rs, rb) \<leftarrow> rb_calls e0 cs rb;
     Some ((r, v) # rs, rb) }"

fun fifo_calls :: "nat \<Rightarrow> 'e \<Rightarrow> 'e rb_call list \<Rightarrow> 'e list \<Rightarrow> (int \<times> 'e option) list \<times> 'e list" where
  "fifo_calls n e0 [] xs = ([], xs)"
| "fifo_calls n e0 (TryEnqueue e # cs) xs =
     (if length xs < n
      then (let (rs, ys) = fifo_calls n e0 cs (xs @ [e]) in ((0, None) # rs, ys))
      else (let (rs, ys) = fifo_calls n e0 cs xs in ((- ENOSPC, None) # rs, ys)))"
| "fifo_calls n e0 (TryDequeue # cs) xs =
     (case xs of
        [] \<Rightarrow> (let (rs, ys) = fifo_calls n e0 cs [] in ((- EAGAIN, Some e0) # rs, ys))
      | x # xs \<Rightarrow> (let (rs, ys) = fifo_calls n e0 cs xs in ((0, Some x) # rs, ys)))"

lemma rb_calls_refine:
  assumes "rb_inv (length cs + b) rb"
  shows "\<exists>rb'. rb_calls e0 cs rb
           = Some (fst (fifo_calls (unat (rb_buf_size rb)) e0 cs (rb_contents rb)), rb')
         \<and> rb_inv b rb'
         \<and> rb_contents rb' = snd (fifo_calls (unat (rb_buf_size rb)) e0 cs (rb_contents rb))"
  using assms
proof (induction cs arbitrary: rb)
  case Nil
  then show ?case by simp
next
  case (Cons c cs)
  have I: "rb_inv (Suc (length cs + b)) rb" using Cons.prems by simp
  have r: "rb_room rb + length (rb_contents rb) = unat (rb_buf_size rb)"
    by (rule rb_room_length [OF I])
  have W: "rb_inv (length cs + b) rb" by (rule rb_inv_weaken [OF I]) simp
  show ?case
  proof (cases c)
    case (TryEnqueue e)
    show ?thesis
    proof (cases "rb_room rb = 0")
      case True
      then show ?thesis using Cons.IH [OF W] r TryEnqueue ring_buffer_try_enqueue_eq [OF I, of e]
        by (auto simp: split: prod.splits)
    next
      case False
      then have "0 < rb_room rb" by simp
      note P = rb_push [OF I this, of e]
      show ?thesis using Cons.IH [OF P(1)] P r False TryEnqueue ring_buffer_try_enqueue_eq [OF I, of e]
        by (auto split: prod.splits)
    qed
  next
    case TryDequeue
    show ?thesis
    proof (cases "rb_contents rb")
      case Nil
      then show ?thesis using Cons.IH [OF W] TryDequeue ring_buffer_try_dequeue_eq [OF I, of e0]
        by (auto split: prod.splits)
    next
      case (Cons x xs)
      then have "rb_contents rb \<noteq> []" by simp
      note P = rb_pop [OF W this]
      have z: "rb_buf_size (rb_pop rb) = rb_buf_size rb" by (simp add: rb_pop_def Let_def)
      show ?thesis using Cons.IH [OF P(1)] P z Cons TryDequeue ring_buffer_try_dequeue_eq [OF I, of e0]
        by (auto split: prod.splits)
    qed
  qed
qed

text \<open>C9: refinement. Between initialisation with \<open>sz\<close> slots and \<open>b\<close> calls later, the ring buffer
  answers every sequence of \<^verbatim>\<open>ring_buffer_try_enqueue\<close> and \<^verbatim>\<open>ring_buffer_try_dequeue\<close> calls exactly as
  a list of at most \<open>sz\<close> elements: the same result codes, the elements in the order they came, none
  lost and none twice.\<close>

theorem ring_buffer_refines_fifo:
  assumes "3 \<le> sz" and "length buffer = unat sz" and "length seq = unat sz"
    and "unat sz + length cs < 2 ^ 64"
  shows "\<exists>rb0 rb'. ring_buffer_init rb sz buffer seq es = Some (0, rb0)
           \<and> rb_calls e0 cs rb0 = Some (fst (fifo_calls (unat sz) e0 cs []), rb')
           \<and> rb_contents rb' = snd (fifo_calls (unat sz) e0 cs [])"
proof -
  obtain rb0 where "ring_buffer_init rb sz buffer seq es = Some (0, rb0)"
    and "rb_inv (length cs + 0) rb0" and "rb_contents rb0 = []" and "rb_buf_size rb0 = sz"
    using ring_buffer_init_ok [OF assms(1-3), of "length cs"] assms(4) by fastforce
  then show ?thesis using rb_calls_refine [of cs 0 rb0 e0] by auto
qed

theorem ring_buffer_refines_fifo_witness:
  "\<exists>rb0 rb'. ring_buffer_init
       \<lparr>rb_head = 0, rb_tail = 0, rb_seq = [], rb_buf_size = 0, rb_buf_elem_size = 0, rb_buffer = []\<rparr>
       3 [0, 0, 0 :: nat] [0, 0, 0] 8 = Some (0, rb0)
     \<and> rb_calls 9 [TryDequeue, TryEnqueue 1, TryEnqueue 2, TryEnqueue 3, TryEnqueue 4, TryDequeue] rb0
        = Some ([(- EAGAIN, Some 9), (0, None), (0, None), (0, None), (- ENOSPC, None), (0, Some 1)], rb')
     \<and> rb_contents rb' = [2, 3]"
  using ring_buffer_refines_fifo [of 3 "[0, 0, 0 :: nat]" "[0, 0, 0]"
      "[TryDequeue, TryEnqueue 1, TryEnqueue 2, TryEnqueue 3, TryEnqueue 4, TryDequeue]"
      "\<lparr>rb_head = 0, rb_tail = 0, rb_seq = [], rb_buf_size = 0, rb_buf_elem_size = 0, rb_buffer = []\<rparr>"
      8 9]
  by simp

text \<open>The blocking operations are the non-blocking ones, except that they never
  return (\<open>None\<close>) where those report a full or an empty buffer.\<close>

theorem blocking_agrees_with_try:
  assumes "rb_inv b rb"
  shows "ring_buffer_enqueue e rb
           = (if rb_room rb = 0 then None else ring_buffer_try_enqueue (Some e) rb)
       \<and> ring_buffer_dequeue rb
           = (if rb_contents rb = [] then None
              else map_option (\<lambda>(r, v, rb). (r, the v, rb)) (ring_buffer_try_dequeue (Some e0) rb))"
  using ring_buffer_enqueue_eq [OF assms] ring_buffer_try_enqueue_eq [OF assms]
    ring_buffer_dequeue_eq [OF assms] ring_buffer_try_dequeue_eq [OF assms] by simp

text \<open>A buffer of three slots that holds the numbers 5 and 6.\<close>

definition rb_demo :: "nat ring_buffer" where
  "rb_demo = \<lparr>rb_head = 1, rb_tail = 3, rb_seq = [3, 2, 3], rb_buf_size = 3, rb_buf_elem_size = 8,
     rb_buffer = [0, 5, 6]\<rparr>"

lemma rb_demo_inv: "rb_inv 10 rb_demo" "rb_contents rb_demo = [5, 6]" "rb_room rb_demo = 1"
proof -
  have e: "{Suc 0..<3} = {1, 2}" "{3..<4 :: nat} = {3}" by auto
  show "rb_inv 10 rb_demo" by (simp add: rb_inv_def rb_demo_def e Let_def)
  show "rb_contents rb_demo = [5, 6]" by (simp add: rb_contents_def rb_demo_def upt_rec)
  show "rb_room rb_demo = 1" by (simp add: rb_room_def rb_demo_def)
qed

theorem blocking_agrees_with_try_witness:
  "ring_buffer_enqueue 7 rb_demo = ring_buffer_try_enqueue (Some 7) rb_demo
   \<and> ring_buffer_dequeue rb_demo
      = map_option (\<lambda>(r, v, rb). (r, the v, rb)) (ring_buffer_try_dequeue (Some 0) rb_demo)"
  using blocking_agrees_with_try [OF rb_demo_inv(1)] rb_demo_inv(2,3) by simp

text \<open>Clearing empties the buffer in one step and gives all its slots back, and
  the unsafe iteration visits the contents in order without changing them.\<close>

theorem clear_and_iterate:
  assumes "rb_inv b rb"
  shows "\<exists>rb'. ring_buffer_clear rb = Some rb' \<and> rb_inv b rb' \<and> rb_contents rb' = []
           \<and> rb_room rb' = unat (rb_buf_size rb)
           \<and> ring_buffer_iter_read_unsafe rb = Some (rb_contents rb)
           \<and> ring_buffer_iter_read_unsafe rb' = Some []"
proof -
  obtain rb' where R: "ring_buffer_clear rb = Some rb'" "rb_inv b rb'" "rb_contents rb' = []"
    "rb_room rb' = unat (rb_buf_size rb)" using ring_buffer_clear_eq [OF assms] by blast
  then show ?thesis using ring_buffer_iter_eq [OF assms] ring_buffer_iter_eq [OF R(2)] by simp
qed

theorem clear_and_iterate_witness:
  "\<exists>rb'. ring_buffer_clear rb_demo = Some rb' \<and> rb_contents rb' = [] \<and> rb_room rb' = 3
     \<and> ring_buffer_iter_read_unsafe rb_demo = Some [5, 6]"
proof -
  have "unat (rb_buf_size rb_demo) = 3" by (simp add: rb_demo_def)
  then show ?thesis using clear_and_iterate [OF rb_demo_inv(1)] rb_demo_inv(2) by auto
qed

end
