(* ===== verification/Barrier.thy ===== *)
theory Barrier
  imports RingBuffer
begin

text \<open>
  The reusable barrier of \<^verbatim>\<open>src/lib/barrier.c\<close>. The mutex makes the code of \<^verbatim>\<open>barrier_wait\<close> up to
  \<^verbatim>\<open>pthread_cond_wait\<close>, and the code from one wake-up to the next wait, atomic. The condition variable
  is the set of the threads that sleep on it: a thread in it takes no step of its own, the broadcast
  empties it, and a single thread may be woken at any time, as POSIX allows. The results of the other
  pthread calls are arguments of \<open>barrier_init\<close>.
\<close>

section \<open>The code\<close>

record barrier =
  b_count :: u64
  b_target :: u64
  b_cycle :: u64
  b_cond :: "nat set"

definition BARRIER_SERIAL_THREAD :: int where "BARRIER_SERIAL_THREAD = 1"
definition EBUSY :: int where "EBUSY = 16"

definition barrier_init ::
  "int \<Rightarrow> int \<Rightarrow> int \<Rightarrow> int \<Rightarrow> barrier \<Rightarrow> u32 \<Rightarrow> int \<Rightarrow> int \<times> barrier" where
  "barrier_init r_mattr r_cattr r_mut r_cond b n pshared =
     (let fail = (\<lambda>ret. (if ret = 0 then EAGAIN else ret, b)) in
      if n = 0 then (EINVAL, b)
      else if pshared \<noteq> 0 \<and> r_mattr \<noteq> 0 then fail r_mattr
      else if pshared \<noteq> 0 \<and> r_cattr \<noteq> 0 then fail r_cattr
      else if r_mut \<noteq> 0 then fail r_mut
      else if r_cond \<noteq> 0 then fail r_cond
      else (0, b\<lparr>b_target := ucast n, b_count := 0, b_cycle := 0, b_cond := {}\<rparr>))"

definition barrier_destroy :: "barrier \<Rightarrow> int" where
  "barrier_destroy b = (if b_count b \<noteq> 0 then EBUSY else 0)"

text \<open>
  The part of \<^verbatim>\<open>barrier_wait\<close> up to the wait loop: the value of \<^verbatim>\<open>unsigned cur_cycle\<close>, whether the
  call returns at once with \<open>BARRIER_SERIAL_THREAD\<close>, and the barrier it leaves, the broadcast
  included. Then the loop condition (\<^verbatim>\<open>cur_cycle\<close> has 32 bits and is widened for the comparison), and
  one round of the loop by thread \<open>p\<close>: it leaves the loop, or goes to sleep.
\<close>

definition barrier_arrive :: "barrier \<Rightarrow> u32 \<times> bool \<times> barrier" where
  "barrier_arrive b =
     (let cur_cycle = ucast (b_cycle b); b = b\<lparr>b_count := b_count b + 1\<rparr>
      in if b_count b = b_target b
         then (cur_cycle, True, b\<lparr>b_cycle := b_cycle b + 1, b_count := 0, b_cond := {}\<rparr>)
         else (cur_cycle, False, b))"

definition barrier_must_wait :: "u32 \<Rightarrow> barrier \<Rightarrow> bool" where
  "barrier_must_wait cur_cycle b \<longleftrightarrow> ucast cur_cycle = b_cycle b"

definition barrier_loop :: "nat \<Rightarrow> u32 \<Rightarrow> barrier \<Rightarrow> bool \<times> barrier" where
  "barrier_loop p cur_cycle b =
     (if barrier_must_wait cur_cycle b
      then (False, b\<lparr>b_cond := insert p (b_cond b)\<rparr>) else (True, b))"

section \<open>Threads at a barrier\<close>

text \<open>
  \<open>N\<close> threads call \<^verbatim>\<open>barrier_wait\<close> again and again. \<open>entered\<close> and \<open>left\<close> count the calls a
  thread has begun and finished, \<open>serials\<close> the calls that returned \<open>BARRIER_SERIAL_THREAD\<close>;
  they are not part of the code. The step \<open>pass\<close> is a call that finds the loop condition false at
  once; \<open>spurious\<close> is a wake-up without a broadcast.
\<close>

datatype bpc = Outside | Waiting u32

record bsys =
  bar :: barrier
  bpcs :: "nat \<Rightarrow> bpc"
  entered :: "nat \<Rightarrow> nat"
  left :: "nat \<Rightarrow> nat"
  serials :: nat

definition binit_state :: "nat \<Rightarrow> bsys" where
  "binit_state N =
     \<lparr>bar = snd (barrier_init 0 0 0 0 \<lparr>b_count = 0, b_target = 0, b_cycle = 0, b_cond = {}\<rparr>
                (of_nat N) 0),
      bpcs = (\<lambda>_. Outside), entered = (\<lambda>_. 0), left = (\<lambda>_. 0), serials = 0\<rparr>"

definition binit :: "nat \<Rightarrow> bsys \<Rightarrow> bool" where
  "binit N s \<longleftrightarrow> 0 < N \<and> N < 2 ^ 32 \<and> s = binit_state N"

inductive bstep :: "nat \<Rightarrow> bsys \<Rightarrow> bsys \<Rightarrow> bool" for N :: nat where
  serial: "p < N \<Longrightarrow> bpcs s p = Outside \<Longrightarrow> barrier_arrive (bar s) = (cur, True, b) \<Longrightarrow>
     bstep N s (s\<lparr>bar := b, entered := (entered s)(p := Suc (entered s p)),
                  left := (left s)(p := Suc (left s p)), serials := Suc (serials s)\<rparr>)"
| arrive: "p < N \<Longrightarrow> bpcs s p = Outside \<Longrightarrow> barrier_arrive (bar s) = (cur, False, b) \<Longrightarrow>
     barrier_loop p cur b = (False, b') \<Longrightarrow>
     bstep N s (s\<lparr>bar := b', bpcs := (bpcs s)(p := Waiting cur),
                  entered := (entered s)(p := Suc (entered s p))\<rparr>)"
| pass: "p < N \<Longrightarrow> bpcs s p = Outside \<Longrightarrow> barrier_arrive (bar s) = (cur, False, b) \<Longrightarrow>
     barrier_loop p cur b = (True, b') \<Longrightarrow>
     bstep N s (s\<lparr>bar := b', entered := (entered s)(p := Suc (entered s p)),
                  left := (left s)(p := Suc (left s p))\<rparr>)"
| leave: "p < N \<Longrightarrow> bpcs s p = Waiting cur \<Longrightarrow> p \<notin> b_cond (bar s) \<Longrightarrow>
     barrier_loop p cur (bar s) = (True, b) \<Longrightarrow>
     bstep N s (s\<lparr>bar := b, bpcs := (bpcs s)(p := Outside), left := (left s)(p := Suc (left s p))\<rparr>)"
| wait_again: "p < N \<Longrightarrow> bpcs s p = Waiting cur \<Longrightarrow> p \<notin> b_cond (bar s) \<Longrightarrow>
     barrier_loop p cur (bar s) = (False, b) \<Longrightarrow> bstep N s (s\<lparr>bar := b\<rparr>)"
| spurious: "p < N \<Longrightarrow> p \<in> b_cond (bar s) \<Longrightarrow>
     bstep N s (s\<lparr>bar := (bar s)\<lparr>b_cond := b_cond (bar s) - {p}\<rparr>\<rparr>)"

abbreviation breach :: "nat \<Rightarrow> bsys \<Rightarrow> bool" where
  "breach N \<equiv> reachable (binit N) (bstep N)"

section \<open>The invariant\<close>

text \<open>
  As long as fewer than \<open>2 ^ 32\<close> cycles are complete: with \<open>c\<close> cycles complete, a thread outside
  has entered \<open>c\<close> times; a waiting thread either belongs to the current cycle or was released
  by the last one and has not run yet; only threads of the current cycle sleep; \<^verbatim>\<open>count\<close> is the
  number of threads of the current cycle.
\<close>

definition thread_ok :: "bsys \<Rightarrow> nat \<Rightarrow> bool" where
  "thread_ok s p \<longleftrightarrow>
     (case bpcs s p of
        Outside \<Rightarrow> entered s p = serials s \<and> left s p = serials s
      | Waiting cur \<Rightarrow>
          entered s p = Suc (left s p) \<and> unat cur = left s p
          \<and> (left s p = serials s \<or> Suc (left s p) = serials s \<and> p \<notin> b_cond (bar s)))"

text \<open>The threads that have entered the current cycle.\<close>

definition current :: "nat \<Rightarrow> bsys \<Rightarrow> nat set" where
  "current N s = {p. p < N \<and> entered s p = Suc (serials s)}"

definition binv :: "nat \<Rightarrow> bsys \<Rightarrow> bool" where
  "binv N s \<longleftrightarrow> 0 < N \<and> N < 2 ^ 32 \<and> b_target (bar s) = of_nat N
     \<and> b_cycle (bar s) = of_nat (serials s)
     \<and> (serials s < 2 ^ 32 \<longrightarrow>
          (\<forall>p<N. thread_ok s p)
          \<and> unat (b_count (bar s)) = card (current N s)
          \<and> unat (b_count (bar s)) < N)"

lemma binvI:
  assumes "0 < N" and "N < 2 ^ 32" and "b_target (bar s) = of_nat N"
    and "b_cycle (bar s) = of_nat (serials s)"
    and "serials s < 2 ^ 32 \<Longrightarrow> (\<forall>p<N. thread_ok s p)
      \<and> unat (b_count (bar s)) = card (current N s) \<and> unat (b_count (bar s)) < N"
  shows "binv N s"
  using assms unfolding binv_def by blast

lemma binvD:
  assumes "binv N s"
  shows "0 < N" and "N < 2 ^ 32" and "b_target (bar s) = of_nat N"
    and "b_cycle (bar s) = of_nat (serials s)"
    and "serials s < 2 ^ 32 \<Longrightarrow> p < N \<Longrightarrow> thread_ok s p"
    and "serials s < 2 ^ 32 \<Longrightarrow> unat (b_count (bar s)) = card (current N s)"
    and "serials s < 2 ^ 32 \<Longrightarrow> unat (b_count (bar s)) < N"
  using assms unfolding binv_def by blast+

lemma barrier_init_fields:
  assumes "0 < N" and "N < 2 ^ 32"
  shows "barrier_init 0 0 0 0 b (of_nat N) 0
         = (0, b\<lparr>b_target := of_nat N, b_count := 0, b_cycle := 0, b_cond := {}\<rparr>)"
proof -
  have t: "take_bit 32 N = N" "take_bit 64 N = N"
    using assms by (simp_all add: take_bit_nat_eq_self_iff)
  then have "unat (of_nat N :: u32) = N" by (simp add: unsigned_of_nat)
  with assms(1) have "(of_nat N :: u32) \<noteq> 0" by (metis unat_0 not_gr_zero)
  moreover have "ucast (of_nat N :: u32) = (of_nat N :: u64)"
    using t by (simp add: word_eq_iff_unat unsigned_ucast_eq unsigned_of_nat)
  ultimately show ?thesis by (simp add: barrier_init_def)
qed

lemma binit_binv: "binit N s \<Longrightarrow> binv N s"
  by (auto simp: binit_def binit_state_def barrier_init_fields binv_def thread_ok_def current_def)

subsection \<open>One step\<close>

lemma low_word_of_count: "c < 2 ^ 32 \<Longrightarrow> unat (ucast (of_nat c :: u64) :: u32) = c"
  by (simp add: unsigned_ucast_eq unsigned_of_nat take_bit_nat_eq_self_iff take_bit_take_bit)

lemma must_wait_iff:
  assumes "c < 2 ^ 32"
  shows "ucast cur = (of_nat c :: u64) \<longleftrightarrow> unat (cur :: u32) = c"
proof -
  have "unat (of_nat c :: u64) = c"
    using assms by (simp add: unsigned_of_nat take_bit_nat_eq_self_iff)
  then show ?thesis by (simp add: word_eq_iff_unat)
qed

lemma arrive_fields:
  assumes "barrier_arrive b = (cur, ser, b')"
  shows "cur = ucast (b_cycle b)" and "b_target b' = b_target b"
    and "ser \<longleftrightarrow> b_count b + 1 = b_target b"
    and "ser \<Longrightarrow> b_cycle b' = b_cycle b + 1 \<and> b_count b' = 0 \<and> b_cond b' = {}"
    and "\<not> ser \<Longrightarrow> b_cycle b' = b_cycle b \<and> b_count b' = b_count b + 1 \<and> b_cond b' = b_cond b"
  using assms by (auto simp: barrier_arrive_def Let_def split: if_splits)

lemma loop_fields:
  assumes "barrier_loop p cur b = (out, b')"
  shows "out \<longleftrightarrow> \<not> barrier_must_wait cur b" and "b_target b' = b_target b"
    and "b_cycle b' = b_cycle b" and "b_count b' = b_count b"
    and "b_cond b' = (if out then b_cond b else insert p (b_cond b))"
  using assms by (auto simp: barrier_loop_def split: if_splits)

lemma current_finite [simp]: "finite (current N s)"
  by (simp add: current_def)

lemma current_subset: "current N s \<subseteq> {..<N}"
  by (auto simp: current_def)

lemma outside_entered:
  "binv N s \<Longrightarrow> serials s < 2 ^ 32 \<Longrightarrow> p < N \<Longrightarrow> bpcs s p = Outside \<Longrightarrow>
   entered s p = serials s \<and> left s p = serials s"
  unfolding binv_def thread_ok_def by (auto split: bpc.splits)

lemma count_after_arrival:
  assumes "binv N s" and "serials s < 2 ^ 32" and "p < N" and "bpcs s p = Outside"
  shows "b_count (bar s) + 1 = b_target (bar s) \<longleftrightarrow> insert p (current N s) = {..<N}"
    and "unat (b_count (bar s) + 1) = card (insert p (current N s))"
proof -
  have p: "p \<notin> current N s" using outside_entered [OF assms] by (simp add: current_def)
  have c: "unat (b_count (bar s)) = card (current N s)" and N: "N < 2 ^ 32"
    and t: "b_target (bar s) = of_nat N"
    using binvD [OF assms(1)] assms(2) by auto
  have sub: "insert p (current N s) \<subseteq> {..<N}" using current_subset assms(3) by auto
  then have le: "card (insert p (current N s)) \<le> N" using card_mono [of "{..<N}"] by fastforce
  show u: "unat (b_count (bar s) + 1) = card (insert p (current N s))"
    using p c le N by (simp add: unat_Suc_small)
  have "unat (of_nat N :: u64) = N"
    using N by (simp add: unsigned_of_nat take_bit_nat_eq_self_iff)
  then have "b_count (bar s) + 1 = b_target (bar s) \<longleftrightarrow> card (insert p (current N s)) = N"
    by (simp add: word_eq_iff_unat u t del: card_insert_disjoint)
  also have "\<dots> \<longleftrightarrow> insert p (current N s) = {..<N}"
    using sub card_subset_eq [of "{..<N}" "insert p (current N s)"] by fastforce
  finally show "b_count (bar s) + 1 = b_target (bar s) \<longleftrightarrow> insert p (current N s) = {..<N}" .
qed

text \<open>Each kind of step keeps the part of the invariant about the threads.\<close>

lemma thread_ok_other:
  "bpcs s' q = bpcs s q \<Longrightarrow> entered s' q = entered s q \<Longrightarrow> left s' q = left s q \<Longrightarrow>
   serials s' = serials s \<Longrightarrow> (q \<in> b_cond (bar s') \<Longrightarrow> q \<in> b_cond (bar s)) \<Longrightarrow>
   thread_ok s q \<Longrightarrow> thread_ok s' q"
  by (auto simp: thread_ok_def split: bpc.splits)

lemma binv_serial:
  assumes I: "binv N s" and p: "p < N" "bpcs s p = Outside"
    and a: "barrier_arrive (bar s) = (cur, True, b)"
  shows "binv N (s\<lparr>bar := b, entered := (entered s)(p := Suc (entered s p)),
                  left := (left s)(p := Suc (left s p)), serials := Suc (serials s)\<rparr>)"
    (is "binv N ?t")
proof -
  note f = arrive_fields [OF a]
  have "b_target b = of_nat N" and "b_cycle b = of_nat (Suc (serials s))" and "b_count b = 0"
    and z: "b_cond b = {}"
    using I f by (simp_all add: binv_def)
  moreover have "(\<forall>q<N. thread_ok ?t q) \<and> current N ?t = {}"
    if c: "Suc (serials s) < 2 ^ 32"
  proof -
    have c': "serials s < 2 ^ 32" using c by simp
    have "insert p (current N s) = {..<N}" using count_after_arrival(1) [OF I c' p] f(3) by simp
    then have all: "entered s q = Suc (serials s)" if "q < N" "q \<noteq> p" for q
      using that by (auto simp: current_def)
    have e: "entered s p = serials s \<and> left s p = serials s" by (rule outside_entered [OF I c' p])
    have "thread_ok ?t q" if q: "q < N" for q
    proof (cases "q = p")
      case True
      with e p show ?thesis by (simp add: thread_ok_def)
    next
      case False
      with I c' q z all [OF q False] show ?thesis
        by (auto simp: binv_def thread_ok_def split: bpc.splits)
    qed
    moreover have "entered ?t q \<noteq> Suc (serials ?t)" if "q < N" for q
      using all [OF that] e by (cases "q = p") auto
    ultimately show ?thesis unfolding current_def by blast
  qed
  ultimately show ?thesis using binvD(1,2) [OF I] by (intro binvI) simp_all
qed

lemma must_wait_now:
  assumes I: "binv N s" and c: "serials s < 2 ^ 32" and b: "b_cycle b = b_cycle (bar s)"
  shows "barrier_must_wait cur b \<longleftrightarrow> unat cur = serials s"
  using binvD(4) [OF I] must_wait_iff [OF c, of cur] b by (simp add: barrier_must_wait_def)

lemma binv_arrive:
  assumes I: "binv N s" and p: "p < N" "bpcs s p = Outside"
    and a: "barrier_arrive (bar s) = (cur, False, b)" and l: "barrier_loop p cur b = (False, b')"
  shows "binv N (s\<lparr>bar := b', bpcs := (bpcs s)(p := Waiting cur),
                  entered := (entered s)(p := Suc (entered s p))\<rparr>)" (is "binv N ?t")
proof -
  note f = arrive_fields [OF a] and g = loop_fields [OF l]
  have "b_target b' = of_nat N" and "b_cycle b' = of_nat (serials s)"
    using I f g by (simp_all add: binv_def)
  moreover have "(\<forall>q<N. thread_ok ?t q)
      \<and> unat (b_count b') = card (current N ?t) \<and> unat (b_count b') < N"
    if c: "serials s < 2 ^ 32"
  proof -
    have e: "entered s p = serials s \<and> left s p = serials s" by (rule outside_entered [OF I c p])
    have cur: "unat cur = serials s" using f(1) I c by (simp add: binv_def low_word_of_count)
    have eq: "current N ?t = insert p (current N s)"
      using p e by (auto simp: current_def)
    have "thread_ok ?t q" if "q < N" for q
    proof (cases "q = p")
      case False
      moreover have "b_cond b' = insert p (b_cond (bar s))" using f(5) g(5) by simp
      ultimately show ?thesis using binvD(5) [OF I c that]
        by (intro thread_ok_other [of ?t q s]) simp_all
    qed (use e cur in \<open>simp add: thread_ok_def\<close>)
    moreover have u: "unat (b_count b') = card (current N ?t)"
      using count_after_arrival(2) [OF I c p] f(5) g(4) eq by simp
    moreover have "current N ?t \<noteq> {..<N}"
      using count_after_arrival(1) [OF I c p] f(3) eq by simp
    then have "card (current N ?t) < N"
      using psubset_card_mono [of "{..<N}" "current N ?t"] current_subset [of N ?t] by auto
    ultimately show ?thesis by simp
  qed
  ultimately show ?thesis using binvD(1,2) [OF I] by (intro binvI) simp_all
qed

lemma binv_pass:
  assumes I: "binv N s" and p: "p < N" "bpcs s p = Outside"
    and a: "barrier_arrive (bar s) = (cur, False, b)" and l: "barrier_loop p cur b = (True, b')"
  shows "binv N (s\<lparr>bar := b', entered := (entered s)(p := Suc (entered s p)),
                  left := (left s)(p := Suc (left s p))\<rparr>)" (is "binv N ?t")
proof -
  note f = arrive_fields [OF a] and g = loop_fields [OF l]
  have "\<not> serials s < 2 ^ 32"
  proof
    assume c: "serials s < 2 ^ 32"
    then have "unat cur = serials s" using f(1) I by (simp add: binv_def low_word_of_count)
    then show False using must_wait_now [OF I c, of b cur] f(5) g(1) by simp
  qed
  then show ?thesis using I f g by (simp add: binv_def)
qed

lemma binv_leave:
  assumes I: "binv N s" and p: "p < N" "bpcs s p = Waiting cur"
    and l: "barrier_loop p cur (bar s) = (True, b)"
  shows "binv N (s\<lparr>bar := b, bpcs := (bpcs s)(p := Outside), left := (left s)(p := Suc (left s p))\<rparr>)"
    (is "binv N ?t")
proof -
  have b: "b = bar s" and w: "\<not> barrier_must_wait cur (bar s)"
    using l by (simp_all add: barrier_loop_def split: if_splits)
  have "thread_ok ?t q" if c: "serials s < 2 ^ 32" and "q < N" for q
  proof (cases "q = p")
    case True
    have "unat cur \<noteq> serials s" using w must_wait_now [OF I c] by simp
    with True I c p show ?thesis by (auto simp: binv_def thread_ok_def)
  next
    case False
    with I that show ?thesis by (intro thread_ok_other [of ?t q s]) (auto simp: binv_def b)
  qed
  moreover have "current N ?t = current N s" by (simp add: current_def)
  ultimately show ?thesis using binvD [OF I] by (intro binvI) (simp_all add: b)
qed

text \<open>Going to sleep again and waking up change only the condition variable.\<close>

lemma binv_cond:
  assumes I: "binv N s" and b: "b_target b = b_target (bar s)" "b_cycle b = b_cycle (bar s)"
      "b_count b = b_count (bar s)"
    and S: "\<And>q. serials s < 2 ^ 32 \<Longrightarrow> q < N \<Longrightarrow> q \<in> b_cond b \<Longrightarrow> q \<notin> b_cond (bar s) \<Longrightarrow> left s q = serials s"
  shows "binv N (s\<lparr>bar := b\<rparr>)"
proof -
  have "thread_ok (s\<lparr>bar := b\<rparr>) q" if c: "serials s < 2 ^ 32" and "q < N" for q
    using S [OF that] binvD(5) [OF I that] by (auto simp: thread_ok_def split: bpc.splits)
  moreover have "current N (s\<lparr>bar := b\<rparr>) = current N s" by (simp add: current_def)
  ultimately show ?thesis using binvD [OF I] b by (intro binvI) simp_all
qed

lemma binv_wait_again:
  assumes I: "binv N s" and p: "p < N" "bpcs s p = Waiting cur"
    and l: "barrier_loop p cur (bar s) = (False, b)"
  shows "binv N (s\<lparr>bar := b\<rparr>)"
proof (rule binv_cond [OF I])
  note g = loop_fields [OF l]
  show "left s q = serials s"
    if c: "serials s < 2 ^ 32" and q: "q < N" "q \<in> b_cond b" "q \<notin> b_cond (bar s)" for q
  proof -
    have "q = p" using q(2,3) g(5) by simp
    moreover have "unat cur = serials s" using must_wait_now [OF I c] g(1) by simp
    ultimately show ?thesis using binvD(5) [OF I c p(1)] p(2) by (simp add: thread_ok_def)
  qed
qed (use loop_fields [OF l] in simp_all)

interpretation barrier_sys: inductive_invariant "binit N" "bstep N" "binv N" for N
proof unfold_locales
  show "binit N s \<Longrightarrow> binv N s" for s by (rule binit_binv)
  show "binv N t" if "binv N s" and "bstep N s t" for s t
    using that(2,1)
    by cases (auto simp: binv_serial binv_arrive binv_pass binv_leave binv_wait_again intro: binv_cond)
qed

section \<open>Properties\<close>

text \<open>C15: safety of the barrier. While fewer than \<open>2 ^ 32\<close> cycles are complete, a thread has
  returned from its \<open>k\<close>-th call only if every thread has begun its \<open>k\<close>-th call, and the number of
  calls that returned \<open>BARRIER_SERIAL_THREAD\<close> lies between the two.\<close>

theorem barrier_safe:
  assumes "breach N s" and "serials s < 2 ^ 32" and "p < N" and "q < N"
  shows "left s p \<le> serials s \<and> serials s \<le> entered s q"
proof -
  have "binv N s" using assms(1) by (rule barrier_sys.inv_reachable)
  then have "thread_ok s p" and "thread_ok s q" using assms binvD(5) by blast+
  then show ?thesis by (auto simp: thread_ok_def split: bpc.splits)
qed

text \<open>Two threads, the first waiting, the second the serial one of the first cycle.\<close>

definition barrier_demo1 :: bsys where
  "barrier_demo1 = (binit_state 2)\<lparr>bar := \<lparr>b_count = 1, b_target = 2, b_cycle = 0, b_cond = {0}\<rparr>,
     bpcs := (\<lambda>_. Outside)(0 := Waiting 0), entered := (\<lambda>_. 0)(0 := 1)\<rparr>"

definition barrier_demo2 :: bsys where
  "barrier_demo2 = barrier_demo1\<lparr>bar := \<lparr>b_count = 0, b_target = 2, b_cycle = 1, b_cond = {}\<rparr>,
     entered := (\<lambda>_. 0)(0 := 1, 1 := 1), left := (\<lambda>_. 0)(1 := 1), serials := 1\<rparr>"

lemma demo_arrivals:
  "barrier_arrive (bar (binit_state 2))
     = (0, False, \<lparr>b_count = 1, b_target = 2, b_cycle = 0, b_cond = {}\<rparr>)"
  "barrier_loop 0 0 \<lparr>b_count = 1, b_target = 2, b_cycle = 0, b_cond = {}\<rparr>
     = (False, \<lparr>b_count = 1, b_target = 2, b_cycle = 0, b_cond = {0}\<rparr>)"
  "barrier_arrive (bar barrier_demo1)
     = (0, True, \<lparr>b_count = 0, b_target = 2, b_cycle = 1, b_cond = {}\<rparr>)"
  by (simp_all add: barrier_demo1_def binit_state_def barrier_init_def barrier_arrive_def
      barrier_loop_def barrier_must_wait_def)

lemma barrier_demo1_reachable: "breach 2 barrier_demo1"
proof -
  have "bstep 2 (binit_state 2) barrier_demo1"
    using bstep.arrive [of 0 2 "binit_state 2", OF _ _ demo_arrivals(1,2)]
    by (simp add: barrier_demo1_def binit_state_def)
  moreover have "binit 2 (binit_state 2)" by (simp add: binit_def)
  ultimately show ?thesis by (blast intro: reachable.intros)
qed

lemma barrier_demo2_reachable: "breach 2 barrier_demo2"
proof -
  have "bstep 2 barrier_demo1 barrier_demo2"
    using bstep.serial [of 1 2 barrier_demo1, OF _ _ demo_arrivals(3)]
    by (simp add: barrier_demo1_def barrier_demo2_def binit_state_def fun_upd_def)
  with barrier_demo1_reachable show ?thesis by (rule reachable.move)
qed

theorem barrier_safe_witness:
  "left barrier_demo2 1 = 1 \<and> left barrier_demo2 1 \<le> serials barrier_demo2
   \<and> serials barrier_demo2 \<le> entered barrier_demo2 0"
  using barrier_safe [OF barrier_demo2_reachable, of 1 0] by (simp add: barrier_demo2_def)

lemma released_thread_leaves:
  assumes I: "binv N s" and c: "serials s < 2 ^ 32" and p: "p < N" "left s p < serials s"
  shows "p \<notin> b_cond (bar s)" and "\<exists>t. bstep N s t \<and> left t p = Suc (left s p) \<and> bpcs t p = Outside"
proof -
  obtain cur where w: "bpcs s p = Waiting cur" "unat cur = left s p" "p \<notin> b_cond (bar s)"
    using binvD(5) [OF I c p(1)] p(2) by (auto simp: thread_ok_def split: bpc.splits)
  then show "p \<notin> b_cond (bar s)" by simp
  have "barrier_loop p cur (bar s) = (True, bar s)"
    using must_wait_now [OF I c, of "bar s" cur] w(2) p(2) by (simp add: barrier_loop_def)
  from bstep.leave [OF p(1) w(1,3) this]
  show "\<exists>t. bstep N s t \<and> left t p = Suc (left s p) \<and> bpcs t p = Outside" by fastforce
qed

lemma outside_thread_enters:
  assumes p: "p < N" "bpcs s p = Outside"
  shows "\<exists>t. bstep N s t \<and> entered t p = Suc (entered s p)"
proof -
  obtain cur ser b where a: "barrier_arrive (bar s) = (cur, ser, b)" by (metis prod_cases3)
  obtain out b' where l: "barrier_loop p cur b = (out, b')" by fastforce
  show ?thesis
    using bstep.serial [OF p, of cur b] bstep.arrive [OF p, of cur b b'] bstep.pass [OF p, of cur b b'] a l
    by (cases ser; cases out) fastforce+
qed

text \<open>C34: liveness. While fewer than \<open>2 ^ 32\<close> cycles are complete, no thread sleeps through the
  completion of its cycle: it is awake and its next step takes it out of the barrier, without any
  wake-up but the broadcast. And the barrier does not get stuck: some thread can enter or leave.\<close>

theorem barrier_progress:
  assumes "breach N s" and "serials s < 2 ^ 32"
  shows "(\<forall>p<N. left s p < serials s \<longrightarrow> p \<notin> b_cond (bar s)
           \<and> (\<exists>t. bstep N s t \<and> left t p = Suc (left s p) \<and> bpcs t p = Outside))
     \<and> (\<exists>t p. p < N \<and> bstep N s t
           \<and> (entered t p = Suc (entered s p) \<or> left t p = Suc (left s p)))"
proof -
  have I: "binv N s" using assms(1) by (rule barrier_sys.inv_reachable)
  note R = released_thread_leaves [OF I assms(2)]
  have "card (current N s) < N" using binvD(6,7) [OF I] assms(2) by simp
  then obtain p where p: "p < N" "p \<notin> current N s"
    by (metis card_lessThan lessThan_iff less_irrefl subsetI subset_antisym current_subset)
  have "bpcs s p = Outside \<or> left s p < serials s"
    using p binvD(5) [OF I assms(2), of p] by (auto simp: thread_ok_def current_def split: bpc.splits)
  then have "\<exists>t. bstep N s t \<and> (entered t p = Suc (entered s p) \<or> left t p = Suc (left s p))"
    using outside_thread_enters [OF p(1)] R(2) [OF p(1)] by blast
  then show ?thesis using R p(1) by blast
qed

text \<open>Of two threads the first sleeps and the second completes the cycle: the broadcast has woken the
  first, which can leave.\<close>

theorem barrier_progress_witness:
  "b_cond (bar barrier_demo1) = {0} \<and> 0 \<notin> b_cond (bar barrier_demo2)
   \<and> (\<exists>t. bstep 2 barrier_demo2 t \<and> left t 0 = 1 \<and> bpcs t 0 = Outside)"
proof -
  have d: "left barrier_demo2 0 = 0" "serials barrier_demo2 = 1" "b_cond (bar barrier_demo2) = {}"
    "b_cond (bar barrier_demo1) = {0}"
    by (simp_all add: barrier_demo1_def barrier_demo2_def binit_state_def)
  have "\<exists>t. bstep 2 barrier_demo2 t \<and> left t 0 = Suc (left barrier_demo2 0) \<and> bpcs t 0 = Outside"
    using barrier_progress [OF barrier_demo2_reachable] d(1,2) by simp
  then show ?thesis by (simp add: d)
qed

text \<open>C40: error. The 32-bit copy of the 64-bit cycle counter breaks the barrier. Once the counter has
  reached \<open>2 ^ 32\<close>, a thread that is not the last to arrive finds its truncated copy different from
  the counter and returns at once, while no other thread has arrived.\<close>

theorem barrier_cycle_truncation:
  assumes "b_cycle (bar s) = 2 ^ 32" and "b_count (bar s) + 1 \<noteq> b_target (bar s)"
    and "p < N" and "bpcs s p = Outside"
  shows "\<exists>t. bstep N s t \<and> bpcs t p = Outside \<and> left t p = Suc (left s p)
           \<and> serials t = serials s \<and> (\<forall>q. q \<noteq> p \<longrightarrow> entered t q = entered s q)"
proof -
  let ?b = "(bar s)\<lparr>b_count := b_count (bar s) + 1\<rparr>"
  have z: "(ucast (0 :: u32) :: u64) = 0" "(0 :: u64) \<noteq> 4294967296" by simp_all
  have a: "barrier_arrive (bar s) = (0, False, ?b)"
    using assms(1,2) by (simp add: barrier_arrive_def)
  have "barrier_loop p 0 ?b = (True, ?b)"
    using assms(1) z by (simp add: barrier_loop_def barrier_must_wait_def)
  from bstep.pass [OF assms(3,4) a this] show ?thesis using assms(4) by fastforce
qed

definition barrier_demo3 :: bsys where
  "barrier_demo3 = (binit_state 2)\<lparr>bar := \<lparr>b_count = 0, b_target = 2, b_cycle = 2 ^ 32, b_cond = {}\<rparr>,
     serials := 2 ^ 32\<rparr>"

theorem barrier_cycle_truncation_witness:
  "\<exists>t. bstep 2 barrier_demo3 t \<and> bpcs t 0 = Outside \<and> left t 0 = Suc (left barrier_demo3 0)
     \<and> serials t = serials barrier_demo3
     \<and> (\<forall>q. q \<noteq> 0 \<longrightarrow> entered t q = entered barrier_demo3 q)"
  by (rule barrier_cycle_truncation) (simp_all add: barrier_demo3_def binit_state_def)

end
