(* ===== verification/ListHead.thy ===== *)
theory ListHead
  imports Prelude
begin

text \<open>
  The intrusive doubly linked lists of \<^verbatim>\<open>include/lib/list.h\<close> at the level of pointers: a store
  of \<^verbatim>\<open>next\<close> and \<^verbatim>\<open>prev\<close> fields (\<open>None\<close> is NULL) in which every operation writes the fields the
  macro writes, in its order. \<open>dll h hd xs\<close> says that the cyclic list with head \<open>hd\<close> holds the
  entries \<open>xs\<close>; the lemmas show that the pointer operations act on \<open>xs\<close> as the list operations
  the rest of the development uses, and leave every other list alone.
\<close>

section \<open>The store and the operations\<close>

record 'n lheap =
  lnext :: "'n \<Rightarrow> 'n option"
  lprev :: "'n \<Rightarrow> 'n option"

definition set_next :: "'n \<Rightarrow> 'n option \<Rightarrow> 'n lheap \<Rightarrow> 'n lheap" where
  "set_next a v h = h\<lparr>lnext := (lnext h)(a := v)\<rparr>"

definition set_prev :: "'n \<Rightarrow> 'n option \<Rightarrow> 'n lheap \<Rightarrow> 'n lheap" where
  "set_prev a v h = h\<lparr>lprev := (lprev h)(a := v)\<rparr>"

definition INIT_LIST_HEAD :: "'n \<Rightarrow> 'n lheap \<Rightarrow> 'n lheap" where
  "INIT_LIST_HEAD l h = set_prev l (Some l) (set_next l (Some l) h)"

definition list_add_between :: "'n \<Rightarrow> 'n \<Rightarrow> 'n \<Rightarrow> 'n lheap \<Rightarrow> 'n lheap" where
  "list_add_between new p n h =
     set_next p (Some new) (set_prev new (Some p) (set_next new (Some n)
       (set_prev n (Some new) h)))"

definition list_add :: "'n \<Rightarrow> 'n \<Rightarrow> 'n lheap \<Rightarrow> 'n lheap option" where
  "list_add new head h = do {
     n \<leftarrow> lnext h head;
     Some (list_add_between new head n h) }"

definition list_add_tail :: "'n \<Rightarrow> 'n \<Rightarrow> 'n lheap \<Rightarrow> 'n lheap option" where
  "list_add_tail new head h = do {
     p \<leftarrow> lprev h head;
     Some (list_add_between new p head h) }"

definition list_del_between :: "'n \<Rightarrow> 'n \<Rightarrow> 'n lheap \<Rightarrow> 'n lheap" where
  "list_del_between p n h = set_next p (Some n) (set_prev n (Some p) h)"

definition list_del :: "'n \<Rightarrow> 'n lheap \<Rightarrow> 'n lheap option" where
  "list_del e h = do {
     p \<leftarrow> lprev h e;
     n \<leftarrow> lnext h e;
     Some (set_prev e None (set_next e None (list_del_between p n h))) }"

definition list_first_entry :: "'n \<Rightarrow> 'n lheap \<Rightarrow> 'n option option" where
  "list_first_entry head h = do {
     n \<leftarrow> lnext h head;
     Some (if n = head then None else Some n) }"

definition list_last_entry :: "'n \<Rightarrow> 'n lheap \<Rightarrow> 'n option option" where
  "list_last_entry head h = do {
     p \<leftarrow> lprev h head;
     Some (if p = head then None else Some p) }"

definition list_empty :: "'n \<Rightarrow> 'n lheap \<Rightarrow> bool" where
  "list_empty head h \<longleftrightarrow> lnext h head = Some head"

definition list_splice_init :: "'n \<Rightarrow> 'n \<Rightarrow> 'n lheap \<Rightarrow> 'n lheap option" where
  "list_splice_init list head h =
     (if \<not> list_empty list h then do {
        first \<leftarrow> lnext h list;
        last \<leftarrow> lprev h list;
        at \<leftarrow> lnext h head;
        let h = set_prev first (Some head) h;
        let h = set_next head (Some first) h;
        let h = set_next last (Some at) h;
        let h = set_prev at (Some last) h;
        Some (INIT_LIST_HEAD list h) }
      else Some h)"

text \<open>
  The iteration macros. \<open>list_walk\<close> collects the entries \<^verbatim>\<open>list_for_each_entry\<close> visits from
  \<open>pos\<close> on, \<open>list_walk_rev\<close> those of the reverse macro; \<open>for_each_safe\<close> runs a body that may
  unlink the entry it is given, with the successor read before the body as the safe macro does.
  \<open>insert_before_first\<close> is the loop of \<^verbatim>\<open>add_to_queue_sorted\<close> and its two siblings: link the new
  entry before the first one it is smaller than, else at the tail.
\<close>

partial_function (option) list_walk :: "'n lheap \<Rightarrow> 'n \<Rightarrow> 'n \<Rightarrow> 'n list option" where
  "list_walk h head pos =
     (if pos = head then Some []
      else Option.bind (lnext h pos) (\<lambda>n.
           Option.bind (list_walk h head n) (\<lambda>xs. Some (pos # xs))))"

declare list_walk.simps [code]

partial_function (option) list_walk_rev :: "'n lheap \<Rightarrow> 'n \<Rightarrow> 'n \<Rightarrow> 'n list option" where
  "list_walk_rev h head pos =
     (if pos = head then Some []
      else Option.bind (lprev h pos) (\<lambda>n.
           Option.bind (list_walk_rev h head n) (\<lambda>xs. Some (pos # xs))))"

declare list_walk_rev.simps [code]

partial_function (option) for_each_safe ::
  "('n \<Rightarrow> 'n lheap \<Rightarrow> 'n lheap option) \<Rightarrow> 'n \<Rightarrow> 'n \<Rightarrow> 'n \<Rightarrow> 'n lheap \<Rightarrow> 'n lheap option" where
  "for_each_safe body head pos n h =
     (if pos = head then Some h
      else Option.bind (body pos h) (\<lambda>h'.
           Option.bind (lnext h' n) (\<lambda>n'. for_each_safe body head n n' h')))"

declare for_each_safe.simps [code]

partial_function (option) for_each_rev_safe ::
  "('n \<Rightarrow> 'n lheap \<Rightarrow> 'n lheap option) \<Rightarrow> 'n \<Rightarrow> 'n \<Rightarrow> 'n \<Rightarrow> 'n lheap \<Rightarrow> 'n lheap option" where
  "for_each_rev_safe body head pos n h =
     (if pos = head then Some h
      else Option.bind (body pos h) (\<lambda>h'.
           Option.bind (lprev h' n) (\<lambda>n'. for_each_rev_safe body head n n' h')))"

declare for_each_rev_safe.simps [code]

partial_function (option) insert_before_first ::
  "('n \<Rightarrow> 'n \<Rightarrow> bool) \<Rightarrow> 'n \<Rightarrow> 'n \<Rightarrow> 'n \<Rightarrow> 'n lheap \<Rightarrow> 'n lheap option" where
  "insert_before_first lt new head pos h =
     (if pos = head then list_add_tail new head h
      else if lt new pos then list_add_tail new pos h
      else Option.bind (lnext h pos) (\<lambda>n. insert_before_first lt new head n h))"

declare insert_before_first.simps [code]

section \<open>Abstraction\<close>

definition link :: "'n lheap \<Rightarrow> 'n \<Rightarrow> 'n \<Rightarrow> bool" where
  "link h a b \<longleftrightarrow> lnext h a = Some b \<and> lprev h b = Some a"

fun seg :: "'n lheap \<Rightarrow> 'n list \<Rightarrow> bool" where
  "seg h (a # b # ys) \<longleftrightarrow> link h a b \<and> seg h (b # ys)"
| "seg h _ \<longleftrightarrow> True"

definition dll :: "'n lheap \<Rightarrow> 'n \<Rightarrow> 'n list \<Rightarrow> bool" where
  "dll h head xs \<longleftrightarrow> distinct (head # xs) \<and> seg h (head # xs @ [head])"

text \<open>The list function the insertion loop computes.\<close>

fun insert_first :: "('n \<Rightarrow> 'n \<Rightarrow> bool) \<Rightarrow> 'n \<Rightarrow> 'n list \<Rightarrow> 'n list" where
  "insert_first lt new [] = [new]"
| "insert_first lt new (y # ys) =
     (if lt new y then new # y # ys else y # insert_first lt new ys)"

subsection \<open>Segments\<close>

lemma seg_append:
  "us \<noteq> [] \<Longrightarrow> vs \<noteq> [] \<Longrightarrow>
   seg h (us @ vs) \<longleftrightarrow> seg h us \<and> link h (last us) (hd vs) \<and> seg h vs"
proof (induction us)
  case Nil
  then show ?case by simp
next
  case (Cons u us)
  then show ?case by (cases us; cases vs) auto
qed

lemma seg_cong:
  assumes "\<And>a. a \<in> set (butlast ys) \<Longrightarrow> lnext h' a = lnext h a"
    and "\<And>b. b \<in> set (tl ys) \<Longrightarrow> lprev h' b = lprev h b"
  shows "seg h' ys \<longleftrightarrow> seg h ys"
  using assms
proof (induction h ys rule: seg.induct)
  case (1 h a b ys)
  then have "seg h' (b # ys) \<longleftrightarrow> seg h (b # ys)" by (intro "1.IH") (auto split: if_splits)
  moreover have "link h' a b \<longleftrightarrow> link h a b" using "1.prems" by (simp add: link_def)
  ultimately show ?case by simp
qed auto

lemma dll_split:
  "dll h head (xs @ ys) \<longleftrightarrow>
   distinct (head # xs @ ys) \<and> seg h (head # xs)
   \<and> link h (last (head # xs)) (hd (ys @ [head])) \<and> seg h (ys @ [head])"
  using seg_append [of "head # xs" "ys @ [head]" h] by (auto simp: dll_def)

lemma dll_lprev: "dll h head (xs @ ys) \<Longrightarrow> lprev h (hd (ys @ [head])) = Some (last (head # xs))"
  by (simp add: dll_split link_def)

lemma dll_lnext: "dll h head (xs @ ys) \<Longrightarrow> lnext h (last (head # xs)) = Some (hd (ys @ [head]))"
  by (simp add: dll_split link_def)

lemma dll_frame:
  assumes "dll h k zs"
    and "\<And>a. a \<in> set (k # zs) \<Longrightarrow> lnext h' a = lnext h a \<and> lprev h' a = lprev h a"
  shows "dll h' k zs"
proof -
  have "seg h' (k # zs @ [k]) \<longleftrightarrow> seg h (k # zs @ [k])"
    using assms(2) by (intro seg_cong) (auto split: if_splits)
  with assms(1) show ?thesis by (simp add: dll_def)
qed

lemma last_not_in_butlast:
  assumes "distinct xs" and "xs \<noteq> []"
  shows "last xs \<notin> set (butlast xs)"
proof -
  have "distinct (butlast xs @ [last xs])" using assms by simp
  then show ?thesis by (simp only: distinct_append) simp
qed

section \<open>The operations on the abstract list\<close>

lemma INIT_LIST_HEAD_dll: "dll (INIT_LIST_HEAD l h) l []"
  by (simp add: dll_def link_def INIT_LIST_HEAD_def set_next_def set_prev_def)

text \<open>
  Insertion and removal rewrite the links at one place of the cycle, between \<open>p\<close> and \<open>n\<close>; both
  halves around it are untouched.
\<close>

lemma halves_kept:
  assumes dist: "distinct (head # xs @ ys)" and z: "z \<notin> set (head # xs @ ys)"
    and p: "p = last (head # xs)" and n: "n = hd (ys @ [head])"
    and nx: "\<And>a. a \<noteq> p \<Longrightarrow> a \<noteq> z \<Longrightarrow> lnext h' a = lnext h a"
    and pv: "\<And>b. b \<noteq> n \<Longrightarrow> b \<noteq> z \<Longrightarrow> lprev h' b = lprev h b"
  shows "seg h' (head # xs) \<longleftrightarrow> seg h (head # xs)"
    and "seg h' (ys @ [head]) \<longleftrightarrow> seg h (ys @ [head])"
proof -
  have bl: "p \<notin> set (butlast (head # xs))"
    unfolding p using dist by (intro last_not_in_butlast) simp_all
  have pin: "p \<in> set (head # xs)" unfolding p by (rule last_in_set) simp
  have nn: "n \<notin> set xs" unfolding n using dist by (cases ys) auto
  show "seg h' (head # xs) \<longleftrightarrow> seg h (head # xs)"
  proof (intro seg_cong nx pv)
    fix a assume a: "a \<in> set (butlast (head # xs))"
    then have "a \<in> set (head # xs)" by (rule in_set_butlastD)
    with a bl z show "a \<noteq> p" and "a \<noteq> z" by auto
  qed (use nn z in auto)
  show "seg h' (ys @ [head]) \<longleftrightarrow> seg h (ys @ [head])"
  proof (intro seg_cong nx pv)
    fix b assume "b \<in> set (tl (ys @ [head]))"
    then show "b \<noteq> n" and "b \<noteq> z" unfolding n using dist z by (cases ys; auto)+
  qed (use pin dist z in auto)
qed

lemma end_nodes:
  assumes "distinct (head # xs @ ys)" and "z \<notin> set (head # xs @ ys)"
  shows "last (head # xs) \<noteq> z" and "hd (ys @ [head]) \<noteq> z"
proof -
  have "last (head # xs) \<in> set (head # xs)" by (rule last_in_set) simp
  then show "last (head # xs) \<noteq> z" using assms by auto
  have "hd (ys @ [head]) \<in> set (ys @ [head])" by (rule hd_in_set) simp
  then show "hd (ys @ [head]) \<noteq> z" using assms by auto
qed

lemma list_add_between_dll:
  assumes d: "dll h head (xs @ ys)" and new: "new \<notin> set (head # xs @ ys)"
    and p: "p = last (head # xs)" and n: "n = hd (ys @ [head])"
  shows "dll (list_add_between new p n h) head (xs @ new # ys)"
proof -
  let ?h = "list_add_between new p n h"
  from d have dist: "distinct (head # xs @ ys)" and s1: "seg h (head # xs)"
    and s2: "seg h (ys @ [head])" by (simp_all add: dll_split)
  have nx: "lnext ?h = (lnext h)(new := Some n, p := Some new)"
    and pv: "lprev ?h = (lprev h)(n := Some new, new := Some p)"
    by (simp_all add: list_add_between_def set_next_def set_prev_def)
  have ne: "p \<noteq> new" "n \<noteq> new" using end_nodes [OF dist new] p n by simp_all
  have "seg ?h (head # xs)" and "seg ?h (ys @ [head])"
    using halves_kept [OF dist new p n, of ?h h] s1 s2 by (simp_all add: nx pv)
  moreover have "link ?h p new" and "link ?h new n" using ne by (simp_all add: link_def nx pv)
  moreover have "seg ?h (new # ys @ [head]) \<longleftrightarrow> link ?h new n \<and> seg ?h (ys @ [head])"
    using seg_append [of "[new]" "ys @ [head]" ?h] n by simp
  ultimately show ?thesis using dist new p by (auto simp: dll_split)
qed

lemma list_add_dll:
  assumes "dll h head xs" and "new \<notin> set (head # xs)"
  shows "\<exists>h'. list_add new head h = Some h' \<and> dll h' head (new # xs)"
  using list_add_between_dll [of h head "[]" xs new, OF _ _ refl refl]
    dll_lnext [of h head "[]" xs] assms
  by (simp add: list_add_def)

text \<open>Adding at the tail of an entry of the list is insertion before that entry.\<close>

lemma list_add_tail_dll:
  assumes "dll h head (xs @ ys)" and "new \<notin> set (head # xs @ ys)"
  shows "\<exists>h'. list_add_tail new (hd (ys @ [head])) h = Some h' \<and> dll h' head (xs @ new # ys)"
  using list_add_between_dll [OF assms refl refl] dll_lprev [OF assms(1)]
  by (simp add: list_add_tail_def del: last.simps)

lemma list_del_dll:
  assumes "dll h head (xs @ y # ys)"
  shows "\<exists>h'. list_del y h = Some h' \<and> dll h' head (xs @ ys)
           \<and> lnext h' y = None \<and> lprev h' y = None"
proof -
  define p n where p: "p = last (head # xs)" and n: "n = hd (ys @ [head])"
  let ?h = "set_prev y None (set_next y None (list_del_between p n h))"
  from assms have dist: "distinct (head # xs @ ys)" and y: "y \<notin> set (head # xs @ ys)"
    and s1: "seg h (head # xs)" and s: "seg h (y # ys @ [head])" by (auto simp: dll_split)
  from s have s2: "seg h (ys @ [head])" using seg_append [of "[y]" "ys @ [head]" h] by simp
  have lp: "lprev h y = Some p" using dll_lprev [OF assms] p by simp
  have ln: "lnext h y = Some n" using dll_lnext [of h head "xs @ [y]" ys] assms n by simp
  have nx: "lnext ?h = (lnext h)(p := Some n, y := None)"
    and pv: "lprev ?h = (lprev h)(n := Some p, y := None)"
    by (simp_all add: list_del_between_def set_next_def set_prev_def)
  have ne: "p \<noteq> y" "n \<noteq> y" using end_nodes [OF dist y] p n by simp_all
  have "seg ?h (head # xs)" and "seg ?h (ys @ [head])"
    using halves_kept [OF dist y p n, of ?h h] s1 s2 by (simp_all add: nx pv)
  moreover have "link ?h p n" using ne by (simp add: link_def nx pv)
  ultimately have "dll ?h head (xs @ ys)" using dist p n by (auto simp: dll_split)
  with lp ln show ?thesis by (simp add: list_del_def nx pv)
qed

lemma list_first_entry_dll:
  "dll h head xs \<Longrightarrow>
   list_first_entry head h = Some (case xs of [] \<Rightarrow> None | x # _ \<Rightarrow> Some x)"
  using dll_lnext [of h head "[]" xs]
  by (cases xs) (auto simp: list_first_entry_def dll_def)

lemma list_last_entry_dll:
  "dll h head xs \<Longrightarrow>
   list_last_entry head h = Some (if xs = [] then None else Some (last xs))"
  using dll_lprev [of h head xs "[]"]
  by (auto simp: list_last_entry_def dll_def dest: last_in_set)

lemma list_empty_dll: "dll h head xs \<Longrightarrow> list_empty head h \<longleftrightarrow> xs = []"
  using dll_lnext [of h head "[]" xs]
  by (cases xs) (auto simp: list_empty_def dll_def)

lemma list_splice_init_dll:
  assumes l: "dll h l xs" and d: "dll h head ys"
    and disj: "set (l # xs) \<inter> set (head # ys) = {}"
  shows "\<exists>h'. list_splice_init l head h = Some h' \<and> dll h' l [] \<and> dll h' head (xs @ ys)"
proof (cases xs)
  case Nil
  with l d show ?thesis by (simp add: list_splice_init_def list_empty_dll)
next
  case (Cons x xs')
  define z n where z: "z = last xs" and n: "n = hd (ys @ [head])"
  define h' where h': "h' = INIT_LIST_HEAD l (set_prev n (Some z) (set_next z (Some n)
    (set_next head (Some x) (set_prev x (Some head) h))))"
  from Cons l have dx: "distinct (l # xs)" and sx: "seg h xs"
    using dll_split [of h l xs "[]"] by auto
  from d have dy: "distinct (head # ys)" and sy: "seg h (ys @ [head])"
    by (simp_all add: dll_split [of h head "[]" ys, simplified])
  have zin: "z \<in> set xs" using Cons unfolding z by (intro last_in_set) simp
  have zb: "z \<notin> set (butlast xs)"
    using dx Cons unfolding z by (intro last_not_in_butlast) simp_all
  have nin: "n \<in> set (ys @ [head])" unfolding n by (rule hd_in_set) simp
  have nx: "lnext h' = (lnext h)(head := Some x, z := Some n, l := Some l)"
    and pv: "lprev h' = (lprev h)(x := Some head, n := Some z, l := Some l)"
    by (auto simp: h' INIT_LIST_HEAD_def set_next_def set_prev_def)
  have "lnext h l = Some x" and "lprev h l = Some z" and "lnext h head = Some n"
    using dll_lnext [of h l "[]" xs] dll_lprev [of h l xs "[]"] dll_lnext [of h head "[]" ys] l d
      Cons z n by simp_all
  moreover have "\<not> list_empty l h" using l Cons by (simp add: list_empty_dll)
  ultimately have "list_splice_init l head h = Some h'"
    by (simp add: list_splice_init_def h' Let_def)
  moreover have "dll h' l []" by (simp add: dll_def link_def nx pv)
  moreover have "dll h' head (xs @ ys)"
  proof -
    have "seg h' xs \<longleftrightarrow> seg h xs"
    proof (intro seg_cong)
      fix a assume a: "a \<in> set (butlast xs)"
      then have "a \<in> set xs" by (rule in_set_butlastD)
      with a zb dx disj show "lnext h' a = lnext h a" by (auto simp: nx)
    qed (use dx disj Cons nin in \<open>auto simp: pv\<close>)
    moreover have "seg h' (ys @ [head]) \<longleftrightarrow> seg h (ys @ [head])"
      using dy disj zin Cons n by (intro seg_cong) (cases ys; auto simp: nx pv)+
    moreover have "link h' head x" and "link h' z n"
      using disj zin nin Cons dy dx by (auto simp: link_def nx pv)
    ultimately have "seg h' ([head] @ xs @ ys @ [head])"
      using sx sy Cons z n
        seg_append [of "[head]" "xs @ ys @ [head]" h'] seg_append [of xs "ys @ [head]" h']
      by simp
    then show ?thesis using dx dy disj by (auto simp: dll_def)
  qed
  ultimately show ?thesis by blast
qed

section \<open>Iteration\<close>

lemma list_walk_dll:
  "dll h head (xs @ ys) \<Longrightarrow> list_walk h head (hd (ys @ [head])) = Some ys"
proof (induction ys arbitrary: xs)
  case Nil
  then show ?case by (simp add: list_walk.simps)
next
  case (Cons y ys)
  then have "lnext h y = Some (hd (ys @ [head]))" and "y \<noteq> head"
    using dll_lnext [of h head "xs @ [y]" ys] by (auto simp: dll_def)
  moreover have "list_walk h head (hd (ys @ [head])) = Some ys"
    using Cons.prems by (intro Cons.IH [of "xs @ [y]"]) simp
  ultimately show ?case by (simp add: list_walk.simps [of h head y])
qed

lemma list_walk_rev_dll:
  "dll h head (xs @ ys) \<Longrightarrow> list_walk_rev h head (last (head # xs)) = Some (rev xs)"
proof (induction xs arbitrary: ys rule: rev_induct)
  case Nil
  then show ?case by (simp add: list_walk_rev.simps)
next
  case (snoc x xs)
  then have "lprev h x = Some (last (head # xs))" and "x \<noteq> head"
    using dll_lprev [of h head xs "x # ys"] by (auto simp: dll_def)
  moreover have "list_walk_rev h head (last (head # xs)) = Some (rev xs)"
    using snoc.prems by (intro snoc.IH [of "x # ys"]) simp
  ultimately show ?case
    by (subst last.simps, subst list_walk_rev.simps) simp
qed

lemma for_each_safe_del:
  assumes "dll h head (xs @ ys)"
    and "ys \<noteq> [] \<Longrightarrow> n = hd (tl ys @ [head])"
  shows "\<exists>h'. for_each_safe (\<lambda>p h. if P p then list_del p h else Some h)
                head (hd (ys @ [head])) n h = Some h'
              \<and> dll h' head (xs @ filter (\<lambda>p. \<not> P p) ys)"
  using assms
proof (induction ys arbitrary: xs h n)
  case Nil
  then show ?case by (simp add: for_each_safe.simps)
next
  case (Cons y ys)
  let ?body = "\<lambda>p h. if P p then list_del p h else Some h"
  let ?xs = "if P y then xs else xs @ [y]"
  have n: "n = hd (ys @ [head])" using Cons.prems(2) by simp
  have y: "y \<noteq> head" using Cons.prems(1) by (auto simp: dll_def)
  obtain h1 where b: "?body y h = Some h1" and d1: "dll h1 head (?xs @ ys)"
    using list_del_dll [OF Cons.prems(1)] Cons.prems(1) by (cases "P y") auto
  obtain m where m: "lnext h1 n = Some m" and m': "ys \<noteq> [] \<Longrightarrow> m = hd (tl ys @ [head])"
  proof (cases ys)
    case Nil
    then show ?thesis using that dll_lnext [of h1 head "[]" "?xs"] d1 n by simp
  next
    case (Cons z zs)
    then show ?thesis using that dll_lnext [of h1 head "?xs @ [z]" zs] d1 n by simp
  qed
  from Cons.IH [OF d1 m'] obtain h' where
    "for_each_safe ?body head n m h1 = Some h'"
    and "dll h' head (?xs @ filter (\<lambda>p. \<not> P p) ys)" unfolding n by blast
  with b m y show ?case
    by (subst for_each_safe.simps) (cases "P y"; simp)
qed

lemma for_each_rev_safe_del:
  assumes "dll h head (xs @ ys)"
    and "xs \<noteq> [] \<Longrightarrow> n = last (head # butlast xs)"
  shows "\<exists>h'. for_each_rev_safe (\<lambda>p h. if P p then list_del p h else Some h)
                head (last (head # xs)) n h = Some h'
              \<and> dll h' head (filter (\<lambda>p. \<not> P p) xs @ ys)"
  using assms
proof (induction xs arbitrary: ys h n rule: rev_induct)
  case Nil
  then show ?case by (simp add: for_each_rev_safe.simps)
next
  case (snoc y xs)
  let ?body = "\<lambda>p h. if P p then list_del p h else Some h"
  let ?ys = "if P y then ys else y # ys"
  have n: "n = last (head # xs)" using snoc.prems(2) by simp
  have y: "y \<noteq> head" using snoc.prems(1) by (auto simp: dll_def)
  obtain h1 where b: "?body y h = Some h1" and d1: "dll h1 head (xs @ ?ys)"
    using list_del_dll [of h head xs y ys] snoc.prems(1) by (cases "P y") auto
  obtain m where m: "lprev h1 n = Some m" and m': "xs \<noteq> [] \<Longrightarrow> m = last (head # butlast xs)"
  proof (cases xs rule: rev_cases)
    case Nil
    then show ?thesis using that dll_lprev [of h1 head "?ys" "[]"] d1 n by simp
  next
    case (snoc zs z)
    then show ?thesis using that dll_lprev [of h1 head zs "z # ?ys"] d1 n by simp
  qed
  from snoc.IH [OF d1 m'] obtain h' where
    "for_each_rev_safe ?body head n m h1 = Some h'"
    and "dll h' head (filter (\<lambda>p. \<not> P p) xs @ ?ys)" unfolding n by blast
  with b m y show ?case
    by (subst for_each_rev_safe.simps) (cases "P y"; simp)
qed

lemma insert_before_first_dll:
  assumes "dll h head (xs @ ys)" and "new \<notin> set (head # xs @ ys)"
  shows "\<exists>h'. insert_before_first lt new head (hd (ys @ [head])) h = Some h'
              \<and> dll h' head (xs @ insert_first lt new ys)"
  using assms
proof (induction ys arbitrary: xs)
  case Nil
  then show ?case using list_add_tail_dll [of h head xs "[]" new]
    by (simp add: insert_before_first.simps)
next
  case (Cons y ys)
  then have y: "y \<noteq> head" and ny: "lnext h y = Some (hd (ys @ [head]))"
    using dll_lnext [of h head "xs @ [y]" ys] by (auto simp: dll_def)
  show ?case
  proof (cases "lt new y")
    case True
    then show ?thesis using list_add_tail_dll [OF Cons.prems] y
      by (subst insert_before_first.simps) simp
  next
    case False
    have "\<exists>h'. insert_before_first lt new head (hd (ys @ [head])) h = Some h'
             \<and> dll h' head ((xs @ [y]) @ insert_first lt new ys)"
      using Cons.prems by (intro Cons.IH) auto
    with False y ny show ?thesis by (subst insert_before_first.simps) simp
  qed
qed

section \<open>Other lists are left alone\<close>

lemma list_add_between_frame:
  "dll h k zs \<Longrightarrow> {new, p, n} \<inter> set (k # zs) = {} \<Longrightarrow> dll (list_add_between new p n h) k zs"
  by (erule dll_frame) (auto simp: list_add_between_def set_next_def set_prev_def)

lemma list_del_frame:
  assumes "dll h head (xs @ y # ys)" and "list_del y h = Some h'" and "dll h k zs"
    and "set (head # xs @ y # ys) \<inter> set (k # zs) = {}"
  shows "dll h' k zs"
proof -
  obtain p n where pn: "lprev h y = Some p" "lnext h y = Some n"
    and h': "h' = set_prev y None (set_next y None (list_del_between p n h))"
    using assms(2) by (auto simp: list_del_def opt_simps)
  have "p = last (head # xs)" and "n = hd (ys @ [head])"
    using pn dll_lprev [OF assms(1)] dll_lnext [of h head "xs @ [y]" ys] assms(1) by simp_all
  then have "p \<in> set (head # xs)" and "n \<in> set (ys @ [head])"
    using last_in_set [of "head # xs"] hd_in_set [of "ys @ [head]"] by simp_all
  with assms(3,4) show ?thesis unfolding h'
    by (elim dll_frame) (auto simp: list_del_between_def set_next_def set_prev_def)
qed

section \<open>Properties\<close>

text \<open>The list 1, 2, 3 behind the head 0.\<close>

definition list_demo :: "nat lheap" where
  "list_demo = \<lparr>lnext = (\<lambda>_. None)(0 := Some 1, 1 := Some 2, 2 := Some 3, 3 := Some 0),
     lprev = (\<lambda>_. None)(0 := Some 3, 1 := Some 0, 2 := Some 1, 3 := Some 2)\<rparr>"

lemma list_demo_dll: "dll list_demo 0 [1, 2, 3]"
  by (simp add: dll_def link_def list_demo_def)

text \<open>Linking a new node anywhere in a list and unlinking it gives the old list
  back, and leaves the node with the null links that mark it as being in no list.\<close>

theorem list_add_del_roundtrip:
  assumes "dll h head (xs @ ys)" and "new \<notin> set (head # xs @ ys)"
  shows "\<exists>h1 h2. list_add_tail new (hd (ys @ [head])) h = Some h1 \<and> dll h1 head (xs @ new # ys)
           \<and> list_first_entry head h1 = Some (Some (hd (xs @ [new])))
           \<and> list_del new h1 = Some h2 \<and> dll h2 head (xs @ ys)
           \<and> lnext h2 new = None \<and> lprev h2 new = None"
proof -
  obtain h1 where h1: "list_add_tail new (hd (ys @ [head])) h = Some h1" "dll h1 head (xs @ new # ys)"
    using list_add_tail_dll [OF assms] by blast
  then show ?thesis using list_del_dll [OF h1(2)] list_first_entry_dll [OF h1(2)]
    by (cases xs) auto
qed

theorem list_add_del_roundtrip_witness:
  "\<exists>h1 h2. list_add_tail 7 2 list_demo = Some h1 \<and> dll h1 0 [1, 7, 2, 3]
     \<and> list_del 7 h1 = Some h2 \<and> dll h2 0 [1, 2, 3] \<and> lnext h2 7 = None"
  using list_add_del_roundtrip [of list_demo 0 "[1]" "[2, 3]" 7] list_demo_dll by auto

text \<open>The loop of \<^verbatim>\<open>list_for_each_entry_safe\<close> whose body unlinks the entries that
  satisfy a condition visits every entry once, although the list changes under it, and leaves the
  others in their order.\<close>

theorem safe_loop_removes:
  assumes "dll h head xs"
  shows "\<exists>h'. for_each_safe (\<lambda>p h. if P p then list_del p h else Some h) head
                (hd (xs @ [head])) (hd (tl xs @ [head])) h = Some h'
           \<and> dll h' head (filter (\<lambda>p. \<not> P p) xs)"
  using for_each_safe_del [of h head "[]" xs "hd (tl xs @ [head])" P] assms by simp

theorem safe_loop_removes_witness:
  "\<exists>h'. for_each_safe (\<lambda>p h. if even p then list_del p h else Some h) 0 1 2 list_demo = Some h'
     \<and> dll h' 0 [1, 3]"
  using safe_loop_removes [OF list_demo_dll, of even] by simp

text \<open>\<^verbatim>\<open>list_splice_init\<close> moves a whole list in front of another in constant time: on
  the abstract lists it is an append that empties its first argument.\<close>

theorem splice_is_append:
  assumes "dll h l xs" and "dll h head ys" and "set (l # xs) \<inter> set (head # ys) = {}"
  shows "\<exists>h'. list_splice_init l head h = Some h' \<and> dll h' l [] \<and> dll h' head (xs @ ys)
           \<and> list_walk h' head (hd (xs @ ys @ [head])) = Some (xs @ ys) \<and> list_empty l h'"
proof -
  obtain h' where h': "list_splice_init l head h = Some h'" "dll h' l []" "dll h' head (xs @ ys)"
    using list_splice_init_dll [OF assms] by blast
  then show ?thesis
    using list_walk_dll [of h' head "[]" "xs @ ys"] list_empty_dll [OF h'(2)] by simp
qed

definition list_demo2 :: "nat lheap" where
  "list_demo2 = \<lparr>lnext = (lnext list_demo)(8 := Some 9, 9 := Some 8),
     lprev = (lprev list_demo)(8 := Some 9, 9 := Some 8)\<rparr>"

theorem splice_is_append_witness:
  "\<exists>h'. list_splice_init 0 8 list_demo2 = Some h' \<and> dll h' 0 [] \<and> dll h' 8 [1, 2, 3, 9]
     \<and> list_walk h' 8 1 = Some [1, 2, 3, 9]"
proof -
  have "dll list_demo2 0 [1, 2, 3]" "dll list_demo2 8 [9]"
    by (simp_all add: dll_def link_def list_demo2_def list_demo_def)
  then show ?thesis using splice_is_append [of list_demo2 0 "[1, 2, 3]" 8 "[9]"] by auto
qed

end
