(* ===== verification/RingBufferMPMC.thy ===== *)
theory RingBufferMPMC
  imports RingBuffer
begin

text \<open>
  The same ring buffer, used by any number of threads at once: every atomic access of
  \<^verbatim>\<open>ring_buffer_try_enqueue\<close>, \<^verbatim>\<open>ring_buffer_enqueue\<close>, \<^verbatim>\<open>ring_buffer_try_dequeue\<close> and
  \<^verbatim>\<open>ring_buffer_dequeue\<close> is a step of its own, and so is each \<^verbatim>\<open>memcpy\<close>. The accesses interleave
  (sequential consistency); that the copies, which are not atomic, never meet in one slot is proved.
  \<^verbatim>\<open>ring_buffer_clear\<close> is not in this relation: the program calls it while no other thread uses the
  buffer, and it is wrong otherwise.
\<close>

section \<open>Threads\<close>

text \<open>Where a thread is in its operation, with its local variables: the element and the counter it
  has read or claimed.\<close>

datatype 'e rb_pc =
  RIdle
| TryEnqLoaded 'e u64
| TryEnqChecked 'e u64
| EnqSpin 'e u64
| EnqCopy 'e u64
| EnqPublish 'e u64
| TryDeqLoaded u64
| TryDeqChecked u64
| DeqSpin u64
| DeqCopy u64
| DeqRelease u64 'e

text \<open>\<open>mputs\<close> records the elements in the order in which their places were claimed, \<open>mgets\<close> the places
  and elements of the dequeue operations that have returned.\<close>

record 'e mpmc =
  mq :: "'e ring_buffer"
  mpc :: "nat \<Rightarrow> 'e rb_pc"
  mputs :: "'e list"
  mgets :: "(nat \<times> 'e) list"

inductive rstep :: "'e mpmc \<Rightarrow> 'e mpmc \<Rightarrow> bool" where
  try_enq_load:
    "mpc t i = RIdle
     \<Longrightarrow> rstep t (t\<lparr>mpc := (mpc t)(i := TryEnqLoaded e (rb_tail (mq t)))\<rparr>)"
| try_enq_check:
    "\<lbrakk>mpc t i = TryEnqLoaded e k; seq_at (mq t) k = Some s\<rbrakk>
     \<Longrightarrow> rstep t (t\<lparr>mpc := (mpc t)(i := if s = k then TryEnqChecked e k else RIdle)\<rparr>)"
| try_enq_claim:
    "\<lbrakk>mpc t i = TryEnqChecked e k; rb_tail (mq t) = k\<rbrakk>
     \<Longrightarrow> rstep t (t\<lparr>mq := (mq t)\<lparr>rb_tail := k + 1\<rparr>, mpc := (mpc t)(i := EnqCopy e k),
                    mputs := mputs t @ [e]\<rparr>)"
| try_enq_lost:
    "\<lbrakk>mpc t i = TryEnqChecked e k; rb_tail (mq t) \<noteq> k\<rbrakk>
     \<Longrightarrow> rstep t (t\<lparr>mpc := (mpc t)(i := RIdle)\<rparr>)"
| enq_claim:
    "\<lbrakk>mpc t i = RIdle; rb_tail (mq t) = k\<rbrakk>
     \<Longrightarrow> rstep t (t\<lparr>mq := (mq t)\<lparr>rb_tail := k + 1\<rparr>, mpc := (mpc t)(i := EnqSpin e k),
                    mputs := mputs t @ [e]\<rparr>)"
| enq_spin:
    "\<lbrakk>mpc t i = EnqSpin e k; seq_at (mq t) k = Some s\<rbrakk>
     \<Longrightarrow> rstep t (t\<lparr>mpc := (mpc t)(i := if s = k then EnqCopy e k else EnqSpin e k)\<rparr>)"
| enq_copy:
    "\<lbrakk>mpc t i = EnqCopy e k; copy_in k e (mq t) = Some q\<rbrakk>
     \<Longrightarrow> rstep t (t\<lparr>mq := q, mpc := (mpc t)(i := EnqPublish e k)\<rparr>)"
| enq_publish:
    "\<lbrakk>mpc t i = EnqPublish e k; set_seq k (k + 1) (mq t) = Some q\<rbrakk>
     \<Longrightarrow> rstep t (t\<lparr>mq := q, mpc := (mpc t)(i := RIdle)\<rparr>)"
| try_deq_load:
    "mpc t i = RIdle
     \<Longrightarrow> rstep t (t\<lparr>mpc := (mpc t)(i := TryDeqLoaded (rb_head (mq t)))\<rparr>)"
| try_deq_check:
    "\<lbrakk>mpc t i = TryDeqLoaded k; seq_at (mq t) k = Some s\<rbrakk>
     \<Longrightarrow> rstep t (t\<lparr>mpc := (mpc t)(i := if s = k + 1 then TryDeqChecked k else RIdle)\<rparr>)"
| try_deq_claim:
    "\<lbrakk>mpc t i = TryDeqChecked k; rb_head (mq t) = k\<rbrakk>
     \<Longrightarrow> rstep t (t\<lparr>mq := (mq t)\<lparr>rb_head := k + 1\<rparr>, mpc := (mpc t)(i := DeqCopy k)\<rparr>)"
| try_deq_lost:
    "\<lbrakk>mpc t i = TryDeqChecked k; rb_head (mq t) \<noteq> k\<rbrakk>
     \<Longrightarrow> rstep t (t\<lparr>mpc := (mpc t)(i := RIdle)\<rparr>)"
| deq_claim:
    "\<lbrakk>mpc t i = RIdle; rb_head (mq t) = k\<rbrakk>
     \<Longrightarrow> rstep t (t\<lparr>mq := (mq t)\<lparr>rb_head := k + 1\<rparr>, mpc := (mpc t)(i := DeqSpin k)\<rparr>)"
| deq_spin:
    "\<lbrakk>mpc t i = DeqSpin k; seq_at (mq t) k = Some s\<rbrakk>
     \<Longrightarrow> rstep t (t\<lparr>mpc := (mpc t)(i := if s = k + 1 then DeqCopy k else DeqSpin k)\<rparr>)"
| deq_copy:
    "\<lbrakk>mpc t i = DeqCopy k; copy_out k (mq t) = Some v\<rbrakk>
     \<Longrightarrow> rstep t (t\<lparr>mpc := (mpc t)(i := DeqRelease k v)\<rparr>)"
| deq_release:
    "\<lbrakk>mpc t i = DeqRelease k v; set_seq k (k + rb_buf_size (mq t)) (mq t) = Some q\<rbrakk>
     \<Longrightarrow> rstep t (t\<lparr>mq := q, mpc := (mpc t)(i := RIdle), mgets := mgets t @ [(unat k, v)]\<rparr>)"

definition mpmc_init :: "'e mpmc \<Rightarrow> bool" where
  "mpmc_init t \<longleftrightarrow> (\<exists>rb sz buffer seq es. ring_buffer_init rb sz buffer seq es = Some (0, mq t)
       \<and> length buffer = unat sz \<and> length seq = unat sz \<and> unat sz < 2 ^ 62)
     \<and> (\<forall>i. mpc t i = RIdle) \<and> mputs t = [] \<and> mgets t = []"

section \<open>The slots as numbers\<close>

definition cap :: "'e ring_buffer \<Rightarrow> nat" where "cap q = unat (rb_buf_size q)"

definition sq :: "'e ring_buffer \<Rightarrow> nat \<Rightarrow> nat" where "sq q k = unat (rb_seq q ! (k mod cap q))"

definition bf :: "'e ring_buffer \<Rightarrow> nat \<Rightarrow> 'e" where "bf q k = rb_buffer q ! (k mod cap q)"

abbreviation tl_of :: "'e ring_buffer \<Rightarrow> nat" where "tl_of q \<equiv> unat (rb_tail q)"

abbreviation hd_of :: "'e ring_buffer \<Rightarrow> nat" where "hd_of q \<equiv> unat (rb_head q)"

definition shaped :: "'e ring_buffer \<Rightarrow> bool" where
  "shaped q \<longleftrightarrow> 3 \<le> cap q \<and> length (rb_seq q) = cap q \<and> length (rb_buffer q) = cap q"

lemma cong_step: "a < b \<Longrightarrow> a mod n = b mod n \<Longrightarrow> a + n \<le> (b :: nat)"
  using window_inj [of a b n] by (meson not_le)

lemma cong_Suc: "2 \<le> n \<Longrightarrow> Suc a mod n \<noteq> a mod (n :: nat)"
  using window_inj [of a "Suc a" n] by simp

lemma shaped_seq_at: "shaped q \<Longrightarrow> seq_at q k = Some (rb_seq q ! (unat k mod cap q))"
  using slot_nat [of q k] by (simp add: shaped_def seq_at_def cap_def idx_def)

lemma seq_at_eq_iff:
  assumes "shaped q"
  shows "seq_at q k = Some s \<Longrightarrow> s = v \<longleftrightarrow> sq q (unat k) = unat v"
  using assms by (auto simp: shaped_seq_at sq_def word_unat_eq_iff)

lemma shaped_copy_out: "shaped q \<Longrightarrow> copy_out k q = Some v \<longleftrightarrow> v = bf q (unat k)"
  using slot_nat [of q k] by (auto simp: shaped_def copy_out_def bf_def cap_def idx_def)

lemma copy_in_fields:
  assumes "shaped q" and "copy_in k e q = Some r"
  shows "shaped r" and "cap r = cap q" and "rb_tail r = rb_tail q" and "rb_head r = rb_head q"
    and "sq r = sq q" and "bf r = (\<lambda>j. if j mod cap q = unat k mod cap q then e else bf q j)"
proof -
  have r: "r = q\<lparr>rb_buffer := (rb_buffer q)[unat k mod cap q := e]\<rparr>"
    using assms slot_nat [of q k] by (auto simp: shaped_def copy_in_def cap_def upd_idx_def)
  have l: "j mod cap q < length (rb_buffer q)" for j using assms(1) by (simp add: shaped_def)
  show "shaped r" "cap r = cap q" "rb_tail r = rb_tail q" "rb_head r = rb_head q"
    using assms(1) r by (simp_all add: shaped_def cap_def)
  show "sq r = sq q" by (rule ext) (simp add: sq_def cap_def r)
  show "bf r = (\<lambda>j. if j mod cap q = unat k mod cap q then e else bf q j)"
    using l by (auto simp: bf_def r cap_def nth_list_update)
qed

lemma set_seq_fields:
  assumes "shaped q" and "set_seq k v q = Some r"
  shows "shaped r" and "cap r = cap q" and "rb_tail r = rb_tail q" and "rb_head r = rb_head q"
    and "bf r = bf q" and "sq r = (\<lambda>j. if j mod cap q = unat k mod cap q then unat v else sq q j)"
proof -
  have r: "r = q\<lparr>rb_seq := (rb_seq q)[unat k mod cap q := v]\<rparr>"
    using assms slot_nat [of q k] by (auto simp: shaped_def set_seq_def cap_def upd_idx_def)
  have l: "j mod cap q < length (rb_seq q)" for j using assms(1) by (simp add: shaped_def)
  show "shaped r" "cap r = cap q" "rb_tail r = rb_tail q" "rb_head r = rb_head q"
    using assms(1) r by (simp_all add: shaped_def cap_def)
  show "bf r = bf q" by (rule ext) (simp add: bf_def cap_def r)
  show "sq r = (\<lambda>j. if j mod cap q = unat k mod cap q then unat v else sq q j)"
    using l by (auto simp: sq_def r cap_def nth_list_update)
qed

section \<open>The invariant\<close>

text \<open>The place a thread has claimed.\<close>

fun enq_place :: "'e rb_pc \<Rightarrow> nat option" where
  "enq_place (EnqSpin e k) = Some (unat k)"
| "enq_place (EnqCopy e k) = Some (unat k)"
| "enq_place (EnqPublish e k) = Some (unat k)"
| "enq_place _ = None"

fun deq_place :: "'e rb_pc \<Rightarrow> nat option" where
  "deq_place (DeqSpin k) = Some (unat k)"
| "deq_place (DeqCopy k) = Some (unat k)"
| "deq_place (DeqRelease k v) = Some (unat k)"
| "deq_place _ = None"

text \<open>What a thread knows at each point of its operation, whatever the others do.\<close>

fun pc_ok :: "'e ring_buffer \<Rightarrow> 'e list \<Rightarrow> 'e rb_pc \<Rightarrow> bool" where
  "pc_ok q ps RIdle = True"
| "pc_ok q ps (TryEnqLoaded e k) = (unat k \<le> tl_of q)"
| "pc_ok q ps (TryEnqChecked e k) =
     (unat k \<le> tl_of q \<and> (unat k = tl_of q \<longrightarrow> sq q (unat k) = unat k))"
| "pc_ok q ps (EnqSpin e k) = (unat k < tl_of q \<and> ps ! unat k = e \<and> sq q (unat k) \<le> unat k)"
| "pc_ok q ps (EnqCopy e k) = (unat k < tl_of q \<and> ps ! unat k = e \<and> sq q (unat k) = unat k)"
| "pc_ok q ps (EnqPublish e k) =
     (unat k < tl_of q \<and> ps ! unat k = e \<and> sq q (unat k) = unat k \<and> bf q (unat k) = e)"
| "pc_ok q ps (TryDeqLoaded k) = (unat k \<le> hd_of q)"
| "pc_ok q ps (TryDeqChecked k) =
     (unat k \<le> hd_of q \<and> (unat k = hd_of q \<longrightarrow> sq q (unat k) = Suc (unat k)))"
| "pc_ok q ps (DeqSpin k) = (unat k < hd_of q \<and> sq q (unat k) \<le> Suc (unat k))"
| "pc_ok q ps (DeqCopy k) = (unat k < hd_of q \<and> sq q (unat k) = Suc (unat k))"
| "pc_ok q ps (DeqRelease k v) =
     (unat k < hd_of q \<and> sq q (unat k) = Suc (unat k) \<and> unat k < tl_of q \<and> v = ps ! unat k)"

text \<open>A slot is free for the element of place \<open>k\<close> or holds it.\<close>

definition slot_ok :: "'e ring_buffer \<Rightarrow> 'e list \<Rightarrow> nat \<Rightarrow> bool" where
  "slot_ok q ps i \<longleftrightarrow> (\<exists>k. k mod cap q = i \<and> k < hd_of q + cap q
     \<and> (sq q i = k \<and> k < tl_of q + cap q
        \<or> sq q i = Suc k \<and> k < tl_of q \<and> bf q i = ps ! k))"

definition covered :: "'e ring_buffer \<Rightarrow> (nat \<Rightarrow> 'e rb_pc) \<Rightarrow> (nat \<times> 'e) list \<Rightarrow> bool" where
  "covered q pc gs \<longleftrightarrow>
     (\<forall>k<tl_of q. k < sq q k \<or> holder enq_place pc k)
   \<and> (\<forall>k<hd_of q. k \<in> fst ` set gs \<or> holder deq_place pc k)"

definition gets_ok :: "'e ring_buffer \<Rightarrow> 'e list \<Rightarrow> (nat \<times> 'e) list \<Rightarrow> bool" where
  "gets_ok q ps gs \<longleftrightarrow> distinct (map fst gs)
     \<and> (\<forall>(k, v)\<in>set gs. k < hd_of q \<and> k < tl_of q \<and> v = ps ! k \<and> Suc k < sq q k)"

definition mpmc_inv :: "nat \<Rightarrow> 'e mpmc \<Rightarrow> bool" where
  "mpmc_inv m t \<longleftrightarrow> shaped (mq t) \<and> cap (mq t) < 2 ^ 62 \<and> tl_of (mq t) \<le> m \<and> hd_of (mq t) \<le> m
     \<and> length (mputs t) = tl_of (mq t)
     \<and> (\<forall>i<cap (mq t). slot_ok (mq t) (mputs t) i)
     \<and> (\<forall>i. pc_ok (mq t) (mputs t) (mpc t i))
     \<and> unshared enq_place (mpc t) \<and> unshared deq_place (mpc t)
     \<and> covered (mq t) (mpc t) (mgets t) \<and> gets_ok (mq t) (mputs t) (mgets t)"

section \<open>Interference\<close>

text \<open>What one thread does never invalidates what another one knows.\<close>

lemma sq_cong: "a mod cap q = b mod cap q \<Longrightarrow> sq q a = sq q b"
  by (simp add: sq_def)

lemma bf_cong: "a mod cap q = b mod cap q \<Longrightarrow> bf q a = bf q b"
  by (simp add: bf_def)

text \<open>The counter in the hands of a thread.\<close>

fun counter :: "'e rb_pc \<Rightarrow> nat" where
  "counter RIdle = 0"
| "counter (TryEnqLoaded e k) = unat k"
| "counter (TryEnqChecked e k) = unat k"
| "counter (EnqSpin e k) = unat k"
| "counter (EnqCopy e k) = unat k"
| "counter (EnqPublish e k) = unat k"
| "counter (TryDeqLoaded k) = unat k"
| "counter (TryDeqChecked k) = unat k"
| "counter (DeqSpin k) = unat k"
| "counter (DeqCopy k) = unat k"
| "counter (DeqRelease k v) = unat k"

text \<open>The five changes of the shared state.\<close>

definition tail_claimed :: "'e ring_buffer \<Rightarrow> 'e ring_buffer \<Rightarrow> bool" where
  "tail_claimed q r \<longleftrightarrow> shaped r \<and> cap r = cap q \<and> tl_of r = Suc (tl_of q) \<and> hd_of r = hd_of q
     \<and> sq r = sq q \<and> bf r = bf q"

definition head_claimed :: "'e ring_buffer \<Rightarrow> 'e ring_buffer \<Rightarrow> bool" where
  "head_claimed q r \<longleftrightarrow> shaped r \<and> cap r = cap q \<and> tl_of r = tl_of q \<and> hd_of r = Suc (hd_of q)
     \<and> sq r = sq q \<and> bf r = bf q"

definition copied :: "nat \<Rightarrow> 'e \<Rightarrow> 'e ring_buffer \<Rightarrow> 'e ring_buffer \<Rightarrow> bool" where
  "copied k e q r \<longleftrightarrow> shaped r \<and> cap r = cap q \<and> tl_of r = tl_of q \<and> hd_of r = hd_of q \<and> sq r = sq q
     \<and> bf r = (\<lambda>j. if j mod cap q = k mod cap q then e else bf q j)"

definition marked :: "nat \<Rightarrow> nat \<Rightarrow> 'e ring_buffer \<Rightarrow> 'e ring_buffer \<Rightarrow> bool" where
  "marked k v q r \<longleftrightarrow> shaped r \<and> cap r = cap q \<and> tl_of r = tl_of q \<and> hd_of r = hd_of q \<and> bf r = bf q
     \<and> sq r = (\<lambda>j. if j mod cap q = k mod cap q then v else sq q j)"

lemma stable_tail:
  "pc_ok q ps p \<Longrightarrow> tail_claimed q r \<Longrightarrow> length ps = tl_of q \<Longrightarrow> pc_ok r (ps @ [e]) p"
  by (cases p) (auto simp: tail_claimed_def nth_append)

lemma stable_head: "pc_ok q ps p \<Longrightarrow> head_claimed q r \<Longrightarrow> pc_ok r ps p"
  by (cases p) (auto simp: head_claimed_def)

lemma stable_copied:
  assumes P: "pc_ok q ps p" and c: "copied k e q r" and k: "sq q k = k" and d: "enq_place p \<noteq> Some k"
  shows "pc_ok r ps p"
proof -
  have "bf r (counter p) = bf q (counter p) \<or> sq q (counter p) = k"
    using c k sq_cong [of "counter p" q k] by (auto simp: copied_def)
  then show ?thesis using P c d by (cases p) (auto simp: copied_def)
qed

lemma marked_cases:
  assumes "marked k v q r" and "2 \<le> cap q"
  shows "sq r j = sq q j \<or> sq q j = sq q k \<and> sq r j = v \<and> Suc j \<noteq> k \<and> j \<noteq> Suc k
     \<and> (j = k \<or> j + cap q \<le> k \<or> k + cap q \<le> j)"
proof (cases "j mod cap q = k mod cap q")
  case True
  then have "Suc j \<noteq> k" "j \<noteq> Suc k" using cong_Suc [OF assms(2)] by metis+
  moreover have "j = k \<or> j + cap q \<le> k \<or> k + cap q \<le> j"
    using cong_step [of j k "cap q"] cong_step [of k j "cap q"] True by (metis linorder_neqE_nat)
  ultimately show ?thesis using assms(1) True sq_cong [OF True] by (simp add: marked_def)
qed (use assms(1) in \<open>simp add: marked_def\<close>)

lemma stable_published:
  assumes "pc_ok q ps p" and "marked k (Suc k) q r" and "sq q k = k" "k < tl_of q"
    and "enq_place p \<noteq> Some k" and "2 \<le> cap q"
  shows "pc_ok r ps p"
proof -
  have "tl_of r = tl_of q" "hd_of r = hd_of q" "bf r = bf q" using assms(2) by (simp_all add: marked_def)
  then show ?thesis using marked_cases [OF assms(2,6), of "counter p"] assms(1,3-5)
    by (cases p; simp; (arith | metis less_irrefl n_not_Suc_n Suc_inject)?)
qed

lemma stable_released:
  assumes "pc_ok q ps p" and "marked k (k + cap q) q r" and "sq q k = Suc k" "k < hd_of q"
    and "deq_place p \<noteq> Some k" and "2 \<le> cap q"
  shows "pc_ok r ps p"
proof -
  have "tl_of r = tl_of q" "hd_of r = hd_of q" "bf r = bf q" using assms(2) by (simp_all add: marked_def)
  then show ?thesis using marked_cases [OF assms(2,6), of "counter p"] assms(1,3-5)
    by (cases p; simp; (arith | metis less_irrefl n_not_Suc_n Suc_inject)?)
qed

section \<open>The steps keep the invariant\<close>

lemma slot_okE:
  assumes "\<forall>i<cap q. slot_ok q ps i" and "shaped q"
  obtains j where "j mod cap q = k mod cap q" and "j < hd_of q + cap q"
    and "sq q k = j \<and> j < tl_of q + cap q \<or> sq q k = Suc j \<and> j < tl_of q \<and> bf q k = ps ! j"
proof -
  have i: "k mod cap q < cap q" using assms(2) by (simp add: shaped_def)
  then have "slot_ok q ps (k mod cap q)" using assms(1) by blast
  moreover have "sq q (k mod cap q) = sq q k" "bf q (k mod cap q) = bf q k"
    by (simp_all add: sq_def bf_def)
  ultimately show ?thesis using that by (auto simp: slot_ok_def)
qed

lemma mpmc_invD:
  assumes "mpmc_inv m t"
  shows "shaped (mq t)" and "cap (mq t) < 2 ^ 62" and "tl_of (mq t) \<le> m" and "hd_of (mq t) \<le> m"
    and "length (mputs t) = tl_of (mq t)" and "\<forall>i<cap (mq t). slot_ok (mq t) (mputs t) i"
    and "pc_ok (mq t) (mputs t) (mpc t i)" and "unshared enq_place (mpc t)"
    and "unshared deq_place (mpc t)" and "covered (mq t) (mpc t) (mgets t)"
    and "gets_ok (mq t) (mputs t) (mgets t)"
  using assms by (simp_all add: mpmc_inv_def)

text \<open>A step that changes neither the shared state nor the place the thread has claimed.\<close>

lemma inv_local:
  assumes I: "mpmc_inv m t" and p: "pc_ok (mq t) (mputs t) p"
    and e: "enq_place p = enq_place (mpc t i)" "deq_place p = deq_place (mpc t i)"
  shows "mpmc_inv (Suc m) (t\<lparr>mpc := (mpc t)(i := p)\<rparr>)"
proof -
  note D = mpmc_invD [OF I]
  have "covered (mq t) ((mpc t)(i := p)) (mgets t)"
    using D(10) e unfolding covered_def by (auto intro: holder_move)
  moreover have "unshared enq_place ((mpc t)(i := p))" "unshared deq_place ((mpc t)(i := p))"
    using D(8,9) e by (auto intro: unshared_move)
  ultimately show ?thesis using I p by (simp add: mpmc_inv_def)
qed

lemma enq_holder_lt: "\<forall>i. pc_ok q ps (pc i) \<Longrightarrow> holder enq_place pc k \<Longrightarrow> k < tl_of q"
proof -
  assume P: "\<forall>i. pc_ok q ps (pc i)" and "holder enq_place pc k"
  then obtain i where "enq_place (pc i) = Some k" by (auto simp: holder_def)
  then show ?thesis using spec [OF P, of i] by (cases "pc i") auto
qed

lemma deq_holder_lt: "\<forall>i. pc_ok q ps (pc i) \<Longrightarrow> holder deq_place pc k \<Longrightarrow> k < hd_of q"
proof -
  assume P: "\<forall>i. pc_ok q ps (pc i)" and "holder deq_place pc k"
  then obtain i where "deq_place (pc i) = Some k" by (auto simp: holder_def)
  then show ?thesis using spec [OF P, of i] by (cases "pc i") auto
qed

lemma inv_tail:
  assumes I: "mpmc_inv m t" and r: "tail_claimed (mq t) r"
    and p: "pc_ok r (mputs t @ [e]) p" "enq_place p = Some (tl_of (mq t))" "deq_place p = None"
    and o: "enq_place (mpc t i) = None" "deq_place (mpc t i) = None"
  shows "mpmc_inv (Suc m) (t\<lparr>mq := r, mpc := (mpc t)(i := p), mputs := mputs t @ [e]\<rparr>)"
proof -
  note D = mpmc_invD [OF I]
  have R: "cap r = cap (mq t)" "tl_of r = Suc (tl_of (mq t))" "hd_of r = hd_of (mq t)"
    "sq r = sq (mq t)" "bf r = bf (mq t)" "shaped r" using r by (simp_all add: tail_claimed_def)
  have "slot_ok r (mputs t @ [e]) j" if j: "slot_ok (mq t) (mputs t) j" for j
    using j D(5) by (fastforce simp: slot_ok_def R nth_append)
  moreover have "pc_ok r (mputs t @ [e]) (((mpc t)(i := p)) j)" for j
    using p(1) stable_tail [OF D(7) r D(5)] by simp
  moreover have "unshared enq_place ((mpc t)(i := p))"
    using p(2) enq_holder_lt [of "mq t" "mputs t" "mpc t" "tl_of (mq t)"] D(7)
    by (intro unshared_move [OF D(8)]) auto
  moreover have "unshared deq_place ((mpc t)(i := p))"
    using p(3) by (intro unshared_move [OF D(9)]) auto
  moreover have "covered r ((mpc t)(i := p)) (mgets t)"
    using D(10) p(2) o unfolding covered_def R less_Suc_eq
    by (auto intro: holder_move holder_new)
  moreover have "gets_ok r (mputs t @ [e]) (mgets t)"
    using D(11,5) by (auto simp: gets_ok_def R nth_append)
  ultimately show ?thesis using D(2-6) R by (simp add: mpmc_inv_def)
qed

lemma inv_head:
  assumes I: "mpmc_inv m t" and r: "head_claimed (mq t) r"
    and p: "pc_ok r (mputs t) p" "deq_place p = Some (hd_of (mq t))" "enq_place p = None"
    and o: "enq_place (mpc t i) = None" "deq_place (mpc t i) = None"
  shows "mpmc_inv (Suc m) (t\<lparr>mq := r, mpc := (mpc t)(i := p)\<rparr>)"
proof -
  note D = mpmc_invD [OF I]
  have R: "cap r = cap (mq t)" "tl_of r = tl_of (mq t)" "hd_of r = Suc (hd_of (mq t))"
    "sq r = sq (mq t)" "bf r = bf (mq t)" "shaped r" using r by (simp_all add: head_claimed_def)
  have "slot_ok r (mputs t) j" if j: "slot_ok (mq t) (mputs t) j" for j
    using j by (fastforce simp: slot_ok_def R)
  moreover have "pc_ok r (mputs t) (((mpc t)(i := p)) j)" for j
    using p(1) stable_head [OF D(7) r] by simp
  moreover have "unshared deq_place ((mpc t)(i := p))"
    using p(2) deq_holder_lt [of "mq t" "mputs t" "mpc t" "hd_of (mq t)"] D(7)
    by (intro unshared_move [OF D(9)]) auto
  moreover have "unshared enq_place ((mpc t)(i := p))"
    using p(3) by (intro unshared_move [OF D(8)]) auto
  moreover have "covered r ((mpc t)(i := p)) (mgets t)"
    using D(10) p(2) o unfolding covered_def R less_Suc_eq
    by (auto intro: holder_move holder_new)
  moreover have "gets_ok r (mputs t) (mgets t)" using D(11) by (auto simp: gets_ok_def R)
  ultimately show ?thesis using D(2-6) R by (simp add: mpmc_inv_def)
qed

lemma inv_copied:
  assumes I: "mpmc_inv m t" and c: "mpc t i = EnqCopy e k" and r: "copied (unat k) e (mq t) r"
  shows "mpmc_inv (Suc m) (t\<lparr>mq := r, mpc := (mpc t)(i := EnqPublish e k)\<rparr>)"
proof -
  note D = mpmc_invD [OF I]
  have R: "cap r = cap (mq t)" "tl_of r = tl_of (mq t)" "hd_of r = hd_of (mq t)" "sq r = sq (mq t)"
    "shaped r" "bf r = (\<lambda>j. if j mod cap (mq t) = unat k mod cap (mq t) then e else bf (mq t) j)"
    using r by (simp_all add: copied_def)
  have n: "2 \<le> cap (mq t)" using D(1) by (simp add: shaped_def)
  have K: "sq (mq t) (unat k) = unat k" "unat k < tl_of (mq t)" "mputs t ! unat k = e"
    using D(7) [of i] c by auto
  have "slot_ok r (mputs t) j" if j: "slot_ok (mq t) (mputs t) j" "j < cap (mq t)" for j
  proof -
    obtain a where a: "a mod cap (mq t) = j" "a < hd_of (mq t) + cap (mq t)"
      "sq (mq t) j = a \<and> a < tl_of (mq t) + cap (mq t)
       \<or> sq (mq t) j = Suc a \<and> a < tl_of (mq t) \<and> bf (mq t) j = mputs t ! a"
      using j(1) by (auto simp: slot_ok_def)
    have "bf r j = bf (mq t) j \<or> sq (mq t) j = a"
    proof (cases "j = unat k mod cap (mq t)")
      case True
      then have "sq (mq t) j = unat k" using sq_cong [of j "mq t" "unat k"] K(1) by simp
      then have "unat k \<noteq> Suc a" using cong_Suc [OF n] a(1) True by metis
      then show ?thesis using a(3) \<open>sq (mq t) j = unat k\<close> by auto
    qed (use j(2) in \<open>simp add: R\<close>)
    then show ?thesis using a unfolding slot_ok_def R(1-4) by (intro exI [of _ a]) auto
  qed
  moreover have "pc_ok r (mputs t) (((mpc t)(i := EnqPublish e k)) j)" for j
  proof (cases "j = i")
    case False
    then have "enq_place (mpc t j) \<noteq> Some (unat k)" using D(8) c unfolding unshared_def by auto
    then show ?thesis using stable_copied [OF D(7) r K(1)] False by simp
  qed (use K in \<open>simp add: R\<close>)
  moreover have "unshared enq_place ((mpc t)(i := EnqPublish e k))"
    "unshared deq_place ((mpc t)(i := EnqPublish e k))"
    using c by (auto intro: unshared_move [OF D(8)] unshared_move [OF D(9)])
  moreover have "covered r ((mpc t)(i := EnqPublish e k)) (mgets t)"
    using D(10) c unfolding covered_def R by (auto intro: holder_move)
  moreover have "gets_ok r (mputs t) (mgets t)" using D(11) by (auto simp: gets_ok_def R)
  ultimately show ?thesis using D(2-6) R by (simp add: mpmc_inv_def)
qed

lemma inv_published:
  assumes I: "mpmc_inv m t" and c: "mpc t i = EnqPublish e k"
    and r: "marked (unat k) (Suc (unat k)) (mq t) r"
  shows "mpmc_inv (Suc m) (t\<lparr>mq := r, mpc := (mpc t)(i := RIdle)\<rparr>)"
proof -
  note D = mpmc_invD [OF I]
  have R: "cap r = cap (mq t)" "tl_of r = tl_of (mq t)" "hd_of r = hd_of (mq t)" "bf r = bf (mq t)"
    "shaped r" using r by (simp_all add: marked_def)
  have n: "2 \<le> cap (mq t)" using D(1) by (simp add: shaped_def)
  have K: "sq (mq t) (unat k) = unat k" "unat k < tl_of (mq t)" "mputs t ! unat k = e"
    "bf (mq t) (unat k) = e" using D(7) [of i] c by auto
  note M = marked_cases [OF r n]
  have "slot_ok r (mputs t) j" if j: "slot_ok (mq t) (mputs t) j" "j < cap (mq t)" for j
  proof (cases "j = unat k mod cap (mq t)")
    case True
    then have S: "sq r j = Suc (unat k)" "sq (mq t) j = unat k" "bf (mq t) j = e"
      using r K sq_cong [of j "mq t" "unat k"] bf_cong [of j "mq t" "unat k"] by (simp_all add: marked_def)
    obtain a where a: "a mod cap (mq t) = j" "a < hd_of (mq t) + cap (mq t)"
      "unat k = a \<or> unat k = Suc a" using j(1) S(2) by (auto simp: slot_ok_def)
    then have "unat k = a" using cong_Suc [OF n] True by metis
    then show ?thesis using S a(1,2) K(2,3) unfolding slot_ok_def R
      by (intro exI [of _ "unat k"]) simp
  next
    case False
    then have "sq r j = sq (mq t) j" using r j(2) by (simp add: marked_def)
    then show ?thesis using j(1) by (simp add: slot_ok_def R)
  qed
  moreover have "pc_ok r (mputs t) (((mpc t)(i := RIdle)) j)" for j
  proof (cases "j = i")
    case False
    then have "enq_place (mpc t j) \<noteq> Some (unat k)" using D(8) c unfolding unshared_def by auto
    then show ?thesis using stable_published [OF D(7) r K(1,2) _ n] False by simp
  qed simp
  moreover have "unshared enq_place ((mpc t)(i := RIdle))" "unshared deq_place ((mpc t)(i := RIdle))"
    by (auto intro: unshared_move [OF D(8)] unshared_move [OF D(9)])
  moreover have "covered r ((mpc t)(i := RIdle)) (mgets t)"
  proof -
    have "a < sq r a \<or> holder enq_place ((mpc t)(i := RIdle)) a" if "a < tl_of (mq t)" for a
    proof (cases "a = unat k")
      case True
      then show ?thesis using r by (simp add: marked_def)
    next
      case False
      have "a < sq (mq t) a \<or> holder enq_place (mpc t) a" using D(10) that by (simp add: covered_def)
      then show ?thesis
      proof
        assume "a < sq (mq t) a"
        then show ?thesis using M [of a] K(1) by linarith
      next
        assume "holder enq_place (mpc t) a"
        then have "holder enq_place ((mpc t)(i := RIdle)) a"
          using False c by (intro holder_move) auto
        then show ?thesis ..
      qed
    qed
    moreover have "a \<in> fst ` set (mgets t) \<or> holder deq_place ((mpc t)(i := RIdle)) a"
      if "a < hd_of (mq t)" for a
      using D(10) that c unfolding covered_def by (auto intro: holder_move)
    ultimately show ?thesis by (simp add: covered_def R)
  qed
  moreover have "gets_ok r (mputs t) (mgets t)"
  proof -
    have "Suc a < sq r a" if "Suc a < sq (mq t) a" for a using that M [of a] K(1) by linarith
    then show ?thesis using D(11) by (auto simp: gets_ok_def R)
  qed
  ultimately show ?thesis using D(2-6) R by (simp add: mpmc_inv_def)
qed

lemma inv_released:
  assumes I: "mpmc_inv m t" and c: "mpc t i = DeqRelease k v"
    and r: "marked (unat k) (unat k + cap (mq t)) (mq t) r"
  shows "mpmc_inv (Suc m) (t\<lparr>mq := r, mpc := (mpc t)(i := RIdle), mgets := mgets t @ [(unat k, v)]\<rparr>)"
proof -
  note D = mpmc_invD [OF I]
  have R: "cap r = cap (mq t)" "tl_of r = tl_of (mq t)" "hd_of r = hd_of (mq t)" "bf r = bf (mq t)"
    "shaped r" using r by (simp_all add: marked_def)
  have n: "2 \<le> cap (mq t)" using D(1) by (simp add: shaped_def)
  have K: "sq (mq t) (unat k) = Suc (unat k)" "unat k < hd_of (mq t)" "unat k < tl_of (mq t)"
    "v = mputs t ! unat k" using D(7) [of i] c by auto
  note M = marked_cases [OF r n]
  have up: "a < sq r b" if "a < sq (mq t) b" for a b using that M [of b] K(1) n by linarith
  have "slot_ok r (mputs t) j" if j: "slot_ok (mq t) (mputs t) j" "j < cap (mq t)" for j
  proof (cases "j = unat k mod cap (mq t)")
    case True
    then have "sq r j = unat k + cap (mq t)" using r by (simp add: marked_def)
    then show ?thesis using K(2,3) True unfolding slot_ok_def R
      by (intro exI [of _ "unat k + cap (mq t)"]) simp
  next
    case False
    then have "sq r j = sq (mq t) j" using r j(2) by (simp add: marked_def)
    then show ?thesis using j(1) by (simp add: slot_ok_def R)
  qed
  moreover have "pc_ok r (mputs t) (((mpc t)(i := RIdle)) j)" for j
  proof (cases "j = i")
    case False
    then have "deq_place (mpc t j) \<noteq> Some (unat k)" using D(9) c unfolding unshared_def by auto
    then show ?thesis using stable_released [OF D(7) r K(1,2) _ n] False by simp
  qed simp
  moreover have "unshared enq_place ((mpc t)(i := RIdle))" "unshared deq_place ((mpc t)(i := RIdle))"
    by (auto intro: unshared_move [OF D(8)] unshared_move [OF D(9)])
  moreover have "covered r ((mpc t)(i := RIdle)) (mgets t @ [(unat k, v)])"
  proof -
    have "a < sq r a \<or> holder enq_place ((mpc t)(i := RIdle)) a" if "a < tl_of (mq t)" for a
    proof -
      have "a < sq (mq t) a \<or> holder enq_place (mpc t) a" using D(10) that by (simp add: covered_def)
      then show ?thesis using c up by (auto intro: holder_move)
    qed
    moreover have "a \<in> fst ` set (mgets t @ [(unat k, v)]) \<or> holder deq_place ((mpc t)(i := RIdle)) a"
      if "a < hd_of (mq t)" for a
    proof (cases "a = unat k")
      case False
      have "a \<in> fst ` set (mgets t) \<or> holder deq_place (mpc t) a"
        using D(10) that by (simp add: covered_def)
      then show ?thesis
      proof
        assume "holder deq_place (mpc t) a"
        then have "holder deq_place ((mpc t)(i := RIdle)) a"
          using False c by (intro holder_move) auto
        then show ?thesis ..
      qed simp
    qed simp
    ultimately show ?thesis by (simp add: covered_def R)
  qed
  moreover have "gets_ok r (mputs t) (mgets t @ [(unat k, v)])"
  proof -
    have "unat k \<notin> fst ` set (mgets t)" using D(11) K(1) by (force simp: gets_ok_def)
    moreover have "Suc (unat k) < sq r (unat k)" using r n by (simp add: marked_def)
    ultimately show ?thesis using D(11) K up by (auto simp: gets_ok_def R)
  qed
  ultimately show ?thesis using D(2-6) R by (simp add: mpmc_inv_def)
qed

lemma mpmc_inv_init:
  assumes "mpmc_init t"
  shows "mpmc_inv 0 t"
proof -
  obtain rb sz buffer seq es where i: "ring_buffer_init rb sz buffer seq es = Some (0, mq t)"
    and l: "length buffer = unat sz" "length seq = unat sz" "unat sz < 2 ^ 62"
    and z: "\<forall>i. mpc t i = RIdle" "mputs t = []" "mgets t = []"
    using assms unfolding mpmc_init_def by blast
  have s: "3 \<le> sz" using i by (simp add: ring_buffer_init_def EINVAL_def split: if_splits)
  then have s3: "3 \<le> unat sz" by (simp add: word_le_nat_alt)
  have q: "mq t = rb\<lparr>rb_buf_size := sz, rb_buffer := buffer, rb_buf_elem_size := es,
      rb_seq := map of_nat [0..<unat sz], rb_head := 0, rb_tail := 0\<rparr>"
    using i s l by (simp add: ring_buffer_init_def init_seq_loop not_less [symmetric])
  have S: "sq (mq t) j = j" if "j < unat sz" for j
    using that l(3) by (simp add: sq_def q cap_def unat_of_nat_u64)
  have c: "cap (mq t) = unat sz" "tl_of (mq t) = 0" "hd_of (mq t) = 0" by (simp_all add: q cap_def)
  have "shaped (mq t)" using s3 l by (simp add: shaped_def c) (simp add: q)
  moreover have "slot_ok (mq t) (mputs t) j" if "j < unat sz" for j
    using S [OF that] that unfolding slot_ok_def c by (intro exI [of _ j]) simp
  ultimately show ?thesis using l(3) z
    by (simp add: mpmc_inv_def c unshared_def covered_def gets_ok_def)
qed

text \<open>No slot is ahead of the counters, and a slot marked as filled holds its element.\<close>

lemma seq_bounds:
  assumes "mpmc_inv m t"
  shows "sq (mq t) (tl_of (mq t)) \<le> tl_of (mq t)" and "sq (mq t) (hd_of (mq t)) \<le> Suc (hd_of (mq t))"
proof -
  note D = mpmc_invD [OF assms]
  obtain j where j: "j mod cap (mq t) = tl_of (mq t) mod cap (mq t)"
    "sq (mq t) (tl_of (mq t)) = j \<and> j < tl_of (mq t) + cap (mq t)
     \<or> sq (mq t) (tl_of (mq t)) = Suc j \<and> j < tl_of (mq t)"
    by (rule slot_okE [OF D(6,1), of "tl_of (mq t)"]) blast
  then show "sq (mq t) (tl_of (mq t)) \<le> tl_of (mq t)"
    using cong_step [of "tl_of (mq t)" j "cap (mq t)"] by fastforce
  obtain i where i: "i mod cap (mq t) = hd_of (mq t) mod cap (mq t)" "i < hd_of (mq t) + cap (mq t)"
    "sq (mq t) (hd_of (mq t)) = i \<or> sq (mq t) (hd_of (mq t)) = Suc i"
    by (rule slot_okE [OF D(6,1), of "hd_of (mq t)"]) blast
  then have "i \<le> hd_of (mq t)" using cong_step [of "hd_of (mq t)" i "cap (mq t)"] by fastforce
  then show "sq (mq t) (hd_of (mq t)) \<le> Suc (hd_of (mq t))" using i(3) by auto
qed

lemma full_slot:
  assumes "mpmc_inv m t" and "sq (mq t) k = Suc k"
  shows "k < tl_of (mq t)" and "bf (mq t) k = mputs t ! k"
proof -
  note D = mpmc_invD [OF assms(1)]
  obtain j where j: "j mod cap (mq t) = k mod cap (mq t)"
    "Suc k = j \<or> Suc k = Suc j \<and> j < tl_of (mq t) \<and> bf (mq t) k = mputs t ! j"
    by (rule slot_okE [OF D(6,1), of k]) (use assms(2) in auto)
  moreover have "Suc k \<noteq> j" using cong_Suc [of "cap (mq t)" k] D(1) j(1) by (auto simp: shaped_def)
  ultimately show "k < tl_of (mq t)" "bf (mq t) k = mputs t ! k" by auto
qed

lemma mpmc_inv_step:
  assumes I: "mpmc_inv m t" and st: "rstep t u" and m: "m < 2 ^ 62"
  shows "mpmc_inv (Suc m) u"
proof -
  note D = mpmc_invD [OF I]
  have big: "cap (mq t) < 2 ^ 62" "tl_of (mq t) < 2 ^ 62" "hd_of (mq t) < 2 ^ 62"
    using D(2-4) m by simp_all
  have suc: "unat (k + 1) = Suc (unat k)" if "unat k < 2 ^ 63" for k :: u64
    using that by (simp add: unat_word_ariths)
  have T: "tail_claimed (mq t) ((mq t)\<lparr>rb_tail := rb_tail (mq t) + 1\<rparr>)"
    using D(1) suc [of "rb_tail (mq t)"] big
    by (auto simp: tail_claimed_def shaped_def cap_def sq_def bf_def)
  have H: "head_claimed (mq t) ((mq t)\<lparr>rb_head := rb_head (mq t) + 1\<rparr>)"
    using D(1) suc [of "rb_head (mq t)"] big
    by (auto simp: head_claimed_def shaped_def cap_def sq_def bf_def)
  from st show ?thesis
  proof (cases rule: rstep.cases)
    case (try_enq_load i e)
    then show ?thesis using inv_local [OF I, of "TryEnqLoaded e (rb_tail (mq t))" i] by simp
  next
    case (try_enq_check i e k s)
    then show ?thesis using D(7) [of i] seq_at_eq_iff [OF D(1) try_enq_check(3), of k]
      by (auto intro!: inv_local [OF I])
  next
    case (try_enq_claim i e k)
    then show ?thesis using D(7) [of i] T D(5) unfolding try_enq_claim(1)
      by (intro inv_tail [OF I]) (auto simp: tail_claimed_def nth_append)
  next
    case (try_enq_lost i e k)
    then show ?thesis using inv_local [OF I, of RIdle i] by simp
  next
    case (enq_claim i k e)
    then show ?thesis using seq_bounds(1) [OF I] T D(5) unfolding enq_claim(1)
      by (intro inv_tail [OF I]) (auto simp: tail_claimed_def nth_append)
  next
    case (enq_spin i e k s)
    then show ?thesis using D(7) [of i] seq_at_eq_iff [OF D(1) enq_spin(3), of k]
      by (auto intro!: inv_local [OF I])
  next
    case (enq_copy i e k q)
    then show ?thesis using inv_copied [OF I enq_copy(2), of q] copy_in_fields [OF D(1) enq_copy(3)]
      by (simp add: copied_def)
  next
    case (enq_publish i e k q)
    have "unat (k + 1) = Suc (unat k)" using suc [of k] D(7) [of i] enq_publish(2) big by simp
    note F = set_seq_fields [OF D(1) enq_publish(3), unfolded this]
    have "marked (unat k) (Suc (unat k)) (mq t) q" unfolding marked_def F by (simp add: F(1))
    then show ?thesis using inv_published [OF I enq_publish(2), of q] enq_publish(1) by simp
  next
    case (try_deq_load i)
    then show ?thesis using inv_local [OF I, of "TryDeqLoaded (rb_head (mq t))" i] by simp
  next
    case (try_deq_check i k s)
    have "unat (k + 1) = Suc (unat k)" using suc [of k] D(7) [of i] try_deq_check(2) big by simp
    then show ?thesis using D(7) [of i] seq_at_eq_iff [OF D(1) try_deq_check(3), of "k + 1"] try_deq_check
      by (auto intro!: inv_local [OF I])
  next
    case (try_deq_claim i k)
    then show ?thesis using D(7) [of i] H unfolding try_deq_claim(1)
      by (intro inv_head [OF I]) (auto simp: head_claimed_def)
  next
    case (try_deq_lost i k)
    then show ?thesis using inv_local [OF I, of RIdle i] by simp
  next
    case (deq_claim i k)
    then show ?thesis using seq_bounds(2) [OF I] H unfolding deq_claim(1)
      by (intro inv_head [OF I]) (auto simp: head_claimed_def)
  next
    case (deq_spin i k s)
    have "unat (k + 1) = Suc (unat k)" using suc [of k] D(7) [of i] deq_spin(2) big by simp
    then show ?thesis using D(7) [of i] seq_at_eq_iff [OF D(1) deq_spin(3), of "k + 1"] deq_spin
      by (auto intro!: inv_local [OF I])
  next
    case (deq_copy i k v)
    then have "sq (mq t) (unat k) = Suc (unat k)" "unat k < hd_of (mq t)" using D(7) [of i] by auto
    then show ?thesis using full_slot [OF I, of "unat k"] shaped_copy_out [OF D(1), of k v] deq_copy
      by (auto intro!: inv_local [OF I])
  next
    case (deq_release i k v q)
    have "unat (k + rb_buf_size (mq t)) = unat k + cap (mq t)"
      using D(7) [of i] deq_release(2) big by (simp add: unat_word_ariths cap_def)
    note F = set_seq_fields [OF D(1) deq_release(3), unfolded this]
    have "marked (unat k) (unat k + cap (mq t)) (mq t) q" unfolding marked_def F by (simp add: F(1))
    then show ?thesis using inv_released [OF I deq_release(2), of q] deq_release(1) by simp
  qed
qed

interpretation mpmc: inductive_invariant
  "\<lambda>(m, t). m = 0 \<and> mpmc_init t"
  "\<lambda>(m, t) (k, u). k = Suc m \<and> m < 2 ^ 62 \<and> rstep t u"
  "\<lambda>(m, t). mpmc_inv m t \<and> m \<le> 2 ^ 62"
proof
  fix s :: "nat \<times> 'a mpmc" assume "case s of (m, t) \<Rightarrow> m = 0 \<and> mpmc_init t"
  then show "case s of (m, t) \<Rightarrow> mpmc_inv m t \<and> m \<le> 2 ^ 62" using mpmc_inv_init by auto
next
  fix s u :: "nat \<times> 'a mpmc"
  assume "case s of (m, t) \<Rightarrow> mpmc_inv m t \<and> m \<le> 2 ^ 62"
    and "(case s of (m, t) \<Rightarrow> \<lambda>(k, u). k = Suc m \<and> m < 2 ^ 62 \<and> rstep t u) u"
  then show "case u of (m, t) \<Rightarrow> mpmc_inv m t \<and> m \<le> 2 ^ 62" using mpmc_inv_step by auto
qed

text \<open>The executions, with the number of their steps, which bounds both counters.\<close>

definition mpmc_runs :: "nat \<Rightarrow> 'e mpmc \<Rightarrow> bool" where
  "mpmc_runs m t \<longleftrightarrow> reachable (\<lambda>(m, t). m = 0 \<and> mpmc_init t)
     (\<lambda>(m, t) (k, u). k = Suc m \<and> m < 2 ^ 62 \<and> rstep t u) (m, t)"

lemma mpmc_runs_inv: "mpmc_runs m t \<Longrightarrow> mpmc_inv m t \<and> m \<le> 2 ^ 62"
  using mpmc.inv_reachable [of "(m, t)"] by (simp add: mpmc_runs_def)

lemma mpmc_runs_init: "mpmc_init t \<Longrightarrow> mpmc_runs 0 t"
  by (simp add: mpmc_runs_def reachable.start)

lemma mpmc_runs_step: "mpmc_runs m t \<Longrightarrow> rstep t u \<Longrightarrow> m < 2 ^ 62 \<Longrightarrow> mpmc_runs (Suc m) u"
  unfolding mpmc_runs_def by (rule reachable.move) auto

section \<open>When no operation is under way\<close>

lemma idle_places:
  assumes "mpmc_inv m t" and "\<forall>i. mpc t i = RIdle"
  shows "k < tl_of (mq t) \<Longrightarrow> k < sq (mq t) k"
    and "k < hd_of (mq t) \<Longrightarrow> k \<in> fst ` set (mgets t)"
    and "k < hd_of (mq t) \<Longrightarrow> k < tl_of (mq t) \<and> Suc k < sq (mq t) k"
proof -
  note D = mpmc_invD [OF assms(1)]
  have h: "\<not> holder enq_place (mpc t) k" "\<not> holder deq_place (mpc t) k"
    using assms(2) by (auto simp: holder_def)
  show "k < tl_of (mq t) \<Longrightarrow> k < sq (mq t) k" and g: "k < hd_of (mq t) \<Longrightarrow> k \<in> fst ` set (mgets t)"
    using D(10) h by (auto simp: covered_def)
  then show "k < hd_of (mq t) \<Longrightarrow> k < tl_of (mq t) \<and> Suc k < sq (mq t) k"
    using D(11) by (fastforce simp: gets_ok_def)
qed

lemma idle_seq:
  assumes I: "mpmc_inv m t" and i: "\<forall>i. mpc t i = RIdle"
  shows "hd_of (mq t) \<le> k \<Longrightarrow> k < tl_of (mq t) \<Longrightarrow> sq (mq t) k = Suc k"
    and "tl_of (mq t) \<le> k \<Longrightarrow> k < hd_of (mq t) + cap (mq t) \<Longrightarrow> sq (mq t) k = k"
    and "tl_of (mq t) \<le> hd_of (mq t) + cap (mq t)"
proof -
  note D = mpmc_invD [OF I] and P = idle_places [OF I i]
  have J: "\<exists>j. j mod cap (mq t) = k mod cap (mq t) \<and> j < hd_of (mq t) + cap (mq t)
      \<and> (sq (mq t) k = j \<and> j < tl_of (mq t) + cap (mq t) \<or> sq (mq t) k = Suc j \<and> j < tl_of (mq t))
      \<and> (j = k \<or> j + cap (mq t) \<le> k \<or> k + cap (mq t) \<le> j)" for k
  proof (rule slot_okE [OF D(6,1), of k])
    fix j assume j: "j mod cap (mq t) = k mod cap (mq t)" "j < hd_of (mq t) + cap (mq t)"
      "sq (mq t) k = j \<and> j < tl_of (mq t) + cap (mq t)
       \<or> sq (mq t) k = Suc j \<and> j < tl_of (mq t) \<and> bf (mq t) k = mputs t ! j"
    then have "j = k \<or> j + cap (mq t) \<le> k \<or> k + cap (mq t) \<le> j"
      using cong_step [of j k "cap (mq t)"] cong_step [of k j "cap (mq t)"] by (metis linorder_neqE_nat)
    then show ?thesis using j by blast
  qed
  show "sq (mq t) k = Suc k" if "hd_of (mq t) \<le> k" "k < tl_of (mq t)"
    using J [of k] P(1) [of k] that by fastforce
  show "tl_of (mq t) \<le> hd_of (mq t) + cap (mq t)"
    using J [of "hd_of (mq t) + cap (mq t)"] P(1) [of "hd_of (mq t) + cap (mq t)"] by fastforce
  show "sq (mq t) k = k" if k: "tl_of (mq t) \<le> k" "k < hd_of (mq t) + cap (mq t)"
  proof -
    obtain j where j: "j mod cap (mq t) = k mod cap (mq t)" "sq (mq t) k = j \<or> sq (mq t) k = Suc j"
      "j < tl_of (mq t) + cap (mq t)" "sq (mq t) k = Suc j \<Longrightarrow> j < tl_of (mq t)"
      "j = k \<or> j + cap (mq t) \<le> k \<or> k + cap (mq t) \<le> j" using J [of k] by auto
    have "\<not> j < hd_of (mq t)" using P(3) [of j] sq_cong [OF j(1)] j(2) by auto
    then show ?thesis using j(2-5) k by auto
  qed
qed

end
