(* ===== verification/MPMCProps.thy ===== *)
theory MPMCProps
  imports RingBufferMPMC 
begin

text \<open>
  What the ring buffer guarantees to threads that use it at the same time: elements come out in the
  order in which their places were claimed, each once; two copies never meet in a slot; the threads
  only wait for each other when the buffer is full or empty; and an operation that runs alone is the
  sequential function of theory \<^theory_text>\<open>RingBuffer\<close>.
\<close>

section \<open>The sequential view\<close>

lemma idle_rb_inv:
  assumes I: "mpmc_inv m t" and i: "\<forall>i. mpc t i = RIdle" and m: "m \<le> 2 ^ 62"
  shows "rb_inv (2 ^ 62) (mq t)" and "rb_contents (mq t) = drop (hd_of (mq t)) (mputs t)"
    and "hd_of (mq t) \<le> tl_of (mq t)"
proof -
  note D = mpmc_invD [OF I] and S = idle_seq [OF I i]
  show le: "hd_of (mq t) \<le> tl_of (mq t)"
    using idle_places(3) [OF I i, of "hd_of (mq t) - 1"] by (cases "hd_of (mq t)") auto
  have W: "rb_seq (mq t) ! (k mod cap (mq t)) = of_nat j" if "sq (mq t) k = j" for j k
    using that by (auto simp: sq_def)
  show "rb_inv (2 ^ 62) (mq t)" unfolding rb_inv_def Let_def cap_def [symmetric]
  proof (intro conjI ballI)
    show "rb_seq (mq t) ! (k mod cap (mq t)) = of_nat (k + 1)" if "k \<in> {hd_of (mq t)..<tl_of (mq t)}" for k
      using W [OF S(1) [of k]] that by simp
    show "rb_seq (mq t) ! (k mod cap (mq t)) = of_nat k"
      if "k \<in> {tl_of (mq t)..<hd_of (mq t) + cap (mq t)}" for k
      using W [OF S(2) [of k]] that by simp
  qed (use D(1-4) m le S(3) in \<open>auto simp: shaped_def\<close>)
  have "bf (mq t) k = mputs t ! k" if "hd_of (mq t) \<le> k" "k < tl_of (mq t)" for k
    using full_slot(2) [OF I S(1) [OF that]] .
  then show "rb_contents (mq t) = drop (hd_of (mq t)) (mputs t)"
    using D(5) le by (intro nth_equalityI) (auto simp: rb_contents_def bf_def cap_def)
qed

lemma gets_first:
  assumes I: "mpmc_inv m t" and i: "\<forall>i. mpc t i = RIdle"
  shows "mset (mgets t) = mset (zip [0..<hd_of (mq t)] (mputs t))"
proof -
  note D = mpmc_invD [OF I]
  have "distinct (map fst (mgets t))" and g: "\<forall>(k, v)\<in>set (mgets t). k < hd_of (mq t) \<and> k < tl_of (mq t) \<and> v = mputs t ! k"
    using D(11) by (auto simp: gets_ok_def)
  then have d: "distinct (mgets t)" by (simp add: distinct_map)
  have "set (mgets t) = set (zip [0..<hd_of (mq t)] (mputs t))"
  proof (intro set_eqI iffI)
    fix x assume x: "x \<in> set (mgets t)"
    then have "fst x < hd_of (mq t)" "fst x < length (mputs t)" "snd x = mputs t ! fst x"
      using g D(5) by auto
    then show "x \<in> set (zip [0..<hd_of (mq t)] (mputs t))"
      by (cases x) (auto simp: in_set_zip intro!: exI [of _ "fst x"])
  next
    fix x assume "x \<in> set (zip [0..<hd_of (mq t)] (mputs t))"
    then have x: "fst x < hd_of (mq t)" "snd x = mputs t ! fst x" by (auto simp: in_set_zip)
    then have "fst x \<in> fst ` set (mgets t)" using idle_places(2) [OF I i] by blast
    then obtain v where v: "(fst x, v) \<in> set (mgets t)" by auto
    then have "v = snd x" using g x(2) by auto
    then show "x \<in> set (mgets t)" using v by simp
  qed
  moreover have "distinct (zip [0..<hd_of (mq t)] (mputs t))" by (simp add: distinct_zipI1)
  ultimately show ?thesis using d by (simp add: set_eq_iff_mset_eq_distinct)
qed

section \<open>Waiting\<close>

text \<open>A thread that is not idle, and is not waiting for its slot, can take a step.\<close>

lemma busy_moves:
  assumes I: "mpmc_inv m t" and p: "mpc t i \<noteq> RIdle"
    and e: "\<And>e k. mpc t i = EnqSpin e k \<Longrightarrow> sq (mq t) (unat k) = unat k"
    and d: "\<And>k. mpc t i = DeqSpin k \<Longrightarrow> sq (mq t) (unat k) = Suc (unat k)" and m: "m \<le> 2 ^ 62"
  shows "\<exists>u. rstep t u \<and> mpc u i \<noteq> mpc t i"
proof -
  note D = mpmc_invD [OF I]
  have go: ?thesis if "rstep t u" "mpc u i \<noteq> mpc t i" for u using that by blast
  have s: "slot (mq t) k = Some (unat k mod cap (mq t))" "unat k mod cap (mq t) < cap (mq t)" for k
    using D(1) slot_nat [of "mq t" k] by (simp_all add: shaped_def cap_def)
  have l: "length (rb_seq (mq t)) = cap (mq t)" "length (rb_buffer (mq t)) = cap (mq t)"
    using D(1) by (simp_all add: shaped_def)
  have q: "\<exists>s. seq_at (mq t) k = Some s" "\<exists>r. copy_in k e (mq t) = Some r"
    "\<exists>v. copy_out k (mq t) = Some v" "\<exists>r. set_seq k w (mq t) = Some r" for k e w
    using s l by (simp_all add: seq_at_def copy_in_def copy_out_def set_seq_def idx_def upd_idx_def)
  show ?thesis
  proof (cases "mpc t i")
    case (TryEnqLoaded e k)
    obtain s where "seq_at (mq t) k = Some s" using q by blast
    from go [OF rstep.try_enq_check [OF TryEnqLoaded this]] TryEnqLoaded show ?thesis by simp
  next
    case (TryEnqChecked e k)
    show ?thesis
      using go [OF rstep.try_enq_claim [OF TryEnqChecked]] go [OF rstep.try_enq_lost [OF TryEnqChecked]]
        TryEnqChecked by (cases "rb_tail (mq t) = k") simp_all
  next
    case (EnqSpin e k)
    obtain s where s: "seq_at (mq t) k = Some s" using q by blast
    then have "s = k" using e [OF EnqSpin] seq_at_eq_iff [OF D(1) s] by simp
    then show ?thesis using go [OF rstep.enq_spin [OF EnqSpin s]] EnqSpin by simp
  next
    case (EnqCopy e k)
    obtain r where "copy_in k e (mq t) = Some r" using q by blast
    from go [OF rstep.enq_copy [OF EnqCopy this]] EnqCopy show ?thesis by simp
  next
    case (EnqPublish e k)
    obtain r where "set_seq k (k + 1) (mq t) = Some r" using q by blast
    from go [OF rstep.enq_publish [OF EnqPublish this]] EnqPublish show ?thesis by simp
  next
    case (TryDeqLoaded k)
    obtain s where "seq_at (mq t) k = Some s" using q by blast
    from go [OF rstep.try_deq_check [OF TryDeqLoaded this]] TryDeqLoaded show ?thesis by simp
  next
    case (TryDeqChecked k)
    show ?thesis
      using go [OF rstep.try_deq_claim [OF TryDeqChecked]] go [OF rstep.try_deq_lost [OF TryDeqChecked]]
        TryDeqChecked by (cases "rb_head (mq t) = k") simp_all
  next
    case (DeqSpin k)
    obtain s where s: "seq_at (mq t) k = Some s" using q by blast
    have "unat k < 2 ^ 63" using D(7) [of i] D(4) m DeqSpin by simp
    then have "unat (k + 1) = Suc (unat k)" by (simp add: unat_word_ariths)
    then have "s = k + 1" using d [OF DeqSpin] seq_at_eq_iff [OF D(1) s, of "k + 1"] by simp
    then show ?thesis using go [OF rstep.deq_spin [OF DeqSpin s]] DeqSpin by simp
  next
    case (DeqCopy k)
    obtain v where "copy_out k (mq t) = Some v" using q by blast
    from go [OF rstep.deq_copy [OF DeqCopy this]] DeqCopy show ?thesis by simp
  next
    case (DeqRelease k v)
    obtain r where "set_seq k (k + rb_buf_size (mq t)) (mq t) = Some r" using q by blast
    from go [OF rstep.deq_release [OF DeqRelease this]] DeqRelease show ?thesis by simp
  qed (use p in simp)
qed

text \<open>No thread that is not idle can move on.\<close>

definition blocked :: "'e mpmc \<Rightarrow> bool" where
  "blocked t \<longleftrightarrow> (\<forall>i u. mpc t i \<noteq> RIdle \<longrightarrow> rstep t u \<longrightarrow> mpc u i = mpc t i)"

lemma blocked_spins:
  assumes "mpmc_inv m t" and "blocked t" and "m \<le> 2 ^ 62"
  shows "mpc t i = RIdle \<or> (\<exists>e k. mpc t i = EnqSpin e k \<and> sq (mq t) (unat k) < unat k)
     \<or> (\<exists>k. mpc t i = DeqSpin k \<and> sq (mq t) (unat k) < Suc (unat k))"
  using busy_moves [OF assms(1) _ _ _ assms(3), of i] assms(2) mpmc_invD(7) [OF assms(1), of i]
  unfolding blocked_def by (cases "mpc t i") (auto simp: le_less)

lemma blocked_enq:
  assumes I: "mpmc_inv m t" and b: "blocked t" and m: "m \<le> 2 ^ 62" and p: "mpc t i = EnqSpin e k"
  shows "hd_of (mq t) + cap (mq t) \<le> unat k"
proof -
  note D = mpmc_invD [OF I] and B = blocked_spins [OF I b m]
  have k: "sq (mq t) (unat k) < unat k" "unat k < tl_of (mq t)" using B [of i] D(7) [of i] p by auto
  obtain j where j: "j mod cap (mq t) = unat k mod cap (mq t)"
    "sq (mq t) (unat k) = j \<or> sq (mq t) (unat k) = Suc j" by (rule slot_okE [OF D(6,1)]) blast
  have S: "sq (mq t) j = sq (mq t) (unat k)" by (rule sq_cong [OF j(1)])
  have "j < unat k" using j(2) k(1) by auto
  then have jk: "j + cap (mq t) \<le> unat k" using cong_step j(1) by blast
  have "\<not> holder enq_place (mpc t) j" if "sq (mq t) j = j"
  proof
    assume "holder enq_place (mpc t) j"
    then obtain a where a: "enq_place (mpc t a) = Some j" by (auto simp: holder_def)
    then show False using B [of a] that by auto
  qed
  moreover have "j < sq (mq t) j \<or> holder enq_place (mpc t) j"
    using D(10) \<open>j < unat k\<close> k(2) by (simp add: covered_def)
  ultimately have f: "sq (mq t) j = Suc j" using j(2) S by auto
  have "\<not> j < hd_of (mq t)"
  proof
    assume "j < hd_of (mq t)"
    then have "j \<in> fst ` set (mgets t) \<or> holder deq_place (mpc t) j" using D(10) by (simp add: covered_def)
    then show False
    proof
      assume "j \<in> fst ` set (mgets t)"
      then show False using D(11) f by (fastforce simp: gets_ok_def)
    next
      assume "holder deq_place (mpc t) j"
      then obtain a where a: "deq_place (mpc t a) = Some j" by (auto simp: holder_def)
      then show False using B [of a] f by auto
    qed
  qed
  then show ?thesis using jk by simp
qed

lemma blocked_deq:
  assumes I: "mpmc_inv m t" and b: "blocked t" and m: "m \<le> 2 ^ 62" and p: "mpc t i = DeqSpin k"
  shows "tl_of (mq t) \<le> unat k"
proof (rule ccontr)
  note D = mpmc_invD [OF I] and B = blocked_spins [OF I b m]
  assume "\<not> tl_of (mq t) \<le> unat k"
  moreover have k: "sq (mq t) (unat k) \<le> unat k" "unat k < hd_of (mq t)" using B [of i] D(7) [of i] p by auto
  moreover have "unat k < tl_of (mq t) \<Longrightarrow> unat k < sq (mq t) (unat k) \<or> holder enq_place (mpc t) (unat k)"
    using D(10) unfolding covered_def by blast
  ultimately have "holder enq_place (mpc t) (unat k)" by simp
  then obtain a where a: "enq_place (mpc t a) = Some (unat k)" by (auto simp: holder_def)
  then obtain e j where "mpc t a = EnqSpin e j" "unat j = unat k" using B [of a] by auto
  then show False using blocked_enq [OF I b m] k(2) by fastforce
qed

section \<open>An operation that runs alone\<close>

lemma few_steps:
  shows "R a b \<Longrightarrow> R b c \<Longrightarrow> \<exists>n\<le>5. (R ^^ n) a c"
    and "R a b \<Longrightarrow> R b c \<Longrightarrow> R c d \<Longrightarrow> R d e \<Longrightarrow> R e f \<Longrightarrow> \<exists>n\<le>5. (R ^^ n) a f"
proof -
  show "\<exists>n\<le>5. (R ^^ n) a c" if "R a b" "R b c"
    using that by (intro exI [of _ "Suc (Suc 0)"]) (simp add: eq_OO, blast)
  show "\<exists>n\<le>5. (R ^^ n) a f" if "R a b" "R b c" "R c d" "R d e" "R e f"
    using that by (intro exI [of _ "Suc (Suc (Suc (Suc (Suc 0))))"]) (simp add: eq_OO, blast)
qed

lemma solo_try_enqueue:
  assumes "mpc t i = RIdle" and "ring_buffer_try_enqueue (Some e) (mq t) = Some (r, q)"
  shows "\<exists>n\<le>5. (rstep ^^ n) t (t\<lparr>mq := q, mputs := mputs t @ (if r = 0 then [e] else [])\<rparr>)"
proof -
  let ?k = "rb_tail (mq t)"
  define t1 where "t1 = t\<lparr>mpc := (mpc t)(i := TryEnqLoaded e ?k)\<rparr>"
  have home: "(mpc t)(i := p, i := RIdle) = mpc t" for p using assms(1) by (simp add: fun_upd_idem)
  have s1: "rstep t t1" unfolding t1_def by (rule rstep.try_enq_load [OF assms(1)])
  obtain s where s: "seq_at (mq t) ?k = Some s"
    using assms(2) by (auto simp: ring_buffer_try_enqueue_def Let_def bind_Some_iff)
  note c = rstep.try_enq_check [of t1 i e ?k s]
  show ?thesis
  proof (cases "s = ?k")
    case False
    then have "r = - ENOSPC" "q = mq t"
      using assms(2) s by (auto simp: ring_buffer_try_enqueue_def Let_def)
    moreover have "rstep t1 t" using c s False home by (simp add: t1_def)
    ultimately show ?thesis using few_steps(1) [of rstep t t1 t] s1 by (simp add: ENOSPC_def)
  next
    case True
    let ?q = "(mq t)\<lparr>rb_tail := ?k + 1\<rparr>"
    obtain q1 where q1: "copy_in ?k e ?q = Some q1" "set_seq ?k (?k + 1) q1 = Some q" and r: "r = 0"
      using assms(2) s True by (auto simp: ring_buffer_try_enqueue_def Let_def bind_Some_iff)
    define t2 where "t2 = t\<lparr>mpc := (mpc t)(i := TryEnqChecked e ?k)\<rparr>"
    define t3 where "t3 = t\<lparr>mq := ?q, mpc := (mpc t)(i := EnqCopy e ?k), mputs := mputs t @ [e]\<rparr>"
    define t4 where "t4 = t3\<lparr>mq := q1, mpc := (mpc t)(i := EnqPublish e ?k)\<rparr>"
    have t3: "mq t3 = ?q" "mpc t3 = (mpc t)(i := EnqCopy e ?k)" by (simp_all add: t3_def)
    have t4: "mq t4 = q1" "mpc t4 = (mpc t)(i := EnqPublish e ?k)" by (simp_all add: t4_def)
    have t5: "t4\<lparr>mq := q, mpc := mpc t\<rparr> = t\<lparr>mq := q, mputs := mputs t @ [e]\<rparr>"
      by (rule mpmc.equality) (simp_all add: t4_def t3_def)
    have "rstep t1 t2" using c s True by (simp add: t1_def t2_def)
    moreover have "rstep t2 t3" using rstep.try_enq_claim [of t2 i e ?k] by (simp add: t2_def t3_def)
    moreover have "rstep t3 t4" using rstep.enq_copy [of t3 i e ?k q1] q1(1) t3 by (simp add: t4_def)
    moreover have s5: "rstep t4 (t\<lparr>mq := q, mputs := mputs t @ [e]\<rparr>)"
      using rstep.enq_publish [of t4 i e ?k q] q1(2) t4 home t5 by simp
    ultimately show ?thesis using few_steps(2) [of rstep t t1 t2 t3 t4] s1 r by simp
  qed
qed

lemma solo_try_dequeue:
  assumes "mpc t i = RIdle" and "ring_buffer_try_dequeue (Some e) (mq t) = Some (r, v, q)"
  shows "\<exists>n\<le>5. (rstep ^^ n) t (t\<lparr>mq := q,
     mgets := mgets t @ (if r = 0 then [(hd_of (mq t), the v)] else [])\<rparr>)"
proof -
  let ?k = "rb_head (mq t)"
  define t1 where "t1 = t\<lparr>mpc := (mpc t)(i := TryDeqLoaded ?k)\<rparr>"
  have home: "(mpc t)(i := p, i := RIdle) = mpc t" for p using assms(1) by (simp add: fun_upd_idem)
  have s1: "rstep t t1" unfolding t1_def by (rule rstep.try_deq_load [OF assms(1)])
  obtain s where s: "seq_at (mq t) ?k = Some s"
    using assms(2) by (auto simp: ring_buffer_try_dequeue_def Let_def bind_Some_iff)
  note c = rstep.try_deq_check [of t1 i ?k s]
  show ?thesis
  proof (cases "s = ?k + 1")
    case False
    then have "r = - EAGAIN" "q = mq t"
      using assms(2) s by (auto simp: ring_buffer_try_dequeue_def Let_def)
    moreover have "rstep t1 t" using c s False home by (simp add: t1_def)
    ultimately show ?thesis using few_steps(1) [of rstep t t1 t] s1 by (simp add: EAGAIN_def)
  next
    case True
    let ?q = "(mq t)\<lparr>rb_head := ?k + 1\<rparr>"
    obtain w where w: "copy_out ?k ?q = Some w" "set_seq ?k (?k + rb_buf_size (mq t)) ?q = Some q"
      and r: "r = 0" "v = Some w"
      using assms(2) s True by (auto simp: ring_buffer_try_dequeue_def Let_def bind_Some_iff)
    define t2 where "t2 = t\<lparr>mpc := (mpc t)(i := TryDeqChecked ?k)\<rparr>"
    define t3 where "t3 = t\<lparr>mq := ?q, mpc := (mpc t)(i := DeqCopy ?k)\<rparr>"
    define t4 where "t4 = t\<lparr>mq := ?q, mpc := (mpc t)(i := DeqRelease ?k w)\<rparr>"
    have "rstep t1 t2" using c s True by (simp add: t1_def t2_def)
    moreover have "rstep t2 t3" using rstep.try_deq_claim [of t2 i ?k] by (simp add: t2_def t3_def)
    moreover have "rstep t3 t4" using rstep.deq_copy [of t3 i ?k w] w(1) by (simp add: t3_def t4_def)
    moreover have s5: "rstep t4 (t\<lparr>mq := q, mgets := mgets t @ [(hd_of (mq t), w)]\<rparr>)"
      using rstep.deq_release [of t4 i ?k w q] w(2) home by (simp add: t4_def)
    ultimately show ?thesis using few_steps(2) [of rstep t t1 t2 t3 t4] s1 r by simp
  qed
qed

section \<open>Properties\<close>

text \<open>C10: refinement. Whatever the interleaving of the accesses of any number of threads, an element
  that a dequeue operation has returned is the one whose place was claimed in the same position, and no
  place is taken twice. When no operation is under way, exactly the first elements have been taken out,
  as many as the head counter says, and the buffer is a well-formed sequential one that holds the
  others in their order.\<close>

theorem mpmc_is_fifo:
  assumes "mpmc_runs m t"
  shows "distinct (map fst (mgets t))
     \<and> (\<forall>(k, v)\<in>set (mgets t). k < length (mputs t) \<and> v = mputs t ! k)
     \<and> ((\<forall>i. mpc t i = RIdle) \<longrightarrow> rb_inv (2 ^ 62) (mq t)
          \<and> mset (mgets t) = mset (zip [0..<unat (rb_head (mq t))] (mputs t))
          \<and> rb_contents (mq t) = drop (unat (rb_head (mq t))) (mputs t))"
proof -
  have I: "mpmc_inv m t" "m \<le> 2 ^ 62" using mpmc_runs_inv [OF assms] by simp_all
  note D = mpmc_invD [OF I(1)]
  show ?thesis using D(5,11) idle_rb_inv [OF I(1) _ I(2)] gets_first [OF I(1)]
    by (auto simp: gets_ok_def)
qed

text \<open>The slot that a thread copies into or out of, or has copied and not yet handed over.\<close>

fun copies_in :: "nat \<Rightarrow> 'e rb_pc \<Rightarrow> nat option" where
  "copies_in n (EnqCopy e k) = Some (unat k mod n)"
| "copies_in n (EnqPublish e k) = Some (unat k mod n)"
| "copies_in n (DeqCopy k) = Some (unat k mod n)"
| "copies_in n (DeqRelease k v) = Some (unat k mod n)"
| "copies_in n _ = None"

lemma copies_seq:
  assumes "pc_ok q ps p" and "copies_in (cap q) p = Some a"
  shows "(enq_place p = Some (sq q a) \<and> sq q a mod cap q = a)
     \<or> (\<exists>k. deq_place p = Some k \<and> sq q a = Suc k \<and> k mod cap q = a)"
proof -
  have "sq q (counter p mod cap q) = sq q (counter p)" by (rule sq_cong) simp
  then show ?thesis using assms by (cases p) auto
qed

text \<open>C11: safety. The copies of elements, which are not atomic, are free of races: no two threads are
  ever between claiming and handing over the same slot, be they enqueuing or dequeuing.\<close>

theorem copies_are_exclusive:
  assumes "mpmc_runs m t" and "i \<noteq> j"
    and "copies_in (unat (rb_buf_size (mq t))) (mpc t i) = Some a"
    and "copies_in (unat (rb_buf_size (mq t))) (mpc t j) = Some b"
  shows "a \<noteq> b"
proof
  assume ab: "a = b"
  have I: "mpmc_inv m t" using mpmc_runs_inv [OF assms(1)] by simp
  note D = mpmc_invD [OF I]
  have n: "2 \<le> cap (mq t)" using D(1) by (simp add: shaped_def)
  note c = assms(3,4) [folded cap_def]
  note S = copies_seq [OF D(7) c(1)] copies_seq [OF D(7) c(2)]
  show False using S ab assms(2) D(8,9) cong_Suc [OF n] unfolding unshared_def by auto
qed

text \<open>C12: liveness. The threads never block each other for good: when no operation under way can move
  on, either all of them are enqueues and the buffer is full up to their places, or all of them are
  dequeues and no element is on its way to their places.\<close>

theorem mpmc_never_deadlocks:
  assumes "mpmc_runs m t"
    and "\<forall>i u. mpc t i \<noteq> RIdle \<longrightarrow> rstep t u \<longrightarrow> mpc u i = mpc t i"
  shows "(\<forall>i. mpc t i = RIdle \<or> (\<exists>e k. mpc t i = EnqSpin e k
            \<and> unat (rb_head (mq t)) + unat (rb_buf_size (mq t)) \<le> unat k))
     \<or> (\<forall>i. mpc t i = RIdle \<or> (\<exists>k. mpc t i = DeqSpin k \<and> length (mputs t) \<le> unat k))"
proof -
  have I: "mpmc_inv m t" "m \<le> 2 ^ 62" using mpmc_runs_inv [OF assms(1)] by simp_all
  have b: "blocked t" using assms(2) by (simp add: blocked_def)
  note D = mpmc_invD [OF I(1)] and B = blocked_spins [OF I(1) b I(2)]
  note E = blocked_enq [OF I(1) b I(2)] and F = blocked_deq [OF I(1) b I(2)]
  show ?thesis
  proof (cases "\<exists>i k. mpc t i = DeqSpin k")
    case False
    then have "\<forall>i. mpc t i = RIdle \<or> (\<exists>e k. mpc t i = EnqSpin e k
            \<and> unat (rb_head (mq t)) + unat (rb_buf_size (mq t)) \<le> unat k)"
      using B E unfolding cap_def by metis
    then show ?thesis ..
  next
    case True
    then obtain i k where k: "mpc t i = DeqSpin k" by blast
    then have "tl_of (mq t) \<le> unat k" "unat k < hd_of (mq t)" using F [OF k] D(7) [of i] by auto
    then have "mpc t j \<noteq> EnqSpin e l" for j e l using E [of j e l] D(7) [of j] by fastforce
    then have "\<forall>i. mpc t i = RIdle \<or> (\<exists>k. mpc t i = DeqSpin k \<and> length (mputs t) \<le> unat k)"
      using B F D(5) by metis
    then show ?thesis ..
  qed
qed

section \<open>Witnesses\<close>

text \<open>A buffer of three numbers.\<close>

definition ring0 :: "nat ring_buffer" where
  "ring0 = \<lparr>rb_head = 0, rb_tail = 0, rb_seq = [0, 1, 2], rb_buf_size = 3, rb_buf_elem_size = 8,
     rb_buffer = [0, 0, 0]\<rparr>"

definition ring_at ::
  "nat ring_buffer \<Rightarrow> nat rb_pc \<Rightarrow> nat rb_pc \<Rightarrow> nat list \<Rightarrow> (nat \<times> nat) list \<Rightarrow> nat mpmc" where
  "ring_at q a b ps gs = \<lparr>mq = q, mpc = (\<lambda>i. if i = 0 then a else if i = 1 then b else RIdle),
     mputs = ps, mgets = gs\<rparr>"

lemma ring_at_pc [simp]:
  "mpc (ring_at q a b ps gs) 0 = a" "mpc (ring_at q a b ps gs) (Suc 0) = b" "mq (ring_at q a b ps gs) = q"
  "mputs (ring_at q a b ps gs) = ps" "mgets (ring_at q a b ps gs) = gs"
  by (simp_all add: ring_at_def)

lemma ring_at_upd [simp]:
  "(ring_at q a b ps gs)\<lparr>mpc := (mpc (ring_at r a b xs ys))(0 := c)\<rparr> = ring_at q c b ps gs"
  "(ring_at q a b ps gs)\<lparr>mpc := (mpc (ring_at r a b xs ys))(Suc 0 := c)\<rparr> = ring_at q a c ps gs"
  "(ring_at q a b ps gs)\<lparr>mq := r\<rparr> = ring_at r a b ps gs"
  "(ring_at q a b ps gs)\<lparr>mputs := xs\<rparr> = ring_at q a b xs gs"
  "(ring_at q a b ps gs)\<lparr>mgets := ys\<rparr> = ring_at q a b ps ys"
  by (auto simp: ring_at_def fun_eq_iff)

lemma ring0_start: "mpmc_runs 0 (ring_at ring0 RIdle RIdle [] [])"
proof -
  have "ring_buffer_init ring0 3 [0, 0, 0] [0, 0, 0] 8 = Some (0, ring0)"
    by (simp add: ring_buffer_init_def ring0_def upd_idx_def upt_rec)
  then show ?thesis
    by (intro mpmc_runs_init) (force simp: mpmc_init_def ring_at_def)
qed

lemma runs_few:
  assumes "mpmc_runs m t" and "\<exists>n\<le>5. (rstep ^^ n) t u" and "m + 5 \<le> 2 ^ 62"
  shows "\<exists>k\<le>m + 5. mpmc_runs k u"
proof -
  obtain n where n: "n \<le> 5" "(rstep ^^ n) t u" using assms(2) by blast
  have "mpmc_runs (m + n) u" using n assms(3)
  proof (induction n arbitrary: u)
    case (Suc n)
    then obtain v where "(rstep ^^ n) t v" "rstep v u" by auto
    then show ?case using Suc mpmc_runs_step [of "m + n" v u] by simp
  qed (use assms(1) in simp)
  then show ?thesis using n(1) by (intro exI [of _ "m + n"]) simp
qed

text \<open>One thread puts 5 into the buffer and another one takes it out.\<close>

definition ring1 :: "nat ring_buffer" where
  "ring1 = ring0\<lparr>rb_tail := 1, rb_seq := [1, 1, 2], rb_buffer := [5, 0, 0]\<rparr>"

definition ring2 :: "nat ring_buffer" where
  "ring2 = ring1\<lparr>rb_head := 1, rb_seq := [3, 1, 2]\<rparr>"

lemma ring_demo: "\<exists>m. mpmc_runs m (ring_at ring2 RIdle RIdle [5] [(0, 5)])"
proof -
  have e: "ring_buffer_try_enqueue (Some 5) ring0 = Some (0, ring1)"
    by (simp add: ring_buffer_try_enqueue_def ring0_def ring1_def seq_at_def slot_def copy_in_def
        set_seq_def idx_def upd_idx_def)
  have d: "ring_buffer_try_dequeue (Some 0) ring1 = Some (0, Some 5, ring2)"
    by (simp add: ring_buffer_try_dequeue_def ring0_def ring1_def ring2_def seq_at_def slot_def
        copy_out_def set_seq_def idx_def upd_idx_def)
  obtain m where m: "m \<le> 5" "mpmc_runs m (ring_at ring1 RIdle RIdle [5] [])"
    using runs_few [OF ring0_start, of "ring_at ring1 RIdle RIdle [5] []"] e
      solo_try_enqueue [of "ring_at ring0 RIdle RIdle [] []" 0 5 0 ring1] by auto
  show ?thesis
    using runs_few [OF m(2), of "ring_at ring2 RIdle RIdle [5] [(0, 5)]"] m(1) d
      solo_try_dequeue [of "ring_at ring1 RIdle RIdle [5] []" 0 0 0 "Some 5" ring2]
    by (auto simp: ring1_def ring0_def)
qed

theorem mpmc_is_fifo_witness:
  "rb_inv (2 ^ 62) ring2 \<and> rb_contents ring2 = []"
proof -
  obtain m where "mpmc_runs m (ring_at ring2 RIdle RIdle [5] [(0, 5)])" using ring_demo by blast
  from mpmc_is_fifo [OF this] show ?thesis by (simp add: ring_at_def ring2_def ring1_def ring0_def)
qed

text \<open>Two threads that have claimed the first two places and copy at the same time.\<close>

theorem copies_are_exclusive_witness:
  "\<exists>(t :: nat mpmc) a b. copies_in 3 (mpc t 0) = Some a \<and> copies_in 3 (mpc t 1) = Some b \<and> a \<noteq> b"
proof -
  define q1 where "q1 = ring0\<lparr>rb_tail := 1\<rparr>"
  define q2 where "q2 = ring0\<lparr>rb_tail := 2\<rparr>"
  have "rstep (ring_at ring0 RIdle RIdle [] []) (ring_at q1 (EnqSpin 5 0) RIdle [5] [])"
    using rstep.enq_claim [of "ring_at ring0 RIdle RIdle [] []" 0 0 5] by (simp add: ring0_def q1_def)
  from mpmc_runs_step [OF ring0_start this]
  have "mpmc_runs (Suc 0) (ring_at q1 (EnqSpin 5 0) RIdle [5] [])" by simp
  moreover have "rstep (ring_at q1 (EnqSpin 5 0) RIdle [5] []) (ring_at q2 (EnqSpin 5 0) (EnqSpin 6 1) [5, 6] [])"
    using rstep.enq_claim [of "ring_at q1 (EnqSpin 5 0) RIdle [5] []" "Suc 0" 1 6]
    by (simp add: ring0_def q1_def q2_def)
  ultimately have "mpmc_runs (Suc (Suc 0)) (ring_at q2 (EnqSpin 5 0) (EnqSpin 6 1) [5, 6] [])"
    by (rule mpmc_runs_step) simp
  moreover have "rstep (ring_at q2 (EnqSpin 5 0) (EnqSpin 6 1) [5, 6] [])
      (ring_at q2 (EnqCopy 5 0) (EnqSpin 6 1) [5, 6] [])"
    using rstep.enq_spin [of "ring_at q2 (EnqSpin 5 0) (EnqSpin 6 1) [5, 6] []" 0 5 0 0]
    by (simp add: ring0_def q2_def seq_at_def slot_def idx_def)
  ultimately have "mpmc_runs (Suc (Suc (Suc 0))) (ring_at q2 (EnqCopy 5 0) (EnqSpin 6 1) [5, 6] [])"
    by (rule mpmc_runs_step) simp
  moreover have "rstep (ring_at q2 (EnqCopy 5 0) (EnqSpin 6 1) [5, 6] [])
      (ring_at q2 (EnqCopy 5 0) (EnqCopy 6 1) [5, 6] [])"
    using rstep.enq_spin [of "ring_at q2 (EnqCopy 5 0) (EnqSpin 6 1) [5, 6] []" "Suc 0" 6 1 1]
    by (simp add: ring0_def q2_def seq_at_def slot_def idx_def)
  ultimately have R: "mpmc_runs (Suc (Suc (Suc (Suc 0)))) (ring_at q2 (EnqCopy 5 0) (EnqCopy 6 1) [5, 6] [])"
    by (rule mpmc_runs_step) simp
  have "unat (rb_buf_size q2) = 3" by (simp add: q2_def ring0_def)
  then show ?thesis using copies_are_exclusive [OF R, of 0 "Suc 0" 0 1]
    by (intro exI [of _ "ring_at q2 (EnqCopy 5 0) (EnqCopy 6 1) [5, 6] []"] exI [of _ 0] exI [of _ 1]) simp
qed

text \<open>A thread that takes from the empty buffer.\<close>

theorem mpmc_never_deadlocks_witness:
  "\<exists>(t :: nat mpmc) k. mpc t 0 = DeqSpin k \<and> length (mputs t) \<le> unat k"
proof -
  define q where "q = ring0\<lparr>rb_head := 1\<rparr>"
  let ?t = "ring_at q (DeqSpin 0) RIdle [] []"
  have "rstep (ring_at ring0 RIdle RIdle [] []) ?t"
    using rstep.deq_claim [of "ring_at ring0 RIdle RIdle [] []" 0 0] by (simp add: ring0_def q_def)
  from mpmc_runs_step [OF ring0_start this] have R: "mpmc_runs (Suc 0) ?t" by simp
  have s: "seq_at q 0 = Some 0" by (simp add: q_def ring0_def seq_at_def slot_def idx_def)
  have p: "mpc ?t i = (if i = 0 then DeqSpin 0 else RIdle)" for i by (simp add: ring_at_def)
  have "mpc u i = mpc ?t i" if "mpc ?t i \<noteq> RIdle" "rstep ?t u" for i u
  proof -
    have i: "i = 0" using that(1) by (simp add: p split: if_splits)
    from that(2) show ?thesis by (cases rule: rstep.cases) (auto simp: i p s split: if_splits)
  qed
  then have "(\<forall>i. mpc ?t i = RIdle \<or> (\<exists>e k. mpc ?t i = EnqSpin e k
            \<and> unat (rb_head (mq ?t)) + unat (rb_buf_size (mq ?t)) \<le> unat k))
     \<or> (\<forall>i. mpc ?t i = RIdle \<or> (\<exists>k. mpc ?t i = DeqSpin k \<and> length (mputs ?t) \<le> unat k))"
    by (intro mpmc_never_deadlocks [OF R]) blast
  then have "length (mputs ?t) \<le> unat (0 :: u64)" by (auto dest!: spec [of _ 0])
  then show ?thesis by (intro exI [of _ ?t] exI [of _ 0]) simp
qed

end
