(* ===== verification/Float32.thy ===== *)
theory Float32
  imports Prelude
begin

text \<open>
  The C type \<^verbatim>\<open>float\<close> as the program uses it: IEEE 754 binary32 with rounding to nearest, ties
  to even, subnormals and overflow to infinity. Every finite binary32 value is an integer
  multiple of \<open>2 ^ -149\<close>; \<open>Fin k\<close> is the value \<open>k * 2 ^ -149\<close>, so arithmetic on finite floats
  is integer arithmetic followed by one rounding. The two zeros are one value: the program
  divides only by converted unsigned integers and by positive scaling factors, so the sign of a
  zero is never observed.
\<close>

section \<open>Values\<close>

datatype f32 = Fin int | PInf | NInf | NaN

definition one_units :: int where
  "one_units = 2 ^ 149"

definition max_units :: int where
  "max_units = (2 ^ 24 - 1) * 2 ^ 253"

definition FLT_MAX :: f32 where
  "FLT_MAX = Fin max_units"

lemma one_units_pos [simp]: "0 < one_units"
  by (simp add: one_units_def)

lemma one_units_nonneg [simp]: "0 \<le> one_units"
  by (simp add: one_units_def)

section \<open>Rounding\<close>

text \<open>The number of binary digits of a non-negative integer.\<close>

function nbits :: "int \<Rightarrow> nat" where
  "nbits n = (if n \<le> 0 then 0 else Suc (nbits (n div 2)))"
  by pat_completeness auto
termination
  by (relation "measure nat") auto

declare nbits.simps [simp del]

text \<open>The integer nearest to \<open>p / q\<close> for \<open>0 < q\<close>, the even one of two equally near.\<close>

definition nearest_even :: "int \<Rightarrow> int \<Rightarrow> int" where
  "nearest_even p q =
     (let d = p div q; r = p mod q
      in if 2 * r < q \<or> (2 * r = q \<and> even d) then d else d + 1)"

text \<open>
  The exponent of the last place of \<open>p / q\<close> (counted in units of \<open>2 ^ -149\<close>, so never below 0)
  and \<open>p / q\<close> rounded to 24 significant bits.
\<close>

definition ulp_exp :: "int \<Rightarrow> int \<Rightarrow> nat" where
  "ulp_exp p q = nbits (\<bar>p\<bar> div q) - 24"

definition round32 :: "int \<Rightarrow> int \<Rightarrow> int" where
  "round32 p q = (let u = 2 ^ ulp_exp p q in nearest_even p (q * u) * u)"

definition mk_f32 :: "int \<Rightarrow> int \<Rightarrow> f32" where
  "mk_f32 p q =
     (let k = round32 p q
      in if max_units < k then PInf else if k < - max_units then NInf else Fin k)"

section \<open>Operations\<close>

definition f_of_int :: "int \<Rightarrow> f32" where
  "f_of_int n = mk_f32 (n * one_units) 1"

definition of_u32 :: "u32 \<Rightarrow> f32" where
  "of_u32 w = f_of_int (uint w)"

text \<open>The literal \<open>p/q\<close>, for example \<open>lit 5 100\<close> for \<^verbatim>\<open>0.05f\<close>.\<close>

definition lit :: "int \<Rightarrow> int \<Rightarrow> f32" where
  "lit p q = mk_f32 (p * one_units) q"

fun f_neg :: "f32 \<Rightarrow> f32" where
  "f_neg (Fin k) = Fin (- k)"
| "f_neg PInf = NInf"
| "f_neg NInf = PInf"
| "f_neg NaN = NaN"

fun f_add :: "f32 \<Rightarrow> f32 \<Rightarrow> f32" where
  "f_add (Fin a) (Fin b) = mk_f32 (a + b) 1"
| "f_add NaN _ = NaN"
| "f_add _ NaN = NaN"
| "f_add PInf NInf = NaN"
| "f_add NInf PInf = NaN"
| "f_add PInf _ = PInf"
| "f_add _ PInf = PInf"
| "f_add NInf _ = NInf"
| "f_add _ NInf = NInf"

definition f_sub :: "f32 \<Rightarrow> f32 \<Rightarrow> f32" where
  "f_sub a b = f_add a (f_neg b)"

fun f_sgn :: "f32 \<Rightarrow> int" where
  "f_sgn (Fin k) = sgn k"
| "f_sgn PInf = 1"
| "f_sgn NInf = - 1"
| "f_sgn NaN = 0"

definition f_inf :: "int \<Rightarrow> f32" where
  "f_inf sg = (if sg = 0 then NaN else if 0 < sg then PInf else NInf)"

fun f_mul :: "f32 \<Rightarrow> f32 \<Rightarrow> f32" where
  "f_mul (Fin a) (Fin b) = mk_f32 (a * b) one_units"
| "f_mul NaN _ = NaN"
| "f_mul _ NaN = NaN"
| "f_mul x y = f_inf (f_sgn x * f_sgn y)"

fun f_div :: "f32 \<Rightarrow> f32 \<Rightarrow> f32" where
  "f_div (Fin a) (Fin b) =
     (if b = 0 then f_inf (sgn a) else mk_f32 (a * one_units * sgn b) \<bar>b\<bar>)"
| "f_div NaN _ = NaN"
| "f_div _ NaN = NaN"
| "f_div (Fin a) _ = Fin 0"
| "f_div x (Fin b) = f_inf (f_sgn x * (if b < 0 then - 1 else 1))"
| "f_div _ _ = NaN"

text \<open>Comparisons are false on NaN.\<close>

fun f_lt :: "f32 \<Rightarrow> f32 \<Rightarrow> bool" where
  "f_lt NaN _ = False"
| "f_lt _ NaN = False"
| "f_lt (Fin a) (Fin b) = (a < b)"
| "f_lt NInf y = (y \<noteq> NInf)"
| "f_lt PInf _ = False"
| "f_lt (Fin _) y = (y = PInf)"

fun f_le :: "f32 \<Rightarrow> f32 \<Rightarrow> bool" where
  "f_le NaN _ = False"
| "f_le _ NaN = False"
| "f_le (Fin a) (Fin b) = (a \<le> b)"
| "f_le NInf _ = True"
| "f_le PInf y = (y = PInf)"
| "f_le (Fin _) y = (y = PInf)"

text \<open>\<^verbatim>\<open>fmaxf\<close> and \<^verbatim>\<open>fminf\<close> return the other argument when one is NaN.\<close>

definition fmaxf :: "f32 \<Rightarrow> f32 \<Rightarrow> f32" where
  "fmaxf a b = (if a = NaN then b else if b = NaN then a else if f_le a b then b else a)"

definition fminf :: "f32 \<Rightarrow> f32 \<Rightarrow> f32" where
  "fminf a b = (if a = NaN then b else if b = NaN then a else if f_le a b then a else b)"

fun ceilf :: "f32 \<Rightarrow> f32" where
  "ceilf (Fin a) = Fin (- ((- a) div one_units) * one_units)"
| "ceilf x = x"

fun floorf :: "f32 \<Rightarrow> f32" where
  "floorf (Fin a) = Fin (a div one_units * one_units)"
| "floorf x = x"

text \<open>
  The conversion \<^verbatim>\<open>(uint32_t)x\<close> truncates towards zero and is undefined when the truncated value
  is not representable; \<^verbatim>\<open>(uint8_t)x\<close> likewise.
\<close>

fun f_trunc :: "f32 \<Rightarrow> int option" where
  "f_trunc (Fin a) = Some (if 0 \<le> a then a div one_units else - ((- a) div one_units))"
| "f_trunc _ = None"

definition f_to_uint :: "nat \<Rightarrow> f32 \<Rightarrow> int option" where
  "f_to_uint w x =
     (case f_trunc x of None \<Rightarrow> None
      | Some n \<Rightarrow> if 0 \<le> n \<and> n < 2 ^ w then Some n else None)"

definition f_to_u32 :: "f32 \<Rightarrow> u32 option" where
  "f_to_u32 x = map_option word_of_int (f_to_uint 32 x)"

section \<open>Binary digits\<close>

lemma nbits_0 [simp]: "n \<le> 0 \<Longrightarrow> nbits n = 0"
  by (simp add: nbits.simps)

lemma nbits_upper: "n < 2 ^ nbits n"
proof (induction n rule: nbits.induct)
  case (1 n)
  show ?case
  proof (cases "n \<le> 0")
    case True
    then show ?thesis by simp
  next
    case False
    with 1 have "n div 2 < 2 ^ nbits (n div 2)" by simp
    with False show ?thesis by (subst nbits.simps) auto
  qed
qed

lemma nbits_lower: "0 < n \<Longrightarrow> 2 ^ (nbits n - 1) \<le> n"
proof (induction n rule: nbits.induct)
  case (1 n)
  show ?case
  proof (cases "n div 2 \<le> 0")
    case True
    with "1.prems" show ?thesis by (subst nbits.simps) simp
  next
    case False
    with 1 have "2 ^ (nbits (n div 2) - 1) \<le> n div 2" by simp
    moreover from False have "0 < nbits (n div 2)" by (subst nbits.simps) simp
    then obtain b where "nbits (n div 2) = Suc b" by (cases "nbits (n div 2)") auto
    ultimately show ?thesis using "1.prems" by (subst nbits.simps) simp
  qed
qed

lemma nbits_le: assumes "n < 2 ^ k" shows "nbits n \<le> k"
proof (rule ccontr)
  assume "\<not> nbits n \<le> k"
  then have "k \<le> nbits n - 1" and "0 < nbits n" by auto
  then have "(2 :: int) ^ k \<le> 2 ^ (nbits n - 1)" by (simp add: power_increasing)
  moreover have "0 < n" using \<open>0 < nbits n\<close> by (metis nbits_0 not_less not_less_zero)
  moreover have "2 ^ (nbits n - 1) \<le> n" using \<open>0 < n\<close> by (rule nbits_lower)
  ultimately show False using assms by linarith
qed

lemma nbits_mono: "m \<le> n \<Longrightarrow> nbits m \<le> nbits n"
  using nbits_upper [of n] by (intro nbits_le) simp

section \<open>Properties of the rounding\<close>

lemma nearest_even_exact [simp]: "0 < q \<Longrightarrow> nearest_even (k * q) q = k"
  by (simp add: nearest_even_def)

lemma nearest_even_scale:
  "0 < c \<Longrightarrow> nearest_even (c * p) (c * q) = nearest_even p q"
  by (simp add: nearest_even_def Let_def mult_mod_right [symmetric])

lemma nearest_even_mono:
  assumes "0 < q" and "p \<le> p'"
  shows "nearest_even p q \<le> nearest_even p' q"
proof (cases "p div q = p' div q")
  case True
  then have "p' div q * q + p mod q = p" by (metis div_mult_mod_eq)
  moreover have "p' div q * q + p' mod q = p'" by (rule div_mult_mod_eq)
  ultimately have "p mod q \<le> p' mod q" using assms(2) by linarith
  with True show ?thesis by (auto simp: nearest_even_def Let_def)
next
  case False
  moreover have "p div q \<le> p' div q" using assms by (simp add: zdiv_mono1)
  ultimately show ?thesis by (auto simp: nearest_even_def Let_def)
qed

lemma nearest_even_0 [simp]: "0 < q \<Longrightarrow> nearest_even 0 q = 0"
  by (simp add: nearest_even_def)

lemma nearest_even_nonneg: "0 < q \<Longrightarrow> 0 \<le> p \<Longrightarrow> 0 \<le> nearest_even p q"
  using nearest_even_mono [of q 0 p] by simp

lemma nearest_even_minus:
  assumes "0 < q"
  shows "nearest_even (- p) q = - nearest_even p q"
proof (cases "p mod q = 0")
  case True
  then obtain k where "p = k * q" by (metis dvd_div_mult_self mod_0_imp_dvd)
  then have "- p = (- k) * q" by simp
  with assms \<open>p = k * q\<close> show ?thesis by (simp only: nearest_even_exact)
next
  case False
  then have d: "(- p) div q = - (p div q) - 1" and r: "(- p) mod q = q - p mod q"
    using assms by (simp_all add: zdiv_zminus1_eq_if zmod_zminus1_eq_if)
  show ?thesis unfolding nearest_even_def Let_def d r by auto
qed

text \<open>Representable integers: at most 24 significant bits.\<close>

definition repr32 :: "int \<Rightarrow> bool" where
  "repr32 k \<longleftrightarrow> (\<exists>m j. \<bar>m\<bar> \<le> 2 ^ 24 \<and> k = m * 2 ^ j)"

lemma repr32_0 [simp]: "repr32 0"
  unfolding repr32_def by (intro exI [of _ 0]) simp

lemma repr32_small: "\<bar>m\<bar> \<le> 2 ^ 24 \<Longrightarrow> repr32 (m * 2 ^ j)"
  unfolding repr32_def by blast

lemma repr32_minus [simp]: "repr32 (- k) \<longleftrightarrow> repr32 k"
  unfolding repr32_def by (metis abs_minus_cancel minus_minus mult_minus_left)

lemma ulp_exp_minus [simp]: "ulp_exp (- p) q = ulp_exp p q"
  by (simp add: ulp_exp_def)

lemma round32_minus: "0 < q \<Longrightarrow> round32 (- p) q = - round32 p q"
  by (simp add: round32_def Let_def nearest_even_minus)

lemma round32_0 [simp]: "0 < q \<Longrightarrow> round32 0 q = 0"
  by (simp add: round32_def)

lemma round32_nonneg: "0 < q \<Longrightarrow> 0 \<le> p \<Longrightarrow> 0 \<le> round32 p q"
  by (simp add: round32_def Let_def nearest_even_nonneg)

lemma ulp_exp_upper:
  assumes "0 < q" and "0 \<le> p"
  shows "p < 2 ^ (24 + ulp_exp p q) * q"
proof -
  have "p div q < 2 ^ nbits (p div q)" by (rule nbits_upper)
  also have "\<dots> \<le> 2 ^ (24 + ulp_exp p q)"
    using assms by (intro power_increasing) (auto simp: ulp_exp_def)
  finally show ?thesis using assms by (simp add: int_div_less_iff)
qed

lemma ulp_exp_lower:
  assumes "0 < q" and "0 \<le> p" and "0 < ulp_exp p q"
  shows "2 ^ (23 + ulp_exp p q) * q \<le> p"
proof -
  from assms have nb: "nbits (p div q) = 24 + ulp_exp p q" by (simp add: ulp_exp_def)
  then have "0 < p div q" by (metis add_eq_0_iff_both_eq_0 nbits_0 not_less zero_neq_numeral)
  from nbits_lower [OF this] nb have "2 ^ (23 + ulp_exp p q) \<le> p div q" by simp
  with assms(1) show ?thesis by (simp add: int_le_div_iff)
qed

lemma nearest_even_ulp_le:
  assumes "0 < q" and "0 \<le> p"
  shows "nearest_even p (q * 2 ^ ulp_exp p q) \<le> 2 ^ 24"
proof -
  let ?u = "q * 2 ^ ulp_exp p q"
  have "p \<le> 2 ^ 24 * ?u"
    using ulp_exp_upper [OF assms] by (simp add: power_add mult.commute mult.left_commute)
  then have "nearest_even p ?u \<le> nearest_even (2 ^ 24 * ?u) ?u"
    using assms by (intro nearest_even_mono) simp_all
  also have "\<dots> = 2 ^ 24" using assms(1) by (intro nearest_even_exact) simp
  finally show ?thesis .
qed

lemma repr32_round32_nonneg: "0 < q \<Longrightarrow> 0 \<le> p \<Longrightarrow> repr32 (round32 p q)"
  using nearest_even_ulp_le [of q p] nearest_even_nonneg [of "q * 2 ^ ulp_exp p q" p]
  by (auto simp: round32_def Let_def intro!: repr32_small)

lemma repr32_round32: "0 < q \<Longrightarrow> repr32 (round32 p q)"
  using repr32_round32_nonneg [of q p] repr32_round32_nonneg [of q "- p"] round32_minus [of q p]
  by (cases "0 \<le> p") auto

lemma round32_mono_nonneg:
  assumes "0 < q" and "0 \<le> p" and "p \<le> p'"
  shows "round32 p q \<le> round32 p' q"
proof -
  let ?e = "ulp_exp p q" and ?e' = "ulp_exp p' q"
  have "p div q \<le> p' div q" using assms by (simp add: zdiv_mono1)
  then have le: "?e \<le> ?e'" using assms by (simp add: ulp_exp_def nbits_mono diff_le_mono)
  show ?thesis
  proof (cases "?e = ?e'")
    case True
    with assms show ?thesis
      by (simp add: round32_def Let_def mult_right_mono nearest_even_mono)
  next
    case False
    with le have lt: "Suc ?e \<le> ?e'" by simp
    have "round32 p q \<le> 2 ^ 24 * 2 ^ ?e"
      using nearest_even_ulp_le [OF assms(1,2)] by (simp add: round32_def Let_def)
    also have "\<dots> = 2 ^ 23 * 2 ^ Suc ?e" by simp
    also have "\<dots> \<le> 2 ^ 23 * 2 ^ ?e'" using lt by (intro mult_left_mono power_increasing) auto
    also have "\<dots> \<le> nearest_even p' (q * 2 ^ ?e') * 2 ^ ?e'"
    proof -
      have "2 ^ 23 * (q * 2 ^ ?e') \<le> p'"
        using ulp_exp_lower [of q p'] assms lt
        by (simp add: power_add mult.commute mult.left_commute)
      then have "nearest_even (2 ^ 23 * (q * 2 ^ ?e')) (q * 2 ^ ?e')
                   \<le> nearest_even p' (q * 2 ^ ?e')"
        using assms(1) by (intro nearest_even_mono) simp_all
      moreover have "nearest_even (2 ^ 23 * (q * 2 ^ ?e')) (q * 2 ^ ?e') = 2 ^ 23"
        using assms(1) by (intro nearest_even_exact) simp
      ultimately show ?thesis by (simp add: mult_right_mono)
    qed
    finally show ?thesis by (simp add: round32_def Let_def)
  qed
qed

lemma round32_mono:
  assumes "0 < q" and "p \<le> p'"
  shows "round32 p q \<le> round32 p' q"
proof (cases "0 \<le> p")
  case True
  then show ?thesis using assms by (rule_tac round32_mono_nonneg)
next
  case False
  show ?thesis
  proof (cases "0 \<le> p'")
    case True
    have "round32 p q \<le> 0"
      using round32_nonneg [of q "- p"] False assms(1) by (simp add: round32_minus)
    also have "0 \<le> round32 p' q" using True assms(1) by (rule_tac round32_nonneg)
    finally show ?thesis .
  next
    case False
    then show ?thesis
      using round32_mono_nonneg [of q "- p'" "- p"] assms by (simp add: round32_minus)
  qed
qed

lemma round32_exact_small:
  assumes "0 \<le> m" and "m \<le> 2 ^ 24"
  shows "round32 (m * 2 ^ j) 1 = m * 2 ^ j"
proof -
  let ?p = "m * 2 ^ j" and ?e = "ulp_exp (m * 2 ^ j) 1"
  have "2 ^ ?e dvd ?p"
  proof (cases "m = 2 ^ 24")
    case True
    then have "?p < 2 ^ (25 + j)" by (simp add: power_add)
    then have "?e \<le> 24 + j"
      using nbits_le [of ?p "25 + j"] True by (simp add: ulp_exp_def)
    then have "(2 :: int) ^ ?e dvd 2 ^ (24 + j)" by (rule le_imp_power_dvd)
    with True show ?thesis by (simp add: power_add)
  next
    case False
    with assms have "?p < 2 ^ (24 + j)" by (simp add: power_add)
    then have "?e \<le> j"
      using nbits_le [of ?p "24 + j"] assms by (simp add: ulp_exp_def)
    then show ?thesis by (simp add: le_imp_power_dvd dvd_mult)
  qed
  then obtain k where k: "?p = k * 2 ^ ?e" by (metis dvd_div_mult_self)
  have "nearest_even (k * 2 ^ ?e) (2 ^ ?e) = k" by (intro nearest_even_exact) simp
  then show ?thesis unfolding round32_def Let_def by (metis k mult_1)
qed

lemma round32_repr: assumes "repr32 k" shows "round32 k 1 = k"
proof -
  from assms obtain m j where m: "\<bar>m\<bar> \<le> 2 ^ 24" and k: "k = m * 2 ^ j"
    unfolding repr32_def by blast
  show ?thesis
  proof (cases "0 \<le> m")
    case True
    with m k round32_exact_small [of m j] show ?thesis by simp
  next
    case False
    with m have "round32 ((- m) * 2 ^ j) 1 = (- m) * 2 ^ j"
      by (intro round32_exact_small) auto
    moreover have "round32 (- k) 1 = - round32 k 1" by (rule round32_minus) simp
    ultimately show ?thesis using k by simp
  qed
qed

lemma round32_scale: "0 < q \<Longrightarrow> round32 (k * q) q = round32 k 1"
proof -
  assume q: "0 < q"
  then have "\<bar>k * q\<bar> div q = \<bar>k\<bar>" by (simp add: abs_mult)
  then have "ulp_exp (k * q) q = ulp_exp k 1" by (simp add: ulp_exp_def)
  with q nearest_even_scale [of q k "2 ^ ulp_exp k 1"] show ?thesis
    by (simp add: round32_def Let_def mult.commute)
qed

section \<open>Rounding as an interface\<close>

text \<open>
  What the program relies on: rounding is monotone and leaves representable values alone. The
  consequences are proved once from these laws.
\<close>

locale rounding =
  fixes rnd :: "int \<Rightarrow> int" and rep :: "int \<Rightarrow> bool"
  assumes rnd_mono: "x \<le> y \<Longrightarrow> rnd x \<le> rnd y"
    and rnd_rep: "rep x \<Longrightarrow> rnd x = x"
    and rep_rnd: "rep (rnd x)"
    and rep_zero: "rep 0"
begin

lemma rnd_idem: "rnd (rnd x) = rnd x"
  by (simp add: rnd_rep rep_rnd)

lemma rnd_le_rep: "rep y \<Longrightarrow> x \<le> y \<Longrightarrow> rnd x \<le> y"
  using rnd_mono [of x y] by (simp add: rnd_rep)

lemma rep_le_rnd: "rep x \<Longrightarrow> x \<le> y \<Longrightarrow> x \<le> rnd y"
  using rnd_mono [of x y] by (simp add: rnd_rep)

lemma rnd_nonneg: "0 \<le> x \<Longrightarrow> 0 \<le> rnd x"
  by (rule rep_le_rnd [OF rep_zero])

lemma rnd_add_grows: "rep a \<Longrightarrow> 0 \<le> b \<Longrightarrow> a \<le> rnd (a + b)"
  by (rule rep_le_rnd) simp_all

lemma rnd_sub_shrinks: "rep a \<Longrightarrow> 0 \<le> b \<Longrightarrow> rnd (a - b) \<le> a"
  by (rule rnd_le_rep) simp_all

end

interpretation binary32: rounding "\<lambda>p. round32 p 1" repr32
  by unfold_locales (auto intro: round32_mono round32_repr repr32_round32)

section \<open>Order and range of the operations\<close>

lemma f_le_refl: "a \<noteq> NaN \<Longrightarrow> f_le a a"
  by (cases a) auto

lemma f_le_trans: "f_le a b \<Longrightarrow> f_le b c \<Longrightarrow> f_le a c"
  by (cases a; cases b; cases c) auto

lemma f_le_lt_trans: "f_le a b \<Longrightarrow> f_lt b c \<Longrightarrow> f_lt a c"
  by (cases a; cases b; cases c) auto

lemma f_lt_le_trans: "f_lt a b \<Longrightarrow> f_le b c \<Longrightarrow> f_lt a c"
  by (cases a; cases b; cases c) auto

lemma f_lt_iff_not_le: "a \<noteq> NaN \<Longrightarrow> b \<noteq> NaN \<Longrightarrow> f_lt a b \<longleftrightarrow> \<not> f_le b a"
  by (cases a; cases b) auto

lemma f_lt_imp_le: "f_lt a b \<Longrightarrow> f_le a b"
  by (cases a; cases b) auto

lemma mk_f32_not_NaN [simp]: "mk_f32 p q \<noteq> NaN"
  by (simp add: mk_f32_def Let_def)

lemma mk_f32_mono: "0 < q \<Longrightarrow> p \<le> p' \<Longrightarrow> f_le (mk_f32 p q) (mk_f32 p' q)"
  using round32_mono [of q p p'] by (auto simp: mk_f32_def Let_def)

lemma mk_f32_repr: "repr32 k \<Longrightarrow> \<bar>k\<bar> \<le> max_units \<Longrightarrow> mk_f32 k 1 = Fin k"
  by (auto simp: mk_f32_def round32_repr)

lemma mk_f32_scale: "0 < q \<Longrightarrow> mk_f32 (k * q) q = mk_f32 k 1"
  by (simp add: mk_f32_def round32_scale)

lemma repr32_int: "\<bar>n\<bar> \<le> 2 ^ 24 \<Longrightarrow> repr32 (n * one_units)"
  unfolding one_units_def by (rule repr32_small)

lemma int_in_range: assumes "\<bar>n\<bar> \<le> 2 ^ 24" shows "\<bar>n * one_units\<bar> \<le> max_units"
proof -
  have "\<bar>n * one_units\<bar> \<le> 2 ^ 24 * one_units" using assms by (simp add: abs_mult less_imp_le)
  also have "\<dots> \<le> max_units" by (simp add: one_units_def max_units_def)
  finally show ?thesis .
qed

lemma f_of_int_small: "\<bar>n\<bar> \<le> 2 ^ 24 \<Longrightarrow> f_of_int n = Fin (n * one_units)"
  unfolding f_of_int_def by (intro mk_f32_repr repr32_int int_in_range)

lemma f_of_int_not_NaN [simp]: "f_of_int n \<noteq> NaN"
  by (simp add: f_of_int_def)

lemma f_of_int_mono: "m \<le> n \<Longrightarrow> f_le (f_of_int m) (f_of_int n)"
  unfolding f_of_int_def by (intro mk_f32_mono) simp_all

lemma f_of_int_add:
  "\<bar>a\<bar> \<le> 2 ^ 24 \<Longrightarrow> \<bar>b\<bar> \<le> 2 ^ 24 \<Longrightarrow> f_add (f_of_int a) (f_of_int b) = f_of_int (a + b)"
  by (simp add: f_of_int_small distrib_right) (simp add: f_of_int_def distrib_right)

lemma f_of_int_sub:
  "\<bar>a\<bar> \<le> 2 ^ 24 \<Longrightarrow> \<bar>b\<bar> \<le> 2 ^ 24 \<Longrightarrow> f_sub (f_of_int a) (f_of_int b) = f_of_int (a - b)"
  using f_of_int_add [of a "- b"] by (simp add: f_of_int_small f_sub_def)

lemma ceilf_int [simp]: "ceilf (Fin (n * one_units)) = Fin (n * one_units)"
  using one_units_pos
  by (metis ceilf.simps(1) minus_minus mult_minus_left nonzero_mult_div_cancel_right
      order_less_irrefl)

lemma floorf_int [simp]: "floorf (Fin (n * one_units)) = Fin (n * one_units)"
  using one_units_pos by simp

lemma f_to_u32_int:
  "0 \<le> n \<Longrightarrow> n < 2 ^ 32 \<Longrightarrow> f_to_u32 (Fin (n * one_units)) = Some (word_of_int n)"
  using one_units_pos
  by (simp add: f_to_u32_def f_to_uint_def del: one_units_pos)

end
