(* ===== verification/Jobs.thy ===== *)
theory Jobs
  imports Float32 ListHead
begin

text \<open>
  The job store of \<^verbatim>\<open>src/include/task_management.h\<close> and \<^verbatim>\<open>src/src/task_management.c\<close>: tasks,
  jobs, the per-core job pools with their two free lists, reference counts, and the sorted job
  queues.

  A job pointer \<open>jptr\<close> is the pool and the index of the job in it. The free lists are the chains of
  the code through \<^verbatim>\<open>next_free\<close>. The queues are the list view of the \<^verbatim>\<open>list_head\<close> lists of
  \<open>ListHead\<close>: \<open>queues s q\<close> holds the entries linked into the head \<open>q\<close>, and the \<^verbatim>\<open>link\<close> field of a job
  tells the three states the code distinguishes: both pointers NULL (zeroed or after \<^verbatim>\<open>list_del\<close>),
  both pointing to itself (after \<^verbatim>\<open>INIT_LIST_HEAD\<close>), or linked into a list. An operation that
  would follow a NULL link, or link an entry that is already in a list (the code's lists would
  lose entries), is \<open>None\<close>.

  The system state extends the record \<open>jheap\<close>, so every operation here is polymorphic in the rest
  of it. \<^verbatim>\<open>uint8_t\<close> ids and criticality levels are naturals: the configuration bounds them below 255.
  A read through a NULL \<^verbatim>\<open>parent_task\<close> or outside an array has an unspecified value (\<open>the None\<close>,
  \<open>xs ! i\<close>), on which no theorem can rely. The pool mutex \<^verbatim>\<open>remote_lock\<close> guards two
  assignments and is not a part of the state; theory \<^theory_text>\<open>PoolThreads\<close> interleaves the accesses.
\<close>

section \<open>Tasks and jobs\<close>

record task_struct =
  t_id :: u32
  t_period :: u32
  t_deadline :: u32
  t_wcet :: "u32 list"
  t_crit_level :: nat
  t_num_replicas :: nat

datatype job_state =
  JOB_STATE_IDLE | JOB_STATE_READY | JOB_STATE_RUNNING | JOB_STATE_COMPLETED | JOB_STATE_REMOVED

datatype jptr = JobPtr (pool_of: nat) (slot_of: nat)

text \<open>The list heads a job can be linked into; the last two are the locals of the mode change.\<close>

datatype qid =
  ReadyQ nat | ReplicaQ nat | DiscardL nat | PendingQ nat | ProcDiscardQ
  | NewReadyQ nat | NewReplicaQ nat

datatype link_state = LinkNull | LinkSelf | LinkIn qid

record job_struct =
  next_free :: "jptr option"
  parent_task :: "task_struct option"
  arrival_time :: u32
  relative_tuned_deadlines :: "u32 list"
  actual_deadline :: u32
  virtual_deadline :: u32
  wcet :: f32
  acet :: f32
  executed_time :: f32
  job_pool_id :: nat
  is_replica :: bool
  state :: job_state
  job_link :: link_state
  next_migration_eligible_tick :: u32
  refcount :: int
  is_being_offered :: bool

abbreviation ptask :: "job_struct \<Rightarrow> task_struct" where
  "ptask j \<equiv> the (parent_task j)"

record jheap =
  jobs :: "jptr \<Rightarrow> job_struct"
  free_list :: "nat \<Rightarrow> jptr option"
  remote_free_list :: "nat \<Rightarrow> jptr option"
  queues :: "qid \<Rightarrow> jptr list"

definition JOBS_PER_CORE :: nat where "JOBS_PER_CORE = 50"

definition upd_job ::
  "jptr \<Rightarrow> (job_struct \<Rightarrow> job_struct) \<Rightarrow> 'z jheap_scheme \<Rightarrow> 'z jheap_scheme" where
  "upd_job p f s = s\<lparr>jobs := (jobs s)(p := f (jobs s p))\<rparr>"

section \<open>The job pools\<close>

definition push_free :: "nat \<Rightarrow> jptr \<Rightarrow> 'z jheap_scheme \<Rightarrow> 'z jheap_scheme" where
  "push_free c p s =
     (upd_job p (next_free_update (\<lambda>_. free_list s c)) s)\<lparr>free_list := (free_list s)(c := Some p)\<rparr>"

definition push_remote_free :: "nat \<Rightarrow> jptr \<Rightarrow> 'z jheap_scheme \<Rightarrow> 'z jheap_scheme" where
  "push_remote_free c p s =
     (upd_job p (next_free_update (\<lambda>_. remote_free_list s c)) s)
       \<lparr>remote_free_list := (remote_free_list s)(c := Some p)\<rparr>"

definition task_management_init :: "nat \<Rightarrow> 'z jheap_scheme \<Rightarrow> 'z jheap_scheme" where
  "task_management_init num_cores s =
     fold (\<lambda>i s.
         fold (\<lambda>j. push_free i (JobPtr i j)) [0..<JOBS_PER_CORE]
           (s\<lparr>free_list := (free_list s)(i := None),
              remote_free_list := (remote_free_list s)(i := None)\<rparr>))
       [0..<num_cores] s"

definition new_job_fields :: "task_struct \<Rightarrow> nat \<Rightarrow> job_struct \<Rightarrow> job_struct" where
  "new_job_fields t c j =
     j\<lparr>parent_task := Some t, state := JOB_STATE_IDLE, job_pool_id := c,
       next_migration_eligible_tick := 0, job_link := LinkSelf, refcount := 1,
       is_being_offered := False\<rparr>"

definition create_job ::
  "task_struct \<Rightarrow> nat \<Rightarrow> 'z jheap_scheme \<Rightarrow> jptr option \<times> 'z jheap_scheme" where
  "create_job t c s =
     (let s = (if free_list s c = None
               then s\<lparr>free_list := (free_list s)(c := remote_free_list s c),
                      remote_free_list := (remote_free_list s)(c := None)\<rparr>
               else s)
      in case free_list s c of
           None \<Rightarrow> (None, s)
         | Some p \<Rightarrow>
             (Some p, upd_job p (new_job_fields t c)
                        (s\<lparr>free_list := (free_list s)(c := next_free (jobs s p))\<rparr>)))"

definition clone_job ::
  "jptr option \<Rightarrow> nat \<Rightarrow> 'z jheap_scheme \<Rightarrow> jptr option \<times> 'z jheap_scheme" where
  "clone_job job c s =
     (case job of
        None \<Rightarrow> (None, s)
      | Some p \<Rightarrow>
          (case create_job (ptask (jobs s p)) c s of
             (None, s) \<Rightarrow> (None, s)
           | (Some n, s) \<Rightarrow>
               let j = jobs s p in
               (Some n, upd_job n (\<lambda>k. k
                  \<lparr>state := state j, arrival_time := arrival_time j,
                   executed_time := executed_time j, acet := acet j, wcet := wcet j,
                   actual_deadline := actual_deadline j,
                   virtual_deadline := virtual_deadline j, is_replica := is_replica j,
                   next_migration_eligible_tick := next_migration_eligible_tick j,
                   relative_tuned_deadlines := relative_tuned_deadlines j,
                   is_being_offered := is_being_offered j\<rparr>) s)))"

text \<open>The owner's own core pushes on its free list, any other thread on the remote one.\<close>

definition release_job_to_pool :: "jptr option \<Rightarrow> nat \<Rightarrow> 'z jheap_scheme \<Rightarrow> 'z jheap_scheme" where
  "release_job_to_pool job me s =
     (case job of
        None \<Rightarrow> s
      | Some p \<Rightarrow>
          (let owner = job_pool_id (jobs s p) in
           if owner = me then push_free owner p s else push_remote_free owner p s))"

definition get_job_ref :: "jptr option \<Rightarrow> 'z jheap_scheme \<Rightarrow> jptr option \<times> 'z jheap_scheme" where
  "get_job_ref job s =
     (case job of
        None \<Rightarrow> (None, s)
      | Some p \<Rightarrow> (Some p, upd_job p (refcount_update (\<lambda>r. r + 1)) s))"

definition put_job_ref :: "jptr option \<Rightarrow> nat \<Rightarrow> 'z jheap_scheme \<Rightarrow> 'z jheap_scheme" where
  "put_job_ref job c s =
     (case job of
        None \<Rightarrow> s
      | Some p \<Rightarrow>
          (let prev = refcount (jobs s p);
               s = upd_job p (refcount_update (\<lambda>r. r - 1)) s
           in if prev = 1 then release_job_to_pool (Some p) c s else s))"

section \<open>Job queues\<close>

text \<open>\<open>link_at q xs p\<close>: the entry \<open>p\<close> has been linked and the list at \<open>q\<close> is now \<open>xs\<close>.\<close>

definition link_at :: "qid \<Rightarrow> jptr list \<Rightarrow> jptr \<Rightarrow> 'z jheap_scheme \<Rightarrow> 'z jheap_scheme option" where
  "link_at q xs p s =
     (case job_link (jobs s p) of
        LinkIn _ \<Rightarrow> None
      | _ \<Rightarrow> Some ((upd_job p (job_link_update (\<lambda>_. LinkIn q)) s)
                    \<lparr>queues := (queues s)(q := xs)\<rparr>))"

definition list_del_job :: "jptr \<Rightarrow> 'z jheap_scheme \<Rightarrow> 'z jheap_scheme option" where
  "list_del_job p s =
     (let s' = upd_job p (job_link_update (\<lambda>_. LinkNull)) s in
      case job_link (jobs s p) of
        LinkNull \<Rightarrow> None
      | LinkSelf \<Rightarrow> Some s'
      | LinkIn q \<Rightarrow> Some (s'\<lparr>queues := (queues s)(q := remove1 p (queues s q))\<rparr>))"

definition add_sorted_by ::
  "(job_struct \<Rightarrow> u32) \<Rightarrow> qid \<Rightarrow> jptr \<Rightarrow> 'z jheap_scheme \<Rightarrow> 'z jheap_scheme option" where
  "add_sorted_by key q p s =
     link_at q (insert_first (\<lambda>a b. key (jobs s a) < key (jobs s b)) p (queues s q)) p s"

definition add_to_queue_sorted ::
  "qid option \<Rightarrow> jptr option \<Rightarrow> 'z jheap_scheme \<Rightarrow> 'z jheap_scheme option" where
  "add_to_queue_sorted queue_head job_to_add s =
     (case (queue_head, job_to_add) of
        (Some q, Some p) \<Rightarrow> add_sorted_by virtual_deadline q p s
      | _ \<Rightarrow> Some s)"

definition add_to_queue_sorted_by_arrival ::
  "qid option \<Rightarrow> jptr option \<Rightarrow> 'z jheap_scheme \<Rightarrow> 'z jheap_scheme option" where
  "add_to_queue_sorted_by_arrival queue_head job_to_add s =
     (case (queue_head, job_to_add) of
        (Some q, Some p) \<Rightarrow> add_sorted_by arrival_time q p s
      | _ \<Rightarrow> Some s)"

definition peek_next_job :: "qid \<Rightarrow> 'z jheap_scheme \<Rightarrow> jptr option" where
  "peek_next_job q s = (case queues s q of [] \<Rightarrow> None | p # _ \<Rightarrow> Some p)"

definition pop_next_job ::
  "qid \<Rightarrow> 'z jheap_scheme \<Rightarrow> (jptr option \<times> 'z jheap_scheme) option" where
  "pop_next_job q s =
     (case queues s q of
        [] \<Rightarrow> Some (None, s)
      | p # _ \<Rightarrow> do { s \<leftarrow> list_del_job p s; Some (Some p, s) })"

definition remove_job_with_parent_task_id ::
  "qid \<Rightarrow> u32 \<Rightarrow> nat \<Rightarrow> 'z jheap_scheme \<Rightarrow> 'z jheap_scheme option" where
  "remove_job_with_parent_task_id q tid c s =
     foldM (\<lambda>p s.
         if t_id (ptask (jobs s p)) = tid
         then do { s \<leftarrow> list_del_job p s; Some (put_job_ref (Some p) c s) }
         else Some s)
       (queues s q) s"

text \<open>\<^verbatim>\<open>list_splice_init\<close> of a job list onto the front of another.\<close>

definition splice_jobs :: "qid \<Rightarrow> qid \<Rightarrow> 'z jheap_scheme \<Rightarrow> 'z jheap_scheme" where
  "splice_jobs l head s =
     s\<lparr>queues := (queues s)(head := queues s l @ queues s head, l := []),
       jobs := (\<lambda>p. if p \<in> set (queues s l) then (jobs s p)\<lparr>job_link := LinkIn head\<rparr> else jobs s p)\<rparr>"

end
