(* ===== verification/CMath.thy ===== *)
theory CMath
  imports Float32
begin

text \<open>
  The helpers of \<^verbatim>\<open>include/lib/math.h\<close>: Euclid's loop on 32-bit unsigned integers, the two
  least common multiples (the plain one wraps, the safe one works in 64 bits and saturates at a
  cap), the comparator handed to \<^verbatim>\<open>qsort\<close> and the uniform random float. \<^verbatim>\<open>qsort\<close> and \<^verbatim>\<open>rand\<close> are
  library calls: \<open>c_qsort\<close> sorts with the comparator it is given, and the value \<open>r\<close> that
  \<^verbatim>\<open>rand()\<close> returned is an argument.
\<close>

section \<open>Greatest common divisor and least common multiple\<close>

function gcd_u32 :: "u32 \<Rightarrow> u32 \<Rightarrow> u32" where
  "gcd_u32 a b = (if b = 0 then a else gcd_u32 b (a mod b))"
  by pat_completeness auto
termination
  by (relation "measure (\<lambda>(a, b). unat b)")
    (auto simp: unat_mod unat_gt_0 unat_eq_0 mod_less_divisor)

declare gcd_u32.simps [simp del]

definition lcm_u32 :: "u32 \<Rightarrow> u32 \<Rightarrow> u32" where
  "lcm_u32 a b = (if a = 0 \<or> b = 0 then 0 else (a div gcd_u32 a b) * b)"

definition safe_lcm :: "u32 \<Rightarrow> u32 \<Rightarrow> u32 \<Rightarrow> u32" where
  "safe_lcm a b cap =
     (if a = 0 \<or> b = 0 then 0
      else let result = (ucast a :: u64) div ucast (gcd_u32 a b) * ucast b
           in if ucast cap < result then cap else ucast result)"

lemma gcd_u32_correct: "unat (gcd_u32 a b) = gcd (unat a) (unat b)"
proof (induction a b rule: gcd_u32.induct)
  case (1 a b)
  show ?case
  proof (cases "b = 0")
    case True
    then show ?thesis by (simp add: gcd_u32.simps)
  next
    case False
    with 1 have "unat (gcd_u32 b (a mod b)) = gcd (unat b) (unat a mod unat b)"
      by (simp add: unat_mod)
    with False show ?thesis
      by (subst gcd_u32.simps) (simp add: gcd_red_nat [of "unat a" "unat b"] unat_eq_0)
  qed
qed

lemma lcm_nat_div_gcd: "a div gcd a b * b = lcm a b" for a b :: nat
  by (simp add: lcm_nat_def div_mult_swap mult.commute dvd_div_mult)

lemma lcm_u32_wraps: "unat (lcm_u32 a b) = lcm (unat a) (unat b) mod 2 ^ 32"
  by (auto simp: lcm_u32_def unat_word_ariths(2) unat_div gcd_u32_correct lcm_nat_div_gcd)

lemma safe_lcm_product:
  fixes a b :: u32
  shows "unat ((ucast a :: u64) div ucast (gcd_u32 a b) * ucast b) = lcm (unat a) (unat b)"
proof -
  have "lcm (unat a) (unat b) \<le> unat a * unat b"
    by (metis dvd_imp_le gcd_nat.refl lcm_0_iff_nat lcm_least dvd_triv_left dvd_triv_right
        mult_eq_0_iff bot_nat_0.not_eq_extremum le_refl)
  also have "\<dots> < 2 ^ 32 * 2 ^ 32"
    using unat_u32_less [of a] unat_u32_less [of b] by (intro mult_strict_mono') simp_all
  finally have "lcm (unat a) (unat b) < 2 ^ 64" by simp
  then show ?thesis
    by (simp add: unat_word_ariths(2) unat_div gcd_u32_correct lcm_nat_div_gcd)
qed

lemma safe_lcm_correct:
  "unat (safe_lcm a b cap) =
     (if a = 0 \<or> b = 0 then 0 else min (lcm (unat a) (unat b)) (unat cap))"
proof (cases "a = 0 \<or> b = 0")
  case True
  then show ?thesis by (simp add: safe_lcm_def)
next
  case False
  let ?r = "(ucast a :: u64) div ucast (gcd_u32 a b) * ucast b"
  have r: "unat ?r = lcm (unat a) (unat b)" by (rule safe_lcm_product)
  show ?thesis
  proof (cases "ucast cap < ?r")
    case True
    then have "unat cap < lcm (unat a) (unat b)"
      unfolding word_less_nat_alt r by simp
    with True False show ?thesis by (simp add: safe_lcm_def Let_def)
  next
    case le: False
    then have *: "lcm (unat a) (unat b) \<le> unat cap"
      unfolding word_less_nat_alt r by simp
    also have "\<dots> < 2 ^ 32" by simp
    finally have "unat (ucast ?r :: u32) = lcm (unat a) (unat b)"
      by (simp add: unsigned_ucast_eq r take_bit_nat_eq_self_iff)
    with le False * show ?thesis by (simp add: safe_lcm_def Let_def)
  qed
qed

lemma safe_lcm_le_cap: "safe_lcm a b cap \<le> cap"
  by (simp add: word_le_nat_alt safe_lcm_correct)

section \<open>Sorting\<close>

definition cmp_uint32 :: "u32 \<Rightarrow> u32 \<Rightarrow> int" where
  "cmp_uint32 x y = (if y < x then 1 else 0) - (if x < y then 1 else 0)"

fun qsort_insert :: "('a \<Rightarrow> 'a \<Rightarrow> int) \<Rightarrow> 'a \<Rightarrow> 'a list \<Rightarrow> 'a list" where
  "qsort_insert cmp x [] = [x]"
| "qsort_insert cmp x (y # ys) =
     (if cmp x y \<le> 0 then x # y # ys else y # qsort_insert cmp x ys)"

definition c_qsort :: "('a \<Rightarrow> 'a \<Rightarrow> int) \<Rightarrow> 'a list \<Rightarrow> 'a list" where
  "c_qsort cmp xs = foldr (qsort_insert cmp) xs []"

lemma cmp_uint32_le: "cmp_uint32 x y \<le> 0 \<longleftrightarrow> x \<le> y"
  by (auto simp: cmp_uint32_def)

lemma c_qsort_sort: "c_qsort cmp_uint32 xs = sort xs"
proof -
  have "qsort_insert cmp_uint32 x ys = insort x ys" for x ys
    by (induction ys) (auto simp: cmp_uint32_le)
  then show ?thesis unfolding c_qsort_def sort_key_def by (metis (no_types) ext)
qed

section \<open>Random floats\<close>

definition rand_between :: "int \<Rightarrow> int \<Rightarrow> f32 \<Rightarrow> f32 \<Rightarrow> f32" where
  "rand_between rand_max r mn mx =
     f_add mn (f_mul (f_div (f_of_int r) (f_of_int rand_max)) (f_sub mx mn))"

text \<open>The quotient \<^verbatim>\<open>(float)rand() / (float)RAND_MAX\<close> lies between 0 and 1.\<close>

lemma mk_f32_between:
  assumes "0 < q" and "repr32 lo" and "repr32 hi" and "lo * q \<le> p" and "p \<le> hi * q"
    and "- max_units \<le> lo" and "hi \<le> max_units"
  shows "\<exists>k. mk_f32 p q = Fin k \<and> lo \<le> k \<and> k \<le> hi"
proof -
  have "round32 (lo * q) q \<le> round32 p q" and "round32 p q \<le> round32 (hi * q) q"
    using assms by (auto intro: round32_mono)
  then have "lo \<le> round32 p q" and "round32 p q \<le> hi"
    using assms by (simp_all add: round32_scale round32_repr)
  with assms show ?thesis by (auto simp: mk_f32_def Let_def)
qed

lemma one_units_range: "repr32 one_units" "one_units \<le> max_units" "0 \<le> max_units"
  using repr32_int [of 1] int_in_range [of 1] by (simp_all add: max_units_def)

lemma u31_finite:
  assumes "0 \<le> n" and "n \<le> 2 ^ 32"
  shows "f_of_int n = Fin (round32 (n * one_units) 1) \<and> 0 \<le> round32 (n * one_units) 1"
proof -
  have "repr32 (1 * 2 ^ (32 + 149))" by (rule repr32_small) simp
  then have "repr32 (2 ^ 32 * one_units)" by (simp add: one_units_def power_add)
  moreover have "n * one_units * 1 \<le> 2 ^ 32 * one_units * 1" using assms by simp
  moreover have "(2 :: int) ^ 32 * one_units \<le> max_units"
    by (simp add: one_units_def max_units_def)
  ultimately have "\<exists>k. mk_f32 (n * one_units) 1 = Fin k \<and> 0 \<le> k \<and> k \<le> 2 ^ 32 * one_units"
    using assms(1) one_units_range by (intro mk_f32_between) simp_all
  then show ?thesis unfolding f_of_int_def by (auto simp: mk_f32_def Let_def split: if_splits)
qed

lemma rand_quotient:
  assumes "0 \<le> r" and "r \<le> rand_max" and "0 < rand_max" and "rand_max \<le> 2 ^ 32"
  shows "\<exists>k. f_div (f_of_int r) (f_of_int rand_max) = Fin k \<and> 0 \<le> k \<and> k \<le> one_units"
proof -
  let ?a = "round32 (r * one_units) 1" and ?b = "round32 (rand_max * one_units) 1"
  have fa: "f_of_int r = Fin ?a" and a: "0 \<le> ?a"
    using u31_finite [of r] assms by simp_all
  have fb: "f_of_int rand_max = Fin ?b" using u31_finite [of rand_max] assms by simp
  have "round32 (1 * one_units) 1 \<le> ?b" using assms by (intro round32_mono) simp_all
  then have b: "0 < ?b"
    using one_units_pos one_units_range by (simp add: round32_repr del: one_units_pos)
  have ab: "?a \<le> ?b" using assms by (intro round32_mono) simp_all
  have "\<exists>k. mk_f32 (?a * one_units) ?b = Fin k \<and> 0 \<le> k \<and> k \<le> one_units"
    using a ab b one_units_range
    by (intro mk_f32_between) (simp_all add: mult.commute [of one_units] mult_right_mono)
  with fa fb b show ?thesis by simp
qed

text \<open>
  With finite bounds the result stays between the lower bound and the rounded sum
  \<open>min + (max - min)\<close>.
\<close>

lemma rand_between_range:
  assumes "0 \<le> r" and "r \<le> rand_max" and "0 < rand_max" and "rand_max \<le> 2 ^ 32"
    and "mn = Fin m" and "f_sub mx mn = Fin d" and "0 \<le> m" and "0 \<le> d"
    and "repr32 m" and "repr32 d" and "m \<le> max_units" and "d \<le> max_units"
  shows "f_le mn (rand_between rand_max r mn mx)
         \<and> f_le (rand_between rand_max r mn mx) (f_add mn (Fin d))"
proof -
  obtain k where k: "f_div (f_of_int r) (f_of_int rand_max) = Fin k" "0 \<le> k" "k \<le> one_units"
    using rand_quotient assms by metis
  have "\<exists>x. mk_f32 (k * d) one_units = Fin x \<and> 0 \<le> x \<and> x \<le> d"
    using k assms one_units_range
    by (intro mk_f32_between) (simp_all add: mult.commute [of d] mult_right_mono)
  then obtain x where x: "mk_f32 (k * d) one_units = Fin x" "0 \<le> x" "x \<le> d" by blast
  have r: "rand_between rand_max r mn mx = mk_f32 (m + x) 1"
    using assms(5,6) k x by (simp add: rand_between_def)
  have "f_le (mk_f32 m 1) (mk_f32 (m + x) 1)" using x by (intro mk_f32_mono) simp_all
  moreover have "mk_f32 m 1 = Fin m" using assms by (intro mk_f32_repr) simp_all
  moreover have "f_le (mk_f32 (m + x) 1) (mk_f32 (m + d) 1)" using x by (intro mk_f32_mono) simp_all
  ultimately show ?thesis using assms(5) r by simp
qed

section \<open>Properties\<close>

text \<open>C36: bounds. \<^verbatim>\<open>safe_lcm\<close> is the least common multiple cut off at the cap, for all 32-bit
  arguments: the 64-bit product inside never wraps, whereas \<^verbatim>\<open>lcm\<close> returns the multiple modulo
  \<open>2 ^ 32\<close>.\<close>

theorem safe_lcm_exact:
  "unat (safe_lcm a b cap) =
     (if a = 0 \<or> b = 0 then 0 else min (lcm (unat a) (unat b)) (unat cap))
   \<and> unat (lcm_u32 a b) = lcm (unat a) (unat b) mod 2 ^ 32"
  by (simp add: safe_lcm_correct lcm_u32_wraps)

text \<open>For every value of \<^verbatim>\<open>rand()\<close> the fraction of the execution budget that
  \<^verbatim>\<open>generate_acet\<close> draws, \<^verbatim>\<open>rand_between(0.1f, 1.0f)\<close>, lies between the float bounds.\<close>

theorem rand_fraction_bounds:
  assumes "0 \<le> r" and "r \<le> rand_max" and "0 < rand_max" and "rand_max \<le> 2 ^ 32"
  shows "f_le (lit 1 10) (rand_between rand_max r (lit 1 10) (lit 1 1))
         \<and> f_le (rand_between rand_max r (lit 1 10) (lit 1 1)) (lit 1 1)"
proof -
  have v: "lit 1 10 = Fin (13421773 * 2 ^ 122)" "f_sub (lit 1 1) (lit 1 10) = Fin (15099494 * 2 ^ 125)"
    "f_add (lit 1 10) (Fin (15099494 * 2 ^ 125)) = lit 1 1" by code_simp+
  have m: "(13421773 * 2 ^ 122 :: int) \<le> max_units" "(15099494 * 2 ^ 125 :: int) \<le> max_units"
    by (simp_all add: max_units_def)
  show ?thesis
    using rand_between_range [OF assms v(1,2)] m v(3) repr32_small [of 13421773 122]
      repr32_small [of 15099494 125] by simp
qed

theorem rand_fraction_bounds_witness:
  "f_le (lit 1 10) (rand_between 2147483647 1000000 (lit 1 10) (lit 1 1))
   \<and> f_le (rand_between 2147483647 1000000 (lit 1 10) (lit 1 1)) (lit 1 1)"
  using rand_fraction_bounds [of 1000000 2147483647] by simp

end
