(* ===== verification/SysState.thy ===== *)
theory SysState
  imports Jobs RingBuffer CMath
begin

text \<open>
  The configuration and the shared state of one processor.

  The files \<^verbatim>\<open>sys_config.h\<close> and \<^verbatim>\<open>task_alloc.c\<close> are generated from a system description and are
  not in the repository; what they define is the record \<open>config\<close>, an argument of every operation
  that uses it, together with the build flags of the Makefile, \<^verbatim>\<open>RAND_MAX\<close>, the values \<^verbatim>\<open>rand()\<close>
  returns and the C library's \<^verbatim>\<open>powf\<close>.

  The global variables of the code are the record \<open>sys\<close>: the job store, \<^verbatim>\<open>core_states\<close>,
  \<^verbatim>\<open>core_summaries\<close>, \<^verbatim>\<open>task_lookup\<close>, \<^verbatim>\<open>proc_state\<close>, the delegation pools of \<^verbatim>\<open>sched_migration.c\<close>,
  the two shutdown flags of \<^verbatim>\<open>processor.c\<close>, the datagrams handed to \<^verbatim>\<open>sendto\<close>, and how many random
  numbers have been drawn. A run-queue mutex is a flag: taking a locked one is \<open>None\<close>, because a
  handler runs to its end before another starts, so nobody else would release it. The mutexes
  around the core summaries and the job pools guard straight-line code and have no flag.
\<close>

section \<open>Configuration\<close>

datatype TaskType = Primary | Replica

record task_alloc_map =
  m_task_id :: u32
  m_task_type :: TaskType
  m_proc_id :: nat
  m_core_id :: nat
  m_tuned_deadlines :: "u32 list"

record config =
  MAX_CRITICALITY_LEVELS :: nat
  NUM_CORES_PER_PROC :: nat
  MAX_TASKS :: nat
  system_tasks :: "task_struct list"
  allocation_map :: "task_alloc_map list"
  ENABLE_ECC :: bool
  ENABLE_MIGRATION :: bool
  ENABLE_PROCRASTINATION :: bool
  ENABLE_DVFS :: bool
  ENABLE_DPM :: bool
  TOTAL_TICKS :: u32
  RAND_MAX :: int
  rand_value :: "nat \<Rightarrow> int"
  powf :: "f32 \<Rightarrow> f32 \<Rightarrow> f32"

section \<open>State of a core\<close>

record migration_request =
  req_job :: jptr
  from_core :: nat

record delegation_ack =
  ack_task_id :: u32
  ack_arrival_tick :: u32
  ack_accepted :: bool

record delegated_job =
  dj_arrival_tick :: u32
  dj_task_id :: u32
  dj_owned_by_remote :: bool

datatype djptr = DelegPtr (dpool_of: nat) (dslot_of: nat)

record dpm_control_block =
  dpm_start_time :: u32
  dpm_end_time :: u32
  in_low_power_state :: bool

record core_state =
  delegated_job_queue :: "djptr list"
  migration_request_queue :: "migration_request ring_buffer"
  delegation_ack_queue :: "delegation_ack ring_buffer"
  rq_lock :: bool
  running_job :: "jptr option"
  core_next_migration_eligible_tick :: u32
  cached_slack_horizon :: u32
  dpm_block :: dpm_control_block
  is_idle :: bool
  current_dvfs_level :: nat
  proc_id :: nat
  core_id :: nat
  local_criticality_level :: nat
  decision_point :: bool

record core_summary =
  sum_util :: f32
  sum_slack :: f32
  sum_next_arrival :: u32
  sum_is_idle :: bool
  sum_dvfs_level :: nat

record completion_message =
  completed_task_id :: u32
  job_arrival_time :: u32
  msg_system_time :: u32

section \<open>State of a processor\<close>

record processor_state =
  system_criticality_level :: nat
  system_time :: u32
  discard_queue_lock :: bool
  incoming_completion_msg_queue :: "completion_message ring_buffer"
  outgoing_completion_msg_queue :: "completion_message ring_buffer"
  processor_id :: nat

record sys = jheap +
  core_states :: "nat \<Rightarrow> core_state"
  core_summaries :: "nat \<Rightarrow> core_summary"
  task_lookup :: "nat \<Rightarrow> task_struct option"
  proc_state :: processor_state
  delegated_jobs_pool :: "djptr \<Rightarrow> delegated_job"
  delegated_jobs_free_list :: "nat \<Rightarrow> djptr list"
  core_fatal_shutdown_requested :: bool
  proc_shutdown_requested :: bool
  sent_packets :: "u8 list list"
  rand_count :: nat

abbreviation cstate :: "sys \<Rightarrow> nat \<Rightarrow> core_state" where
  "cstate s c \<equiv> core_states s c"

abbreviation now :: "sys \<Rightarrow> u32" where
  "now s \<equiv> system_time (proc_state s)"

definition upd_core :: "nat \<Rightarrow> (core_state \<Rightarrow> core_state) \<Rightarrow> sys \<Rightarrow> sys" where
  "upd_core c f s = s\<lparr>core_states := (core_states s)(c := f (core_states s c))\<rparr>"

definition upd_proc :: "(processor_state \<Rightarrow> processor_state) \<Rightarrow> sys \<Rightarrow> sys" where
  "upd_proc f s = s\<lparr>proc_state := f (proc_state s)\<rparr>"

definition upd_dj :: "djptr \<Rightarrow> (delegated_job \<Rightarrow> delegated_job) \<Rightarrow> sys \<Rightarrow> sys" where
  "upd_dj d f s =
     s\<lparr>delegated_jobs_pool := (delegated_jobs_pool s)(d := f (delegated_jobs_pool s d))\<rparr>"

section \<open>Locks\<close>

definition LOCK_RQ :: "nat \<Rightarrow> sys \<Rightarrow> sys option" where
  "LOCK_RQ c s = (if rq_lock (cstate s c) then None
                  else Some (upd_core c (rq_lock_update (\<lambda>_. True)) s))"

definition UNLOCK_RQ :: "nat \<Rightarrow> sys \<Rightarrow> sys" where
  "UNLOCK_RQ c s = upd_core c (rq_lock_update (\<lambda>_. False)) s"

definition lock_discard_queue :: "sys \<Rightarrow> sys option" where
  "lock_discard_queue s =
     (if discard_queue_lock (proc_state s) then None
      else Some (upd_proc (discard_queue_lock_update (\<lambda>_. True)) s))"

definition unlock_discard_queue :: "sys \<Rightarrow> sys" where
  "unlock_discard_queue s = upd_proc (discard_queue_lock_update (\<lambda>_. False)) s"

text \<open>The two run-queue locks of a migration, always taken in the order of the core numbers.\<close>

definition double_rq_lock :: "nat \<Rightarrow> nat \<Rightarrow> sys \<Rightarrow> sys option" where
  "double_rq_lock a b s =
     (if a < b then do { s \<leftarrow> LOCK_RQ a s; LOCK_RQ b s }
      else if a > b then do { s \<leftarrow> LOCK_RQ b s; LOCK_RQ a s }
      else LOCK_RQ a s)"

definition double_rq_unlock :: "nat \<Rightarrow> nat \<Rightarrow> sys \<Rightarrow> sys" where
  "double_rq_unlock a b s =
     (if a < b then UNLOCK_RQ a (UNLOCK_RQ b s)
      else if a > b then UNLOCK_RQ b (UNLOCK_RQ a s)
      else UNLOCK_RQ a s)"

section \<open>Random numbers and tasks\<close>

definition draw :: "config \<Rightarrow> f32 \<Rightarrow> f32 \<Rightarrow> sys \<Rightarrow> f32 \<times> sys" where
  "draw cfg mn mx s =
     (rand_between (RAND_MAX cfg) (rand_value cfg (rand_count s)) mn mx,
      s\<lparr>rand_count := Suc (rand_count s)\<rparr>)"

definition find_task_by_id :: "config \<Rightarrow> u32 \<Rightarrow> sys \<Rightarrow> task_struct option" where
  "find_task_by_id cfg tid s =
     (if unat tid > MAX_TASKS cfg then None else task_lookup s (unat tid))"

text \<open>The entries of the allocation map for a core.\<close>

definition on_core :: "sys \<Rightarrow> nat \<Rightarrow> task_alloc_map \<Rightarrow> bool" where
  "on_core s c m \<longleftrightarrow> m_proc_id m = proc_id (cstate s c) \<and> m_core_id m = core_id (cstate s c)"

end
