(* ===== verification/SchedUtil.thy ===== *)
theory SchedUtil
  imports SysState
begin

text \<open>
  The analysis functions of \<^verbatim>\<open>src/src/scheduler/sched_util.c\<close>: actual execution times, slack
  horizons, the collection of deadlines, the slack of a core at a criticality level, admission of
  a job, the next effective arrival and the utilisation.

  A \<open>None\<close> is a division by a zero period, a use of a NULL task, a conversion out of range, a lock
  that is taken, or a loop that does not end. The array of deadlines is the list of its elements
  in use.
\<close>

section \<open>Constants\<close>

definition SLACK_MARGIN_TICKS :: f32 where "SLACK_MARGIN_TICKS = lit 5 100"
definition SLACK_CALC_HORIZON_TICKS_CAP :: u32 where "SLACK_CALC_HORIZON_TICKS_CAP = 5000"
definition MAX_DEADLINES :: "config \<Rightarrow> nat" where "MAX_DEADLINES cfg = MAX_TASKS cfg * 64"

section \<open>Actual execution time\<close>

definition generate_acet :: "config \<Rightarrow> jptr \<Rightarrow> sys \<Rightarrow> (f32 \<times> sys) option" where
  "generate_acet cfg job s = (
     let bias_factor = lit 2 1;
         max_lvl = MAX_CRITICALITY_LEVELS cfg - 1;
         (r, s) = draw cfg (lit 0 1) (lit 1 1) s
     in do {
       k \<leftarrow> f_to_uint 8 (f_mul (f_of_int (int max_lvl)) (powf cfg r bias_factor));
       let crit = nat k;
       let crit = (if crit < system_criticality_level (proc_state s)
                   then system_criticality_level (proc_state s) else crit);
       let (acet_fraction, s) = draw cfg (lit 1 10) (lit 1 1) s;
       Some (f_mul acet_fraction (of_u32 (t_wcet (ptask (jobs s job)) ! crit)), s) })"

section \<open>Horizons\<close>

fun allocated_horizon_loop :: "config \<Rightarrow> nat \<Rightarrow> sys \<Rightarrow> task_alloc_map list \<Rightarrow> u32 \<Rightarrow> u32" where
  "allocated_horizon_loop cfg c s [] horizon = horizon"
| "allocated_horizon_loop cfg c s (m # ms) horizon =
     (if on_core s c m
      then (case find_task_by_id cfg (m_task_id m) s of
              None \<Rightarrow> allocated_horizon_loop cfg c s ms horizon
            | Some t \<Rightarrow>
                if t_period t = 0 then allocated_horizon_loop cfg c s ms horizon
                else (let h = safe_lcm horizon (t_period t) SLACK_CALC_HORIZON_TICKS_CAP in
                      if SLACK_CALC_HORIZON_TICKS_CAP \<le> h then SLACK_CALC_HORIZON_TICKS_CAP
                      else allocated_horizon_loop cfg c s ms h))
      else allocated_horizon_loop cfg c s ms horizon)"

definition calculate_allocated_horizon :: "config \<Rightarrow> nat \<Rightarrow> sys \<Rightarrow> u32" where
  "calculate_allocated_horizon cfg c s = allocated_horizon_loop cfg c s (allocation_map cfg) 1"

fun calculate_queue_horizon :: "sys \<Rightarrow> jptr list \<Rightarrow> u32 \<Rightarrow> u32" where
  "calculate_queue_horizon s [] horizon = horizon"
| "calculate_queue_horizon s (p # ps) horizon =
     (if horizon = 0 then calculate_queue_horizon s ps (t_period (ptask (jobs s p)))
      else (let h = safe_lcm horizon (t_period (ptask (jobs s p))) SLACK_CALC_HORIZON_TICKS_CAP in
            if SLACK_CALC_HORIZON_TICKS_CAP \<le> h then SLACK_CALC_HORIZON_TICKS_CAP
            else calculate_queue_horizon s ps h))"

definition calculate_horizon :: "nat \<Rightarrow> sys \<Rightarrow> u32" where
  "calculate_horizon c s =
     (let h = cached_slack_horizon (cstate s c);
          h = (case running_job (cstate s c) of
                 None \<Rightarrow> h
               | Some p \<Rightarrow> safe_lcm h (t_period (ptask (jobs s p))) SLACK_CALC_HORIZON_TICKS_CAP);
          h = calculate_queue_horizon s (queues s (ReadyQ c)) h;
          h = calculate_queue_horizon s (queues s (ReplicaQ c)) h
      in calculate_queue_horizon s (queues s (PendingQ c)) h)"

section \<open>Collecting deadlines\<close>

definition get_job_deadline :: "job_struct \<Rightarrow> nat \<Rightarrow> u32" where
  "get_job_deadline job crit_lvl = arrival_time job + relative_tuned_deadlines job ! crit_lvl"

definition add_deadline_to_array :: "u32 \<Rightarrow> u32 \<Rightarrow> nat \<Rightarrow> u32 list \<Rightarrow> u32 list" where
  "add_deadline_to_array d tstart max_deadlines deadlines =
     (if tstart < d \<and> length deadlines < max_deadlines then deadlines @ [d] else deadlines)"

definition process_job_deadline ::
  "sys \<Rightarrow> nat \<Rightarrow> u32 \<Rightarrow> nat \<Rightarrow> jptr option \<Rightarrow> u32 list \<Rightarrow> u32 list" where
  "process_job_deadline s crit_lvl tstart max_deadlines job deadlines =
     (case job of
        None \<Rightarrow> deadlines
      | Some p \<Rightarrow> add_deadline_to_array (get_job_deadline (jobs s p) crit_lvl) tstart
                    max_deadlines deadlines)"

definition process_queue_deadlines ::
  "sys \<Rightarrow> nat \<Rightarrow> u32 \<Rightarrow> nat \<Rightarrow> jptr list \<Rightarrow> u32 list \<Rightarrow> u32 list" where
  "process_queue_deadlines s crit_lvl tstart max_deadlines queue deadlines =
     fold (\<lambda>p. process_job_deadline s crit_lvl tstart max_deadlines (Some p)) queue deadlines"

text \<open>The deadlines of the future arrivals of one task, from \<open>arrival\<close> on.\<close>

function future_deadlines ::
  "u32 \<Rightarrow> u32 \<Rightarrow> u32 \<Rightarrow> nat \<Rightarrow> u32 \<Rightarrow> u32 \<Rightarrow> u32 list \<Rightarrow> u32 list" where
  "future_deadlines tstart horizon period max_deadlines deadline arrival deadlines =
     (if tstart < arrival + deadline \<and> arrival + deadline \<le> tstart + horizon
         \<and> length deadlines < max_deadlines
      then future_deadlines tstart horizon period max_deadlines deadline (arrival + period)
             (deadlines @ [arrival + deadline])
      else deadlines)"
  by pat_completeness auto
termination
  by (relation "measure (\<lambda>(_, _, _, m, _, _, ds). m - length ds)") auto

declare future_deadlines.simps [simp del]

definition collect_task_deadlines ::
  "config \<Rightarrow> nat \<Rightarrow> sys \<Rightarrow> nat \<Rightarrow> u32 \<Rightarrow> u32 \<Rightarrow> nat \<Rightarrow> task_alloc_map \<Rightarrow> u32 list \<Rightarrow> u32 list option"
where
  "collect_task_deadlines cfg c s crit_lvl tstart horizon max_deadlines m deadlines =
     (if \<not> on_core s c m then Some deadlines
      else do {
        task \<leftarrow> find_task_by_id cfg (m_task_id m) s;
        if t_crit_level task < crit_lvl then Some deadlines
        else if t_period task = 0 then None
        else Some (future_deadlines tstart horizon (t_period task) max_deadlines
                     (m_tuned_deadlines m ! crit_lvl)
                     ((tstart div t_period task + 1) * t_period task) deadlines) })"

text \<open>One step of the loop that compacts the sorted array in place.\<close>

definition unique_step :: "nat \<Rightarrow> u32 list \<times> nat \<Rightarrow> u32 list \<times> nat" where
  "unique_step i = (\<lambda>(deadlines, unique).
     if deadlines ! i \<noteq> deadlines ! unique
     then (deadlines[Suc unique := deadlines ! i], Suc unique)
     else (deadlines, unique))"

definition unique_deadlines :: "u32 list \<Rightarrow> u32 list" where
  "unique_deadlines deadlines =
     (let (ds, unique) = fold unique_step [1..<length deadlines] (deadlines, 0)
      in take (unique + 1) ds)"

definition collect_active_and_future_deadlines ::
  "config \<Rightarrow> nat \<Rightarrow> nat \<Rightarrow> u32 \<Rightarrow> nat \<Rightarrow> jptr option \<Rightarrow> sys \<Rightarrow> u32 list option" where
  "collect_active_and_future_deadlines cfg c crit_lvl tstart max_deadlines extra_job s =
     (if max_deadlines = 0 \<or> MAX_CRITICALITY_LEVELS cfg \<le> crit_lvl then Some []
      else
        let horizon = calculate_horizon c s;
            add_job = process_job_deadline s crit_lvl tstart max_deadlines;
            add_queue = process_queue_deadlines s crit_lvl tstart max_deadlines;
            ds = add_job extra_job [];
            ds = add_job (running_job (cstate s c)) ds;
            ds = add_queue (queues s (ReadyQ c)) ds;
            ds = add_queue (queues s (ReplicaQ c)) ds;
            ds = add_queue (queues s (PendingQ c)) ds
        in do {
          ds \<leftarrow> foldM (collect_task_deadlines cfg c s crit_lvl tstart horizon max_deadlines)
                  (allocation_map cfg) ds;
          if ds = [] then Some []
          else Some (unique_deadlines (c_qsort cmp_uint32 ds)) })"

section \<open>Slack\<close>

definition calculate_job_demand :: "job_struct \<Rightarrow> nat \<Rightarrow> u32 \<Rightarrow> f32 \<Rightarrow> f32" where
  "calculate_job_demand j crit_lvl d scaling_factor =
     (let vdl = arrival_time j + relative_tuned_deadlines j ! crit_lvl in
      if vdl \<le> d
      then fmaxf (lit 0 1)
             (ceilf (f_div (f_sub (of_u32 (t_wcet (ptask j) ! crit_lvl)) (executed_time j))
                           scaling_factor))
      else lit 0 1)"

text \<open>The demand of the arrivals of one task that are due by \<open>d\<close>; a loop that may not end.\<close>

partial_function (option) future_demand ::
  "u32 \<Rightarrow> u32 \<Rightarrow> u32 \<Rightarrow> f32 \<Rightarrow> u32 \<Rightarrow> f32 \<Rightarrow> f32 option" where
  "future_demand tuned_dl period d cost arrival demand =
     (if arrival + tuned_dl \<le> d
      then future_demand tuned_dl period d cost (arrival + period) (f_add demand cost)
      else Some demand)"

declare future_demand.simps [code]

definition task_demand ::
  "config \<Rightarrow> nat \<Rightarrow> sys \<Rightarrow> nat \<Rightarrow> u32 \<Rightarrow> f32 \<Rightarrow> u32 \<Rightarrow> task_alloc_map \<Rightarrow> f32 \<Rightarrow> f32 option" where
  "task_demand cfg c s crit_lvl tstart scaling_factor d m demand =
     (if \<not> on_core s c m then Some demand
      else case find_task_by_id cfg (m_task_id m) s of
             None \<Rightarrow> Some demand
           | Some task \<Rightarrow>
               if t_crit_level task < crit_lvl then Some demand
               else if t_period task = 0 then None
               else future_demand (m_tuned_deadlines m ! crit_lvl) (t_period task) d
                      (ceilf (f_div (of_u32 (t_wcet task ! crit_lvl)) scaling_factor))
                      ((tstart div t_period task + 1) * t_period task) demand)"

definition queue_demand ::
  "sys \<Rightarrow> nat \<Rightarrow> u32 \<Rightarrow> f32 \<Rightarrow> jptr list \<Rightarrow> f32 \<Rightarrow> f32" where
  "queue_demand s crit_lvl d scaling_factor ps demand =
     fold (\<lambda>p demand. f_add demand (calculate_job_demand (jobs s p) crit_lvl d scaling_factor))
       ps demand"

definition opt_list :: "'a option \<Rightarrow> 'a list" where
  "opt_list x = (case x of None \<Rightarrow> [] | Some y \<Rightarrow> [y])"

definition demand_by ::
  "config \<Rightarrow> nat \<Rightarrow> nat \<Rightarrow> u32 \<Rightarrow> f32 \<Rightarrow> jptr option \<Rightarrow> u32 \<Rightarrow> sys \<Rightarrow> f32 option" where
  "demand_by cfg c crit_lvl tstart scaling_factor extra_job d s =
     (let add = queue_demand s crit_lvl d scaling_factor;
          demand = lit 0 1;
          demand = add (opt_list (running_job (cstate s c))) demand;
          demand = add (queues s (ReadyQ c)) demand;
          demand = add (queues s (ReplicaQ c)) demand;
          demand = add (queues s (PendingQ c)) demand;
          demand = add (opt_list extra_job) demand
      in foldM (task_demand cfg c s crit_lvl tstart scaling_factor d) (allocation_map cfg) demand)"

definition slack_step ::
  "config \<Rightarrow> nat \<Rightarrow> nat \<Rightarrow> u32 \<Rightarrow> f32 \<Rightarrow> jptr option \<Rightarrow> sys \<Rightarrow> u32 \<Rightarrow> f32 \<Rightarrow> f32 option" where
  "slack_step cfg c crit_lvl tstart scaling_factor extra_job s d min_slack = do {
     demand \<leftarrow> demand_by cfg c crit_lvl tstart scaling_factor extra_job d s;
     let slack = f_sub (of_u32 (d - tstart)) demand;
     Some (if f_lt slack min_slack then slack else min_slack) }"

definition find_slack_core ::
  "config \<Rightarrow> nat \<Rightarrow> nat \<Rightarrow> u32 \<Rightarrow> f32 \<Rightarrow> jptr option \<Rightarrow> sys \<Rightarrow> f32 option" where
  "find_slack_core cfg c crit_lvl tstart scaling_factor extra_job s =
     (if MAX_CRITICALITY_LEVELS cfg \<le> crit_lvl then Some (lit 0 1)
      else
        let scaling_factor = (if f_le scaling_factor (lit 0 1) then lit 1 1 else scaling_factor);
            current_time = now s;
            tstart = (if current_time < tstart then tstart else current_time)
        in do {
          deadlines \<leftarrow> collect_active_and_future_deadlines cfg c crit_lvl tstart
                         (MAX_DEADLINES cfg) extra_job s;
          if deadlines = [] then Some FLT_MAX
          else do {
            min_slack \<leftarrow> foldM (slack_step cfg c crit_lvl tstart scaling_factor extra_job s)
                           deadlines FLT_MAX;
            Some (if f_lt min_slack (lit 0 1) then lit 0 1 else min_slack) } })"

section \<open>Admission\<close>

fun is_admissible_levels ::
  "config \<Rightarrow> nat \<Rightarrow> jptr \<Rightarrow> f32 \<Rightarrow> sys \<Rightarrow> nat list \<Rightarrow> bool option" where
  "is_admissible_levels cfg c p extra_margin s [] = Some True"
| "is_admissible_levels cfg c p extra_margin s (crit_lvl # lvls) =
     (let j = jobs s p; vd = arrival_time j + relative_tuned_deadlines j ! crit_lvl in
      if vd \<le> now s then Some False
      else do {
        available \<leftarrow> find_slack_core cfg c crit_lvl (arrival_time j) (lit 1 1) (Some p) s;
        if f_lt available (f_add SLACK_MARGIN_TICKS extra_margin) then Some False
        else is_admissible_levels cfg c p extra_margin s lvls })"

definition is_admissible_core :: "config \<Rightarrow> nat \<Rightarrow> jptr \<Rightarrow> f32 \<Rightarrow> sys \<Rightarrow> bool option" where
  "is_admissible_core cfg c p extra_margin s =
     is_admissible_levels cfg c p extra_margin s
       [local_criticality_level (cstate s c)..<MAX_CRITICALITY_LEVELS cfg]"

text \<open>The exported versions: with the run-queue lock taken here, or held by the caller.\<close>

definition find_slack ::
  "config \<Rightarrow> nat \<Rightarrow> nat \<Rightarrow> u32 \<Rightarrow> f32 \<Rightarrow> jptr option \<Rightarrow> sys \<Rightarrow> (f32 \<times> sys) option" where
  "find_slack cfg c crit_lvl tstart scaling_factor extra_job s = do {
     s \<leftarrow> LOCK_RQ c s;
     retval \<leftarrow> find_slack_core cfg c crit_lvl tstart scaling_factor extra_job s;
     Some (retval, UNLOCK_RQ c s) }"

definition find_slack_locked ::
  "config \<Rightarrow> nat \<Rightarrow> nat \<Rightarrow> u32 \<Rightarrow> f32 \<Rightarrow> jptr option \<Rightarrow> sys \<Rightarrow> f32 option" where
  "find_slack_locked = find_slack_core"

definition is_admissible :: "config \<Rightarrow> nat \<Rightarrow> jptr \<Rightarrow> f32 \<Rightarrow> sys \<Rightarrow> (bool \<times> sys) option" where
  "is_admissible cfg c p extra_margin s = do {
     s \<leftarrow> LOCK_RQ c s;
     retval \<leftarrow> is_admissible_core cfg c p extra_margin s;
     Some (retval, UNLOCK_RQ c s) }"

definition is_admissible_locked :: "config \<Rightarrow> nat \<Rightarrow> jptr \<Rightarrow> f32 \<Rightarrow> sys \<Rightarrow> bool option" where
  "is_admissible_locked = is_admissible_core"

section \<open>Next effective arrival and utilisation\<close>

definition next_pending_arrival :: "nat \<Rightarrow> sys \<Rightarrow> u32" where
  "next_pending_arrival c s =
     fold (\<lambda>p m. if now s < arrival_time (jobs s p) \<and> arrival_time (jobs s p) < m
                 then arrival_time (jobs s p) else m)
       (queues s (PendingQ c)) UINT32_MAX"

definition task_next_arrival :: "nat \<Rightarrow> sys \<Rightarrow> task_struct \<Rightarrow> u32" where
  "task_next_arrival c s task =
     (let current_time = now s;
          remainder = current_time mod t_period task;
          next_arrival = current_time + (t_period task - remainder)
      in fold (\<lambda>d next_arrival.
             let dj = delegated_jobs_pool s d in
             if dj_arrival_tick dj = next_arrival \<and> dj_task_id dj = t_id task
                \<and> dj_owned_by_remote dj
             then next_arrival + t_period task else next_arrival)
           (delegated_job_queue (cstate s c)) next_arrival)"

definition find_next_effective_arrival_time :: "config \<Rightarrow> nat \<Rightarrow> sys \<Rightarrow> u32" where
  "find_next_effective_arrival_time cfg c s =
     fold (\<lambda>m min_arrival_time.
         if \<not> on_core s c m then min_arrival_time
         else case find_task_by_id cfg (m_task_id m) s of
                None \<Rightarrow> min_arrival_time
              | Some task \<Rightarrow>
                  if t_period task = 0
                     \<or> t_crit_level task < local_criticality_level (cstate s c)
                  then min_arrival_time
                  else let next_arrival = task_next_arrival c s task in
                       if next_arrival < min_arrival_time then next_arrival else min_arrival_time)
       (allocation_map cfg) (next_pending_arrival c s)"

definition add_job_util :: "job_struct \<Rightarrow> f32 \<Rightarrow> f32" where
  "add_job_util j util =
     f_add util (f_div (fmaxf (lit 0 1) (f_sub (wcet j) (executed_time j)))
                       (of_u32 (t_period (ptask j))))"

definition get_util :: "nat \<Rightarrow> sys \<Rightarrow> (f32 \<times> sys) option" where
  "get_util c s = do {
     s \<leftarrow> LOCK_RQ c s;
     let util = lit 0 1;
     let add = fold (\<lambda>p. add_job_util (jobs s p));
     let util = add (opt_list (running_job (cstate s c))) util;
     let util = add (queues s (ReadyQ c)) util;
     let util = add (queues s (ReplicaQ c)) util;
     Some (util, UNLOCK_RQ c s) }"

end
