(* ===== verification/PowerMgmt.thy ===== *)
theory PowerMgmt
  imports SchedUtil
begin

text \<open>
  \<^verbatim>\<open>src/src/power_management.c\<close>: the frequency levels, the choice of a level from the slack, the
  low-power interval of an idle core, and procrastination (preempting the running job to sleep
  while there is slack).
\<close>

record dvfs_level =
  frequency_mhz :: u32
  voltage_mv :: u32
  scaling_factor :: f32

definition NUM_DVFS_LEVELS :: nat where "NUM_DVFS_LEVELS = 6"

definition DPM_ENTRY_PHYSICAL_COST_TICKS :: f32 where "DPM_ENTRY_PHYSICAL_COST_TICKS = lit 1 10"
definition DPM_EXIT_PHYSICAL_COST_TICKS :: f32 where "DPM_EXIT_PHYSICAL_COST_TICKS = lit 2 10"

definition DPM_EXIT_LATENCY_TICKS :: int where "DPM_EXIT_LATENCY_TICKS = 1"
definition DPM_ENTRY_LATENCY_TICKS :: int where "DPM_ENTRY_LATENCY_TICKS = 1"
definition DPM_IDLE_THRESHOLD_TICKS :: int where "DPM_IDLE_THRESHOLD_TICKS = 4"

definition dvfs_levels :: "dvfs_level list" where
  "dvfs_levels =
     [\<lparr>frequency_mhz = 2000, voltage_mv = 1000, scaling_factor = lit 1 1\<rparr>,
      \<lparr>frequency_mhz = 1800, voltage_mv = 950, scaling_factor = lit 90 100\<rparr>,
      \<lparr>frequency_mhz = 1500, voltage_mv = 900, scaling_factor = lit 75 100\<rparr>,
      \<lparr>frequency_mhz = 1200, voltage_mv = 850, scaling_factor = lit 60 100\<rparr>,
      \<lparr>frequency_mhz = 1000, voltage_mv = 800, scaling_factor = lit 50 100\<rparr>,
      \<lparr>frequency_mhz = 800, voltage_mv = 760, scaling_factor = lit 40 100\<rparr>]"

definition power_management_init :: "sys \<Rightarrow> sys" where
  "power_management_init s = s"

definition power_get_current_scaling_factor :: "nat \<Rightarrow> sys \<Rightarrow> f32" where
  "power_get_current_scaling_factor c s =
     scaling_factor (dvfs_levels ! current_dvfs_level (cstate s c))"

definition power_set_dvfs_level :: "nat \<Rightarrow> nat \<Rightarrow> sys \<Rightarrow> sys" where
  "power_set_dvfs_level c level_idx s =
     (if level_idx < NUM_DVFS_LEVELS
      then upd_core c (current_dvfs_level_update (\<lambda>_. level_idx)) s else s)"

definition power_get_current_dvfs_level :: "nat \<Rightarrow> sys \<Rightarrow> nat" where
  "power_get_current_dvfs_level c s = current_dvfs_level (cstate s c)"

text \<open>
  The least slack over the criticality levels from the current one on; the loop of the choice of
  a level and of procrastination.
\<close>

fun min_slack_levels ::
  "config \<Rightarrow> nat \<Rightarrow> f32 \<Rightarrow> nat list \<Rightarrow> f32 \<Rightarrow> sys \<Rightarrow> (f32 \<times> sys) option" where
  "min_slack_levels cfg c scale [] min_slack s = Some (min_slack, s)"
| "min_slack_levels cfg c scale (l # ls) min_slack s = do {
     (slack, s) \<leftarrow> find_slack cfg c l (now s) scale None s;
     min_slack_levels cfg c scale ls (if f_lt slack min_slack then slack else min_slack) s }"

fun dvfs_search ::
  "config \<Rightarrow> nat \<Rightarrow> nat list \<Rightarrow> nat \<Rightarrow> sys \<Rightarrow> (nat \<times> sys) option" where
  "dvfs_search cfg c [] best_level s = Some (best_level, s)"
| "dvfs_search cfg c (i # is) best_level s = do {
     (min_slack, s) \<leftarrow> min_slack_levels cfg c (scaling_factor (dvfs_levels ! i))
       [local_criticality_level (cstate s c)..<MAX_CRITICALITY_LEVELS cfg] FLT_MAX s;
     if f_le SLACK_MARGIN_TICKS min_slack then dvfs_search cfg c is i s
     else Some (best_level, s) }"

definition calc_required_dvfs_level :: "config \<Rightarrow> nat \<Rightarrow> sys \<Rightarrow> (nat \<times> sys) option" where
  "calc_required_dvfs_level cfg c s =
     (if is_idle (cstate s c) \<or> running_job (cstate s c) = None
      then Some (NUM_DVFS_LEVELS - 1, s)
      else dvfs_search cfg c [0..<NUM_DVFS_LEVELS] 0 s)"

definition enter_low_power :: "nat \<Rightarrow> u32 \<Rightarrow> u32 \<Rightarrow> sys \<Rightarrow> sys" where
  "enter_low_power c start_time end_time s =
     upd_core c (dpm_block_update (\<lambda>_. \<lparr>dpm_start_time = start_time, dpm_end_time = end_time,
                                        in_low_power_state = True\<rparr>)) s"

definition power_management_set_dpm_interval :: "nat \<Rightarrow> u32 \<Rightarrow> sys \<Rightarrow> sys option" where
  "power_management_set_dpm_interval c next_arrival_time s =
     (let cs = cstate s c; t = now s in
      if \<not> is_idle cs then Some s
      else if in_low_power_state (dpm_block cs) then Some s
      else if next_arrival_time = UINT32_MAX \<or> next_arrival_time \<le> t
      then Some (enter_low_power c t UINT32_MAX s)
      else let slack = of_u32 (next_arrival_time - t) in
           if f_le (f_of_int (DPM_IDLE_THRESHOLD_TICKS + DPM_ENTRY_LATENCY_TICKS
                              + DPM_EXIT_LATENCY_TICKS)) slack
           then do {
             k \<leftarrow> f_to_u32 (floorf slack);
             Some (enter_low_power c t (t + k) s) }
           else Some s)"

text \<open>The running job goes back to the queue of its kind; it stays in \<^verbatim>\<open>running_job\<close> for now.\<close>

definition requeue_running :: "nat \<Rightarrow> jptr \<Rightarrow> sys \<Rightarrow> sys option" where
  "requeue_running c p s =
     (let s = upd_job p (state_update (\<lambda>_. JOB_STATE_READY)) s in
      if is_replica (jobs s p)
      then add_to_queue_sorted (Some (ReplicaQ c)) (Some p) s
      else add_to_queue_sorted (Some (ReadyQ c)) (Some p) s)"

definition power_management_try_procrastination ::
  "config \<Rightarrow> nat \<Rightarrow> sys \<Rightarrow> (bool \<times> sys) option" where
  "power_management_try_procrastination cfg c s =
     (let min_arrival_time = find_next_effective_arrival_time cfg c s;
          threshold = f_of_int (DPM_ENTRY_LATENCY_TICKS + DPM_IDLE_THRESHOLD_TICKS
                                + DPM_EXIT_LATENCY_TICKS);
          time_until_next_arrival = of_u32 (min_arrival_time - now s)
      in if min_arrival_time = UINT32_MAX then Some (False, s)
         else if f_lt time_until_next_arrival threshold then Some (False, s)
         else do {
           (min_slack, s) \<leftarrow> min_slack_levels cfg c
               (scaling_factor (dvfs_levels ! (NUM_DVFS_LEVELS - 1)))
               [local_criticality_level (cstate s c)..<MAX_CRITICALITY_LEVELS cfg] FLT_MAX s;
           if f_lt min_slack threshold then Some (False, s)
           else do {
             let deferrable_time = fminf min_slack time_until_next_arrival;
             s \<leftarrow> LOCK_RQ c s;
             (case running_job (cstate s c) of
                None \<Rightarrow> Some (False, UNLOCK_RQ c s)
              | Some p \<Rightarrow> do {
                  s \<leftarrow> requeue_running c p s;
                  let s = upd_core c (running_job_update (\<lambda>_. None)
                                      \<circ> is_idle_update (\<lambda>_. True)) s;
                  let s = UNLOCK_RQ c s;
                  s \<leftarrow> (if ENABLE_DPM cfg
                       then do {
                         k \<leftarrow> f_to_u32 (floorf deferrable_time);
                         power_management_set_dpm_interval c (now s + k) s }
                       else Some s);
                  Some (True, s) }) } })"

end
