(* ===== verification/Migration.thy ===== *)
theory Migration
  imports PowerMgmt
begin

text \<open>
  \<^verbatim>\<open>src/src/scheduler/sched_migration.c\<close>: the delegation pool of each core, the push of queued and
  of future jobs to lightly loaded cores, and the requests a core accepts or rejects.

  The lists of delegations (per-core free list and \<^verbatim>\<open>delegated_job_queue\<close>) are lists of pointers
  into the pool. Request and acknowledgement queues are ring buffers; a request to a full queue
  blocks (\<open>None\<close>).
\<close>

section \<open>Constants\<close>

definition MAX_FUTURE_DELEGATIONS :: nat where "MAX_FUTURE_DELEGATIONS = 200"
definition MAX_MIGRATION_REQUESTS :: nat where "MAX_MIGRATION_REQUESTS = 32"
definition DPM_MIGRATION_LOOKAHEAD_TICKS :: u32 where "DPM_MIGRATION_LOOKAHEAD_TICKS = 100"
definition CORE_MIGRATION_COOLDOWN_TICKS :: u32 where "CORE_MIGRATION_COOLDOWN_TICKS = 15"
definition JOB_MIGRATION_COOLDOWN_TICKS :: u32 where "JOB_MIGRATION_COOLDOWN_TICKS = 50"
definition MIGRATION_PENALTY_TICKS :: f32 where "MIGRATION_PENALTY_TICKS = lit 5 100"
definition LIGHT_DONOR_UTIL_THRESHOLD :: f32 where "LIGHT_DONOR_UTIL_THRESHOLD = lit 3 10"

definition MIN_MIGRATION_BENEFIT_THRESHOLD :: f32 where
  "MIN_MIGRATION_BENEFIT_THRESHOLD =
     f_add (f_add MIGRATION_PENALTY_TICKS DPM_ENTRY_PHYSICAL_COST_TICKS)
           DPM_EXIT_PHYSICAL_COST_TICKS"

section \<open>Delegations\<close>

definition init_migration :: "config \<Rightarrow> sys \<Rightarrow> sys" where
  "init_migration cfg s =
     fold (\<lambda>i s. s\<lparr>delegated_jobs_free_list := (delegated_jobs_free_list s)
                     (i := fold (\<lambda>j ds. DelegPtr i j # ds) [0..<MAX_FUTURE_DELEGATIONS] [])\<rparr>)
       [0..<NUM_CORES_PER_PROC cfg] s"

definition create_delegation :: "nat \<Rightarrow> sys \<Rightarrow> djptr option \<times> sys" where
  "create_delegation c s =
     (case delegated_jobs_free_list s c of
        [] \<Rightarrow> (None, s)
      | d # ds \<Rightarrow> (Some d, s\<lparr>delegated_jobs_free_list := (delegated_jobs_free_list s)(c := ds)\<rparr>))"

definition release_delegation :: "djptr option \<Rightarrow> nat \<Rightarrow> sys \<Rightarrow> sys" where
  "release_delegation dj c s =
     (case dj of
        None \<Rightarrow> s
      | Some d \<Rightarrow>
          (let s = upd_dj d (dj_owned_by_remote_update (\<lambda>_. False)) s in
           s\<lparr>delegated_jobs_free_list :=
               (delegated_jobs_free_list s)(c := d # delegated_jobs_free_list s c)\<rparr>))"

definition add_delegation_sorted :: "djptr \<Rightarrow> nat \<Rightarrow> sys \<Rightarrow> sys" where
  "add_delegation_sorted d c s =
     (let tick = (\<lambda>d. dj_arrival_tick (delegated_jobs_pool s d)) in
      upd_core c (delegated_job_queue_update (insert_first (\<lambda>a b. tick a < tick b) d)) s)"

text \<open>Unlinking a delegation from the queue of its core.\<close>

definition unlink_delegation :: "djptr \<Rightarrow> nat \<Rightarrow> sys \<Rightarrow> sys" where
  "unlink_delegation d c s = upd_core c (delegated_job_queue_update (remove1 d)) s"

text \<open>The first delegation an acknowledgement matches is marked when it was accepted.\<close>

definition apply_ack :: "nat \<Rightarrow> delegation_ack \<Rightarrow> sys \<Rightarrow> sys" where
  "apply_ack c ack s =
     (case find (\<lambda>d. dj_task_id (delegated_jobs_pool s d) = ack_task_id ack
                     \<and> dj_arrival_tick (delegated_jobs_pool s d) = ack_arrival_tick ack)
             (delegated_job_queue (cstate s c)) of
        None \<Rightarrow> s
      | Some d \<Rightarrow>
          if ack_accepted ack then upd_dj d (dj_owned_by_remote_update (\<lambda>_. True)) s else s)"

definition undef_ack :: delegation_ack where
  "undef_ack = \<lparr>ack_task_id = 0, ack_arrival_tick = 0, ack_accepted = False\<rparr>"

partial_function (option) update_delegations :: "nat \<Rightarrow> sys \<Rightarrow> sys option" where
  "update_delegations c s = do {
     (r, ack, q) \<leftarrow> ring_buffer_try_dequeue (Some undef_ack) (delegation_ack_queue (cstate s c));
     if r = 0
     then update_delegations c
            (apply_ack c (the ack) (upd_core c (delegation_ack_queue_update (\<lambda>_. q)) s))
     else Some s }"

declare update_delegations.simps [code]

section \<open>Choosing a core\<close>

definition is_migration_profitable :: "job_struct \<Rightarrow> u32 \<Rightarrow> bool" where
  "is_migration_profitable job current_time =
     (if current_time < next_migration_eligible_tick job then False
      else \<not> f_lt (fmaxf (lit 0 1) (f_sub (wcet job) (executed_time job)))
                   MIN_MIGRATION_BENEFIT_THRESHOLD)"

definition best_core_step ::
  "sys \<Rightarrow> f32 \<Rightarrow> nat \<Rightarrow> nat \<times> f32 \<Rightarrow> nat \<times> f32" where
  "best_core_step s demand i = (\<lambda>(best_core, max_util).
     (let summary = core_summaries s i in
      if sum_is_idle summary then (best_core, max_util)
      else if f_le demand (sum_slack summary) \<and> f_lt max_util (sum_util summary)
      then (i, sum_util summary)
      else (best_core, max_util)))"

definition find_best_core_for_migration :: "config \<Rightarrow> jptr \<Rightarrow> nat \<Rightarrow> sys \<Rightarrow> nat" where
  "find_best_core_for_migration cfg p c s =
     (let j = jobs s p; demand = f_sub (wcet j) (executed_time j)
      in fst (fold (best_core_step s demand) [0..<NUM_CORES_PER_PROC cfg]
                (c, LIGHT_DONOR_UTIL_THRESHOLD)))"

section \<open>Pushing work away\<close>

definition send_request :: "nat \<Rightarrow> migration_request \<Rightarrow> sys \<Rightarrow> sys option" where
  "send_request dest r s = do {
     (_, q) \<leftarrow> ring_buffer_enqueue r (migration_request_queue (cstate s dest));
     Some (upd_core dest (migration_request_queue_update (\<lambda>_. q)) s) }"

definition try_offload_job :: "config \<Rightarrow> nat \<Rightarrow> jptr \<Rightarrow> sys \<Rightarrow> sys option" where
  "try_offload_job cfg c p s =
     (if \<not> is_migration_profitable (jobs s p) (now s) then Some s
      else
        let offered = is_being_offered (jobs s p);
            s = upd_job p (is_being_offered_update (\<lambda>_. True)) s
        in if offered then Some s
           else
             let dest = find_best_core_for_migration cfg p c s in
             if dest = c then Some (upd_job p (is_being_offered_update (\<lambda>_. False)) s)
             else
               let (job, s) = get_job_ref (Some p) s
               in send_request dest \<lparr>req_job = the job, from_core = c\<rparr> s)"

definition try_offload_jobs_from_queue :: "config \<Rightarrow> qid \<Rightarrow> nat \<Rightarrow> sys \<Rightarrow> sys option" where
  "try_offload_jobs_from_queue cfg q c s = foldM (try_offload_job cfg c) (queues s q) s"

definition attempt_rq_load_shedding :: "config \<Rightarrow> nat \<Rightarrow> sys \<Rightarrow> sys option" where
  "attempt_rq_load_shedding cfg c s = do {
     s \<leftarrow> LOCK_RQ c s;
     s \<leftarrow> try_offload_jobs_from_queue cfg (ReadyQ c) c s;
     s \<leftarrow> try_offload_jobs_from_queue cfg (ReplicaQ c) c s;
     Some (UNLOCK_RQ c s) }"

text \<open>Is there already a delegation for this arrival? The walk stops at the first later one.\<close>

fun has_delegation :: "sys \<Rightarrow> u32 \<Rightarrow> u32 \<Rightarrow> djptr list \<Rightarrow> bool" where
  "has_delegation s tid tick [] = False"
| "has_delegation s tid tick (d # ds) =
     (let dj = delegated_jobs_pool s d in
      if dj_task_id dj = tid \<and> dj_arrival_tick dj = tick then True
      else if tick < dj_arrival_tick dj then False
      else has_delegation s tid tick ds)"

text \<open>The fields \<^verbatim>\<open>handle_job_arrivals\<close> and the future offers give a new job.\<close>

definition copy_deadlines :: "config \<Rightarrow> task_alloc_map \<Rightarrow> job_struct \<Rightarrow> job_struct" where
  "copy_deadlines cfg m j =
     j\<lparr>relative_tuned_deadlines :=
         map (\<lambda>level. m_tuned_deadlines m ! level) [0..<MAX_CRITICALITY_LEVELS cfg]\<rparr>"

definition init_future_job ::
  "config \<Rightarrow> nat \<Rightarrow> task_alloc_map \<Rightarrow> u32 \<Rightarrow> jptr \<Rightarrow> sys \<Rightarrow> sys option" where
  "init_future_job cfg c m arrival p s =
     (let l = local_criticality_level (cstate s c);
          s = upd_job p (\<lambda>j.
                let j = copy_deadlines cfg m (j\<lparr>arrival_time := arrival\<rparr>) in
                j\<lparr>actual_deadline := arrival + t_deadline (ptask j),
                  virtual_deadline := arrival_time j + relative_tuned_deadlines j ! l\<rparr>) s
      in do {
        (a, s) \<leftarrow> generate_acet cfg p s;
        Some (upd_job p (\<lambda>j. j
          \<lparr>acet := a, wcet := of_u32 (t_wcet (ptask j) ! l), executed_time := lit 0 1,
           is_replica := (m_task_type m = Replica), state := JOB_STATE_IDLE\<rparr>) s) })"

definition offer_future_job ::
  "config \<Rightarrow> nat \<Rightarrow> task_alloc_map \<Rightarrow> task_struct \<Rightarrow> u32 \<Rightarrow> sys \<Rightarrow> sys option" where
  "offer_future_job cfg c m task arrival s =
     (case create_job task c s of
        (None, s) \<Rightarrow> Some s
      | (Some p, s) \<Rightarrow> do {
          s \<leftarrow> init_future_job cfg c m arrival p s;
          let dest = find_best_core_for_migration cfg p c s;
          if dest = c then Some (put_job_ref (Some p) c s)
          else case create_delegation c s of
                 (None, s) \<Rightarrow> Some (put_job_ref (Some p) c s)
               | (Some d, s) \<Rightarrow> do {
                   let s = upd_dj d (\<lambda>_. \<lparr>dj_arrival_tick = arrival, dj_task_id = t_id task,
                                          dj_owned_by_remote = False\<rparr>) s;
                   let s = add_delegation_sorted d c s;
                   s \<leftarrow> send_request dest \<lparr>req_job = p, from_core = c\<rparr> s;
                   Some (upd_core c (core_next_migration_eligible_tick_update
                           (\<lambda>_. now s + CORE_MIGRATION_COOLDOWN_TICKS)) s) } })"

definition shed_future_step :: "config \<Rightarrow> nat \<Rightarrow> task_alloc_map \<Rightarrow> sys \<Rightarrow> sys option" where
  "shed_future_step cfg c m s =
     (if \<not> on_core s c m then Some s
      else case find_task_by_id cfg (m_task_id m) s of
             None \<Rightarrow> Some s
           | Some task \<Rightarrow>
               if f_lt (of_u32 (t_wcet task ! local_criticality_level (cstate s c)))
                       MIN_MIGRATION_BENEFIT_THRESHOLD
               then Some s
               else if t_period task = 0 then None
               else
                 let arrival = (now s div t_period task + 1) * t_period task in
                 if now s + DPM_MIGRATION_LOOKAHEAD_TICKS \<le> arrival then Some s
                 else if has_delegation s (t_id task) arrival
                           (delegated_job_queue (cstate s c))
                 then Some s
                 else offer_future_job cfg c m task arrival s)"

definition attempt_future_load_shedding :: "config \<Rightarrow> nat \<Rightarrow> sys \<Rightarrow> sys option" where
  "attempt_future_load_shedding cfg c s =
     foldM (shed_future_step cfg c) (allocation_map cfg) s"

definition attempt_migration_push :: "config \<Rightarrow> nat \<Rightarrow> sys \<Rightarrow> sys option" where
  "attempt_migration_push cfg c s = do {
     (util, s) \<leftarrow> get_util c s;
     let cs = cstate s c;
     if \<not> is_idle cs \<and> core_next_migration_eligible_tick cs \<le> now s
        \<and> f_lt util LIGHT_DONOR_UTIL_THRESHOLD
     then do {
       s \<leftarrow> LOCK_RQ c s;
       let is_about_to_become_idle = (queues s (ReadyQ c) = [] \<and> queues s (ReplicaQ c) = []);
       let s = UNLOCK_RQ c s;
       if is_about_to_become_idle then attempt_future_load_shedding cfg c s
       else attempt_rq_load_shedding cfg c s }
     else Some s }"

section \<open>Accepting work\<close>

text \<open>The deadline and budget of a job at the level of the core that takes it.\<close>

definition retune :: "nat \<Rightarrow> job_struct \<Rightarrow> job_struct" where
  "retune l j =
     j\<lparr>virtual_deadline := arrival_time j + relative_tuned_deadlines j ! l,
       wcet := of_u32 (t_wcet (ptask j) ! l)\<rparr>"

definition accept_future :: "nat \<Rightarrow> nat \<Rightarrow> jptr \<Rightarrow> sys \<Rightarrow> sys option" where
  "accept_future c from p s = do {
     s \<leftarrow> add_to_queue_sorted_by_arrival (Some (PendingQ c)) (Some p) s;
     let ack = \<lparr>ack_task_id = t_id (ptask (jobs s p)), ack_arrival_tick = arrival_time (jobs s p),
                ack_accepted = True\<rparr>;
     let s = upd_job p (retune (local_criticality_level (cstate s c))) s;
     (_, q) \<leftarrow> ring_buffer_enqueue ack (delegation_ack_queue (cstate s from));
     let s = upd_core from (delegation_ack_queue_update (\<lambda>_. q)) s;
     let s = upd_job p (is_being_offered_update (\<lambda>_. False)) s;
     let s = upd_job p (next_migration_eligible_tick_update
                          (\<lambda>_. now s + JOB_MIGRATION_COOLDOWN_TICKS)) s;
     Some (double_rq_unlock c from s) }"

definition accept_queued :: "nat \<Rightarrow> nat \<Rightarrow> jptr \<Rightarrow> sys \<Rightarrow> sys option" where
  "accept_queued c from p s = do {
     s \<leftarrow> list_del_job p s;
     let l = local_criticality_level (cstate s c);
     let s = upd_job p (retune l) s;
     s \<leftarrow> (if t_crit_level (ptask (jobs s p)) < l
          then add_to_queue_sorted (Some (DiscardL c)) (Some p) s
          else if is_replica (jobs s p)
          then add_to_queue_sorted (Some (ReplicaQ c)) (Some p) s
          else add_to_queue_sorted (Some (ReadyQ c)) (Some p) s);
     let s = double_rq_unlock c from s;
     let s = upd_job p (is_being_offered_update (\<lambda>_. False)) s;
     let s = put_job_ref (Some p) c s;
     Some (upd_job p (next_migration_eligible_tick_update
                        (\<lambda>_. now s + JOB_MIGRATION_COOLDOWN_TICKS)) s) }"

definition drop_request :: "nat \<Rightarrow> nat \<Rightarrow> jptr \<Rightarrow> sys \<Rightarrow> sys" where
  "drop_request c from p s =
     double_rq_unlock c from
       (put_job_ref (Some p) c (upd_job p (is_being_offered_update (\<lambda>_. False)) s))"

definition process_request :: "config \<Rightarrow> nat \<Rightarrow> migration_request \<Rightarrow> sys \<Rightarrow> sys option" where
  "process_request cfg c r s = do {
     let p = req_job r;
     let from = from_core r;
     s \<leftarrow> double_rq_lock c from s;
     ok \<leftarrow> is_admissible_locked cfg c p MIGRATION_PENALTY_TICKS s;
     if \<not> ok then Some (drop_request c from p s)
     else if state (jobs s p) = JOB_STATE_IDLE \<and> now s < arrival_time (jobs s p)
     then accept_future c from p s
     else if job_link (jobs s p) \<noteq> LinkNull \<and> state (jobs s p) = JOB_STATE_READY
     then accept_queued c from p s
     else Some (drop_request c from p s) }"

definition undef_request :: migration_request where
  "undef_request = \<lparr>req_job = JobPtr 0 0, from_core = 0\<rparr>"

partial_function (option) process_migration_requests :: "config \<Rightarrow> nat \<Rightarrow> sys \<Rightarrow> sys option" where
  "process_migration_requests cfg c s = do {
     (r, req, q) \<leftarrow> ring_buffer_try_dequeue (Some undef_request)
                      (migration_request_queue (cstate s c));
     if r = 0
     then do {
       s \<leftarrow> process_request cfg c (the req)
              (upd_core c (migration_request_queue_update (\<lambda>_. q)) s);
       process_migration_requests cfg c s }
     else Some s }"

declare process_migration_requests.simps [code]

end
