(* ===== verification/Ipc.thy ===== *)
theory Ipc
  imports SysState
begin

text \<open>
  \<^verbatim>\<open>include/ipc.h\<close> and \<^verbatim>\<open>src/src/ipc.c\<close>: the two kinds of multicast packets, their byte layout,
  sending and receiving.

  The socket is abstracted to the datagrams waiting when the receive loop starts (it ends when
  there are none left) and to the list of datagrams given to \<^verbatim>\<open>sendto\<close>. Structures have the layout
  of the little-endian targets the program is built for: three 4-byte words for a completion
  message, one 4-byte enumeration value for a criticality change. The receive buffer keeps its
  bytes from one datagram to the next, as the local array of the code does.
\<close>

section \<open>Packets\<close>

definition MESSAGE_QUEUE_SIZE :: nat where "MESSAGE_QUEUE_SIZE = 64"

definition PACKET_TYPE_COMPLETION :: u8 where "PACKET_TYPE_COMPLETION = 1"
definition PACKET_TYPE_CRITICALITY_CHANGE :: u8 where "PACKET_TYPE_CRITICALITY_CHANGE = 2"

definition sizeof_completion_message :: nat where "sizeof_completion_message = 12"
definition sizeof_criticality_change_message :: nat where
  "sizeof_criticality_change_message = 4"

definition packet_buf_size :: nat where
  "packet_buf_size = 1 + MESSAGE_QUEUE_SIZE * sizeof_completion_message"

definition u32_bytes :: "u32 \<Rightarrow> u8 list" where
  "u32_bytes w = [ucast w, ucast (drop_bit 8 w), ucast (drop_bit 16 w), ucast (drop_bit 24 w)]"

definition bytes_u32 :: "u8 list \<Rightarrow> u32" where
  "bytes_u32 bs = ucast (bs ! 0) + push_bit 8 (ucast (bs ! 1)) + push_bit 16 (ucast (bs ! 2))
                  + push_bit 24 (ucast (bs ! 3))"

definition completion_bytes :: "completion_message \<Rightarrow> u8 list" where
  "completion_bytes m =
     u32_bytes (completed_task_id m) @ u32_bytes (job_arrival_time m)
     @ u32_bytes (msg_system_time m)"

definition bytes_completion :: "u8 list \<Rightarrow> completion_message" where
  "bytes_completion bs =
     \<lparr>completed_task_id = bytes_u32 bs, job_arrival_time = bytes_u32 (drop 4 bs),
      msg_system_time = bytes_u32 (drop 8 bs)\<rparr>"

text \<open>\<^verbatim>\<open>memcpy\<close> out of the packet buffer; reading past its end is a trap.\<close>

definition read_buf :: "u8 list \<Rightarrow> nat \<Rightarrow> nat \<Rightarrow> u8 list option" where
  "read_buf buf off n = (if off + n \<le> length buf then Some (take n (drop off buf)) else None)"

section \<open>Initialisation\<close>

definition zero_msg :: completion_message where
  "zero_msg = \<lparr>completed_task_id = 0, job_arrival_time = 0, msg_system_time = 0\<rparr>"

text \<open>
  The system calls on the socket. \<open>res\<close> gives their results; none is made twice. The first call that
  fails closes the socket and ends the process, except for the option that may not be supported.
  The result is the descriptor, the calls made, and whether the process goes on.
\<close>

datatype sock_call =
  Socket | SetReuseAddr | SetReusePort | Bind | AddMembership | GetFlags | SetNonblock
  | MulticastIf | MulticastTtl | MulticastLoop | DropMembership | Close

fun socket_calls :: "(sock_call \<Rightarrow> int) \<Rightarrow> sock_call list \<Rightarrow> sock_call list \<times> bool" where
  "socket_calls res [] = ([], True)"
| "socket_calls res (c # cs) =
     (if res c < 0 \<and> c \<noteq> SetReusePort then ([c, Close], False)
      else (let (made, ok) = socket_calls res cs in (c # made, ok)))"

definition ipc_open_socket :: "(sock_call \<Rightarrow> int) \<Rightarrow> int \<times> sock_call list \<times> bool" where
  "ipc_open_socket res =
     (if res Socket < 0 then (res Socket, [Socket], False)
      else let (made, ok) = socket_calls res
             [SetReuseAddr, SetReusePort, Bind, AddMembership, GetFlags, SetNonblock, MulticastIf,
              MulticastTtl, MulticastLoop]
           in (res Socket, Socket # made, ok))"

definition ipc_cleanup :: "int \<Rightarrow> int \<times> sock_call list" where
  "ipc_cleanup sockfd =
     (if 0 \<le> sockfd then (- 1, [DropMembership, Close]) else (sockfd, []))"

text \<open>After that, the two message queues.\<close>

definition ipc_thread_init :: "sys \<Rightarrow> sys option" where
  "ipc_thread_init s = do {
     let n = of_nat MESSAGE_QUEUE_SIZE;
     let buf = replicate MESSAGE_QUEUE_SIZE zero_msg;
     let seq = replicate MESSAGE_QUEUE_SIZE 0;
     (_, q1) \<leftarrow> ring_buffer_init (incoming_completion_msg_queue (proc_state s)) n buf seq
                  (of_nat sizeof_completion_message);
     (_, q2) \<leftarrow> ring_buffer_init (outgoing_completion_msg_queue (proc_state s)) n buf seq
                  (of_nat sizeof_completion_message);
     Some (upd_proc (incoming_completion_msg_queue_update (\<lambda>_. q1)
                     \<circ> outgoing_completion_msg_queue_update (\<lambda>_. q2)) s) }"

section \<open>Receiving\<close>

definition put_incoming :: "completion_message \<Rightarrow> sys \<Rightarrow> sys option" where
  "put_incoming m s = do {
     (_, q) \<leftarrow> ring_buffer_enqueue m (incoming_completion_msg_queue (proc_state s));
     Some (upd_proc (incoming_completion_msg_queue_update (\<lambda>_. q)) s) }"

definition read_completion :: "u8 list \<Rightarrow> nat \<Rightarrow> sys \<Rightarrow> sys option" where
  "read_completion buf i s = do {
     bs \<leftarrow> read_buf buf (1 + i * sizeof_completion_message) sizeof_completion_message;
     put_incoming (bytes_completion bs) s }"

definition handle_packet :: "config \<Rightarrow> nat \<Rightarrow> u8 list \<Rightarrow> sys \<Rightarrow> sys option" where
  "handle_packet cfg len buf s = (
     let pkt_type = buf ! 0;
         payload_len = (of_nat len :: u64) - 1
     in if pkt_type = PACKET_TYPE_CRITICALITY_CHANGE
           \<and> payload_len = of_nat sizeof_criticality_change_message
        then do {
          bs \<leftarrow> read_buf buf 1 sizeof_criticality_change_message;
          let new_level = unat (bytes_u32 bs);
          Some (if system_criticality_level (proc_state s) < new_level
                   \<and> new_level < MAX_CRITICALITY_LEVELS cfg
                then upd_proc (system_criticality_level_update (\<lambda>_. new_level)) s
                else s) }
        else if pkt_type = PACKET_TYPE_COMPLETION
        then foldM (read_completion buf)
               [0..<unat (payload_len div of_nat sizeof_completion_message)] s
        else Some s)"

fun receive_loop :: "config \<Rightarrow> u8 list list \<Rightarrow> u8 list \<Rightarrow> sys \<Rightarrow> sys option" where
  "receive_loop cfg [] buf s = Some s"
| "receive_loop cfg (d # ds) buf s = (
     let got = take packet_buf_size d;
         buf = got @ drop (length got) buf
     in do {
       s \<leftarrow> handle_packet cfg (length got) buf s;
       receive_loop cfg ds buf s })"

text \<open>\<open>buf\<close> is what the uninitialised array \<^verbatim>\<open>packet_buf\<close> happens to hold.\<close>

definition ipc_receive_completion_messages ::
  "config \<Rightarrow> u8 list list \<Rightarrow> u8 list \<Rightarrow> sys \<Rightarrow> sys option" where
  "ipc_receive_completion_messages cfg datagrams buf s = receive_loop cfg datagrams buf s"

section \<open>Sending\<close>

definition sendto :: "u8 list \<Rightarrow> sys \<Rightarrow> sys" where
  "sendto packet s = s\<lparr>sent_packets := sent_packets s @ [packet]\<rparr>"

definition ipc_broadcast_criticality_change :: "nat \<Rightarrow> sys \<Rightarrow> sys" where
  "ipc_broadcast_criticality_change new_level s =
     sendto (PACKET_TYPE_CRITICALITY_CHANGE # u32_bytes (of_nat new_level)) s"

fun collect_outgoing ::
  "nat \<Rightarrow> completion_message ring_buffer \<Rightarrow> u8 list \<Rightarrow> (u8 list \<times> completion_message ring_buffer) option"
where
  "collect_outgoing 0 q payload = Some (payload, q)"
| "collect_outgoing (Suc room) q payload = do {
     (r, msg, q') \<leftarrow> ring_buffer_try_dequeue (Some zero_msg) q;
     if r = 0 then collect_outgoing room q' (payload @ completion_bytes (the msg))
     else Some (payload, q') }"

definition ipc_send_completion_messages :: "sys \<Rightarrow> sys option" where
  "ipc_send_completion_messages s = do {
     (payload, q) \<leftarrow> collect_outgoing MESSAGE_QUEUE_SIZE
                       (outgoing_completion_msg_queue (proc_state s)) [];
     let s = upd_proc (outgoing_completion_msg_queue_update (\<lambda>_. q)) s;
     Some (if payload = [] then s else sendto (PACKET_TYPE_COMPLETION # payload) s) }"

end
