(* ===== verification/PlatformSem.thy ===== *)
theory PlatformSem
  imports Prelude
begin

text \<open>
  The semaphore of \<^verbatim>\<open>include/lib/platform_sem.h\<close>. A semaphore is its count, or \<open>None\<close> before it is
  initialised and after it is destroyed, when using it is undefined. A call that blocks, or whose
  behaviour is undefined, does not return.

  The file has two branches. The POSIX one rests on \<^verbatim>\<open>sem_init\<close>, \<^verbatim>\<open>sem_wait\<close>, \<^verbatim>\<open>sem_post\<close> and
  \<^verbatim>\<open>sem_destroy\<close>, of which \<^verbatim>\<open>sem_wait\<close> may be interrupted by a signal. The branch for Apple systems rests on
  the functions of libdispatch, which are parameters here.
\<close>

section \<open>POSIX\<close>

type_synonym sem = "nat option"

definition sem_value :: "sem \<Rightarrow> nat" where
  "sem_value s = (case s of None \<Rightarrow> 0 | Some n \<Rightarrow> n)"

lemma sem_value_simps [simp]: "sem_value None = 0" "sem_value (Some n) = n"
  by (simp_all add: sem_value_def)

definition sem_wait :: "bool \<Rightarrow> sem \<Rightarrow> (int \<times> sem) option" where
  "sem_wait interrupted s = do {
     n \<leftarrow> s;
     if interrupted then Some (- 1, Some n) else if n = 0 then None else Some (0, Some (n - 1)) }"

definition platform_sem_init :: "nat \<Rightarrow> sem" where "platform_sem_init value = Some value"

text \<open>The loop over interruptions, given for its calls in turn; the first call beyond them is not
  interrupted.\<close>

fun platform_sem_wait :: "bool list \<Rightarrow> sem \<Rightarrow> sem option" where
  "platform_sem_wait [] s = map_option snd (sem_wait False s)"
| "platform_sem_wait (i # is) s = do {
     (r, s) \<leftarrow> sem_wait i s;
     if r = - 1 then platform_sem_wait is s else Some s }"

definition platform_sem_post :: "sem \<Rightarrow> sem option" where
  "platform_sem_post s = do { n \<leftarrow> s; Some (Some (n + 1)) }"

definition platform_sem_destroy :: "sem \<Rightarrow> sem option" where
  "platform_sem_destroy s = do { n \<leftarrow> s; Some None }"

text \<open>Interruptions make no difference: the wait returns when the count is positive, and takes one.\<close>

lemma platform_sem_wait_eq:
  "platform_sem_wait is s = (if sem_value s = 0 then None else Some (Some (sem_value s - 1)))"
  by (induction "is" arbitrary: s) (auto simp: sem_wait_def sem_value_def split: option.splits)

lemma platform_sem_post_eq: "platform_sem_post (Some n) = Some (Some (Suc n))"
  by (simp add: platform_sem_post_def)

section \<open>Apple systems\<close>

text \<open>The functions of libdispatch, on its type of semaphores; a wait that blocks is \<open>None\<close>.\<close>

record 's dispatch =
  dispatch_semaphore_create :: "nat \<Rightarrow> 's"
  dispatch_semaphore_wait :: "'s \<Rightarrow> nat \<Rightarrow> 's option"
  dispatch_semaphore_signal :: "'s \<Rightarrow> 's option"
  dispatch_release :: "'s \<Rightarrow> 's option"

definition DISPATCH_TIME_FOREVER :: nat where "DISPATCH_TIME_FOREVER = 2 ^ 64 - 1"

definition apple_sem_init :: "'s dispatch \<Rightarrow> nat \<Rightarrow> 's" where
  "apple_sem_init d value = dispatch_semaphore_create d value"

definition apple_sem_wait :: "'s dispatch \<Rightarrow> 's \<Rightarrow> 's option" where
  "apple_sem_wait d s = dispatch_semaphore_wait d s DISPATCH_TIME_FOREVER"

definition apple_sem_post :: "'s dispatch \<Rightarrow> 's \<Rightarrow> 's option" where
  "apple_sem_post d s = dispatch_semaphore_signal d s"

definition apple_sem_destroy :: "'s dispatch \<Rightarrow> 's \<Rightarrow> 's option" where
  "apple_sem_destroy d s = dispatch_release d s"

text \<open>What libdispatch documents, for the count \<open>cnt\<close> of a semaphore: a wait without a time limit
  blocks until the count is positive and takes one, a signal adds one, and a released semaphore is
  gone.\<close>

definition dispatch_ok :: "('s \<Rightarrow> sem) \<Rightarrow> 's dispatch \<Rightarrow> bool" where
  "dispatch_ok cnt d \<longleftrightarrow>
     (\<forall>v. cnt (dispatch_semaphore_create d v) = Some v)
   \<and> (\<forall>s n. cnt s = Some n \<longrightarrow>
        map_option cnt (dispatch_semaphore_wait d s DISPATCH_TIME_FOREVER)
          = (if n = 0 then None else Some (Some (n - 1)))
      \<and> map_option cnt (dispatch_semaphore_signal d s) = Some (Some (n + 1))
      \<and> map_option cnt (dispatch_release d s) = Some None)"

text \<open>The two branches then agree.\<close>

lemma apple_agrees_with_posix:
  assumes "dispatch_ok cnt d"
  shows "cnt (apple_sem_init d v) = platform_sem_init v"
    and "cnt s = Some n \<Longrightarrow> map_option cnt (apple_sem_wait d s) = platform_sem_wait is (cnt s)"
    and "cnt s = Some n \<Longrightarrow> map_option cnt (apple_sem_post d s) = platform_sem_post (cnt s)"
    and "cnt s = Some n \<Longrightarrow> map_option cnt (apple_sem_destroy d s) = platform_sem_destroy (cnt s)"
  using assms by (auto simp: dispatch_ok_def apple_sem_init_def platform_sem_init_def apple_sem_wait_def
      platform_sem_wait_eq apple_sem_post_def platform_sem_post_def apple_sem_destroy_def
      platform_sem_destroy_def)

end
