(* ===== verification/Log.thy ===== *)
theory Log
  imports RingBuffer PlatformSem PowerMgmt "HOL-Library.Char_ord"
begin

text \<open>
  The log: \<^verbatim>\<open>src/include/lib/log.h\<close>, \<^verbatim>\<open>src/src/lib/log.c\<close>, and the functions that print jobs, queues
  and cores. Any thread puts a formatted line into a ring buffer and wakes the logger thread, which
  writes the lines to a file.

  A C string is the list of its characters before the NUL. The file is its contents, or \<open>None\<close> when
  it could not be opened.
\<close>

section \<open>Formatting\<close>

definition snprintf :: "nat \<Rightarrow> string \<Rightarrow> string" where
  "snprintf len text = take (len - 1) text"

definition digit :: "nat \<Rightarrow> char" where "digit n = char_of (48 + n)"

fun decimal :: "nat \<Rightarrow> string" where
  "decimal n = (if n < 10 then [digit n] else decimal (n div 10) @ [digit (n mod 10)])"

declare decimal.simps [simp del]

text \<open>The conversions \<^verbatim>\<open>%u\<close> and \<^verbatim>\<open>%d\<close> of a 32-bit argument, and \<^verbatim>\<open>%.2f\<close> of a float.\<close>

definition fmt_u :: "u32 \<Rightarrow> string" where "fmt_u w = decimal (unat w)"

definition fmt_d :: "u32 \<Rightarrow> string" where
  "fmt_d w = (if sint w < 0 then ''-'' else '''') @ decimal (nat \<bar>sint w\<bar>)"

fun fmt_2f :: "f32 \<Rightarrow> string" where
  "fmt_2f (Fin k) =
     (let n = nat (nearest_even (\<bar>k\<bar> * 100) one_units)
      in (if k < 0 then ''-'' else '''') @ decimal (n div 100) @ ''.''
         @ [digit (n mod 100 div 10), digit (n mod 10)])"
| "fmt_2f PInf = ''inf''"
| "fmt_2f NInf = ''-inf''"
| "fmt_2f NaN = ''nan''"

section \<open>Levels\<close>

datatype log_level =
  LOG_LEVEL_DEBUG | LOG_LEVEL_INFO | LOG_LEVEL_WARN | LOG_LEVEL_ERROR | LOG_LEVEL_FATAL

fun log_rank :: "log_level \<Rightarrow> nat" where
  "log_rank LOG_LEVEL_DEBUG = 0"
| "log_rank LOG_LEVEL_INFO = 1"
| "log_rank LOG_LEVEL_WARN = 2"
| "log_rank LOG_LEVEL_ERROR = 3"
| "log_rank LOG_LEVEL_FATAL = 4"

lemma log_rank_inj: "log_rank l = log_rank m \<Longrightarrow> l = m"
  by (cases l; cases m) simp_all

text \<open>The order of the levels is that of the C enumeration.\<close>

instantiation log_level :: linorder
begin

definition less_eq_log_level :: "log_level \<Rightarrow> log_level \<Rightarrow> bool" where
  "less_eq_log_level l m \<longleftrightarrow> log_rank l \<le> log_rank m"

definition less_log_level :: "log_level \<Rightarrow> log_level \<Rightarrow> bool" where
  "less_log_level l m \<longleftrightarrow> log_rank l < log_rank m"

instance
  by (intro_classes; unfold less_eq_log_level_def less_log_level_def) (auto intro: log_rank_inj)

end

fun level_str :: "log_level \<Rightarrow> string" where
  "level_str LOG_LEVEL_DEBUG = ''DEBUG''"
| "level_str LOG_LEVEL_INFO = ''INFO''"
| "level_str LOG_LEVEL_WARN = ''WARN''"
| "level_str LOG_LEVEL_ERROR = ''ERROR''"
| "level_str LOG_LEVEL_FATAL = ''FATAL''"

definition current_log_level :: log_level where "current_log_level = LOG_LEVEL_DEBUG"

section \<open>Lines\<close>

definition MAX_LOG_MSG_SIZE :: nat where "MAX_LOG_MSG_SIZE = 256"
definition LOG_QUEUE_SIZE :: u64 where "LOG_QUEUE_SIZE = 512"

record log_thread_context =
  ctx_proc_id :: nat
  ctx_core_id :: nat
  is_set :: bool

definition log_prefix :: "log_thread_context \<Rightarrow> u32 \<Rightarrow> log_level \<Rightarrow> string \<Rightarrow> nat \<Rightarrow> string" where
  "log_prefix ctx time level file line =
     ''['' @ fmt_u time @ ''] ''
     @ (if is_set ctx
        then ''[P'' @ decimal (ctx_proc_id ctx) @ '': C'' @ decimal (ctx_core_id ctx) @ ''] ''
        else ''[SYS] '')
     @ ''['' @ level_str level @ ''] ['' @ file @ '':'' @ decimal line @ ''] ''"

definition log_line ::
  "log_thread_context \<Rightarrow> u32 \<Rightarrow> log_level \<Rightarrow> string \<Rightarrow> nat \<Rightarrow> string \<Rightarrow> string" where
  "log_line ctx time level file line body =
     snprintf MAX_LOG_MSG_SIZE (log_prefix ctx time level file line @ body @ [CHR 0x0A])"

record log_system =
  log_queue :: "string ring_buffer"
  log_sem :: sem
  log_wakeup_pending :: int
  log_shutdown_requested :: bool
  log_file :: "string option"

text \<open>The three steps of a call of \<^verbatim>\<open>LOG\<close> that passes the level test.\<close>

definition log_enqueue :: "string \<Rightarrow> log_system \<Rightarrow> (int \<times> log_system) option" where
  "log_enqueue msg s = do {
     (r, q) \<leftarrow> ring_buffer_try_enqueue (Some msg) (log_queue s);
     Some (r, s\<lparr>log_queue := q\<rparr>) }"

definition log_exchange :: "log_system \<Rightarrow> int \<times> log_system" where
  "log_exchange s = (log_wakeup_pending s, s\<lparr>log_wakeup_pending := 1\<rparr>)"

definition log_post :: "log_system \<Rightarrow> log_system option" where
  "log_post s = do { m \<leftarrow> platform_sem_post (log_sem s); Some (s\<lparr>log_sem := m\<rparr>) }"

definition LOG ::
  "log_thread_context \<Rightarrow> u32 \<Rightarrow> log_level \<Rightarrow> string \<Rightarrow> nat \<Rightarrow> string \<Rightarrow> log_system \<Rightarrow> log_system option"
where
  "LOG ctx time level file line body s =
     (if current_log_level \<le> level
      then do {
        (r, s) \<leftarrow> log_enqueue (log_line ctx time level file line body) s;
        if r = 0
        then (let (old, s) = log_exchange s in if old = 0 then log_post s else Some s)
        else Some s }
      else Some s)"

section \<open>Start and end\<close>

text \<open>\<open>opened\<close> tells whether \<^verbatim>\<open>fopen\<close> succeeded, which truncates the file; \<open>buffer\<close> and \<open>seq\<close> are the
  static arrays.\<close>

definition log_filename :: "nat \<Rightarrow> string" where
  "log_filename pid = snprintf 64 (''target/logs/log_p'' @ decimal pid @ ''.txt'')"

definition log_system_init ::
  "bool \<Rightarrow> string list \<Rightarrow> u64 list \<Rightarrow> log_system \<Rightarrow> log_system option" where
  "log_system_init opened buffer seq s = do {
     let s = s\<lparr>log_file := if opened then Some '''' else None\<rparr>;
     (r, q) \<leftarrow> ring_buffer_init (log_queue s) LOG_QUEUE_SIZE buffer seq (of_nat MAX_LOG_MSG_SIZE);
     Some (s\<lparr>log_queue := q, log_sem := platform_sem_init 0, log_wakeup_pending := 0\<rparr>) }"

text \<open>One turn of the inner loop of the logger: a line is taken and written to the file.\<close>

definition write_line :: "string \<Rightarrow> log_system \<Rightarrow> log_system" where
  "write_line msg s = s\<lparr>log_file := map_option (\<lambda>f. f @ msg) (log_file s)\<rparr>"

definition logger_take :: "log_system \<Rightarrow> (int \<times> string option \<times> log_system) option" where
  "logger_take s = do {
     (r, m, q) \<leftarrow> ring_buffer_try_dequeue (Some '''') (log_queue s);
     let s = s\<lparr>log_queue := q\<rparr>;
     if r = 0 then Some (r, m, write_line (the m) s) else Some (r, None, s) }"

text \<open>The steps of \<^verbatim>\<open>log_system_shutdown\<close> before and after it joins the logger.\<close>

definition log_request_shutdown :: "log_system \<Rightarrow> log_system" where
  "log_request_shutdown s = s\<lparr>log_shutdown_requested := True\<rparr>"

definition log_destroy :: "log_system \<Rightarrow> log_system option" where
  "log_destroy s = do { m \<leftarrow> platform_sem_destroy (log_sem s); Some (s\<lparr>log_sem := m\<rparr>) }"

definition log_close_file :: "log_system \<Rightarrow> log_system" where
  "log_close_file s = s\<lparr>log_file := None\<rparr>"

lemma log_post_iff:
  "log_post s = Some t \<longleftrightarrow> (\<exists>n. log_sem s = Some n \<and> t = s\<lparr>log_sem := Some (Suc n)\<rparr>)"
  by (auto simp: log_post_def platform_sem_post_def opt_simps)

lemma log_destroy_iff:
  "log_destroy s = Some t \<longleftrightarrow> log_sem s \<noteq> None \<and> t = s\<lparr>log_sem := None\<rparr>"
  by (auto simp: log_destroy_def platform_sem_destroy_def opt_simps)

section \<open>The threads\<close>

text \<open>
  The threads that log, the logger and the thread that shuts the log down, interleaved at their
  accesses to the shared state; a call of a ring-buffer operation is one access. \<open>lt_accepted\<close> and
  \<open>lt_written\<close> record the lines that were accepted and those that were taken, in their order.
\<close>

datatype log_pc = LIdle | LExchange | LPost
datatype logger_pc = GStart | GTop | GWait | GDrain | GClear | GExit
datatype shut_pc = MRun | MPost | MJoin | MDone

record log_threads =
  lt_sys :: log_system
  lt_callers :: "nat \<Rightarrow> log_pc"
  lt_logger :: logger_pc
  lt_main :: shut_pc
  lt_accepted :: "string list"
  lt_written :: "string list"

inductive lstep :: "log_threads \<Rightarrow> log_threads \<Rightarrow> bool" where
  log_accepted:
    "\<lbrakk>lt_callers t i = LIdle; current_log_level \<le> level;
      msg = log_line ctx time level file line body; log_enqueue msg (lt_sys t) = Some (r, s); r = 0\<rbrakk>
     \<Longrightarrow> lstep t (t\<lparr>lt_sys := s, lt_callers := (lt_callers t)(i := LExchange),
                    lt_accepted := lt_accepted t @ [msg]\<rparr>)"
| log_refused:
    "\<lbrakk>lt_callers t i = LIdle; log_enqueue msg (lt_sys t) = Some (r, s); r \<noteq> 0\<rbrakk>
     \<Longrightarrow> lstep t (t\<lparr>lt_sys := s\<rparr>)"
| log_exchanged:
    "\<lbrakk>lt_callers t i = LExchange; log_exchange (lt_sys t) = (old, s)\<rbrakk>
     \<Longrightarrow> lstep t (t\<lparr>lt_sys := s, lt_callers := (lt_callers t)(i := if old = 0 then LPost else LIdle)\<rparr>)"
| log_posted:
    "\<lbrakk>lt_callers t i = LPost; log_post (lt_sys t) = Some s\<rbrakk>
     \<Longrightarrow> lstep t (t\<lparr>lt_sys := s, lt_callers := (lt_callers t)(i := LIdle)\<rparr>)"
| logger_start:
    "lt_logger t = GStart
     \<Longrightarrow> lstep t (t\<lparr>lt_sys := (lt_sys t)\<lparr>log_wakeup_pending := 0\<rparr>, lt_logger := GTop\<rparr>)"
| logger_check:
    "lt_logger t = GTop
     \<Longrightarrow> lstep t (t\<lparr>lt_logger := if log_shutdown_requested (lt_sys t) then GExit else GWait\<rparr>)"
| logger_wake:
    "\<lbrakk>lt_logger t = GWait; platform_sem_wait is (log_sem (lt_sys t)) = Some m\<rbrakk>
     \<Longrightarrow> lstep t (t\<lparr>lt_sys := (lt_sys t)\<lparr>log_sem := m\<rparr>, lt_logger := GDrain\<rparr>)"
| logger_line:
    "\<lbrakk>lt_logger t = GDrain; logger_take (lt_sys t) = Some (r, Some msg, s); r = 0\<rbrakk>
     \<Longrightarrow> lstep t (t\<lparr>lt_sys := s, lt_written := lt_written t @ [msg]\<rparr>)"
| logger_empty:
    "\<lbrakk>lt_logger t = GDrain; logger_take (lt_sys t) = Some (r, m, s); r \<noteq> 0\<rbrakk>
     \<Longrightarrow> lstep t (t\<lparr>lt_sys := s, lt_logger := GClear\<rparr>)"
| logger_clear:
    "lt_logger t = GClear
     \<Longrightarrow> lstep t (t\<lparr>lt_sys := (lt_sys t)\<lparr>log_wakeup_pending := 0\<rparr>, lt_logger := GTop\<rparr>)"
| shutdown_flag:
    "lt_main t = MRun
     \<Longrightarrow> lstep t (t\<lparr>lt_sys := log_request_shutdown (lt_sys t), lt_main := MPost\<rparr>)"
| shutdown_post:
    "\<lbrakk>lt_main t = MPost; log_post (lt_sys t) = Some s\<rbrakk>
     \<Longrightarrow> lstep t (t\<lparr>lt_sys := s, lt_main := MJoin\<rparr>)"
| shutdown_join:
    "\<lbrakk>lt_main t = MJoin; lt_logger t = GExit; log_destroy (lt_sys t) = Some s\<rbrakk>
     \<Longrightarrow> lstep t (t\<lparr>lt_sys := log_close_file s, lt_main := MDone\<rparr>)"

section \<open>Jobs, queues and cores\<close>

definition job_to_str :: "job_struct \<Rightarrow> nat \<Rightarrow> string" where
  "job_to_str j len = snprintf len
     (''Job(ID:'' @ fmt_u (t_id (ptask j)) @ '' VDL:'' @ fmt_u (virtual_deadline j) @ '' REM:''
      @ fmt_2f (f_sub (acet j) (executed_time j)) @ '')'')"

text \<open>Appending at the end of the array \<^verbatim>\<open>queue_str\<close>, cut off at its end.\<close>

definition append_str :: "string \<Rightarrow> string \<Rightarrow> string" where
  "append_str queue_str text = queue_str @ snprintf (256 - length queue_str) text"

fun queue_entries :: "sys \<Rightarrow> jptr list \<Rightarrow> string \<Rightarrow> string" where
  "queue_entries s [] queue_str = queue_str"
| "queue_entries s (p # ps) queue_str =
     (let queue_str = append_str queue_str (job_to_str (jobs s p) 64);
          queue_str = (if ps \<noteq> [] then queue_str @ take (256 - length queue_str - 1) '' -> ''
                       else queue_str)
      in queue_entries s ps queue_str)"

text \<open>The calls of \<^verbatim>\<open>LOG\<close>, as their level and text.\<close>

definition log_job_queue :: "log_level \<Rightarrow> string \<Rightarrow> qid \<Rightarrow> sys \<Rightarrow> (log_level \<times> string) list" where
  "log_job_queue level name q s =
     (if level < current_log_level then []
      else let queue_str = snprintf 256 (''Queue '' @ [CHR 0x27] @ name @ [CHR 0x27] @ '': '');
               queue_str = (if queues s q = [] then append_str queue_str ''(Empty)'' else queue_str)
           in [(level, queue_entries s (queues s q) queue_str)])"

definition log_core_state :: "nat \<Rightarrow> sys \<Rightarrow> ((log_level \<times> string) list \<times> sys) option" where
  "log_core_state c s = do {
     s \<leftarrow> LOCK_RQ c s;
     let cs = cstate s c;
     let msgs =
       (if is_idle cs then [(LOG_LEVEL_DEBUG, ''Status: IDLE'')]
        else [(LOG_LEVEL_DEBUG, ''Status: RUNNING -> Job '' @ fmt_d
                (case running_job cs of None \<Rightarrow> UINT32_MAX | Some p \<Rightarrow> t_id (ptask (jobs s p))))])
       @ [(LOG_LEVEL_DEBUG, ''DVFS Level: '' @ decimal (current_dvfs_level cs)
             @ '', Frequency Scaling: '' @ fmt_2f (power_get_current_scaling_factor c s)),
          (LOG_LEVEL_DEBUG, ''Criticality Level: '' @ decimal (local_criticality_level cs))]
       @ log_job_queue LOG_LEVEL_DEBUG ''Ready Queue'' (ReadyQ c) s
       @ log_job_queue LOG_LEVEL_DEBUG ''Replica Queue'' (ReplicaQ c) s
       @ log_job_queue LOG_LEVEL_DEBUG ''Pending Jobs'' (PendingQ c) s;
     Some (msgs, UNLOCK_RQ c s) }"

end
