(* ===== verification/SchedCore.thy ===== *)
theory SchedCore
  imports Migration Ipc Log
begin

text \<open>
  \<^verbatim>\<open>src/src/scheduler/sched_core.c\<close>: the handlers of a scheduler tick, one definition per function
  of the code, and \<open>scheduler_tick\<close> that composes them. A handler is run by the thread of its core
  without interference; \<open>None\<close> is a trap or an operation that blocks. The lines a tick logs are not kept
  here; the report at its end is a part of it, since it takes the run-queue lock.
\<close>

section \<open>Completion\<close>

definition add_ready_or_replica :: "nat \<Rightarrow> jptr \<Rightarrow> sys \<Rightarrow> sys option" where
  "add_ready_or_replica c p s =
     (if is_replica (jobs s p) then add_to_queue_sorted (Some (ReplicaQ c)) (Some p) s
      else add_to_queue_sorted (Some (ReadyQ c)) (Some p) s)"

definition set_decision_point :: "nat \<Rightarrow> sys \<Rightarrow> sys" where
  "set_decision_point c s = upd_core c (decision_point_update (\<lambda>_. True)) s"

definition put_outgoing :: "completion_message \<Rightarrow> sys \<Rightarrow> sys option" where
  "put_outgoing m s = do {
     (_, q) \<leftarrow> ring_buffer_enqueue m (outgoing_completion_msg_queue (proc_state s));
     Some (upd_proc (outgoing_completion_msg_queue_update (\<lambda>_. q)) s) }"

text \<open>The early return of the code leaves the run-queue lock taken.\<close>

definition handle_job_completion :: "nat \<Rightarrow> sys \<Rightarrow> sys option" where
  "handle_job_completion c s = do {
     let s = set_decision_point c s;
     s \<leftarrow> LOCK_RQ c s;
     (case running_job (cstate s c) of
        None \<Rightarrow> Some s
      | Some p \<Rightarrow> do {
          let s = upd_job p (state_update (\<lambda>_. JOB_STATE_COMPLETED)) s;
          let j = jobs s p;
          s \<leftarrow> put_outgoing \<lparr>completed_task_id = t_id (ptask j),
                             job_arrival_time = arrival_time j,
                             msg_system_time = now s\<rparr> s;
          let s = upd_core c (running_job_update (\<lambda>_. None)) s;
          let s = UNLOCK_RQ c s;
          let s = upd_core c (is_idle_update (\<lambda>_. True)) s;
          Some (put_job_ref (Some p) c s) }) }"

text \<open>Copies of a job that was completed elsewhere are removed.\<close>

definition matches_msg :: "completion_message \<Rightarrow> job_struct \<Rightarrow> bool" where
  "matches_msg m j \<longleftrightarrow>
     t_id (ptask j) = completed_task_id m \<and> arrival_time j = job_arrival_time m"

definition remove_matching_job :: "nat \<Rightarrow> completion_message \<Rightarrow> jptr \<Rightarrow> sys \<Rightarrow> sys option" where
  "remove_matching_job c m p s =
     (if matches_msg m (jobs s p)
      then do {
        s \<leftarrow> list_del_job p (upd_job p (state_update (\<lambda>_. JOB_STATE_REMOVED)) s);
        Some (put_job_ref (Some p) c s) }
      else Some s)"

definition remove_running_if_completed :: "nat \<Rightarrow> completion_message \<Rightarrow> sys \<Rightarrow> sys" where
  "remove_running_if_completed c m s =
     (case running_job (cstate s c) of
        None \<Rightarrow> s
      | Some p \<Rightarrow>
          if t_id (ptask (jobs s p)) = completed_task_id m
          then let s = upd_core c (running_job_update (\<lambda>_. None)) s;
                   s = upd_job p (state_update (\<lambda>_. JOB_STATE_REMOVED)) s;
                   s = upd_core c (is_idle_update (\<lambda>_. True)) s
               in put_job_ref (Some p) c s
          else s)"

definition remove_completed_for :: "nat \<Rightarrow> completion_message \<Rightarrow> sys \<Rightarrow> sys option" where
  "remove_completed_for c m s = do {
     s \<leftarrow> LOCK_RQ c s;
     s \<leftarrow> foldM (remove_matching_job c m) (queues s (ReplicaQ c)) s;
     s \<leftarrow> foldM (remove_matching_job c m) (queues s (ReadyQ c)) s;
     Some (UNLOCK_RQ c (remove_running_if_completed c m s)) }"

definition remove_completed_jobs :: "nat \<Rightarrow> sys \<Rightarrow> sys option" where
  "remove_completed_jobs c s = do {
     msgs \<leftarrow> ring_buffer_iter_read_unsafe (incoming_completion_msg_queue (proc_state s));
     foldM (remove_completed_for c) msgs s }"

section \<open>Mode change\<close>

text \<open>One turn of the loop that empties a queue into its successor or the discard list.\<close>

definition filter_job_for_mode_change :: "nat \<Rightarrow> qid \<Rightarrow> jptr \<Rightarrow> sys \<Rightarrow> sys option" where
  "filter_job_for_mode_change c dest_queue p s =
     (let l = local_criticality_level (cstate s c);
          s = upd_job p (\<lambda>j. j\<lparr>virtual_deadline := arrival_time j + relative_tuned_deadlines j ! l,
                               wcet := of_u32 (t_wcet (ptask j) ! l)\<rparr>) s
      in if t_crit_level (ptask (jobs s p)) < l \<and> \<not> is_being_offered (jobs s p)
         then add_to_queue_sorted (Some (DiscardL c)) (Some p) s
         else add_to_queue_sorted (Some dest_queue) (Some p) s)"

partial_function (option) filter_queue_for_mode_change ::
  "qid \<Rightarrow> qid \<Rightarrow> nat \<Rightarrow> sys \<Rightarrow> sys option" where
  "filter_queue_for_mode_change src_queue dest_queue c s =
     (if queues s src_queue = [] then Some s
      else Option.bind (pop_next_job src_queue s) (\<lambda>(p, s).
           Option.bind (filter_job_for_mode_change c dest_queue (the p) s)
             (filter_queue_for_mode_change src_queue dest_queue c)))"

declare filter_queue_for_mode_change.simps [code]

definition handle_mode_change :: "nat \<Rightarrow> nat \<Rightarrow> sys \<Rightarrow> sys option" where
  "handle_mode_change c new_criticality_level s = do {
     let s = set_decision_point c s;
     let s = upd_proc (system_criticality_level_update (\<lambda>_. new_criticality_level)) s;
     let s = upd_core c (local_criticality_level_update (\<lambda>_. new_criticality_level)) s;
     s \<leftarrow> LOCK_RQ c s;
     s \<leftarrow> (case running_job (cstate s c) of
             None \<Rightarrow> Some s
           | Some p \<Rightarrow> do {
               let s = upd_core c (running_job_update (\<lambda>_. None)) s;
               let s = upd_job p (state_update (\<lambda>_. JOB_STATE_READY)) s;
               let s = upd_core c (is_idle_update (\<lambda>_. True)) s;
               add_ready_or_replica c p s });
     let s = s\<lparr>queues := (queues s)(NewReadyQ c := [], NewReplicaQ c := [])\<rparr>;
     s \<leftarrow> filter_queue_for_mode_change (ReadyQ c) (NewReadyQ c) c s;
     s \<leftarrow> filter_queue_for_mode_change (ReplicaQ c) (NewReplicaQ c) c s;
     let s = splice_jobs (NewReadyQ c) (ReadyQ c) s;
     let s = splice_jobs (NewReplicaQ c) (ReplicaQ c) s;
     Some (UNLOCK_RQ c s) }"

section \<open>Arrivals\<close>

text \<open>A job that has arrived goes to the queue of its kind, or is discarded below the mode.\<close>

definition enqueue_arrival :: "nat \<Rightarrow> jptr \<Rightarrow> sys \<Rightarrow> sys option" where
  "enqueue_arrival c p s = do {
     s \<leftarrow> LOCK_RQ c s;
     s \<leftarrow> (if t_crit_level (ptask (jobs s p)) < local_criticality_level (cstate s c)
          then add_to_queue_sorted (Some (DiscardL c)) (Some p) s
          else add_ready_or_replica c p (set_decision_point c s));
     Some (UNLOCK_RQ c s) }"

fun pending_arrivals :: "nat \<Rightarrow> jptr list \<Rightarrow> sys \<Rightarrow> sys option" where
  "pending_arrivals c [] s = Some s"
| "pending_arrivals c (p # ps) s =
     (if arrival_time (jobs s p) < now s
      then if t_crit_level (ptask (jobs s p)) < local_criticality_level (cstate s c)
           then do { s \<leftarrow> list_del_job p s; pending_arrivals c ps (put_job_ref (Some p) c s) }
           else pending_arrivals c ps s
      else if now s < arrival_time (jobs s p) then Some s
      else do {
        s \<leftarrow> list_del_job p s;
        let l = local_criticality_level (cstate s c);
        let s = upd_job p (\<lambda>j. j
          \<lparr>state := JOB_STATE_READY,
           virtual_deadline := now s + relative_tuned_deadlines j ! l,
           wcet := of_u32 (t_wcet (ptask j) ! l), arrival_time := now s\<rparr>) s;
        s \<leftarrow> enqueue_arrival c p s;
        pending_arrivals c ps s })"

text \<open>
  The walk over the delegations of the core at an arrival of a task: entries of past arrivals are
  released, and the arrival is skipped when another core owns it.
\<close>

fun check_delegated :: "nat \<Rightarrow> u32 \<Rightarrow> djptr list \<Rightarrow> sys \<Rightarrow> bool \<times> sys" where
  "check_delegated c tid [] s = (False, s)"
| "check_delegated c tid (d # ds) s =
     (let dj = delegated_jobs_pool s d in
      if dj_arrival_tick dj < now s
      then check_delegated c tid ds (release_delegation (Some d) c (unlink_delegation d c s))
      else if dj_task_id dj = tid \<and> now s \<le> dj_arrival_tick dj \<and> dj_owned_by_remote dj
      then (True, s)
      else check_delegated c tid ds s)"

definition init_arrived_job ::
  "config \<Rightarrow> nat \<Rightarrow> task_alloc_map \<Rightarrow> jptr \<Rightarrow> sys \<Rightarrow> sys option" where
  "init_arrived_job cfg c m p s =
     (let l = local_criticality_level (cstate s c);
          s = upd_job p (\<lambda>j.
                let j = copy_deadlines cfg m (j\<lparr>arrival_time := now s\<rparr>) in
                j\<lparr>actual_deadline := now s + t_deadline (ptask j),
                  virtual_deadline := now s + m_tuned_deadlines m ! l,
                  wcet := of_u32 (t_wcet (ptask j) ! l)\<rparr>) s
      in do {
        (a, s) \<leftarrow> generate_acet cfg p s;
        Some (upd_job p (\<lambda>j. j
          \<lparr>acet := a, executed_time := lit 0 1, is_replica := (m_task_type m = Replica),
           state := JOB_STATE_READY\<rparr>) s) })"

definition task_arrival :: "config \<Rightarrow> nat \<Rightarrow> task_alloc_map \<Rightarrow> sys \<Rightarrow> sys option" where
  "task_arrival cfg c m s =
     (if \<not> on_core s c m then Some s
      else case find_task_by_id cfg (m_task_id m) s of
             None \<Rightarrow> Some s
           | Some task \<Rightarrow>
               if t_period task = 0 then Some s
               else if now s mod t_period task \<noteq> 0 then Some s
               else case check_delegated c (t_id task) (delegated_job_queue (cstate s c)) s of
                      (True, s) \<Rightarrow> Some s
                    | (False, s) \<Rightarrow>
                        (case create_job task c s of
                           (None, s) \<Rightarrow> Some s
                         | (Some p, s) \<Rightarrow> do {
                             s \<leftarrow> init_arrived_job cfg c m p s;
                             enqueue_arrival c p s }))"

definition handle_job_arrivals :: "config \<Rightarrow> nat \<Rightarrow> sys \<Rightarrow> sys option" where
  "handle_job_arrivals cfg c s = do {
     s \<leftarrow> pending_arrivals c (queues s (PendingQ c)) s;
     foldM (task_arrival cfg c) (allocation_map cfg) s }"

section \<open>The running job\<close>

text \<open>The first level above the current one whose budget the job has not used up.\<close>

definition next_criticality :: "config \<Rightarrow> nat \<Rightarrow> job_struct \<Rightarrow> nat" where
  "next_criticality cfg current j =
     (case find (\<lambda>level. f_lt (executed_time j) (of_u32 (t_wcet (ptask j) ! level)))
             [current + 1..<MAX_CRITICALITY_LEVELS cfg] of
        None \<Rightarrow> current
      | Some level \<Rightarrow> level)"

definition handle_running_job :: "config \<Rightarrow> nat \<Rightarrow> sys \<Rightarrow> sys option" where
  "handle_running_job cfg c s = do {
     s \<leftarrow> LOCK_RQ c s;
     (case running_job (cstate s c) of
        None \<Rightarrow> Some (UNLOCK_RQ c s)
      | Some p \<Rightarrow>
          (let f = power_get_current_scaling_factor c s;
               s = upd_job p (executed_time_update (\<lambda>e. f_add e f)) s;
               j = jobs s p
           in if state j = JOB_STATE_RUNNING \<and> actual_deadline j < now s
              then
                let s = upd_job p (state_update (\<lambda>_. JOB_STATE_COMPLETED)) s;
                    s = upd_core c (running_job_update (\<lambda>_. None)) s;
                    s = upd_core c (is_idle_update (\<lambda>_. True)) s;
                    s = put_job_ref (Some p) c s;
                    s = UNLOCK_RQ c s
                in Some (s\<lparr>core_fatal_shutdown_requested := True\<rparr>)
              else if f_le (acet j) (executed_time j)
              then handle_job_completion c (UNLOCK_RQ c s)
              else if f_le (wcet j) (executed_time j)
              then
                let new_crit_level = next_criticality cfg (local_criticality_level (cstate s c)) j;
                    s = UNLOCK_RQ c s
                in handle_mode_change c new_crit_level
                     (ipc_broadcast_criticality_change new_crit_level s)
              else Some (UNLOCK_RQ c s))) }"

section \<open>Selection and dispatch\<close>

definition select_candidate :: "nat \<Rightarrow> sys \<Rightarrow> jptr option" where
  "select_candidate c s =
     (case (peek_next_job (ReadyQ c) s, peek_next_job (ReplicaQ c) s) of
        (Some r, Some q) \<Rightarrow>
          if virtual_deadline (jobs s r) \<le> virtual_deadline (jobs s q) then Some r else Some q
      | (Some r, None) \<Rightarrow> Some r
      | (None, q) \<Rightarrow> q)"

definition select_next_job :: "nat \<Rightarrow> sys \<Rightarrow> (jptr option \<times> sys) option" where
  "select_next_job c s = do {
     s \<leftarrow> LOCK_RQ c s;
     (n, s) \<leftarrow>
       (case select_candidate c s of
          None \<Rightarrow> Some (None, s)
        | Some n \<Rightarrow>
            if (case running_job (cstate s c) of
                  None \<Rightarrow> True
                | Some r \<Rightarrow> virtual_deadline (jobs s n) < virtual_deadline (jobs s r))
            then if \<not> is_replica (jobs s n) then pop_next_job (ReadyQ c) s
                 else pop_next_job (ReplicaQ c) s
            else Some (None, s));
     Some (n, UNLOCK_RQ c s) }"

definition dispatch_job :: "nat \<Rightarrow> jptr \<Rightarrow> sys \<Rightarrow> sys option" where
  "dispatch_job c p s = do {
     s \<leftarrow> LOCK_RQ c s;
     s \<leftarrow> (case running_job (cstate s c) of
             None \<Rightarrow> Some s
           | Some r \<Rightarrow> add_ready_or_replica c r
                         (upd_job r (state_update (\<lambda>_. JOB_STATE_READY)) s));
     let s = upd_core c (running_job_update (\<lambda>_. Some p)) s;
     let s = upd_core c (is_idle_update (\<lambda>_. False)) s;
     let s = upd_job p (state_update (\<lambda>_. JOB_STATE_RUNNING)) s;
     Some (UNLOCK_RQ c s) }"

section \<open>Discarded jobs\<close>

definition reclaim_own :: "config \<Rightarrow> nat \<Rightarrow> jptr \<Rightarrow> sys \<Rightarrow> sys option" where
  "reclaim_own cfg c p s = do {
     ok \<leftarrow> is_admissible_locked cfg c p (lit 0 1) s;
     if ok then add_ready_or_replica c p (set_decision_point c s)
     else if \<not> is_being_offered (jobs s p)
     then do {
       s \<leftarrow> lock_discard_queue s;
       let s = upd_job p (\<lambda>j. j\<lparr>virtual_deadline := actual_deadline j\<rparr>) s;
       s \<leftarrow> add_to_queue_sorted (Some ProcDiscardQ) (Some p) s;
       Some (unlock_discard_queue s) }
     else Some s }"

partial_function (option) reclaim_own_list :: "config \<Rightarrow> nat \<Rightarrow> sys \<Rightarrow> sys option" where
  "reclaim_own_list cfg c s =
     (if queues s (DiscardL c) = [] then Some s
      else Option.bind (pop_next_job (DiscardL c) s) (\<lambda>(p, s).
           Option.bind (reclaim_own cfg c (the p) s) (reclaim_own_list cfg c)))"

declare reclaim_own_list.simps [code]

definition reclaim_shared :: "config \<Rightarrow> nat \<Rightarrow> jptr \<Rightarrow> sys \<Rightarrow> sys option" where
  "reclaim_shared cfg c p s = do {
     ok \<leftarrow> is_admissible_locked cfg c p MIGRATION_PENALTY_TICKS s;
     if ok
     then do {
       s \<leftarrow> list_del_job p (set_decision_point c s);
       add_ready_or_replica c p s }
     else Some s }"

definition reclaim_discarded_jobs :: "config \<Rightarrow> nat \<Rightarrow> sys \<Rightarrow> sys option" where
  "reclaim_discarded_jobs cfg c s = do {
     s \<leftarrow> LOCK_RQ c s;
     s \<leftarrow> reclaim_own_list cfg c s;
     s \<leftarrow> lock_discard_queue s;
     s \<leftarrow> foldM (reclaim_shared cfg c) (queues s ProcDiscardQ) s;
     Some (UNLOCK_RQ c (unlock_discard_queue s)) }"

section \<open>Summary and initialisation\<close>

definition update_core_summary :: "config \<Rightarrow> nat \<Rightarrow> sys \<Rightarrow> sys option" where
  "update_core_summary cfg c s = do {
     (utilization, s) \<leftarrow> get_util c s;
     (slack, s) \<leftarrow> find_slack cfg c (local_criticality_level (cstate s c)) (now s)
                     (power_get_current_scaling_factor c s) None s;
     let next_arrival = find_next_effective_arrival_time cfg c s;
     Some (s\<lparr>core_summaries := (core_summaries s)(c :=
       \<lparr>sum_util = utilization, sum_slack = slack, sum_next_arrival = next_arrival,
        sum_is_idle = is_idle (cstate s c),
        sum_dvfs_level = current_dvfs_level (cstate s c)\<rparr>)\<rparr>) }"

definition fill_task_lookup :: "config \<Rightarrow> sys \<Rightarrow> sys" where
  "fill_task_lookup cfg s =
     fold (\<lambda>t s. s\<lparr>task_lookup := (task_lookup s)(unat (t_id t) := Some t)\<rparr>) (system_tasks cfg) s"

definition init_core :: "config \<Rightarrow> nat \<Rightarrow> sys \<Rightarrow> sys option" where
  "init_core cfg i s = do {
     let s = upd_core i (\<lambda>cs. cs
       \<lparr>proc_id := processor_id (proc_state s), core_id := i, running_job := None,
        is_idle := True, current_dvfs_level := 0, delegated_job_queue := []\<rparr>) s;
     let s = s\<lparr>queues := (queues s)(ReadyQ i := [], ReplicaQ i := [], DiscardL i := [],
                                     PendingQ i := [])\<rparr>;
     (_, mq) \<leftarrow> ring_buffer_init (migration_request_queue (cstate s i))
                  (of_nat MAX_MIGRATION_REQUESTS)
                  (replicate MAX_MIGRATION_REQUESTS undef_request)
                  (replicate MAX_MIGRATION_REQUESTS 0) 16;
     (_, dq) \<leftarrow> ring_buffer_init (delegation_ack_queue (cstate s i))
                  (of_nat MAX_FUTURE_DELEGATIONS)
                  (replicate MAX_FUTURE_DELEGATIONS undef_ack)
                  (replicate MAX_FUTURE_DELEGATIONS 0) 12;
     let s = upd_core i (\<lambda>cs. cs
       \<lparr>migration_request_queue := mq, delegation_ack_queue := dq,
        local_criticality_level := 0, decision_point := False\<rparr>) s;
     let h = calculate_allocated_horizon cfg i s;
     let s = upd_core i (\<lambda>cs. cs\<lparr>cached_slack_horizon := h, rq_lock := False\<rparr>) s;
     Some (s\<lparr>core_summaries := (core_summaries s)(i :=
       \<lparr>sum_util = lit 0 1, sum_slack = lit 0 1, sum_next_arrival = UINT32_MAX,
        sum_is_idle = True, sum_dvfs_level = 0\<rparr>)\<rparr>) }"

definition scheduler_init :: "config \<Rightarrow> sys \<Rightarrow> sys option" where
  "scheduler_init cfg s = do {
     let s = task_management_init (NUM_CORES_PER_PROC cfg) s;
     let s = power_management_init s;
     let s = fill_task_lookup cfg s;
     s \<leftarrow> foldM (init_core cfg) [0..<NUM_CORES_PER_PROC cfg] s;
     Some (init_migration cfg s) }"

section \<open>The tick\<close>

definition mode_check :: "nat \<Rightarrow> sys \<Rightarrow> sys option" where
  "mode_check c s =
     (let l = system_criticality_level (proc_state s) in
      if local_criticality_level (cstate s c) \<noteq> l then handle_mode_change c l s else Some s)"

definition dispatch_phase :: "nat \<Rightarrow> sys \<Rightarrow> sys option" where
  "dispatch_phase c s = do {
     (next_job, s) \<leftarrow> select_next_job c s;
     (case next_job of
        None \<Rightarrow> Some s
      | Some p \<Rightarrow> dispatch_job c p (set_decision_point c s)) }"

definition power_phase :: "config \<Rightarrow> nat \<Rightarrow> sys \<Rightarrow> sys option" where
  "power_phase cfg c s = do {
     (skip, s) \<leftarrow> (if ENABLE_PROCRASTINATION cfg
                   then power_management_try_procrastination cfg c s else Some (False, s));
     if skip then Some s
     else do {
       s \<leftarrow> (if ENABLE_DVFS cfg \<and> decision_point (cstate s c)
            then do { (l, s) \<leftarrow> calc_required_dvfs_level cfg c s;
                      Some (power_set_dvfs_level c l s) }
            else Some s);
       if ENABLE_DPM cfg \<and> is_idle (cstate s c)
       then power_management_set_dpm_interval c (find_next_effective_arrival_time cfg c s) s
       else Some s } }"

definition end_of_tick :: "config \<Rightarrow> nat \<Rightarrow> sys \<Rightarrow> sys option" where
  "end_of_tick cfg c s = do {
     s \<leftarrow> update_core_summary cfg c s;
     (_, s) \<leftarrow> log_core_state c s;
     Some s }"

definition active_tick :: "config \<Rightarrow> nat \<Rightarrow> sys \<Rightarrow> sys option" where
  "active_tick cfg c s = do {
     s \<leftarrow> handle_running_job cfg c s;
     s \<leftarrow> handle_job_arrivals cfg c s;
     s \<leftarrow> reclaim_discarded_jobs cfg c s;
     s \<leftarrow> (if ENABLE_MIGRATION cfg
          then do {
            s \<leftarrow> update_delegations c s;
            s \<leftarrow> attempt_migration_push cfg c s;
            process_migration_requests cfg c s }
          else Some s);
     s \<leftarrow> dispatch_phase c s;
     s \<leftarrow> power_phase cfg c s;
     end_of_tick cfg c s }"

definition scheduler_tick :: "config \<Rightarrow> nat \<Rightarrow> sys \<Rightarrow> sys option" where
  "scheduler_tick cfg c s = do {
     s \<leftarrow> (if ENABLE_ECC cfg then remove_completed_jobs c s else Some s);
     s \<leftarrow> mode_check c s;
     if in_low_power_state (dpm_block (cstate s c))
     then if dpm_end_time (dpm_block (cstate s c)) \<le> now s
          then active_tick cfg c
                 (upd_core c (dpm_block_update (in_low_power_state_update (\<lambda>_. False))) s)
          else Some s
     else active_tick cfg c s }"

end
