(* ===== verification/Processor.thy ===== *)
theory Processor
  imports SchedCore Barrier
begin

text \<open>
  \<^verbatim>\<open>src/src/processor.c\<close>: initialisation, the body of the timer thread, and the loops of the timer
  and core threads as a step relation.

  A tick of a core and the body of the timer are one step each. A barrier is the meeting of all its
  parties, which theory \<^theory_text>\<open>Barrier\<close> proves of the implementation. The signal handler of SIGUSR1 can
  set the shutdown flag at any moment. The third barrier, between processors, is passed at once when
  the program has none (\<open>shared\<close> is false); with one, the timers of all processors meet there, which
  is a step of theory \<^theory_text>\<open>Machine\<close>. Theory \<^theory_text>\<open>Supervisor\<close> has the parent process.
\<close>

section \<open>Initialisation\<close>

definition processor_init :: "config \<Rightarrow> nat \<Rightarrow> sys \<Rightarrow> sys option" where
  "processor_init cfg pid s = do {
     let s = upd_proc (\<lambda>p. p\<lparr>system_time := 0, processor_id := pid,
                              discard_queue_lock := False, system_criticality_level := 0\<rparr>) s;
     let s = s\<lparr>queues := (queues s)(ProcDiscardQ := [])\<rparr>;
     s \<leftarrow> ipc_thread_init s;
     scheduler_init cfg s }"

section \<open>The timer\<close>

definition clear_incoming :: "sys \<Rightarrow> sys option" where
  "clear_incoming s = do {
     q \<leftarrow> ring_buffer_clear (incoming_completion_msg_queue (proc_state s));
     Some (upd_proc (incoming_completion_msg_queue_update (\<lambda>_. q)) s) }"

definition release_expired :: "config \<Rightarrow> jptr \<Rightarrow> sys \<Rightarrow> sys option" where
  "release_expired cfg p s =
     (if actual_deadline (jobs s p) \<le> now s
      then do {
        s \<leftarrow> list_del_job p s;
        Some (put_job_ref (Some p) (NUM_CORES_PER_PROC cfg) s) }
      else Some s)"

definition release_expired_jobs :: "config \<Rightarrow> sys \<Rightarrow> sys option" where
  "release_expired_jobs cfg s = do {
     s \<leftarrow> lock_discard_queue s;
     s \<leftarrow> foldM (release_expired cfg) (queues s ProcDiscardQ) s;
     Some (unlock_discard_queue s) }"

definition advance_time :: "config \<Rightarrow> sys \<Rightarrow> sys" where
  "advance_time cfg s =
     (let s = (if core_fatal_shutdown_requested s
               then s\<lparr>proc_shutdown_requested := True\<rparr> else s);
          s = upd_proc (system_time_update (\<lambda>t. t + 1)) s
      in if 0 < TOTAL_TICKS cfg \<and> TOTAL_TICKS cfg \<le> now s
         then s\<lparr>proc_shutdown_requested := True\<rparr> else s)"

definition timer_body :: "config \<Rightarrow> u8 list list \<Rightarrow> u8 list \<Rightarrow> sys \<Rightarrow> sys option" where
  "timer_body cfg datagrams buf s = do {
     s \<leftarrow> clear_incoming s;
     s \<leftarrow> ipc_receive_completion_messages cfg datagrams buf s;
     s \<leftarrow> release_expired_jobs cfg s;
     ipc_send_completion_messages (advance_time cfg s) }"

section \<open>Start and end of a processor\<close>

text \<open>
  What \<^verbatim>\<open>processor_run\<close> does, in its order. \<open>created\<close> tells which thread could be created; a join
  waits for its thread, and \<open>fatal\<close> is the flag \<^verbatim>\<open>core_fatal_shutdown_requested\<close> after the joins.
\<close>

datatype thread_id = TimerThread | CoreThread nat

datatype life_action =
  Create thread_id | Join thread_id
  | StopLog | DestroyDiscardLock | DestroyCompletionBarrier | DestroySyncBarrier | CloseIpc

fun start_cores :: "(thread_id \<Rightarrow> bool) \<Rightarrow> nat list \<Rightarrow> life_action list \<times> bool" where
  "start_cores created [] = ([], True)"
| "start_cores created (i # is) =
     (if \<not> created (CoreThread i) then ([Create (CoreThread i)], False)
      else let (acts, ok) = start_cores created is in (Create (CoreThread i) # acts, ok))"

definition processor_cleanup :: "life_action list" where
  "processor_cleanup =
     [StopLog, DestroyDiscardLock, DestroyCompletionBarrier, DestroySyncBarrier, CloseIpc]"

definition EXIT_SUCCESS :: int where "EXIT_SUCCESS = 0"
definition EXIT_FAILURE :: int where "EXIT_FAILURE = 1"

text \<open>The exit status; \<open>None\<close> when the function returns to its caller.\<close>

definition processor_run :: "config \<Rightarrow> (thread_id \<Rightarrow> bool) \<Rightarrow> bool \<Rightarrow> life_action list \<times> int option" where
  "processor_run cfg created fatal =
     (if \<not> created TimerThread then ([Create TimerThread], None)
      else let (acts, ok) = start_cores created [0..<NUM_CORES_PER_PROC cfg] in
           if \<not> ok then (Create TimerThread # acts, None)
           else (Create TimerThread # acts
                 @ map (Join \<circ> CoreThread) [0..<NUM_CORES_PER_PROC cfg] @ [Join TimerThread]
                 @ processor_cleanup,
                 Some (if fatal then EXIT_FAILURE else EXIT_SUCCESS)))"

section \<open>The threads\<close>

datatype core_pc = CTop | CTick | CCompletion | CSync | CExit
datatype timer_pc = TTop | TCompletion | TCheck | TBody | TSync | TProc | TExit

record threads =
  th_sys :: sys
  th_core :: "nat \<Rightarrow> core_pc"
  th_timer :: timer_pc

inductive pstep :: "config \<Rightarrow> bool \<Rightarrow> threads \<Rightarrow> threads \<Rightarrow> bool"
  for cfg :: config and shared :: bool where
  core_enter:
    "\<lbrakk>c < NUM_CORES_PER_PROC cfg; th_core t c = CTop; \<not> proc_shutdown_requested (th_sys t)\<rbrakk>
     \<Longrightarrow> pstep cfg shared t (t\<lparr>th_core := (th_core t)(c := CTick)\<rparr>)"
| core_leave:
    "\<lbrakk>c < NUM_CORES_PER_PROC cfg; th_core t c = CTop; proc_shutdown_requested (th_sys t)\<rbrakk>
     \<Longrightarrow> pstep cfg shared t (t\<lparr>th_core := (th_core t)(c := CExit)\<rparr>)"
| core_tick:
    "\<lbrakk>c < NUM_CORES_PER_PROC cfg; th_core t c = CTick; scheduler_tick cfg c (th_sys t) = Some s\<rbrakk>
     \<Longrightarrow> pstep cfg shared t (t\<lparr>th_sys := s, th_core := (th_core t)(c := CCompletion)\<rparr>)"
| timer_enter:
    "\<lbrakk>th_timer t = TTop; \<not> proc_shutdown_requested (th_sys t)\<rbrakk>
     \<Longrightarrow> pstep cfg shared t (t\<lparr>th_timer := TCompletion\<rparr>)"
| timer_leave:
    "\<lbrakk>th_timer t = TTop; proc_shutdown_requested (th_sys t)\<rbrakk>
     \<Longrightarrow> pstep cfg shared t (t\<lparr>th_timer := TExit\<rparr>)"
| completion_barrier:
    "\<lbrakk>\<forall>c < NUM_CORES_PER_PROC cfg. th_core t c = CCompletion; th_timer t = TCompletion\<rbrakk>
     \<Longrightarrow> pstep cfg shared t (t\<lparr>th_core := (\<lambda>c. if c < NUM_CORES_PER_PROC cfg then CSync else th_core t c),
                       th_timer := TCheck\<rparr>)"
| timer_break:
    "\<lbrakk>th_timer t = TCheck; proc_shutdown_requested (th_sys t)\<rbrakk>
     \<Longrightarrow> pstep cfg shared t (t\<lparr>th_timer := TExit\<rparr>)"
| timer_go:
    "\<lbrakk>th_timer t = TCheck; \<not> proc_shutdown_requested (th_sys t)\<rbrakk>
     \<Longrightarrow> pstep cfg shared t (t\<lparr>th_timer := TBody\<rparr>)"
| timer_run:
    "\<lbrakk>th_timer t = TBody; timer_body cfg datagrams buf (th_sys t) = Some s\<rbrakk>
     \<Longrightarrow> pstep cfg shared t (t\<lparr>th_sys := s, th_timer := TSync\<rparr>)"
| sync_barrier:
    "\<lbrakk>\<forall>c < NUM_CORES_PER_PROC cfg. th_core t c = CSync; th_timer t = TSync\<rbrakk>
     \<Longrightarrow> pstep cfg shared t (t\<lparr>th_core := (\<lambda>c. if c < NUM_CORES_PER_PROC cfg then CTop else th_core t c),
                       th_timer := TProc\<rparr>)"
| no_proc_barrier:
    "\<lbrakk>th_timer t = TProc; \<not> shared\<rbrakk> \<Longrightarrow> pstep cfg shared t (t\<lparr>th_timer := TTop\<rparr>)"
| sigusr1:
    "pstep cfg shared t (t\<lparr>th_sys := (th_sys t)\<lparr>proc_shutdown_requested := True\<rparr>\<rparr>)"

text \<open>The static memory before \<^verbatim>\<open>main\<close>: no job is linked and every list is empty.\<close>

definition boot :: "sys \<Rightarrow> bool" where
  "boot s \<longleftrightarrow> (\<forall>p. job_link (jobs s p) = LinkNull) \<and> (\<forall>q. queues s q = [])"

definition threads_init :: "config \<Rightarrow> threads \<Rightarrow> bool" where
  "threads_init cfg t \<longleftrightarrow>
     (\<exists>pid s. boot s \<and> processor_init cfg pid s = Some (th_sys t))
     \<and> \<not> proc_shutdown_requested (th_sys t)
     \<and> th_timer t = TTop \<and> (\<forall>c < NUM_CORES_PER_PROC cfg. th_core t c = CTop)"

end
