(* ===== verification/JobInv.thy ===== *)
theory JobInv
  imports Jobs
begin

text \<open>
  Invariants of the job store. \<open>queues_ok\<close>: every queue is a list without repetition of exactly the
  jobs whose \<^verbatim>\<open>link\<close> is in it, sorted by the key of the queue, and its jobs have the state and kind
  the queue is for. \<open>counted N R s\<close>: the two free lists of every pool are chains of distinct jobs of
  that pool, a free job has no reference, and the counter of every other job is the number \<open>R p\<close> of
  references to it.
\<close>

section \<open>Sorted insertion\<close>

lemma set_insert_first [simp]: "set (insert_first lt p xs) = insert p (set xs)"
  by (induction xs) auto

lemma distinct_insert_first [simp]:
  "distinct (insert_first lt p xs) \<longleftrightarrow> p \<notin> set xs \<and> distinct xs"
  by (induction xs) auto

lemma mset_insert_first [simp]: "mset (insert_first lt p xs) = add_mset p (mset xs)"
  by (induction xs) auto

text \<open>Insertion keeps a list sorted and puts the new entry after its equals: it is stable.\<close>

lemma insert_first_split:
  fixes k :: "'a \<Rightarrow> 'k::linorder"
  assumes "sorted (map k xs)"
  shows "insert_first (\<lambda>a b. k a < k b) p xs =
           filter (\<lambda>x. k x \<le> k p) xs @ p # filter (\<lambda>x. k p < k x) xs"
  using assms
proof (induction xs)
  case Nil
  then show ?case by simp
next
  case (Cons x xs)
  show ?case
  proof (cases "k p < k x")
    case True
    then have "k p < k y" if "y \<in> set xs" for y using that Cons.prems by auto
    with True show ?thesis by (auto simp: filter_empty_conv not_le cong: filter_cong)
  next
    case False
    then show ?thesis using Cons by auto
  qed
qed

lemma sorted_insert_first:
  fixes k :: "'a \<Rightarrow> 'k::linorder"
  assumes "sorted (map k xs)"
  shows "sorted (map k (insert_first (\<lambda>a b. k a < k b) p xs))"
  using assms by (auto simp: insert_first_split sorted_append intro: sorted_filter)

text \<open>C22: refinement. The insertion loop of \<^verbatim>\<open>add_to_queue_sorted\<close>, run on the links, ends and
  leaves a list that is sorted again, with the new job behind the jobs of an equal key: among equal
  deadlines the order is first come, first served.\<close>

theorem pointer_insertion_sorts:
  fixes k :: "'n \<Rightarrow> 'k::linorder"
  assumes "dll h head xs" and "new \<notin> set (head # xs)" and "sorted (map k xs)"
  shows "\<exists>h'. insert_before_first (\<lambda>a b. k a < k b) new head (hd (xs @ [head])) h = Some h'
           \<and> dll h' head (filter (\<lambda>x. k x \<le> k new) xs @ new # filter (\<lambda>x. k new < k x) xs)
           \<and> sorted (map k (filter (\<lambda>x. k x \<le> k new) xs @ new # filter (\<lambda>x. k new < k x) xs))"
proof -
  obtain h' where "insert_before_first (\<lambda>a b. k a < k b) new head (hd (xs @ [head])) h = Some h'"
    and "dll h' head (insert_first (\<lambda>a b. k a < k b) new xs)"
    using insert_before_first_dll [of h head "[]" xs new "\<lambda>a b. k a < k b"] assms(1,2) by auto
  then show ?thesis
    using insert_first_split [OF assms(3), of new] sorted_insert_first [OF assms(3), of new] by metis
qed

theorem pointer_insertion_sorts_witness:
  "\<exists>h'. insert_before_first (\<lambda>a b. a div 2 < b div (2 :: nat)) 4 0 1 list_demo2 = Some h'
     \<and> dll h' 0 [1, 2, 3, 4]"
proof -
  have "dll list_demo2 0 [1, 2, 3]" by (simp add: dll_def link_def list_demo2_def list_demo_def)
  from pointer_insertion_sorts [OF this, of 4 "\<lambda>a. a div 2"] show ?thesis by simp
qed

section \<open>Queues\<close>

fun queue_key :: "qid \<Rightarrow> job_struct \<Rightarrow> u32" where
  "queue_key (PendingQ _) j = arrival_time j"
| "queue_key _ j = virtual_deadline j"

fun entry_ok :: "qid \<Rightarrow> job_struct \<Rightarrow> bool" where
  "entry_ok (ReadyQ _) j \<longleftrightarrow> state j = JOB_STATE_READY \<and> \<not> is_replica j"
| "entry_ok (NewReadyQ _) j \<longleftrightarrow> state j = JOB_STATE_READY \<and> \<not> is_replica j"
| "entry_ok (ReplicaQ _) j \<longleftrightarrow> state j = JOB_STATE_READY \<and> is_replica j"
| "entry_ok (NewReplicaQ _) j \<longleftrightarrow> state j = JOB_STATE_READY \<and> is_replica j"
| "entry_ok (PendingQ _) j \<longleftrightarrow> state j = JOB_STATE_IDLE \<and> \<not> is_being_offered j"
| "entry_ok (DiscardL _) j \<longleftrightarrow> state j = JOB_STATE_READY \<and> \<not> is_being_offered j"
| "entry_ok ProcDiscardQ j \<longleftrightarrow> state j = JOB_STATE_READY"

definition queue_ok :: "'z jheap_scheme \<Rightarrow> qid \<Rightarrow> bool" where
  "queue_ok s q \<longleftrightarrow> distinct (queues s q)
     \<and> (\<forall>p. p \<in> set (queues s q) \<longleftrightarrow> job_link (jobs s p) = LinkIn q)
     \<and> sorted (map (\<lambda>p. queue_key q (jobs s p)) (queues s q))
     \<and> (\<forall>p\<in>set (queues s q). entry_ok q (jobs s p))"

definition queues_ok :: "'z jheap_scheme \<Rightarrow> bool" where
  "queues_ok s \<longleftrightarrow> (\<forall>q. queue_ok s q)"

lemma queue_okD:
  assumes "queues_ok s"
  shows "distinct (queues s q)" and "p \<in> set (queues s q) \<longleftrightarrow> job_link (jobs s p) = LinkIn q"
    and "sorted (map (\<lambda>p. queue_key q (jobs s p)) (queues s q))"
    and "p \<in> set (queues s q) \<Longrightarrow> entry_ok q (jobs s p)"
  using assms by (simp_all add: queues_ok_def queue_ok_def)

lemma linked_entry_ok:
  "queues_ok s \<Longrightarrow> job_link (jobs s p) = LinkIn q \<Longrightarrow> entry_ok q (jobs s p)"
  using queue_okD by blast

subsection \<open>Updates of a job\<close>

lemma upd_job_fields [simp]:
  "jobs (upd_job p f s) = (jobs s)(p := f (jobs s p))"
  "queues (upd_job p f s) = queues s"
  "free_list (upd_job p f s) = free_list s"
  "remote_free_list (upd_job p f s) = remote_free_list s"
  "jheap.more (upd_job p f s) = jheap.more s"
  by (simp_all add: upd_job_def)

lemma queue_ok_cong:
  assumes "queues t q = queues s q"
    and "\<And>p. job_link (jobs t p) = LinkIn q \<longleftrightarrow> job_link (jobs s p) = LinkIn q"
    and "\<And>p. p \<in> set (queues s q) \<Longrightarrow> queue_key q (jobs t p) = queue_key q (jobs s p)"
    and "\<And>p. p \<in> set (queues s q) \<Longrightarrow> entry_ok q (jobs s p) \<Longrightarrow> entry_ok q (jobs t p)"
    and "queue_ok s q"
  shows "queue_ok t q"
proof -
  have M: "map (\<lambda>p. queue_key q (jobs t p)) (queues s q) = map (\<lambda>p. queue_key q (jobs s p)) (queues s q)"
    using assms(3) by simp
  show ?thesis using assms(2,4,5) unfolding queue_ok_def assms(1) M by simp
qed

text \<open>A job in no queue can be changed at will, as long as it stays in none.\<close>

lemma queues_ok_upd_unlinked:
  assumes "queues_ok s" and "\<And>q. job_link (jobs s p) \<noteq> LinkIn q"
    and "\<And>q. job_link (f (jobs s p)) \<noteq> LinkIn q"
  shows "queues_ok (upd_job p f s)"
  unfolding queues_ok_def
proof
  fix q
  have n: "p \<notin> set (queues s q)" using assms(1,2) queue_okD(2) by blast
  show "queue_ok (upd_job p f s) q"
  proof (rule queue_ok_cong [of _ q s])
    show "queue_ok s q" using assms(1) by (simp add: queues_ok_def)
  qed (use assms(2,3) n in \<open>auto\<close>)
qed

text \<open>A change that keeps what the queues depend on.\<close>

definition same_entry :: "job_struct \<Rightarrow> job_struct \<Rightarrow> bool" where
  "same_entry j k \<longleftrightarrow> job_link k = job_link j \<and> virtual_deadline k = virtual_deadline j
     \<and> arrival_time k = arrival_time j \<and> state k = state j \<and> is_replica k = is_replica j
     \<and> is_being_offered k = is_being_offered j"

lemma same_entry_queue:
  assumes "same_entry j k"
  shows "queue_key q k = queue_key q j" and "entry_ok q k \<longleftrightarrow> entry_ok q j"
  using assms by (cases q; simp add: same_entry_def)+

lemma queues_ok_same:
  assumes "queues_ok s" and "queues t = queues s" and "\<And>p. same_entry (jobs s p) (jobs t p)"
  shows "queues_ok t"
  unfolding queues_ok_def
proof
  fix q
  show "queue_ok t q"
  proof (rule queue_ok_cong)
    show "queue_ok s q" using assms(1) by (simp add: queues_ok_def)
    show "job_link (jobs t p) = LinkIn q \<longleftrightarrow> job_link (jobs s p) = LinkIn q" for p
      using assms(3) [of p] by (simp add: same_entry_def)
  qed (simp_all add: assms(2) same_entry_queue [OF assms(3)])
qed

lemma queues_ok_upd_same:
  "queues_ok s \<Longrightarrow> same_entry (jobs s p) (f (jobs s p)) \<Longrightarrow> queues_ok (upd_job p f s)"
  by (erule queues_ok_same) (auto simp: same_entry_def)

subsection \<open>Linking and unlinking\<close>

definition unlinked :: "job_struct \<Rightarrow> bool" where
  "unlinked j \<longleftrightarrow> (\<forall>q. job_link j \<noteq> LinkIn q)"

lemma unlinked_cases: "unlinked j \<longleftrightarrow> job_link j = LinkNull \<or> job_link j = LinkSelf"
  by (cases "job_link j") (auto simp: unlinked_def)

definition linked_state :: "(job_struct \<Rightarrow> u32) \<Rightarrow> qid \<Rightarrow> jptr \<Rightarrow> 'z jheap_scheme \<Rightarrow> 'z jheap_scheme"
where
  "linked_state key q p s =
     (upd_job p (job_link_update (\<lambda>_. LinkIn q)) s)\<lparr>queues := (queues s)
        (q := insert_first (\<lambda>a b. key (jobs s a) < key (jobs s b)) p (queues s q))\<rparr>"

lemma add_sorted_by_eq:
  "add_sorted_by key q p s = (if unlinked (jobs s p) then Some (linked_state key q p s) else None)"
  by (auto simp: add_sorted_by_def link_at_def linked_state_def unlinked_def
      split: link_state.splits)

lemma queues_ok_add:
  assumes "queues_ok s" and "unlinked (jobs s p)" and "entry_ok q (jobs s p)"
    and "\<And>j. key j = queue_key q j"
  shows "queues_ok (linked_state key q p s)"
  unfolding queues_ok_def
proof
  fix r
  let ?t = "linked_state key q p s"
  note D = queue_okD [OF assms(1)]
  have np: "p \<notin> set (queues s r)" for r using assms(2) D(2) by (simp add: unlinked_def)
  show "queue_ok ?t r"
  proof (cases "r = q")
    case True
    have same: "queue_key q (jobs ?t x) = queue_key q (jobs s x)" for x
      by (cases q) (simp_all add: linked_state_def)
    have "sorted (map (\<lambda>x. queue_key q (jobs s x)) (queues ?t q))"
      using sorted_insert_first [OF D(3) [of q], of p] assms(4) by (simp add: linked_state_def)
    moreover have "entry_ok q (jobs ?t x)" if "x \<in> set (queues ?t q)" for x
      using that assms(3) D(4) [of x q] by (cases q) (auto simp: linked_state_def)
    ultimately show ?thesis unfolding True queue_ok_def same
      using D(1) D(2) np assms(2) by (auto simp: linked_state_def unlinked_def)
  next
    case False
    then have "queues ?t r = queues s r" by (simp add: linked_state_def)
    moreover have "jobs ?t x = jobs s x" if "x \<in> set (queues s r)" for x
      using that np by (auto simp: linked_state_def)
    moreover have "job_link (jobs ?t x) = LinkIn r \<longleftrightarrow> job_link (jobs s x) = LinkIn r" for x
      using False assms(2) by (auto simp: linked_state_def unlinked_def)
    ultimately show ?thesis using assms(1)
      by (intro queue_ok_cong [of ?t r s]) (simp_all add: queues_ok_def)
  qed
qed

definition unlinked_state :: "qid \<Rightarrow> jptr \<Rightarrow> 'z jheap_scheme \<Rightarrow> 'z jheap_scheme" where
  "unlinked_state q p s =
     (upd_job p (job_link_update (\<lambda>_. LinkNull)) s)
       \<lparr>queues := (queues s)(q := remove1 p (queues s q))\<rparr>"

lemma list_del_job_eq:
  "job_link (jobs s p) = LinkIn q \<Longrightarrow> list_del_job p s = Some (unlinked_state q p s)"
  by (simp add: list_del_job_def unlinked_state_def)

lemma list_del_job_self:
  "job_link (jobs s p) = LinkSelf \<Longrightarrow>
   list_del_job p s = Some (upd_job p (job_link_update (\<lambda>_. LinkNull)) s)"
  by (simp add: list_del_job_def)

lemma queues_ok_del:
  assumes "queues_ok s" and "job_link (jobs s p) = LinkIn q"
  shows "queues_ok (unlinked_state q p s)"
  unfolding queues_ok_def
proof
  fix r
  let ?t = "unlinked_state q p s"
  note D = queue_okD [OF assms(1)]
  have np: "p \<notin> set (queues ?t r)" for r
    using D(1) [of q] D(2) [of p r] assms(2) by (auto simp: unlinked_state_def)
  have sub: "x \<in> set (queues ?t r) \<longleftrightarrow> x \<in> set (queues s r) \<and> x \<noteq> p" for x
    using D(1) [of q] D(2) [of p r] assms(2) by (auto simp: unlinked_state_def)
  have J: "jobs ?t x = jobs s x" if "x \<noteq> p" for x
    using that by (simp add: unlinked_state_def)
  have M: "map (\<lambda>x. queue_key r (jobs ?t x)) (queues ?t r)
           = map (\<lambda>x. queue_key r (jobs s x)) (queues ?t r)"
    using J sub by auto
  have "sorted (map (\<lambda>x. queue_key r (jobs s x)) (queues ?t r))"
  proof (cases "r = q")
    case True
    then have "queues ?t r = remove1 p (queues s r)" by (simp add: unlinked_state_def)
    then show ?thesis using D(3) [of r] by (simp add: sorted_map_remove1)
  next
    case False
    then show ?thesis using D(3) [of r] by (simp add: unlinked_state_def)
  qed
  then show "queue_ok ?t r"
    unfolding queue_ok_def M using D(1) D(2) D(4) sub J assms(2)
    by (auto simp: unlinked_state_def)
qed

lemma pop_next_job_eq:
  assumes "queues_ok s" and "queues s q = p # ps"
  shows "pop_next_job q s = Some (Some p, unlinked_state q p s)"
proof -
  have "job_link (jobs s p) = LinkIn q" using queue_okD(2) [OF assms(1), of p q] assms(2) by simp
  with assms(2) show ?thesis by (simp add: pop_next_job_def list_del_job_eq)
qed

text \<open>Moving a whole list into an empty one of the same kind.\<close>

lemma queues_ok_splice:
  assumes I: "queues_ok s" and "queues s r = []" and "l \<noteq> r"
    and K: "\<And>j. queue_key r j = queue_key l j" and E: "\<And>j. entry_ok r j = entry_ok l j"
  shows "queues_ok (splice_jobs l r s)"
  unfolding queues_ok_def
proof
  fix q
  let ?t = "splice_jobs l r s"
  note D = queue_okD [OF I]
  have J: "queue_key q (jobs ?t x) = queue_key q (jobs s x)"
    "entry_ok q (jobs ?t x) = entry_ok q (jobs s x)" for q x
    by (cases q; simp add: splice_jobs_def)+
  have L: "job_link (jobs ?t x) = (if job_link (jobs s x) = LinkIn l then LinkIn r
      else job_link (jobs s x))" for x
    using D(2) [of x l] by (simp add: splice_jobs_def)
  have no: "job_link (jobs s x) \<noteq> LinkIn r" for x using D(2) [of x r] assms(2) by simp
  have Q: "queues ?t = (queues s)(r := queues s l, l := [])"
    using assms(2,3) by (simp add: splice_jobs_def fun_eq_iff)
  show "queue_ok ?t q"
  proof (cases "q = r")
    case True
    have "sorted (map (\<lambda>x. queue_key r (jobs s x)) (queues s l))"
      using D(3) [of l] by (simp add: K cong: map_cong)
    then show ?thesis unfolding queue_ok_def True J L Q
      using D(1) [of l] D(2) D(4) no assms(3) by (auto simp: E)
  next
    case False
    then show ?thesis unfolding queue_ok_def J L Q
      using D(1) [of q] D(2) D(3) [of q] D(4) no assms(3) by auto
  qed
qed

section \<open>Pools and reference counts\<close>

fun chain :: "(jptr \<Rightarrow> job_struct) \<Rightarrow> jptr option \<Rightarrow> jptr list \<Rightarrow> bool" where
  "chain js f [] \<longleftrightarrow> f = None"
| "chain js f (p # ps) \<longleftrightarrow> f = Some p \<and> chain js (next_free (js p)) ps"

lemma chain_cong:
  "(\<And>p. p \<in> set ps \<Longrightarrow> next_free (js p) = next_free (ks p)) \<Longrightarrow> chain js f ps \<longleftrightarrow> chain ks f ps"
  by (induction ps arbitrary: f) auto

lemma chain_upd [simp]: "p \<notin> set xs \<Longrightarrow> chain (js(p := j)) f xs \<longleftrightarrow> chain js f xs"
  by (rule chain_cong) auto

definition in_pools :: "nat \<Rightarrow> jptr \<Rightarrow> bool" where
  "in_pools N p \<longleftrightarrow> pool_of p < N \<and> slot_of p < JOBS_PER_CORE"

definition pool_ok ::
  "nat \<Rightarrow> nat \<Rightarrow> (jptr \<Rightarrow> job_struct) \<Rightarrow> jptr option \<Rightarrow> jptr option \<Rightarrow> jptr list \<Rightarrow> jptr list \<Rightarrow> bool"
where
  "pool_ok N c js f r xs ys \<longleftrightarrow> chain js f xs \<and> chain js r ys \<and> distinct (xs @ ys)
     \<and> (\<forall>p\<in>set (xs @ ys). in_pools N p \<and> pool_of p = c)"

definition pools ::
  "nat \<Rightarrow> 'z jheap_scheme \<Rightarrow> (nat \<Rightarrow> jptr list) \<Rightarrow> (nat \<Rightarrow> jptr list) \<Rightarrow> bool" where
  "pools N s FL RL \<longleftrightarrow>
     (\<forall>c<N. pool_ok N c (jobs s) (free_list s c) (remote_free_list s c) (FL c) (RL c))"

lemma pool_ok_cong:
  "(\<And>p. p \<in> set (xs @ ys) \<Longrightarrow> next_free (js p) = next_free (ks p)) \<Longrightarrow>
   pool_ok N c js f r xs ys \<longleftrightarrow> pool_ok N c ks f r xs ys"
  unfolding pool_ok_def using chain_cong [of xs js ks f] chain_cong [of ys js ks r] by simp

lemma pool_ok_other:
  "pool_of p \<noteq> c \<Longrightarrow> pool_ok N c js f r xs ys \<Longrightarrow> pool_ok N c (js(p := j)) f r xs ys"
  by (subst pool_ok_cong [of _ _ _ js]) (auto simp: pool_ok_def)

lemma pool_ok_upd:
  "p \<notin> set (xs @ ys) \<Longrightarrow> pool_ok N c (js(p := j)) f r xs ys \<longleftrightarrow> pool_ok N c js f r xs ys"
  by (rule pool_ok_cong) auto

lemma pool_ok_push:
  assumes "pool_ok N c js f r xs ys" and "p \<notin> set (xs @ ys)" and "in_pools N p" and "pool_of p = c"
  shows "next_free j = f \<Longrightarrow> pool_ok N c (js(p := j)) (Some p) r (p # xs) ys"
    and "next_free j = r \<Longrightarrow> pool_ok N c (js(p := j)) f (Some p) xs (p # ys)"
  using assms by (auto simp: pool_ok_def)

lemma pool_ok_take:
  assumes "pool_ok N c js (Some p) r xs ys"
  obtains ps where "xs = p # ps" and "p \<notin> set (ps @ ys)" and "in_pools N p" and "pool_of p = c"
    and "pool_ok N c js (next_free (js p)) r ps ys"
  using assms by (cases xs) (auto simp: pool_ok_def)

definition is_free :: "(nat \<Rightarrow> jptr list) \<Rightarrow> (nat \<Rightarrow> jptr list) \<Rightarrow> jptr \<Rightarrow> bool" where
  "is_free FL RL p \<longleftrightarrow> p \<in> set (FL (pool_of p) @ RL (pool_of p))"

definition live_job :: "nat \<Rightarrow> job_struct \<Rightarrow> jptr \<Rightarrow> bool" where
  "live_job n j p \<longleftrightarrow> 0 < n \<and> refcount j = int n \<and> job_pool_id j = pool_of p \<and> parent_task j \<noteq> None"

definition counted_with ::
  "nat \<Rightarrow> (jptr \<Rightarrow> nat) \<Rightarrow> 'z jheap_scheme \<Rightarrow> (nat \<Rightarrow> jptr list) \<Rightarrow> (nat \<Rightarrow> jptr list) \<Rightarrow> bool"
where
  "counted_with N R s FL RL \<longleftrightarrow> pools N s FL RL
     \<and> (\<forall>p. if in_pools N p \<and> \<not> is_free FL RL p then live_job (R p) (jobs s p) p else R p = 0)"

definition counted :: "nat \<Rightarrow> (jptr \<Rightarrow> nat) \<Rightarrow> 'z jheap_scheme \<Rightarrow> bool" where
  "counted N R s \<longleftrightarrow> (\<exists>FL RL. counted_with N R s FL RL)"

lemma counted_withD:
  assumes "counted_with N R s FL RL"
  shows "pools N s FL RL"
    and "in_pools N p \<Longrightarrow> \<not> is_free FL RL p \<Longrightarrow> live_job (R p) (jobs s p) p"
    and "is_free FL RL p \<Longrightarrow> R p = 0" and "\<not> in_pools N p \<Longrightarrow> R p = 0"
    and "0 < R p \<Longrightarrow> in_pools N p" and "0 < R p \<Longrightarrow> \<not> is_free FL RL p"
  using assms unfolding counted_with_def by (metis less_irrefl)+

lemma countedI:
  assumes "pools N s FL RL"
    and "\<And>p. in_pools N p \<Longrightarrow> \<not> is_free FL RL p \<Longrightarrow> live_job (R p) (jobs s p) p"
    and "\<And>p. is_free FL RL p \<Longrightarrow> R p = 0" and "\<And>p. \<not> in_pools N p \<Longrightarrow> R p = 0"
  shows "counted N R s"
  using assms unfolding counted_def counted_with_def by (intro exI [of _ FL] exI [of _ RL]) auto

lemma counted_live:
  assumes "counted N R s" and "0 < R p"
  shows "in_pools N p" and "live_job (R p) (jobs s p) p"
proof -
  obtain FL RL where "counted_with N R s FL RL" using assms(1) by (auto simp: counted_def)
  note D = counted_withD [OF this]
  from assms(2) D show "in_pools N p" and "live_job (R p) (jobs s p) p" by blast+
qed

text \<open>
  What the pools depend on; and, for the requests in flight, that a job never becomes idle again (only
  \<^verbatim>\<open>create_job\<close> makes an idle job) nor points to itself again once it has left that state.
\<close>

definition same_pool :: "job_struct \<Rightarrow> job_struct \<Rightarrow> bool" where
  "same_pool j k \<longleftrightarrow> next_free k = next_free j \<and> refcount k = refcount j
     \<and> job_pool_id k = job_pool_id j \<and> (parent_task j \<noteq> None \<longrightarrow> parent_task k \<noteq> None)"

definition same_count :: "job_struct \<Rightarrow> job_struct \<Rightarrow> bool" where
  "same_count j k \<longleftrightarrow> next_free k = next_free j \<and> refcount k = refcount j
     \<and> job_pool_id k = job_pool_id j \<and> (parent_task j \<noteq> None \<longrightarrow> parent_task k \<noteq> None)
     \<and> (state k = JOB_STATE_IDLE \<longrightarrow> state j = JOB_STATE_IDLE)
     \<and> (state k \<noteq> JOB_STATE_IDLE \<longrightarrow> job_link k = LinkSelf \<longrightarrow>
          state j \<noteq> JOB_STATE_IDLE \<and> job_link j = LinkSelf)"

lemma same_count_pool: "same_count j k \<Longrightarrow> same_pool j k"
  by (simp add: same_count_def same_pool_def)

lemma counted_same:
  assumes "counted N R s" and "free_list t = free_list s"
    and "remote_free_list t = remote_free_list s" and J: "\<And>p. same_pool (jobs s p) (jobs t p)"
  shows "counted N R t"
proof -
  obtain FL RL where C: "counted_with N R s FL RL" using assms(1) by (auto simp: counted_def)
  note P = counted_withD(1) [OF C] and L = counted_withD(2) [OF C] and F = counted_withD(3,4) [OF C]
  have "next_free (jobs t p) = next_free (jobs s p)" for p using J by (simp add: same_pool_def)
  then have "pools N t FL RL"
    using P assms(2,3) pool_ok_cong [of _ _ "jobs t" "jobs s"] by (simp add: pools_def)
  then show ?thesis using L F J by (intro countedI) (auto simp: same_pool_def live_job_def)
qed

lemma pools_upd:
  assumes "pools N s FL RL" and "\<not> is_free FL RL p"
  shows "pools N (upd_job p f s) FL RL"
  unfolding pools_def
proof (intro allI impI)
  fix c assume "c < N"
  with assms(1) have P: "pool_ok N c (jobs s) (free_list s c) (remote_free_list s c) (FL c) (RL c)"
    by (simp add: pools_def)
  with assms(2) have "p \<notin> set (FL c @ RL c)" by (auto simp: is_free_def pool_ok_def)
  with P show "pool_ok N c (jobs (upd_job p f s)) (free_list (upd_job p f s) c)
      (remote_free_list (upd_job p f s) c) (FL c) (RL c)"
    by (simp add: pool_ok_upd)
qed

text \<open>Acquiring a reference to a job that has one.\<close>

lemma counted_get:
  assumes "counted N R s" and "0 < R p"
  shows "counted N (R(p := Suc (R p))) (upd_job p (refcount_update (\<lambda>r. r + 1)) s)"
proof -
  obtain FL RL where C: "counted_with N R s FL RL" using assms(1) by (auto simp: counted_def)
  note P = counted_withD(1) [OF C] and L = counted_withD(2) [OF C] and F = counted_withD(3,4) [OF C]
  have p: "in_pools N p" "\<not> is_free FL RL p" using assms(2) counted_withD(5,6) [OF C] by blast+
  show ?thesis
    by (rule countedI [OF pools_upd [OF P p(2)]])
      (use L F p in \<open>auto simp: live_job_def\<close>)
qed

text \<open>Releasing one: the last release puts the job on the free list of its owner.\<close>

lemma pools_push:
  assumes "pools N s FL RL" and "in_pools N p" and "\<not> is_free FL RL p" and "c = pool_of p"
  shows "pools N (push_free c p s) (FL(c := p # FL c)) RL"
    and "pools N (push_remote_free c p s) FL (RL(c := p # RL c))"
proof -
  have P: "d < N \<Longrightarrow> pool_ok N d (jobs s) (free_list s d) (remote_free_list s d) (FL d) (RL d)" for d
    using assms(1) by (simp add: pools_def)
  have n: "p \<notin> set (FL c @ RL c)" using assms(3,4) by (simp add: is_free_def)
  have c: "c < N" using assms(2,4) by (simp add: in_pools_def)
  have o: "d < N \<Longrightarrow> d \<noteq> c \<Longrightarrow>
      pool_ok N d ((jobs s)(p := j)) (free_list s d) (remote_free_list s d) (FL d) (RL d)" for d j
    using P [of d] assms(4) by (intro pool_ok_other) simp_all
  show "pools N (push_free c p s) (FL(c := p # FL c)) RL"
    and "pools N (push_remote_free c p s) FL (RL(c := p # RL c))"
    using pool_ok_push [OF P [OF c] n assms(2) assms(4) [symmetric]] o
    by (simp_all add: pools_def push_free_def push_remote_free_def)
qed

lemma counted_put:
  assumes "counted N R s" and "0 < R p"
  shows "counted N (R(p := R p - 1)) (put_job_ref (Some p) c s)"
proof -
  obtain FL RL where C: "counted_with N R s FL RL" using assms(1) by (auto simp: counted_def)
  note P = counted_withD(1) [OF C] and L = counted_withD(2) [OF C] and F = counted_withD(3,4) [OF C]
  have p: "in_pools N p" "\<not> is_free FL RL p" using assms(2) counted_withD(5,6) [OF C] by blast+
  let ?s = "upd_job p (refcount_update (\<lambda>r. r - 1)) s" and ?d = "pool_of p"
  note P' = pools_upd [OF P p(2), of "refcount_update (\<lambda>r. r - 1)"]
  have own: "job_pool_id (jobs ?s p) = ?d" using L p by (simp add: live_job_def)
  have rc: "refcount (jobs s p) = int (R p)" using L p by (simp add: live_job_def)
  show ?thesis
  proof (cases "R p = 1")
    case False
    then have e: "put_job_ref (Some p) c s = ?s" using rc by (simp add: put_job_ref_def)
    have "1 < R p" using False assms(2) by simp
    then have "live_job (R p - 1) (jobs ?s p) p" using L [OF p] by (auto simp: live_job_def)
    then show ?thesis unfolding e using L F p by (intro countedI [OF P']) auto
  next
    case True
    then have e: "put_job_ref (Some p) c s
        = (if ?d = c then push_free ?d p ?s else push_remote_free ?d p ?s)"
      using rc own by (simp add: put_job_ref_def release_job_to_pool_def)
    have J: "jobs (if ?d = c then push_free ?d p ?s else push_remote_free ?d p ?s) x = jobs s x"
      if "x \<noteq> p" for x
      using that by (simp add: push_free_def push_remote_free_def)
    have i: "is_free (FL(?d := p # FL ?d)) RL x \<longleftrightarrow> x = p \<or> is_free FL RL x"
      "is_free FL (RL(?d := p # RL ?d)) x \<longleftrightarrow> x = p \<or> is_free FL RL x" for x
      by (auto simp: is_free_def)
    note Q = pools_push [OF P' p refl]
    show ?thesis
    proof (cases "?d = c")
      case True
      then show ?thesis unfolding e using Q(1) J L F i \<open>R p = 1\<close>
        by (intro countedI [of _ _ "FL(?d := p # FL ?d)" RL]) auto
    next
      case False
      then show ?thesis unfolding e using Q(2) J L F i \<open>R p = 1\<close>
        by (intro countedI [of _ _ FL "RL(?d := p # RL ?d)"]) auto
    qed
  qed
qed

text \<open>A new job is a free one of the pool of its core, with one reference.\<close>

lemma counted_refill:
  assumes "counted N R s" and "c < N" and "free_list s c = None"
  shows "counted N R (s\<lparr>free_list := (free_list s)(c := remote_free_list s c),
                        remote_free_list := (remote_free_list s)(c := None)\<rparr>)"
proof -
  obtain FL RL where C: "counted_with N R s FL RL" using assms(1) by (auto simp: counted_def)
  note P = counted_withD(1) [OF C] and L = counted_withD(2) [OF C] and F = counted_withD(3,4) [OF C]
  have "chain (jobs s) None (FL c)" using P assms(2,3) by (auto simp: pools_def pool_ok_def)
  then have nil: "FL c = []" by (cases "FL c") auto
  have i: "is_free (FL(c := RL c)) (RL(c := [])) p \<longleftrightarrow> is_free FL RL p" for p
    using nil by (auto simp: is_free_def)
  show ?thesis
    by (rule countedI [of _ _ "FL(c := RL c)" "RL(c := [])"])
      (use P L F i nil in \<open>auto simp: pools_def pool_ok_def\<close>)
qed

lemma counted_take:
  assumes "counted N R s" and "c < N" and f: "free_list s c = Some p"
  shows "R p = 0 \<and> pool_of p = c \<and>
         counted N (R(p := 1)) (upd_job p (new_job_fields t c)
           (s\<lparr>free_list := (free_list s)(c := next_free (jobs s p))\<rparr>))"
proof -
  obtain FL RL where C: "counted_with N R s FL RL" using assms(1) by (auto simp: counted_def)
  note P = counted_withD(1) [OF C] and L = counted_withD(2) [OF C] and F = counted_withD(3,4) [OF C]
  have P': "d < N \<Longrightarrow> pool_ok N d (jobs s) (free_list s d) (remote_free_list s d) (FL d) (RL d)"
    for d using P by (simp add: pools_def)
  from P' [OF assms(2)] f obtain ps where ps: "FL c = p # ps" "p \<notin> set (ps @ RL c)"
    and in_p: "in_pools N p" "pool_of p = c"
    and ok: "pool_ok N c (jobs s) (next_free (jobs s p)) (remote_free_list s c) ps (RL c)"
    by (auto elim: pool_ok_take)
  let ?t = "upd_job p (new_job_fields t c)
      (s\<lparr>free_list := (free_list s)(c := next_free (jobs s p))\<rparr>)"
  have i: "is_free (FL(c := ps)) RL x \<longleftrightarrow> is_free FL RL x \<and> x \<noteq> p" for x
    using ps in_p by (auto simp: is_free_def)
  have "pools N ?t (FL(c := ps)) RL"
    using P' ok ps(2) in_p(2) pool_ok_other [of p]
    by (simp add: pools_def pool_ok_upd)
  moreover have fp: "is_free FL RL p" using ps in_p by (simp add: is_free_def)
  moreover have new: "live_job 1 (jobs ?t p) p"
    using in_p by (simp add: live_job_def new_job_fields_def)
  ultimately have "counted N (R(p := 1)) ?t"
  proof (intro countedI [of _ _ "FL(c := ps)" RL])
    fix x assume "in_pools N x" and nf: "\<not> is_free (FL(c := ps)) RL x"
    then show "live_job ((R(p := 1)) x) (jobs ?t x) x"
      using new L [of x] nf [unfolded i] by (cases "x = p") simp_all
  next
    fix x assume "is_free (FL(c := ps)) RL x"
    then show "(R(p := 1)) x = 0" using F(1) [of x] unfolding i by simp
  next
    fix x assume "\<not> in_pools N x"
    then show "(R(p := 1)) x = 0" using F(2) [of x] in_p(1) by (cases "x = p") simp_all
  qed
  with F(1) [OF fp] in_p(2) show ?thesis by blast
qed

lemma create_job_counted:
  assumes "counted N R s" and "c < N" and "create_job t c s = (r, s')"
  shows "case r of None \<Rightarrow> counted N R s'
    | Some p \<Rightarrow> R p = 0 \<and> pool_of p = c \<and> counted N (R(p := 1)) s'"
proof -
  define s1 where "s1 = (if free_list s c = None
               then s\<lparr>free_list := (free_list s)(c := remote_free_list s c),
                      remote_free_list := (remote_free_list s)(c := None)\<rparr>
               else s)"
  have "counted N R s1" using counted_refill [OF assms(1,2)] assms(1) by (simp add: s1_def)
  note T = counted_take [OF this assms(2)]
  have "create_job t c s = (case free_list s1 c of None \<Rightarrow> (None, s1)
         | Some p \<Rightarrow> (Some p, upd_job p (new_job_fields t c)
                        (s1\<lparr>free_list := (free_list s1)(c := next_free (jobs s1 p))\<rparr>)))"
    unfolding create_job_def s1_def [symmetric] by (simp add: Let_def)
  then show ?thesis using assms(3) T \<open>counted N R s1\<close> by (auto split: option.splits)
qed

end
