(* ===== verification/SysInv.thy ===== *)
theory SysInv
  imports SysState JobInv
begin

text \<open>
  The invariant of the shared state. Every reference to a job is counted: its membership in a
  queue, the \<^verbatim>\<open>running_job\<close> pointer of a core, a migration request in flight, and the references a
  handler holds in its local variables, given by the multiset \<open>H\<close>. \<open>sys_inv N B H s\<close> says that the
  queues are well formed, that the counter of every job is the number of its references and that
  free jobs have none, that a running job is in no queue and runs on one core only, that an idle job
  (a future arrival) in a request has no other reference, and that the
  request queue of core \<open>c\<close> admits \<open>B c\<close> more elements over its lifetime, counting those it holds.

  One lemma per primitive step says how \<open>H\<close> changes; the handlers are verified from these.
\<close>

section \<open>The invariant\<close>

definition requests :: "core_state \<Rightarrow> migration_request list" where
  "requests cs = rb_contents (migration_request_queue cs)"

definition core_refs :: "core_state \<Rightarrow> jptr \<Rightarrow> nat" where
  "core_refs cs p = of_bool (running_job cs = Some p) + count (mset (map req_job (requests cs))) p"

definition refs :: "nat \<Rightarrow> sys \<Rightarrow> jptr \<Rightarrow> nat" where
  "refs N s p = of_bool (\<not> unlinked (jobs s p)) + (\<Sum>c<N. core_refs (cstate s c) p)"

definition run_ok :: "nat \<Rightarrow> sys \<Rightarrow> bool" where
  "run_ok N s \<longleftrightarrow> (\<forall>c<N. \<forall>p. running_job (cstate s c) = Some p \<longrightarrow>
      job_link (jobs s p) = LinkNull \<and> (\<forall>d<N. running_job (cstate s d) = Some p \<longrightarrow> d = c))"

definition offer_ok :: "job_struct \<Rightarrow> bool" where
  "offer_ok j \<longleftrightarrow> (if state j = JOB_STATE_IDLE then refcount j = 1 else job_link j \<noteq> LinkSelf)"

definition offers_ok :: "nat \<Rightarrow> sys \<Rightarrow> bool" where
  "offers_ok N s \<longleftrightarrow> (\<forall>c<N. \<forall>r\<in>set (requests (cstate s c)).
     from_core r < N \<and> offer_ok (jobs s (req_job r)))"

lemma offers_ok_mono:
  assumes "offers_ok N s"
    and "\<And>c. c < N \<Longrightarrow> set (requests (cstate t c)) \<subseteq> set (requests (cstate s c))"
    and "\<And>c r. c < N \<Longrightarrow> r \<in> set (requests (cstate s c)) \<Longrightarrow>
      offer_ok (jobs s (req_job r)) \<Longrightarrow> offer_ok (jobs t (req_job r))"
  shows "offers_ok N t"
  using assms unfolding offers_ok_def by blast

lemma offer_ok_same: "same_count j k \<Longrightarrow> offer_ok j \<Longrightarrow> offer_ok k"
  by (auto simp: same_count_def offer_ok_def split: if_splits)

lemma offer_ok_link: "l \<noteq> LinkSelf \<Longrightarrow> offer_ok j \<Longrightarrow> offer_ok (j\<lparr>job_link := l\<rparr>)"
  by (simp add: offer_ok_def split: if_splits)

lemma requests_upd [simp]:
  "requests (cs\<lparr>running_job := r\<rparr>) = requests cs" "requests (cs\<lparr>rq_lock := l\<rparr>) = requests cs"
  by (simp_all add: requests_def)

definition sys_inv :: "nat \<Rightarrow> (nat \<Rightarrow> nat) \<Rightarrow> jptr multiset \<Rightarrow> sys \<Rightarrow> bool" where
  "sys_inv N B H s \<longleftrightarrow> queues_ok s \<and> counted N (\<lambda>p. refs N s p + count H p) s \<and> run_ok N s
     \<and> offers_ok N s \<and> (\<forall>c<N. rb_live 32 (B c) (migration_request_queue (cstate s c)))"

definition not_running :: "nat \<Rightarrow> sys \<Rightarrow> jptr \<Rightarrow> bool" where
  "not_running N s p \<longleftrightarrow> (\<forall>c<N. running_job (cstate s c) \<noteq> Some p)"

lemma sys_invD:
  assumes "sys_inv N B H s"
  shows "queues_ok s" and "counted N (\<lambda>p. refs N s p + count H p) s" and "run_ok N s"
    and "c < N \<Longrightarrow> rb_live 32 (B c) (migration_request_queue (cstate s c))"
    and "offers_ok N s"
  using assms by (simp_all add: sys_inv_def)

lemma running_link:
  assumes "sys_inv N B H s" and "c < N" and "running_job (cstate s c) = Some p"
  shows "job_link (jobs s p) = LinkNull" and "unlinked (jobs s p)"
  using sys_invD(3) [OF assms(1)] assms(2,3) by (simp_all add: run_ok_def unlinked_cases)

section \<open>Projections of the updates\<close>

lemma upd_core_fields [simp]:
  "core_states (upd_core c f s) = (core_states s)(c := f (core_states s c))"
  "jobs (upd_core c f s) = jobs s" "queues (upd_core c f s) = queues s"
  "free_list (upd_core c f s) = free_list s" "remote_free_list (upd_core c f s) = remote_free_list s"
  "proc_state (upd_core c f s) = proc_state s" "task_lookup (upd_core c f s) = task_lookup s"
  "delegated_jobs_pool (upd_core c f s) = delegated_jobs_pool s"
  "delegated_jobs_free_list (upd_core c f s) = delegated_jobs_free_list s"
  "core_summaries (upd_core c f s) = core_summaries s"
  "sent_packets (upd_core c f s) = sent_packets s" "rand_count (upd_core c f s) = rand_count s"
  "core_fatal_shutdown_requested (upd_core c f s) = core_fatal_shutdown_requested s"
  "proc_shutdown_requested (upd_core c f s) = proc_shutdown_requested s"
  by (simp_all add: upd_core_def)

lemma upd_proc_fields [simp]:
  "core_states (upd_proc f s) = core_states s" "jobs (upd_proc f s) = jobs s"
  "queues (upd_proc f s) = queues s" "free_list (upd_proc f s) = free_list s"
  "remote_free_list (upd_proc f s) = remote_free_list s"
  "proc_state (upd_proc f s) = f (proc_state s)" "task_lookup (upd_proc f s) = task_lookup s"
  "delegated_jobs_pool (upd_proc f s) = delegated_jobs_pool s"
  "delegated_jobs_free_list (upd_proc f s) = delegated_jobs_free_list s"
  "core_summaries (upd_proc f s) = core_summaries s"
  "sent_packets (upd_proc f s) = sent_packets s" "rand_count (upd_proc f s) = rand_count s"
  "core_fatal_shutdown_requested (upd_proc f s) = core_fatal_shutdown_requested s"
  "proc_shutdown_requested (upd_proc f s) = proc_shutdown_requested s"
  by (simp_all add: upd_proc_def)

lemma upd_dj_fields [simp]:
  "core_states (upd_dj d f s) = core_states s" "jobs (upd_dj d f s) = jobs s"
  "queues (upd_dj d f s) = queues s" "free_list (upd_dj d f s) = free_list s"
  "remote_free_list (upd_dj d f s) = remote_free_list s" "proc_state (upd_dj d f s) = proc_state s"
  "task_lookup (upd_dj d f s) = task_lookup s"
  "core_summaries (upd_dj d f s) = core_summaries s"
  "delegated_jobs_pool (upd_dj d f s)
     = (delegated_jobs_pool s)(d := f (delegated_jobs_pool s d))"
  "delegated_jobs_free_list (upd_dj d f s) = delegated_jobs_free_list s"
  "sent_packets (upd_dj d f s) = sent_packets s" "rand_count (upd_dj d f s) = rand_count s"
  "core_fatal_shutdown_requested (upd_dj d f s) = core_fatal_shutdown_requested s"
  "proc_shutdown_requested (upd_dj d f s) = proc_shutdown_requested s"
  by (simp_all add: upd_dj_def)

lemma upd_job_sys_fields [simp]:
  fixes s :: sys
  shows "core_states (upd_job p f s) = core_states s" "proc_state (upd_job p f s) = proc_state s"
    "core_summaries (upd_job p f s) = core_summaries s"
    "task_lookup (upd_job p f s) = task_lookup s"
    "delegated_jobs_pool (upd_job p f s) = delegated_jobs_pool s"
    "delegated_jobs_free_list (upd_job p f s) = delegated_jobs_free_list s"
    "sent_packets (upd_job p f s) = sent_packets s" "rand_count (upd_job p f s) = rand_count s"
    "core_fatal_shutdown_requested (upd_job p f s) = core_fatal_shutdown_requested s"
    "proc_shutdown_requested (upd_job p f s) = proc_shutdown_requested s"
  by (simp_all add: upd_job_def)

text \<open>Locks.\<close>

lemma LOCK_RQ_eq:
  "LOCK_RQ c s = (if rq_lock (cstate s c) then None
                  else Some (upd_core c (rq_lock_update (\<lambda>_. True)) s))"
  by (simp add: LOCK_RQ_def)

section \<open>Frame rules\<close>

lemma sys_inv_cong:
  assumes "jobs t = jobs s" and "queues t = queues s" and "free_list t = free_list s"
    and "remote_free_list t = remote_free_list s"
    and "\<And>c. running_job (cstate t c) = running_job (cstate s c)"
    and "\<And>c. migration_request_queue (cstate t c) = migration_request_queue (cstate s c)"
  shows "sys_inv N B H t \<longleftrightarrow> sys_inv N B H s"
proof -
  have r: "refs N t = refs N s"
    using assms(1,5,6) by (simp add: refs_def core_refs_def requests_def fun_eq_iff)
  have "queues_ok t \<longleftrightarrow> queues_ok s" using assms(1,2) by (simp add: queues_ok_def queue_ok_def)
  moreover have "counted N R t \<longleftrightarrow> counted N R s" for R
    using assms(1,3,4) by (simp add: counted_def counted_with_def pools_def)
  moreover have "run_ok N t \<longleftrightarrow> run_ok N s" using assms(1,5) by (simp add: run_ok_def)
  moreover have "offers_ok N t \<longleftrightarrow> offers_ok N s"
    using assms(1,6) by (simp add: offers_ok_def requests_def)
  ultimately show ?thesis using assms(6) r by (simp add: sys_inv_def)
qed

lemma sys_inv_upd_core:
  assumes "\<And>x. running_job (f x) = running_job x"
    and "\<And>x. migration_request_queue (f x) = migration_request_queue x"
  shows "sys_inv N B H (upd_core c f s) \<longleftrightarrow> sys_inv N B H s"
  by (rule sys_inv_cong) (simp_all add: assms)

lemma sys_inv_frame [simp]:
  "sys_inv N B H (upd_proc g s) \<longleftrightarrow> sys_inv N B H s"
  "sys_inv N B H (upd_dj d h s) \<longleftrightarrow> sys_inv N B H s"
  "sys_inv N B H (s\<lparr>core_summaries := cs\<rparr>) \<longleftrightarrow> sys_inv N B H s"
  "sys_inv N B H (s\<lparr>delegated_jobs_free_list := fl\<rparr>) \<longleftrightarrow> sys_inv N B H s"
  "sys_inv N B H (s\<lparr>delegated_jobs_pool := pl\<rparr>) \<longleftrightarrow> sys_inv N B H s"
  "sys_inv N B H (s\<lparr>sent_packets := sp\<rparr>) \<longleftrightarrow> sys_inv N B H s"
  "sys_inv N B H (s\<lparr>rand_count := n\<rparr>) \<longleftrightarrow> sys_inv N B H s"
  "sys_inv N B H (s\<lparr>core_fatal_shutdown_requested := b\<rparr>) \<longleftrightarrow> sys_inv N B H s"
  "sys_inv N B H (s\<lparr>proc_shutdown_requested := b\<rparr>) \<longleftrightarrow> sys_inv N B H s"
  by (rule sys_inv_cong; simp)+

lemma sys_inv_core_flags [simp]:
  "sys_inv N B H (upd_core c (rq_lock_update g1) s) \<longleftrightarrow> sys_inv N B H s"
  "sys_inv N B H (upd_core c (is_idle_update g2) s) \<longleftrightarrow> sys_inv N B H s"
  "sys_inv N B H (upd_core c (decision_point_update g3) s) \<longleftrightarrow> sys_inv N B H s"
  "sys_inv N B H (upd_core c (local_criticality_level_update g4) s) \<longleftrightarrow> sys_inv N B H s"
  "sys_inv N B H (upd_core c (dpm_block_update g5) s) \<longleftrightarrow> sys_inv N B H s"
  "sys_inv N B H (upd_core c (current_dvfs_level_update g6) s) \<longleftrightarrow> sys_inv N B H s"
  "sys_inv N B H (upd_core c (delegated_job_queue_update g7) s) \<longleftrightarrow> sys_inv N B H s"
  "sys_inv N B H (upd_core c (delegation_ack_queue_update g8) s) \<longleftrightarrow> sys_inv N B H s"
  "sys_inv N B H (upd_core c (core_next_migration_eligible_tick_update g9) s)
     \<longleftrightarrow> sys_inv N B H s"
  by (rule sys_inv_upd_core; simp)+

lemma sys_inv_locks [simp]:
  "sys_inv N B H (UNLOCK_RQ c s) \<longleftrightarrow> sys_inv N B H s"
  "sys_inv N B H (unlock_discard_queue s) \<longleftrightarrow> sys_inv N B H s"
  "sys_inv N B H (double_rq_unlock c d s) \<longleftrightarrow> sys_inv N B H s"
  by (simp_all add: UNLOCK_RQ_def unlock_discard_queue_def double_rq_unlock_def)

section \<open>References\<close>

lemma core_refs_update:
  fixes c N :: nat
  assumes "c < N"
  shows "(\<Sum>d<N. core_refs ((f(c := x)) d) p) + core_refs (f c) p
           = (\<Sum>d<N. core_refs (f d) p) + core_refs x p"
proof -
  have "(\<Sum>d<N. core_refs ((f(c := x)) d) p) = core_refs x p + (\<Sum>d\<in>{..<N} - {c}. core_refs (f d) p)"
    using assms by (subst sum.remove [of "{..<N}" c]) (auto intro: sum.cong)
  moreover have "(\<Sum>d<N. core_refs (f d) p) = core_refs (f c) p + (\<Sum>d\<in>{..<N} - {c}. core_refs (f d) p)"
    using assms by (subst sum.remove [of "{..<N}" c]) auto
  ultimately show ?thesis by simp
qed

lemma refs_same_link:
  assumes "core_states t = core_states s"
    and "unlinked (jobs t p) \<longleftrightarrow> unlinked (jobs s p)"
  shows "refs N t p = refs N s p"
  using assms by (simp add: refs_def)

lemma held_live:
  assumes "sys_inv N B H s" and "p \<in># H"
  shows "in_pools N p" and "job_pool_id (jobs s p) = pool_of p"
    and "parent_task (jobs s p) \<noteq> None" and "0 < refcount (jobs s p)"
proof -
  have "0 < refs N s p + count H p" using assms(2) by simp
  note L = counted_live [OF sys_invD(2) [OF assms(1)] this]
  then show "in_pools N p" and "job_pool_id (jobs s p) = pool_of p"
    and "parent_task (jobs s p) \<noteq> None" by (simp_all add: live_job_def)
  show "0 < refcount (jobs s p)" using L(2) unfolding live_job_def by linarith
qed

lemma linked_live:
  assumes "sys_inv N B H s" and "job_link (jobs s p) = LinkIn q"
  shows "in_pools N p" and "parent_task (jobs s p) \<noteq> None" and "0 < refcount (jobs s p)"
proof -
  have "0 < refs N s p + count H p" using assms(2) by (simp add: refs_def unlinked_def)
  note L = counted_live [OF sys_invD(2) [OF assms(1)] this]
  then show "in_pools N p" and "parent_task (jobs s p) \<noteq> None" by (simp_all add: live_job_def)
  show "0 < refcount (jobs s p)" using L(2) unfolding live_job_def by linarith
qed

lemma requested_refs:
  assumes "c < N" and "r \<in> set (requests (cstate s c))"
  shows "0 < refs N s (req_job r)"
proof -
  have "0 < core_refs (cstate s c) (req_job r)"
    using assms(2) by (auto simp: core_refs_def)
  also have "core_refs (cstate s c) (req_job r) \<le> (\<Sum>c<N. core_refs (cstate s c) (req_job r))"
    using assms(1) by (intro member_le_sum) auto
  finally show ?thesis by (simp add: refs_def)
qed

section \<open>Job updates\<close>

lemma sys_inv_upd_job:
  assumes I: "sys_inv N B H s" and C: "same_count (jobs s p) (f (jobs s p))"
    and L: "unlinked (f (jobs s p)) \<longleftrightarrow> unlinked (jobs s p)"
    and R: "not_running N s p \<or> job_link (f (jobs s p)) = job_link (jobs s p)"
    and Q: "queues_ok (upd_job p f s)"
  shows "sys_inv N B H (upd_job p f s)"
proof -
  note D = sys_invD [OF I]
  have r: "refs N (upd_job p f s) = refs N s"
  proof
    fix x
    show "refs N (upd_job p f s) x = refs N s x"
      using L by (intro refs_same_link) auto
  qed
  have "counted N (\<lambda>p. refs N s p + count H p) (upd_job p f s)"
    using D(2) by (rule counted_same) (use same_count_pool [OF C] in \<open>auto simp: same_pool_def\<close>)
  moreover have "run_ok N (upd_job p f s)"
    using D(3) R by (auto simp: run_ok_def not_running_def)
  moreover have "offers_ok N (upd_job p f s)"
    using D(5) by (rule offers_ok_mono) (use offer_ok_same [OF C] in auto)
  ultimately show ?thesis using D Q by (simp add: sys_inv_def r)
qed

text \<open>A job that only its holder knows may change its state freely.\<close>

lemma sys_inv_upd_private:
  assumes I: "sys_inv N B H s" and C: "same_pool (jobs s p) (f (jobs s p))"
    and L: "unlinked (jobs s p)" "unlinked (f (jobs s p))" and R: "refs N s p = 0"
  shows "sys_inv N B H (upd_job p f s)"
proof -
  note D = sys_invD [OF I]
  have r: "refs N (upd_job p f s) = refs N s"
  proof
    fix x
    show "refs N (upd_job p f s) x = refs N s x"
      using L by (intro refs_same_link) auto
  qed
  have "counted N (\<lambda>p. refs N s p + count H p) (upd_job p f s)"
    using D(2) by (rule counted_same) (use C in \<open>auto simp: same_pool_def\<close>)
  moreover have "run_ok N (upd_job p f s)"
    using D(3) R by (auto simp: run_ok_def refs_def core_refs_def)
  moreover have "offers_ok N (upd_job p f s)"
    using D(5)
  proof (rule offers_ok_mono)
    fix c q assume c: "c < N" and q: "q \<in> set (requests (cstate s c))"
      and o: "offer_ok (jobs s (req_job q))"
    have "req_job q \<noteq> p" using requested_refs [OF c q] R by auto
    then show "offer_ok (jobs (upd_job p f s) (req_job q))" using o by simp
  qed simp
  moreover have "queues_ok (upd_job p f s)"
    using D(1) L by (intro queues_ok_upd_unlinked) (auto simp: unlinked_def)
  ultimately show ?thesis using D(4) by (simp add: sys_inv_def r)
qed

lemma sys_inv_upd_same:
  assumes "sys_inv N B H s" and "same_count (jobs s p) (f (jobs s p))"
    and "same_entry (jobs s p) (f (jobs s p))"
  shows "sys_inv N B H (upd_job p f s)"
  using assms queues_ok_upd_same [OF sys_invD(1) [OF assms(1)], of p f]
  by (intro sys_inv_upd_job) (auto simp: same_entry_def unlinked_def)

lemma sys_inv_upd_unlinked:
  assumes "sys_inv N B H s" and "same_count (jobs s p) (f (jobs s p))"
    and "unlinked (jobs s p)" and "unlinked (f (jobs s p))"
    and "not_running N s p \<or> job_link (f (jobs s p)) = job_link (jobs s p)"
  shows "sys_inv N B H (upd_job p f s)"
  using assms queues_ok_upd_unlinked [OF sys_invD(1) [OF assms(1)], of p f]
  by (intro sys_inv_upd_job) (auto simp: unlinked_def)

section \<open>Primitive steps\<close>

lemma sys_state_fields [simp]:
  fixes s :: sys
  shows "core_states (unlinked_state q p s) = core_states s"
    "core_states (linked_state key q p s) = core_states s"
    "proc_state (unlinked_state q p s) = proc_state s"
    "proc_state (linked_state key q p s) = proc_state s"
    "jobs (unlinked_state q p s) = (jobs s)(p := (jobs s p)\<lparr>job_link := LinkNull\<rparr>)"
    "jobs (linked_state key q p s) = (jobs s)(p := (jobs s p)\<lparr>job_link := LinkIn q\<rparr>)"
    "queues (unlinked_state q p s) = (queues s)(q := remove1 p (queues s q))"
    "free_list (unlinked_state q p s) = free_list s"
    "free_list (linked_state key q p s) = free_list s"
    "remote_free_list (unlinked_state q p s) = remote_free_list s"
    "remote_free_list (linked_state key q p s) = remote_free_list s"
  by (simp_all add: unlinked_state_def linked_state_def)

text \<open>Taking a job out of its queue leaves its reference with the handler.\<close>

lemma sys_inv_del:
  assumes I: "sys_inv N B H s" and q: "job_link (jobs s p) = LinkIn q"
  shows "sys_inv N B (add_mset p H) (unlinked_state q p s)"
    and "not_running N (unlinked_state q p s) p"
proof -
  note D = sys_invD [OF I]
  let ?t = "unlinked_state q p s"
  have r: "refs N ?t x + count (add_mset p H) x = refs N s x + count H x" for x
    using q by (cases "x = p") (simp_all add: refs_def unlinked_def)
  have "counted N (\<lambda>x. refs N s x + count H x) ?t"
    using D(2) by (rule counted_same) (simp_all add: same_pool_def)
  moreover have nr: "not_running N s p" using D(3) q by (auto simp: run_ok_def not_running_def)
  moreover have "run_ok N ?t" using D(3) by (auto simp: run_ok_def)
  moreover have "offers_ok N ?t" using D(5) by (rule offers_ok_mono) (auto intro: offer_ok_link)
  ultimately show "sys_inv N B (add_mset p H) ?t"
    using D(4) queues_ok_del [OF D(1) q] unfolding sys_inv_def r by simp
  show "not_running N ?t p" using nr by (simp add: not_running_def)
qed

text \<open>Linking a job gives the reference of the handler to the queue.\<close>

lemma sys_inv_add:
  assumes I: "sys_inv N B (add_mset p H) s" and u: "unlinked (jobs s p)"
    and e: "entry_ok q (jobs s p)" and n: "not_running N s p"
    and k: "\<And>j. key j = queue_key q j"
  shows "sys_inv N B H (linked_state key q p s)"
proof -
  note D = sys_invD [OF I]
  let ?t = "linked_state key q p s"
  have r: "refs N ?t x + count H x = refs N s x + count (add_mset p H) x" for x
    using u by (cases "x = p") (simp_all add: refs_def unlinked_def)
  have "counted N (\<lambda>x. refs N s x + count (add_mset p H) x) ?t"
    using D(2) by (rule counted_same) (simp_all add: same_pool_def)
  moreover have "run_ok N ?t" using D(3) n by (auto simp: run_ok_def not_running_def)
  moreover have "offers_ok N ?t" using D(5) by (rule offers_ok_mono) (auto intro: offer_ok_link)
  ultimately show ?thesis
    using D(4) queues_ok_add [OF D(1) u e k] unfolding sys_inv_def r by simp
qed

text \<open>Stopping and starting the running job of a core.\<close>

lemma sys_inv_stop:
  assumes I: "sys_inv N B H s" and p: "running_job (cstate s c) = Some p" and c: "c < N"
    and f: "\<And>x. running_job (f x) = None"
      "\<And>x. migration_request_queue (f x) = migration_request_queue x"
  shows "sys_inv N B (add_mset p H) (upd_core c f s)" and "not_running N (upd_core c f s) p"
proof -
  note D = sys_invD [OF I]
  let ?t = "upd_core c f s"
  have "core_refs (cstate s c) x = core_refs (f (cstate s c)) x + of_bool (x = p)" for x
    using p f by (auto simp: core_refs_def requests_def)
  then have r: "refs N ?t x + count (add_mset p H) x = refs N s x + count H x" for x
    using core_refs_update [OF c, of "core_states s" "f (cstate s c)" x]
    by (cases "x = p") (simp_all add: refs_def)
  have "counted N (\<lambda>x. refs N s x + count H x) ?t"
    using D(2) by (rule counted_same) (simp_all add: same_pool_def)
  moreover have "run_ok N ?t" using D(3) f by (auto simp: run_ok_def)
  moreover have "offers_ok N ?t"
    using D(5) by (rule offers_ok_mono) (auto simp: requests_def f split: if_splits)
  ultimately show "sys_inv N B (add_mset p H) ?t"
    using D(1,4) f unfolding sys_inv_def r by (simp add: queues_ok_def queue_ok_def)
  show "not_running N ?t p" using D(3) p c f by (auto simp: not_running_def run_ok_def)
qed

lemma sys_inv_start:
  assumes I: "sys_inv N B (add_mset p H) s" and "running_job (cstate s c) = None" and c: "c < N"
    and l: "job_link (jobs s p) = LinkNull" and n: "not_running N s p"
    and f: "\<And>x. running_job (f x) = Some p"
      "\<And>x. migration_request_queue (f x) = migration_request_queue x"
  shows "sys_inv N B H (upd_core c f s)"
proof -
  note D = sys_invD [OF I]
  let ?t = "upd_core c f s"
  have "core_refs (f (cstate s c)) x = core_refs (cstate s c) x + of_bool (x = p)" for x
    using assms(2) f by (auto simp: core_refs_def requests_def)
  then have r: "refs N ?t x + count H x = refs N s x + count (add_mset p H) x" for x
    using core_refs_update [OF c, of "core_states s" "f (cstate s c)" x]
    by (cases "x = p") (simp_all add: refs_def)
  have "counted N (\<lambda>x. refs N s x + count (add_mset p H) x) ?t"
    using D(2) by (rule counted_same) (simp_all add: same_pool_def)
  moreover have "run_ok N ?t"
    using D(3) f l n by (auto simp: run_ok_def not_running_def)
  moreover have "offers_ok N ?t"
    using D(5) by (rule offers_ok_mono) (auto simp: requests_def f split: if_splits)
  ultimately show ?thesis
    using D(1,4) f unfolding sys_inv_def r by (simp add: queues_ok_def queue_ok_def)
qed

text \<open>Reference counting.\<close>

lemma put_job_ref_fields [simp]:
  fixes s :: sys
  shows "core_states (put_job_ref r c s) = core_states s" "proc_state (put_job_ref r c s) = proc_state s"
    "queues (put_job_ref r c s) = queues s" "core_summaries (put_job_ref r c s) = core_summaries s"
    "task_lookup (put_job_ref r c s) = task_lookup s"
    "delegated_jobs_pool (put_job_ref r c s) = delegated_jobs_pool s"
    "delegated_jobs_free_list (put_job_ref r c s) = delegated_jobs_free_list s"
    "core_fatal_shutdown_requested (put_job_ref r c s) = core_fatal_shutdown_requested s"
    "proc_shutdown_requested (put_job_ref r c s) = proc_shutdown_requested s"
    "sent_packets (put_job_ref r c s) = sent_packets s" "rand_count (put_job_ref r c s) = rand_count s"
  by (simp_all add: put_job_ref_def release_job_to_pool_def push_free_def push_remote_free_def
      Let_def split: option.splits)

lemma put_job_ref_same_entry: "same_entry (jobs s p) (jobs (put_job_ref r c s) p)"
  by (auto simp: put_job_ref_def release_job_to_pool_def push_free_def push_remote_free_def
      Let_def same_entry_def split: option.splits)

lemma put_job_ref_link [simp]: "job_link (jobs (put_job_ref r c s) p) = job_link (jobs s p)"
  using put_job_ref_same_entry [of s p r c] by (simp add: same_entry_def)

lemma put_job_ref_other: "p \<noteq> x \<Longrightarrow> jobs (put_job_ref (Some p) c s) x = jobs s x"
  by (simp add: put_job_ref_def release_job_to_pool_def push_free_def push_remote_free_def Let_def)

lemma refcount_refs:
  assumes "sys_inv N B H s" and "0 < refs N s p + count H p"
  shows "refcount (jobs s p) = int (refs N s p + count H p)"
  using counted_live(2) [OF sys_invD(2) [OF assms(1)], of p] assms(2) by (simp add: live_job_def)

lemma private_refs:
  assumes "sys_inv N B H s" and "p \<in># H" and "refcount (jobs s p) = 1"
  shows "refs N s p = 0"
proof -
  have c: "0 < count H p" using assms(2) by simp
  then have "int (refs N s p + count H p) = 1" using refcount_refs [OF assms(1), of p] assms(3) by simp
  with c show ?thesis by linarith
qed

text \<open>A job of a request that is also held cannot be idle.\<close>

lemma requested_held_not_idle:
  assumes I: "sys_inv N B H s" and c: "c < N" and r: "r \<in> set (requests (cstate s c))"
    and h: "req_job r \<in># H"
  shows "state (jobs s (req_job r)) \<noteq> JOB_STATE_IDLE"
proof
  assume "state (jobs s (req_job r)) = JOB_STATE_IDLE"
  then have "refcount (jobs s (req_job r)) = 1"
    using sys_invD(5) [OF I] c r by (simp add: offers_ok_def offer_ok_def)
  moreover have "0 < count H (req_job r)" using h by simp
  ultimately show False
    using refcount_refs [OF I, of "req_job r"] requested_refs [OF c r] by simp
qed

lemma sys_inv_put:
  assumes I: "sys_inv N B (add_mset p H) s"
  shows "sys_inv N B H (put_job_ref (Some p) c s)"
proof -
  note D = sys_invD [OF I]
  let ?t = "put_job_ref (Some p) c s"
  let ?R = "\<lambda>x. refs N s x + count (add_mset p H) x"
  have r: "refs N ?t x = refs N s x" for x
    by (rule refs_same_link) (simp_all add: unlinked_def)
  have "counted N (?R(p := ?R p - 1)) ?t" using D(2) by (rule counted_put) simp
  moreover have "?R(p := ?R p - 1) = (\<lambda>x. refs N ?t x + count H x)" by (auto simp: r)
  ultimately have "counted N (\<lambda>x. refs N ?t x + count H x) ?t" by simp
  moreover have "queues_ok ?t" using D(1) by (rule queues_ok_same) (simp_all add: put_job_ref_same_entry)
  moreover have "offers_ok N ?t"
  proof (rule offers_ok_mono [OF D(5)])
    fix d r assume d: "d < N" and r: "r \<in> set (requests (cstate s d))"
      and o: "offer_ok (jobs s (req_job r))"
    have e: "same_entry (jobs s (req_job r)) (jobs ?t (req_job r))" by (rule put_job_ref_same_entry)
    show "offer_ok (jobs ?t (req_job r))"
    proof (cases "req_job r = p")
      case True
      then have "state (jobs s (req_job r)) \<noteq> JOB_STATE_IDLE"
        using requested_held_not_idle [OF I d r] by simp
      then show ?thesis using e o by (simp add: offer_ok_def same_entry_def)
    qed (use o in \<open>simp add: put_job_ref_other\<close>)
  qed simp
  ultimately show ?thesis using D(3,4) by (simp add: sys_inv_def run_ok_def)
qed

lemma sys_inv_get:
  assumes I: "sys_inv N B H s" and "0 < refs N s p + count H p"
    and i: "state (jobs s p) \<noteq> JOB_STATE_IDLE"
  shows "sys_inv N B (add_mset p H) (upd_job p (refcount_update (\<lambda>r. r + 1)) s)"
proof -
  note D = sys_invD [OF I]
  let ?t = "upd_job p (refcount_update (\<lambda>r. r + 1)) s"
  let ?R = "\<lambda>x. refs N s x + count H x"
  have r: "refs N ?t x = refs N s x" for x
    by (rule refs_same_link) (simp_all add: unlinked_def)
  have "counted N (?R(p := Suc (?R p))) ?t" using D(2) assms(2) by (rule counted_get)
  moreover have "?R(p := Suc (?R p)) = (\<lambda>x. refs N ?t x + count (add_mset p H) x)" by (auto simp: r)
  ultimately have "counted N (\<lambda>x. refs N ?t x + count (add_mset p H) x) ?t" by simp
  moreover have "queues_ok ?t" using D(1) by (rule queues_ok_upd_same) (simp add: same_entry_def)
  moreover have "offers_ok N ?t" using D(5) by (rule offers_ok_mono) (use i in \<open>auto simp: offer_ok_def\<close>)
  ultimately show ?thesis using D(3,4) by (simp add: sys_inv_def run_ok_def)
qed

text \<open>A new job: its one reference is with the handler.\<close>

lemma create_job_sys_fields:
  fixes s :: sys
  assumes "create_job t c s = (r, s')"
  shows "core_states s' = core_states s" "proc_state s' = proc_state s" "queues s' = queues s"
    "task_lookup s' = task_lookup s" "core_summaries s' = core_summaries s"
    "delegated_jobs_pool s' = delegated_jobs_pool s"
    "delegated_jobs_free_list s' = delegated_jobs_free_list s"
    "sent_packets s' = sent_packets s" "rand_count s' = rand_count s"
    "core_fatal_shutdown_requested s' = core_fatal_shutdown_requested s"
    "proc_shutdown_requested s' = proc_shutdown_requested s"
    "r = None \<Longrightarrow> jobs s' = jobs s"
    "r = Some p \<Longrightarrow> jobs s' = (jobs s)(p := new_job_fields t c (jobs s p))"
  using assms by (auto simp: create_job_def Let_def split: option.splits if_splits)

lemma sys_inv_create:
  assumes I: "sys_inv N B H s" and c: "c < N" and e: "create_job t c s = (r, s')"
  shows "case r of None \<Rightarrow> sys_inv N B H s'
    | Some p \<Rightarrow> sys_inv N B (add_mset p H) s' \<and> not_running N s' p
               \<and> jobs s' p = new_job_fields t c (jobs s p)"
proof (cases r)
  case None
  note E = create_job_sys_fields [OF e]
  have "counted N (\<lambda>p. refs N s p + count H p) s'"
    using create_job_counted [OF sys_invD(2) [OF I] c e] None by simp
  moreover have "queues_ok s'"
    using sys_invD(1) [OF I] E(3,12) None by (simp add: queues_ok_def queue_ok_def)
  ultimately show ?thesis using sys_invD [OF I] E None
    by (simp add: sys_inv_def refs_def run_ok_def offers_ok_def)
next
  case (Some p)
  note E = create_job_sys_fields [OF e] and D = sys_invD [OF I]
  let ?R = "\<lambda>p. refs N s p + count H p"
  have J: "jobs s' = (jobs s)(p := new_job_fields t c (jobs s p))" using E(13) Some by simp
  have C: "?R p = 0" "counted N (?R(p := 1)) s'"
    using create_job_counted [OF D(2) c e] Some by simp_all
  have u: "unlinked (jobs s p)" using C(1) by (simp add: refs_def)
  have u': "unlinked (jobs s' x) \<longleftrightarrow> unlinked (jobs s x)" for x
    using J u by (cases "x = p") (simp_all add: new_job_fields_def unlinked_cases)
  have r: "refs N s' x = refs N s x" for x using E(1) u' by (intro refs_same_link)
  have "?R(p := 1) = (\<lambda>x. refs N s' x + count (add_mset p H) x)"
    using C(1) r by auto
  with C(2) have "counted N (\<lambda>x. refs N s' x + count (add_mset p H) x) s'" by simp
  moreover have nr: "not_running N s p"
    using C(1) by (auto simp: refs_def not_running_def core_refs_def)
  moreover have "run_ok N s'" using D(3) nr E(1) J by (auto simp: run_ok_def not_running_def)
  moreover have "queues_ok s'"
  proof -
    have "queues_ok (upd_job p (new_job_fields t c) s)"
      using D(1) u by (intro queues_ok_upd_unlinked) (auto simp: unlinked_def new_job_fields_def)
    then show ?thesis using E(3) J by (simp add: queues_ok_def queue_ok_def)
  qed
  moreover have "offers_ok N s'"
  proof (rule offers_ok_mono [OF D(5)])
    fix d q assume d: "d < N" and q: "q \<in> set (requests (cstate s d))"
      and o: "offer_ok (jobs s (req_job q))"
    have "req_job q \<noteq> p" using requested_refs [OF d q] C(1) by auto
    then show "offer_ok (jobs s' (req_job q))" using o J by simp
  qed (simp add: E(1))
  ultimately show ?thesis using Some D(4) E(1) J by (simp add: sys_inv_def not_running_def)
qed

text \<open>Requests: sending one gives a reference away, receiving one takes it.\<close>

lemma sys_inv_send:
  assumes I: "sys_inv N B (add_mset (req_job r) H) s" and d: "d < N"
    and room: "0 < rb_room (migration_request_queue (cstate s d))"
    and fr: "from_core r < N"
    and i: "offer_ok (jobs s (req_job r))"
  shows "sys_inv N B H (upd_core d (migration_request_queue_update
           (\<lambda>_. rb_push r (migration_request_queue (cstate s d)))) s)"
proof -
  note D = sys_invD [OF I]
  let ?q = "migration_request_queue (cstate s d)"
  let ?f = "migration_request_queue_update (\<lambda>_. rb_push r ?q)"
  let ?t = "upd_core d ?f s"
  note P = rb_live_put(2,3) [OF D(4) [OF d] room]
  have "core_refs (?f (cstate s d)) x = core_refs (cstate s d) x + of_bool (x = req_job r)" for x
    using P(2) by (simp add: core_refs_def requests_def)
  then have R: "refs N ?t x + count H x = refs N s x + count (add_mset (req_job r) H) x" for x
    using core_refs_update [OF d, of "core_states s" "?f (cstate s d)" x]
    by (cases "x = req_job r") (simp_all add: refs_def)
  have "counted N (\<lambda>x. refs N s x + count (add_mset (req_job r) H) x) ?t"
    using D(2) by (rule counted_same) (simp_all add: same_pool_def)
  moreover have "run_ok N ?t" using D(3) by (auto simp: run_ok_def)
  moreover have "offers_ok N ?t"
    using D(5) P(2) fr i by (auto simp: offers_ok_def requests_def)
  ultimately show ?thesis
    using D(1,4) P(1) unfolding sys_inv_def R by (simp add: queues_ok_def queue_ok_def)
qed

lemma sys_inv_receive:
  assumes I: "sys_inv N B H s" and c: "c < N" and rs: "requests (cstate s c) = r # rs"
    and b: "32 < B c"
  shows "sys_inv N (B(c := B c - 1)) (add_mset (req_job r) H) (upd_core c
           (migration_request_queue_update (\<lambda>_. rb_pop (migration_request_queue (cstate s c)))) s)"
proof -
  note D = sys_invD [OF I]
  let ?q = "migration_request_queue (cstate s c)"
  let ?f = "migration_request_queue_update (\<lambda>_. rb_pop ?q)"
  let ?t = "upd_core c ?f s"
  have ne: "rb_contents ?q \<noteq> []" using rs by (simp add: requests_def)
  note P = rb_live_take(2,3) [OF D(4) [OF c] ne]
  have "core_refs (cstate s c) x = core_refs (?f (cstate s c)) x + of_bool (x = req_job r)" for x
    using P(2) rs by (simp add: core_refs_def requests_def)
  then have R: "refs N ?t x + count (add_mset (req_job r) H) x = refs N s x + count H x" for x
    using core_refs_update [OF c, of "core_states s" "?f (cstate s c)" x]
    by (cases "x = req_job r") (simp_all add: refs_def)
  have "counted N (\<lambda>x. refs N s x + count H x) ?t"
    using D(2) by (rule counted_same) (simp_all add: same_pool_def)
  moreover have "run_ok N ?t" using D(3) by (auto simp: run_ok_def)
  moreover have "offers_ok N ?t"
    using D(5) by (rule offers_ok_mono) (use P(2) in \<open>auto simp: requests_def dest: list.set_sel(2) [OF ne]\<close>)
  ultimately show ?thesis
    using D(1,4) P(1) b unfolding sys_inv_def R by (simp add: queues_ok_def queue_ok_def)
qed

end
