(* ===== verification/CoreInv.thy ===== *)
theory CoreInv
  imports SchedCore SysInv
begin

text \<open>
  The handlers of a tick keep the invariant of the shared state: \<open>tick_held N B H s\<close> says that
  \<open>sys_inv\<close> holds, \<open>H\<close> being the references held in local variables (none in \<open>tick_inv\<close>), that every lock is free, and that a
  core is marked idle exactly when it has no running job, and that the two local lists of the mode
  change are empty.
\<close>

definition locals_empty :: "sys \<Rightarrow> bool" where
  "locals_empty s \<longleftrightarrow> (\<forall>c. queues s (NewReadyQ c) = [] \<and> queues s (NewReplicaQ c) = [])"

definition tick_held :: "nat \<Rightarrow> (nat \<Rightarrow> nat) \<Rightarrow> jptr multiset \<Rightarrow> sys \<Rightarrow> bool" where
  "tick_held N B H s \<longleftrightarrow> sys_inv N B H s \<and> (\<forall>c<N. \<not> rq_lock (cstate s c))
     \<and> \<not> discard_queue_lock (proc_state s)
     \<and> (\<forall>c<N. is_idle (cstate s c) \<longleftrightarrow> running_job (cstate s c) = None) \<and> locals_empty s"

abbreviation tick_inv :: "nat \<Rightarrow> (nat \<Rightarrow> nat) \<Rightarrow> sys \<Rightarrow> bool" where
  "tick_inv N B \<equiv> tick_held N B {#}"

lemma tick_invD:
  assumes "tick_held N B H s"
  shows "sys_inv N B H s" and "c < N \<Longrightarrow> \<not> rq_lock (cstate s c)"
    and "\<not> discard_queue_lock (proc_state s)"
    and "c < N \<Longrightarrow> is_idle (cstate s c) \<longleftrightarrow> running_job (cstate s c) = None"
    and "locals_empty s"
  using assms by (simp_all add: tick_held_def)

lemma locals_empty_cong: "queues t = queues s \<Longrightarrow> locals_empty t \<longleftrightarrow> locals_empty s"
  by (simp add: locals_empty_def)

lemma locals_empty_simps [simp]:
  "locals_empty (upd_core c f s) \<longleftrightarrow> locals_empty s"
  "locals_empty (upd_proc g s) \<longleftrightarrow> locals_empty s"
  "locals_empty (upd_job p h s) \<longleftrightarrow> locals_empty s"
  "locals_empty (put_job_ref r c s) \<longleftrightarrow> locals_empty s"
  "locals_empty (UNLOCK_RQ c s) \<longleftrightarrow> locals_empty s"
  by (simp_all add: locals_empty_def UNLOCK_RQ_def)

text \<open>The same with the run-queue lock of one core taken.\<close>

definition locked_held ::
  "nat \<Rightarrow> (nat \<Rightarrow> nat) \<Rightarrow> jptr multiset \<Rightarrow> nat \<Rightarrow> sys \<Rightarrow> bool" where
  "locked_held N B H c s \<longleftrightarrow> sys_inv N B H s \<and> (\<forall>d<N. rq_lock (cstate s d) \<longleftrightarrow> d = c)
     \<and> \<not> discard_queue_lock (proc_state s)
     \<and> (\<forall>c<N. is_idle (cstate s c) \<longleftrightarrow> running_job (cstate s c) = None) \<and> locals_empty s"

abbreviation locked_inv :: "nat \<Rightarrow> (nat \<Rightarrow> nat) \<Rightarrow> nat \<Rightarrow> sys \<Rightarrow> bool" where
  "locked_inv N B \<equiv> locked_held N B {#}"

lemma lock_rq:
  assumes "tick_held N B H s" and "c < N"
  shows "LOCK_RQ c s = Some (upd_core c (rq_lock_update (\<lambda>_. True)) s)"
    and "locked_held N B H c (upd_core c (rq_lock_update (\<lambda>_. True)) s)"
  using assms by (auto simp: LOCK_RQ_eq tick_held_def locked_held_def)

lemma unlock_rq:
  assumes "locked_held N B H c s"
  shows "tick_held N B H (UNLOCK_RQ c s)"
  using assms by (auto simp: tick_held_def locked_held_def UNLOCK_RQ_def sys_inv_upd_core)

lemma queues_entry:
  "sys_inv N B H s \<Longrightarrow> p \<in> set (queues s q) \<longleftrightarrow> job_link (jobs s p) = LinkIn q"
  by (rule queue_okD(2) [OF sys_invD(1)])

section \<open>Queue operations\<close>

lemma add_to_queue_sorted_eq:
  "unlinked (jobs s p) \<Longrightarrow>
   add_to_queue_sorted (Some q) (Some p) s = Some (linked_state virtual_deadline q p s)"
  by (simp add: add_to_queue_sorted_def add_sorted_by_eq)

lemma add_by_arrival_eq:
  "unlinked (jobs s p) \<Longrightarrow>
   add_to_queue_sorted_by_arrival (Some q) (Some p) s = Some (linked_state arrival_time q p s)"
  by (simp add: add_to_queue_sorted_by_arrival_def add_sorted_by_eq)

definition kind_queue :: "nat \<Rightarrow> job_struct \<Rightarrow> qid" where
  "kind_queue c j = (if is_replica j then ReplicaQ c else ReadyQ c)"

lemma add_ready_or_replica_eq:
  "unlinked (jobs s p) \<Longrightarrow> add_ready_or_replica c p s =
     Some (linked_state virtual_deadline (kind_queue c (jobs s p)) p s)"
  by (simp add: add_ready_or_replica_def add_to_queue_sorted_eq kind_queue_def)

lemma kind_queue_ok [simp]:
  "entry_ok (kind_queue c j) k \<longleftrightarrow> state k = JOB_STATE_READY \<and> is_replica k = is_replica j"
  "queue_key (kind_queue c j) k = virtual_deadline k"
  by (auto simp: kind_queue_def)

lemma sys_inv_add_kind:
  assumes "sys_inv N B (add_mset p H) s" and "unlinked (jobs s p)"
    and "state (jobs s p) = JOB_STATE_READY" and "not_running N s p"
  shows "sys_inv N B H (linked_state virtual_deadline (kind_queue c (jobs s p)) p s)"
  using assms by (intro sys_inv_add) simp_all

text \<open>Updates of different fields commute.\<close>

lemma upd_core_upd_core: "upd_core c f (upd_core c g s) = upd_core c (f \<circ> g) s"
  by (simp add: upd_core_def)

lemma upd_job_upd_core: "upd_job p f (upd_core c g s) = upd_core c g (upd_job p f s)"
  by (simp add: upd_core_def upd_job_def)

lemma linked_state_upd_core:
  "linked_state key q p (upd_core c g s) = upd_core c g (linked_state key q p s)"
  by (simp add: linked_state_def upd_core_def upd_job_def)

lemma unlock_lock:
  assumes "\<not> rq_lock (cstate s c)"
  shows "UNLOCK_RQ c (upd_core c (rq_lock_update (\<lambda>_. True)) s) = s"
proof -
  have "(core_states s)(c := (cstate s c)\<lparr>rq_lock := False\<rparr>) = core_states s"
    using assms by (auto simp: fun_eq_iff)
  then show ?thesis by (simp add: UNLOCK_RQ_def upd_core_def)
qed

text \<open>Releasing the lock commutes with what the dispatch does under it.\<close>

lemma unlock_commute:
  "UNLOCK_RQ c (upd_job p f s) = upd_job p f (UNLOCK_RQ c s)"
  "UNLOCK_RQ c (linked_state key q p s) = linked_state key q p (UNLOCK_RQ c s)"
  "UNLOCK_RQ c (upd_core c (is_idle_update g) s) = upd_core c (is_idle_update g) (UNLOCK_RQ c s)"
  "UNLOCK_RQ c (upd_core c (running_job_update h) s)
     = upd_core c (running_job_update h) (UNLOCK_RQ c s)"
  "UNLOCK_RQ c (set_decision_point c s) = set_decision_point c (UNLOCK_RQ c s)"
proof -
  have "rq_lock_update k \<circ> is_idle_update g = is_idle_update g \<circ> (rq_lock_update k :: core_state \<Rightarrow> _)"
    "rq_lock_update k \<circ> running_job_update h
       = running_job_update h \<circ> (rq_lock_update k :: core_state \<Rightarrow> _)"
    "rq_lock_update k \<circ> decision_point_update d
       = decision_point_update d \<circ> (rq_lock_update k :: core_state \<Rightarrow> _)" for k d
    by (rule ext, rule core_state.equality; simp)+
  then show "UNLOCK_RQ c (upd_core c (is_idle_update g) s) = upd_core c (is_idle_update g) (UNLOCK_RQ c s)"
    "UNLOCK_RQ c (upd_core c (running_job_update h) s)
     = upd_core c (running_job_update h) (UNLOCK_RQ c s)"
    "UNLOCK_RQ c (set_decision_point c s) = set_decision_point c (UNLOCK_RQ c s)"
    by (simp_all add: UNLOCK_RQ_def upd_core_upd_core set_decision_point_def)
qed (simp_all add: UNLOCK_RQ_def upd_job_upd_core linked_state_upd_core)

lemma set_decision_point_fields [simp]:
  "core_states (set_decision_point c s)
     = (core_states s)(c := (cstate s c)\<lparr>decision_point := True\<rparr>)"
  "jobs (set_decision_point c s) = jobs s" "queues (set_decision_point c s) = queues s"
  "proc_state (set_decision_point c s) = proc_state s"
  "sys_inv N B H (set_decision_point c s) \<longleftrightarrow> sys_inv N B H s"
  "locals_empty (set_decision_point c s) \<longleftrightarrow> locals_empty s"
  "rand_count (set_decision_point c s) = rand_count s"
  "task_lookup (set_decision_point c s) = task_lookup s"
  by (simp_all add: set_decision_point_def)

lemma tick_held_step:
  assumes "tick_held N B H s" and "sys_inv N B' H' t" and "locals_empty t"
    and "\<And>c. rq_lock (cstate t c) = rq_lock (cstate s c)"
    and "\<And>c. is_idle (cstate t c) = is_idle (cstate s c)"
    and "\<And>c. running_job (cstate t c) = running_job (cstate s c)"
    and "discard_queue_lock (proc_state t) = discard_queue_lock (proc_state s)"
  shows "tick_held N B' H' t"
  using assms by (simp add: tick_held_def)

section \<open>Completion\<close>

lemma handle_job_completion_ok:
  assumes T: "tick_inv N B s" and c: "c < N" and p: "running_job (cstate s c) = Some p"
    and Q: "rb_live 64 b (outgoing_completion_msg_queue (proc_state s))"
    and room: "0 < rb_room (outgoing_completion_msg_queue (proc_state s))"
  shows "wp (handle_job_completion c s) (\<lambda>s'. tick_inv N B s'
     \<and> running_job (cstate s' c) = None \<and> decision_point (cstate s' c)
     \<and> queues s' = queues s
     \<and> rb_live 64 b (outgoing_completion_msg_queue (proc_state s'))
     \<and> rb_contents (outgoing_completion_msg_queue (proc_state s'))
         = rb_contents (outgoing_completion_msg_queue (proc_state s))
           @ [\<lparr>completed_task_id = t_id (ptask (jobs s p)),
               job_arrival_time = arrival_time (jobs s p), msg_system_time = now s\<rparr>]
     \<and> (\<exists>q. proc_state s' = (proc_state s)\<lparr>outgoing_completion_msg_queue := q\<rparr>)
     \<and> sent_packets s' = sent_packets s)"
proof -
  note D = tick_invD [OF T]
  let ?q = "outgoing_completion_msg_queue (proc_state s)"
  let ?m = "\<lparr>completed_task_id = t_id (ptask (jobs s p)),
      job_arrival_time = arrival_time (jobs s p), msg_system_time = now s\<rparr>"
  let ?s1 = "upd_core c (rq_lock_update (\<lambda>_. True)) (upd_core c (decision_point_update (\<lambda>_. True)) s)"
  let ?s2 = "upd_core c (running_job_update (\<lambda>_. None)) ?s1"
  let ?s3 = "upd_job p (state_update (\<lambda>_. JOB_STATE_COMPLETED)) ?s2"
  have I1: "sys_inv N B {#} ?s1" using D(1) by simp
  have r1: "running_job (cstate ?s1 c) = Some p" using p by simp
  note nl = running_link [OF D(1) c p]
  have I2: "sys_inv N B {#p#} ?s2" "not_running N ?s2 p"
    using sys_inv_stop [OF I1 r1 c, of "running_job_update (\<lambda>_. None)"] by simp_all
  have I3: "sys_inv N B {#p#} ?s3"
    using I2 nl by (intro sys_inv_upd_unlinked) (simp_all add: same_count_def unlinked_def)
  note P = rb_live_put [OF Q, of ?m]
  let ?s4 = "upd_proc (outgoing_completion_msg_queue_update (\<lambda>_. rb_push ?m ?q)) ?s3"
  let ?s5 = "upd_core c (is_idle_update (\<lambda>_. True)) (UNLOCK_RQ c ?s4)"
  have I5: "sys_inv N B {#} (put_job_ref (Some p) c ?s5)"
    using I3 by (intro sys_inv_put) simp
  have e: "handle_job_completion c s = Some (put_job_ref (Some p) c ?s5)"
    using D(2) [OF c] p P(1) room
    by (simp add: handle_job_completion_def set_decision_point_def LOCK_RQ_eq put_outgoing_def
        upd_job_upd_core upd_core_upd_core UNLOCK_RQ_def upd_core_def upd_job_def upd_proc_def)
  show ?thesis unfolding e using I5 D(2,3,4,5) P(2,3) room
    by (auto simp: tick_held_def UNLOCK_RQ_def)
qed

section \<open>Removal loops\<close>

definition same_rest :: "sys \<Rightarrow> sys \<Rightarrow> bool" where
  "same_rest s t \<longleftrightarrow> core_states t = core_states s \<and> proc_state t = proc_state s
     \<and> core_summaries t = core_summaries s \<and> task_lookup t = task_lookup s
     \<and> delegated_jobs_pool t = delegated_jobs_pool s
     \<and> delegated_jobs_free_list t = delegated_jobs_free_list s
     \<and> core_fatal_shutdown_requested t = core_fatal_shutdown_requested s
     \<and> proc_shutdown_requested t = proc_shutdown_requested s
     \<and> sent_packets t = sent_packets s \<and> rand_count t = rand_count s"

lemma same_rest_refl [simp]: "same_rest s s"
  by (simp add: same_rest_def)

lemma same_rest_trans: "same_rest s t \<Longrightarrow> same_rest t u \<Longrightarrow> same_rest s u"
  by (simp add: same_rest_def)

lemma same_rest_steps [simp]:
  "same_rest s (upd_job p f t) \<longleftrightarrow> same_rest s t"
  "same_rest s (put_job_ref r c t) \<longleftrightarrow> same_rest s t"
  by (simp_all add: same_rest_def)

lemma same_rest_link [simp]:
  "same_rest s (unlinked_state q p t) \<longleftrightarrow> same_rest s t"
  "same_rest s (linked_state key q p t) \<longleftrightarrow> same_rest s t"
  by (simp_all add: same_rest_def unlinked_state_def linked_state_def)

text \<open>
  The loops that walk over a queue and unlink and release the jobs that satisfy a condition. The
  removed jobs are the only ones that change, and the queue is filtered.
\<close>

definition remove_body ::
  "nat \<Rightarrow> (job_struct \<Rightarrow> bool) \<Rightarrow> (job_struct \<Rightarrow> job_struct) \<Rightarrow> jptr \<Rightarrow> sys \<Rightarrow> sys option" where
  "remove_body c P f p s =
     (if P (jobs s p)
      then do { s \<leftarrow> list_del_job p (upd_job p f s); Some (put_job_ref (Some p) c s) }
      else Some s)"

definition removed_from :: "(job_struct \<Rightarrow> bool) \<Rightarrow> qid \<Rightarrow> jptr list \<Rightarrow> sys \<Rightarrow> sys \<Rightarrow> bool" where
  "removed_from P q ys s t \<longleftrightarrow> same_rest s t
     \<and> (\<exists>xs. queues s q = xs @ ys
          \<and> queues t = (queues s)(q := filter (\<lambda>p. \<not> P (jobs s p)) xs @ ys)
          \<and> (\<forall>x. x \<notin> {x \<in> set xs. P (jobs s x)} \<longrightarrow> jobs t x = jobs s x))"

lemma remove_body_ok:
  assumes I: "sys_inv N B H t" and R: "removed_from P q (p # ys) s t" and S: "sys_inv N B H s"
    and f: "\<And>j. job_link j = LinkNull \<Longrightarrow> same_count j (f j)" "\<And>j. job_link (f j) = job_link j"
      "\<And>j g. f (job_link_update g j) = job_link_update g (f j)"
  shows "wp (remove_body c P f p t) (\<lambda>u. sys_inv N B H u \<and> removed_from P q ys s u)"
proof -
  from R obtain xs where xs: "queues s q = xs @ p # ys"
    "queues t = (queues s)(q := filter (\<lambda>p. \<not> P (jobs s p)) xs @ p # ys)"
    and J: "\<And>x. x \<notin> {x \<in> set xs. P (jobs s x)} \<Longrightarrow> jobs t x = jobs s x"
    and rest: "same_rest s t"
    by (auto simp: removed_from_def)
  have dist: "distinct (xs @ p # ys)" using queue_okD(1) [OF sys_invD(1) [OF S], of q] xs(1) by simp
  then have pj: "jobs t p = jobs s p" by (intro J) auto
  have link: "job_link (jobs t p) = LinkIn q" using queues_entry [OF I, of p q] xs(2) by simp
  show ?thesis
  proof (cases "P (jobs s p)")
    case False
    then have "removed_from P q ys s t" unfolding removed_from_def
      using xs J rest by (intro conjI exI [of _ "xs @ [p]"]) auto
    then show ?thesis using False I pj by (simp add: remove_body_def)
  next
    case True
    let ?u = "upd_job p f (unlinked_state q p t)"
    have "list_del_job p (upd_job p f t) = Some (unlinked_state q p (upd_job p f t))"
      using link f(2) by (intro list_del_job_eq) simp
    moreover have "unlinked_state q p (upd_job p f t) = ?u"
      by (simp add: unlinked_state_def upd_job_def f(3))
    ultimately have e: "remove_body c P f p t = Some (put_job_ref (Some p) c ?u)"
      using True pj by (simp add: remove_body_def)
    note d = sys_inv_del [OF I link]
    have "sys_inv N B (add_mset p H) ?u"
    proof (rule sys_inv_upd_unlinked)
      show "same_count (jobs (unlinked_state q p t) p) (f (jobs (unlinked_state q p t) p))"
        by (rule f(1)) simp
    qed (use d f(2) in \<open>simp_all add: unlinked_def\<close>)
    then have "sys_inv N B H (put_job_ref (Some p) c ?u)" by (rule sys_inv_put)
    moreover have "queues ?u = (queues s)(q := filter (\<lambda>p. \<not> P (jobs s p)) (xs @ [p]) @ ys)"
      using dist True by (simp add: xs(2) remove1_append)
    moreover have "jobs (put_job_ref (Some p) c ?u) x = jobs s x"
      if "x \<notin> {x \<in> set (xs @ [p]). P (jobs s x)}" for x
    proof -
      have "x \<noteq> p" and "x \<notin> {x \<in> set xs. P (jobs s x)}" using that True by auto
      then show ?thesis using J [of x] by (simp add: put_job_ref_other)
    qed
    ultimately have "removed_from P q ys s (put_job_ref (Some p) c ?u)"
      unfolding removed_from_def using xs(1) rest
      by (intro conjI exI [of _ "xs @ [p]"]) simp_all
    then show ?thesis unfolding e using \<open>sys_inv N B H (put_job_ref (Some p) c ?u)\<close> by simp
  qed
qed

lemma remove_loop_ok:
  assumes I: "sys_inv N B H s"
    and f: "\<And>j. job_link j = LinkNull \<Longrightarrow> same_count j (f j)" "\<And>j. job_link (f j) = job_link j"
      "\<And>j g. f (job_link_update g j) = job_link_update g (f j)"
  shows "wp (foldM (remove_body c P f) (queues s q) s) (\<lambda>t. sys_inv N B H t \<and> same_rest s t
     \<and> queues t = (queues s)(q := filter (\<lambda>p. \<not> P (jobs s p)) (queues s q))
     \<and> (\<forall>x. x \<notin> {x \<in> set (queues s q). P (jobs s x)} \<longrightarrow> jobs t x = jobs s x))"
proof (rule total.loop [where I = "\<lambda>ys t. sys_inv N B H t \<and> removed_from P q ys s t"])
  show "sys_inv N B H s \<and> removed_from P q (queues s q) s s"
    using I by (auto simp: removed_from_def)
  show "wp (remove_body c P f p t) (\<lambda>u. sys_inv N B H u \<and> removed_from P q ys s u)"
    if "sys_inv N B H t \<and> removed_from P q (p # ys) s t" for p ys t
    using that remove_body_ok [OF _ _ I f, of t P q p ys c] by blast
qed (auto simp: removed_from_def)

lemma remove_job_with_parent_task_id_ok:
  assumes "sys_inv N B H s"
  shows "wp (remove_job_with_parent_task_id q tid c s) (\<lambda>t. sys_inv N B H t \<and> same_rest s t
     \<and> queues t = (queues s)(q := filter (\<lambda>p. t_id (ptask (jobs s p)) \<noteq> tid) (queues s q)))"
proof -
  have u: "upd_job p (\<lambda>j. j) s = s" for p and s :: sys by (simp add: upd_job_def)
  have e: "remove_job_with_parent_task_id q tid c s
      = foldM (remove_body c (\<lambda>j. t_id (ptask j) = tid) (\<lambda>j. j)) (queues s q) s"
    by (simp add: remove_job_with_parent_task_id_def remove_body_def [abs_def] u cong: if_cong)
  show ?thesis unfolding e
    by (rule wp_mono [OF remove_loop_ok [OF assms]]) (simp_all add: same_count_def)
qed

section \<open>Completions elsewhere\<close>

lemma remove_matching_loop:
  "foldM (remove_matching_job c m) xs s
     = foldM (remove_body c (matches_msg m) (state_update (\<lambda>_. JOB_STATE_REMOVED))) xs s"
  by (simp add: remove_matching_job_def [abs_def] remove_body_def [abs_def])

lemma remove_running_ok:
  assumes I: "locked_inv N B c s" and c: "c < N"
  shows "locked_inv N B c (remove_running_if_completed c m s)"
    and "queues (remove_running_if_completed c m s) = queues s"
    and "running_job (cstate (remove_running_if_completed c m s) c)
      = (case running_job (cstate s c) of None \<Rightarrow> None
         | Some p \<Rightarrow> if t_id (ptask (jobs s p)) = completed_task_id m then None else Some p)"
    and "proc_state (remove_running_if_completed c m s) = proc_state s"
proof -
  have S: "sys_inv N B {#} s" using I by (simp add: locked_held_def)
  show "locked_inv N B c (remove_running_if_completed c m s)"
  proof (cases "running_job (cstate s c)")
    case None
    then show ?thesis using I by (simp add: remove_running_if_completed_def)
  next
    case (Some p)
    show ?thesis
    proof (cases "t_id (ptask (jobs s p)) = completed_task_id m")
      case True
      let ?f = "is_idle_update (\<lambda>_. True) \<circ> running_job_update (\<lambda>_. None)"
      let ?u = "upd_job p (state_update (\<lambda>_. JOB_STATE_REMOVED)) (upd_core c ?f s)"
      have e: "remove_running_if_completed c m s = put_job_ref (Some p) c ?u"
        using Some True by (simp add: remove_running_if_completed_def Let_def upd_job_upd_core
            upd_core_upd_core [symmetric])
      note st = sys_inv_stop [OF S Some c, of ?f]
      have "sys_inv N B {#p#} ?u"
        using st running_link [OF S c Some] by (intro sys_inv_upd_unlinked) (simp_all add: same_count_def unlinked_def)
      then have "sys_inv N B {#} (put_job_ref (Some p) c ?u)" by (rule sys_inv_put)
      then show ?thesis unfolding e using I by (auto simp: locked_held_def)
    qed (use I Some in \<open>simp add: remove_running_if_completed_def\<close>)
  qed
qed (auto simp: remove_running_if_completed_def Let_def split: option.splits)

lemma remove_completed_for_ok:
  assumes T: "tick_inv N B s" and c: "c < N"
  shows "wp (remove_completed_for c m s) (\<lambda>t. tick_inv N B t \<and> proc_state t = proc_state s
     \<and> queues t (ReadyQ c) = filter (\<lambda>p. \<not> matches_msg m (jobs s p)) (queues s (ReadyQ c))
     \<and> queues t (ReplicaQ c) = filter (\<lambda>p. \<not> matches_msg m (jobs s p)) (queues s (ReplicaQ c))
     \<and> running_job (cstate t c)
       = (case running_job (cstate s c) of None \<Rightarrow> None
          | Some p \<Rightarrow> if t_id (ptask (jobs s p)) = completed_task_id m then None else Some p))"
proof -
  let ?s = "upd_core c (rq_lock_update (\<lambda>_. True)) s"
  note L = lock_rq [OF T c]
  have S: "sys_inv N B {#} ?s" using L(2) by (simp add: locked_held_def)
  let ?loop = "\<lambda>q. foldM (remove_matching_job c m) (queues s q)"
  note rl = remove_loop_ok [where P = "matches_msg m" and f = "state_update (\<lambda>_. JOB_STATE_REMOVED)"
      and c = c, folded remove_matching_loop]
  obtain t1 where t1: "?loop (ReplicaQ c) ?s = Some t1" "sys_inv N B {#} t1" "same_rest ?s t1"
    "queues t1 = (queues s)(ReplicaQ c := filter (\<lambda>p. \<not> matches_msg m (jobs s p)) (queues s (ReplicaQ c)))"
    and J1: "\<And>x. x \<notin> set (queues s (ReplicaQ c)) \<Longrightarrow> jobs t1 x = jobs s x"
    using rl [OF S, of "ReplicaQ c"] by (auto simp: wp_iff same_count_def)
  obtain t2 where t2: "?loop (ReadyQ c) t1 = Some t2" "sys_inv N B {#} t2" "same_rest t1 t2"
    "queues t2 = (queues t1)(ReadyQ c := filter (\<lambda>p. \<not> matches_msg m (jobs t1 p)) (queues s (ReadyQ c)))"
    and J2: "\<And>x. x \<notin> set (queues s (ReadyQ c)) \<Longrightarrow> jobs t2 x = jobs t1 x"
    using rl [OF t1(2), of "ReadyQ c"] t1(4) by (auto simp: wp_iff same_count_def)
  have link: "p \<in> set (queues s q) \<longleftrightarrow> job_link (jobs s p) = LinkIn q" for p q
    using queues_entry [OF S, of p q] by simp
  have cs: "core_states t2 = core_states ?s" "proc_state t2 = proc_state s"
    using t1(3) t2(3) by (simp_all add: same_rest_def)
  moreover have "locals_empty t2"
    using tick_invD(5) [OF T] t1(4) t2(4) by (auto simp: locals_empty_def)
  ultimately have L2: "locked_inv N B c t2" using L(2) t2(2) by (simp add: locked_held_def)
  note R = remove_running_ok [OF L2 c, of m]
  have "jobs t2 p = jobs s p" if "running_job (cstate s c) = Some p" for p
  proof -
    have "job_link (jobs s p) = LinkNull" using sys_invD(3) [OF S] that c by (simp add: run_ok_def)
    then show ?thesis using J1 J2 link by simp
  qed
  moreover have "jobs t1 x = jobs s x" if "x \<in> set (queues s (ReadyQ c))" for x
    using that J1 link by simp
  then have "filter (\<lambda>p. \<not> matches_msg m (jobs t1 p)) (queues s (ReadyQ c))
    = filter (\<lambda>p. \<not> matches_msg m (jobs s p)) (queues s (ReadyQ c))" by (intro filter_cong) auto
  moreover have "remove_completed_for c m s = Some (UNLOCK_RQ c (remove_running_if_completed c m t2))"
    using t1 t2 L(1) by (simp add: remove_completed_for_def)
  ultimately show ?thesis
    using unlock_rq [OF R(1)] R(2,3,4) t1(4) t2(4) cs
    by (auto simp: UNLOCK_RQ_def split: option.splits)
qed

lemma remove_completed_jobs_ok:
  assumes T: "tick_inv N B s" and c: "c < N"
    and q: "rb_inv b (incoming_completion_msg_queue (proc_state s))"
  shows "wp (remove_completed_jobs c s) (\<lambda>t. tick_inv N B t \<and> proc_state t = proc_state s)"
proof -
  let ?I = "\<lambda>t. tick_inv N B t \<and> proc_state t = proc_state s"
  have "wp (remove_completed_for c m t) ?I" if "?I t" for m t
    by (rule wp_mono [OF remove_completed_for_ok]) (use that c in auto)
  then have "wp (foldM (remove_completed_for c) ms s) ?I" for ms
    using T by (intro total.loop_inv) auto
  then show ?thesis by (simp add: remove_completed_jobs_def ring_buffer_iter_eq [OF q])
qed

end
