(* ===== verification/InitInv.thy ===== *)
theory InitInv
  imports Processor CoreInv
begin

text \<open>
  Initialisation establishes the invariant: from zeroed static memory, \<^verbatim>\<open>processor_init\<close> returns a state
  in which every job of every pool is free, every queue is empty, every lock is free, every core is
  idle, and all ring buffers are empty.
\<close>

section \<open>The job pools\<close>

definition all_slots :: "nat \<Rightarrow> nat \<Rightarrow> jptr list" where
  "all_slots c n = rev (map (JobPtr c) [0..<n])"

lemma all_slots_simps [simp]:
  "all_slots c 0 = []" "all_slots c (Suc n) = JobPtr c n # all_slots c n"
  "p \<in> set (all_slots c n) \<longleftrightarrow> pool_of p = c \<and> slot_of p < n"
  by (cases p; auto simp: all_slots_def)+

lemma push_free_fields [simp]:
  "queues (push_free c p s) = queues s" "remote_free_list (push_free c p s) = remote_free_list s"
  "jheap.more (push_free c p s) = jheap.more s"
  "job_link (jobs (push_free c p s) x) = job_link (jobs s x)"
  by (simp_all add: push_free_def)

lemma fill_pool:
  fixes s :: "'z jheap_scheme"
  assumes P: "pools N s FL RL" and K: "K < N" and e: "FL K = []" "RL K = []"
    and n: "n \<le> JOBS_PER_CORE"
  shows "pools N (fold (\<lambda>j. push_free K (JobPtr K j)) [0..<n] s) (FL(K := all_slots K n)) RL"
  using n
proof (induction n)
  case 0
  then show ?case using P e by (simp add: fun_upd_idem)
next
  case (Suc n)
  let ?s = "fold (\<lambda>j. push_free K (JobPtr K j)) [0..<n] s"
  have "pools N ?s (FL(K := all_slots K n)) RL"
    by (rule Suc.IH) (use Suc.prems in simp)
  moreover have "in_pools N (JobPtr K n)" using K Suc.prems by (simp add: in_pools_def)
  moreover have "\<not> is_free (FL(K := all_slots K n)) RL (JobPtr K n)"
    using e by (simp add: is_free_def)
  ultimately have "pools N (push_free K (JobPtr K n) ?s)
      ((FL(K := all_slots K n))(K := JobPtr K n # all_slots K n)) RL"
    using pools_push(1) [of N ?s "FL(K := all_slots K n)" RL "JobPtr K n" K] by simp
  then show ?case by (simp add: fun_upd_def cong: if_cong)
qed

lemma fill_pool_fields:
  fixes s :: "'z jheap_scheme"
  shows "queues (fold (\<lambda>j. push_free K (JobPtr K j)) ns s) = queues s"
    "jheap.more (fold (\<lambda>j. push_free K (JobPtr K j)) ns s) = jheap.more s"
    "job_link (jobs (fold (\<lambda>j. push_free K (JobPtr K j)) ns s) x) = job_link (jobs s x)"
  by (induction ns arbitrary: s) simp_all

lemma pools_new:
  assumes "pools K s FL RL"
  shows "pools (Suc K) (s\<lparr>free_list := (free_list s)(K := None),
            remote_free_list := (remote_free_list s)(K := None)\<rparr>) (FL(K := [])) (RL(K := []))"
  using assms unfolding pools_def pool_ok_def in_pools_def by (auto simp: less_Suc_eq)

lemma task_management_init_fields:
  fixes s :: "'z jheap_scheme"
  shows "queues (task_management_init n s) = queues s"
    "jheap.more (task_management_init n s) = jheap.more s"
    "job_link (jobs (task_management_init n s) x) = job_link (jobs s x)"
  unfolding task_management_init_def by (induction n) (simp_all add: fill_pool_fields)

lemma task_management_init_pools:
  fixes s :: "'z jheap_scheme"
  shows "\<exists>FL RL. pools n (task_management_init n s) FL RL
           \<and> (\<forall>c<n. FL c = all_slots c JOBS_PER_CORE \<and> RL c = [])"
proof (induction n)
  case 0
  then show ?case by (simp add: pools_def)
next
  case (Suc n)
  let ?s = "task_management_init n s"
  from Suc obtain FL RL where P: "pools n ?s FL RL"
    and A: "\<forall>c<n. FL c = all_slots c JOBS_PER_CORE \<and> RL c = []" by blast
  let ?FL = "FL(n := [])" and ?RL = "RL(n := [])"
  have "pools (Suc n) (task_management_init (Suc n) s)
      (?FL(n := all_slots n JOBS_PER_CORE)) ?RL"
    using fill_pool [OF pools_new [OF P], of n JOBS_PER_CORE] by (simp add: task_management_init_def)
  then show ?case using A by (intro exI conjI) (auto simp: less_Suc_eq)
qed

text \<open>Every job of the pools is free, and nothing refers to one.\<close>

theorem task_management_init_counted:
  fixes s :: "'z jheap_scheme"
  shows "counted n (\<lambda>_. 0) (task_management_init n s)"
proof -
  obtain FL RL where P: "pools n (task_management_init n s) FL RL"
    and A: "\<forall>c<n. FL c = all_slots c JOBS_PER_CORE \<and> RL c = []"
    using task_management_init_pools by blast
  show ?thesis using P
  proof (rule countedI)
    fix p assume "in_pools n p" and "\<not> is_free FL RL p"
    with A show "live_job 0 (jobs (task_management_init n s) p) p"
      by (simp add: in_pools_def is_free_def)
  qed simp_all
qed

section \<open>The cores\<close>

definition core_fresh :: "nat \<Rightarrow> core_state \<Rightarrow> bool" where
  "core_fresh b cs \<longleftrightarrow> running_job cs = None \<and> is_idle cs \<and> \<not> rq_lock cs
     \<and> requests cs = [] \<and> rb_live 32 b (migration_request_queue cs)
     \<and> local_criticality_level cs = 0"

lemma rb_init_live:
  assumes "3 \<le> sz" and "length buffer = unat sz" and "length seq = unat sz"
    and "unat sz \<le> b" and "unat sz + b < 2 ^ 64"
  shows "\<exists>rb'. ring_buffer_init rb sz buffer seq es = Some (0, rb')
           \<and> rb_live (unat sz) b rb' \<and> rb_contents rb' = []"
proof -
  obtain rb' where "ring_buffer_init rb sz buffer seq es = Some (0, rb')" "rb_inv b rb'"
    "rb_contents rb' = []" "rb_buf_size rb' = sz"
    using ring_buffer_init_ok [OF assms(1-3,5), of rb es] by auto
  then show ?thesis using assms(4)
    by (intro exI [of _ rb']) (auto simp: rb_live_def)
qed

lemma init_core_ok:
  assumes b: "32 \<le> b" "b + 32 < 2 ^ 64"
  shows "wp (init_core cfg i s) (\<lambda>t. core_fresh b (cstate t i)
     \<and> (\<forall>d. d \<noteq> i \<longrightarrow> cstate t d = cstate s d) \<and> jobs t = jobs s
     \<and> free_list t = free_list s \<and> remote_free_list t = remote_free_list s
     \<and> proc_state t = proc_state s \<and> task_lookup t = task_lookup s
     \<and> core_fatal_shutdown_requested t = core_fatal_shutdown_requested s
     \<and> proc_shutdown_requested t = proc_shutdown_requested s
     \<and> queues t = (queues s)(ReadyQ i := [], ReplicaQ i := [], DiscardL i := [], PendingQ i := []))"
proof -
  have m: "\<exists>q'. ring_buffer_init q (of_nat MAX_MIGRATION_REQUESTS)
      (replicate MAX_MIGRATION_REQUESTS undef_request) (replicate MAX_MIGRATION_REQUESTS 0) 16
      = Some (0, q') \<and> rb_live 32 b q' \<and> rb_contents q' = []" for q
    using rb_init_live [of "32" "replicate 32 undef_request" "replicate 32 0" b q 16] b
    by (simp add: MAX_MIGRATION_REQUESTS_def)
  have d: "\<exists>q'. ring_buffer_init q (of_nat MAX_FUTURE_DELEGATIONS)
      (replicate MAX_FUTURE_DELEGATIONS undef_ack) (replicate MAX_FUTURE_DELEGATIONS 0) 12
      = Some (0, q')" for q
    using rb_init_live [of "200" "replicate 200 undef_ack" "replicate 200 0" 200 q 12]
    by (auto simp: MAX_FUTURE_DELEGATIONS_def)
  obtain mq where mq: "ring_buffer_init (migration_request_queue (cstate s i))
      (of_nat MAX_MIGRATION_REQUESTS) (replicate MAX_MIGRATION_REQUESTS undef_request)
      (replicate MAX_MIGRATION_REQUESTS 0) 16 = Some (0, mq)"
    "rb_live 32 b mq" "rb_contents mq = []" using m by blast
  obtain dq where dq: "ring_buffer_init (delegation_ack_queue (cstate s i))
      (of_nat MAX_FUTURE_DELEGATIONS) (replicate MAX_FUTURE_DELEGATIONS undef_ack)
      (replicate MAX_FUTURE_DELEGATIONS 0) 12 = Some (0, dq)" using d by blast
  show ?thesis
    using mq dq by (simp add: init_core_def core_fresh_def requests_def Let_def)
qed

lemma init_cores_ok:
  assumes b: "32 \<le> b" "b + 32 < 2 ^ 64"
  shows "wp (foldM (init_core cfg) [0..<n] s) (\<lambda>t. (\<forall>i<n. core_fresh b (cstate t i))
     \<and> jobs t = jobs s \<and> free_list t = free_list s \<and> remote_free_list t = remote_free_list s
     \<and> proc_state t = proc_state s \<and> task_lookup t = task_lookup s
     \<and> core_fatal_shutdown_requested t = core_fatal_shutdown_requested s
     \<and> proc_shutdown_requested t = proc_shutdown_requested s
     \<and> (\<forall>q. queues t q = queues s q \<or> queues t q = []))"
proof (induction n)
  case 0
  then show ?case by simp
next
  case (Suc n)
  show ?case unfolding upt_Suc_append [OF le0] foldM_append wp_simps
  proof (rule wp_mono [OF Suc.IH])
    fix t
    assume t: "(\<forall>i<n. core_fresh b (cstate t i))
     \<and> jobs t = jobs s \<and> free_list t = free_list s \<and> remote_free_list t = remote_free_list s
     \<and> proc_state t = proc_state s \<and> task_lookup t = task_lookup s
     \<and> core_fatal_shutdown_requested t = core_fatal_shutdown_requested s
     \<and> proc_shutdown_requested t = proc_shutdown_requested s
     \<and> (\<forall>q. queues t q = queues s q \<or> queues t q = [])"
    show "wp (foldM (init_core cfg) [n] t) (\<lambda>t. (\<forall>i<Suc n. core_fresh b (cstate t i))
     \<and> jobs t = jobs s \<and> free_list t = free_list s \<and> remote_free_list t = remote_free_list s
     \<and> proc_state t = proc_state s \<and> task_lookup t = task_lookup s
     \<and> core_fatal_shutdown_requested t = core_fatal_shutdown_requested s
     \<and> proc_shutdown_requested t = proc_shutdown_requested s
     \<and> (\<forall>q. queues t q = queues s q \<or> queues t q = []))"
      unfolding foldM.simps wp_simps
      by (rule wp_mono [OF init_core_ok [OF b]]) (use t in \<open>auto simp: less_Suc_eq\<close>)
  qed
qed

lemma init_migration_fields:
  "core_states (init_migration cfg s) = core_states s" "jobs (init_migration cfg s) = jobs s"
  "queues (init_migration cfg s) = queues s" "free_list (init_migration cfg s) = free_list s"
  "remote_free_list (init_migration cfg s) = remote_free_list s"
  "proc_state (init_migration cfg s) = proc_state s"
  "task_lookup (init_migration cfg s) = task_lookup s"
  "core_fatal_shutdown_requested (init_migration cfg s) = core_fatal_shutdown_requested s"
  "proc_shutdown_requested (init_migration cfg s) = proc_shutdown_requested s"
proof -
  let ?f = "\<lambda>i s. s\<lparr>delegated_jobs_free_list := (delegated_jobs_free_list s)
                     (i := fold (\<lambda>j ds. DelegPtr i j # ds) [0..<MAX_FUTURE_DELEGATIONS] [])\<rparr>"
  have "core_states (fold ?f ns s) = core_states s \<and> jobs (fold ?f ns s) = jobs s
    \<and> queues (fold ?f ns s) = queues s \<and> free_list (fold ?f ns s) = free_list s
    \<and> remote_free_list (fold ?f ns s) = remote_free_list s
    \<and> proc_state (fold ?f ns s) = proc_state s \<and> task_lookup (fold ?f ns s) = task_lookup s
    \<and> core_fatal_shutdown_requested (fold ?f ns s) = core_fatal_shutdown_requested s
    \<and> proc_shutdown_requested (fold ?f ns s) = proc_shutdown_requested s" for ns
    by (induction ns arbitrary: s) simp_all
  then show "core_states (init_migration cfg s) = core_states s" "jobs (init_migration cfg s) = jobs s"
    "queues (init_migration cfg s) = queues s" "free_list (init_migration cfg s) = free_list s"
    "remote_free_list (init_migration cfg s) = remote_free_list s"
    "proc_state (init_migration cfg s) = proc_state s"
    "task_lookup (init_migration cfg s) = task_lookup s"
    "core_fatal_shutdown_requested (init_migration cfg s) = core_fatal_shutdown_requested s"
    "proc_shutdown_requested (init_migration cfg s) = proc_shutdown_requested s"
    unfolding init_migration_def by simp_all
qed

text \<open>The task table: the last task of the configuration with an id.\<close>

lemma fill_task_lookup_eq:
  "fill_task_lookup cfg s = s\<lparr>task_lookup :=
     fold (\<lambda>t l. l(unat (t_id t) := Some t)) (system_tasks cfg) (task_lookup s)\<rparr>"
proof -
  have "fold (\<lambda>t s. s\<lparr>task_lookup := (task_lookup s)(unat (t_id t) := Some t)\<rparr>) ts s
    = s\<lparr>task_lookup := fold (\<lambda>t l. l(unat (t_id t) := Some t)) ts (task_lookup s)\<rparr>" for ts
    by (induction ts arbitrary: s) simp_all
  then show ?thesis by (simp add: fill_task_lookup_def)
qed

lemma push_free_sys_fields [simp]:
  fixes s :: sys
  shows "core_states (push_free c p s) = core_states s" "proc_state (push_free c p s) = proc_state s"
    "task_lookup (push_free c p s) = task_lookup s"
    "core_fatal_shutdown_requested (push_free c p s) = core_fatal_shutdown_requested s"
    "proc_shutdown_requested (push_free c p s) = proc_shutdown_requested s"
  by (simp_all add: push_free_def)

lemma fill_pool_sys_fields:
  fixes s :: sys
  shows "core_states (fold (\<lambda>j. push_free K (JobPtr K j)) ns s) = core_states s"
    "proc_state (fold (\<lambda>j. push_free K (JobPtr K j)) ns s) = proc_state s"
    "task_lookup (fold (\<lambda>j. push_free K (JobPtr K j)) ns s) = task_lookup s"
    "core_fatal_shutdown_requested (fold (\<lambda>j. push_free K (JobPtr K j)) ns s)
       = core_fatal_shutdown_requested s"
    "proc_shutdown_requested (fold (\<lambda>j. push_free K (JobPtr K j)) ns s)
       = proc_shutdown_requested s"
  by (induction ns arbitrary: s) simp_all

lemma task_management_init_sys_fields:
  fixes s :: sys
  shows "core_states (task_management_init n s) = core_states s"
    "proc_state (task_management_init n s) = proc_state s"
    "task_lookup (task_management_init n s) = task_lookup s"
    "core_fatal_shutdown_requested (task_management_init n s) = core_fatal_shutdown_requested s"
    "proc_shutdown_requested (task_management_init n s) = proc_shutdown_requested s"
  unfolding task_management_init_def by (induction n) (simp_all add: fill_pool_sys_fields)

section \<open>The processor\<close>

lemma scheduler_init_ok:
  assumes S: "boot s" and d: "\<not> discard_queue_lock (proc_state s)"
    and b: "32 \<le> b" "b + 32 < 2 ^ 64"
  shows "wp (scheduler_init cfg s) (\<lambda>t. tick_inv (NUM_CORES_PER_PROC cfg) (\<lambda>_. b) t
     \<and> (\<forall>i<NUM_CORES_PER_PROC cfg. core_fresh b (cstate t i)) \<and> (\<forall>q. queues t q = [])
     \<and> proc_state t = proc_state s
     \<and> core_fatal_shutdown_requested t = core_fatal_shutdown_requested s
     \<and> proc_shutdown_requested t = proc_shutdown_requested s)"
proof -
  let ?n = "NUM_CORES_PER_PROC cfg"
  let ?s0 = "task_management_init ?n s"
  let ?s1 = "fill_task_lookup cfg ?s0"
  have q1: "queues ?s1 q = []" and l1: "job_link (jobs ?s1 p) = LinkNull" for q p
    using S by (simp_all add: boot_def fill_task_lookup_eq task_management_init_fields)
  have c1: "counted ?n (\<lambda>_. 0) ?s1"
  proof (rule counted_same [OF task_management_init_counted [of ?n s]])
  qed (simp_all add: fill_task_lookup_eq same_pool_def)
  obtain u where u: "foldM (init_core cfg) [0..<?n] ?s1 = Some u"
    "\<And>i. i < ?n \<Longrightarrow> core_fresh b (cstate u i)" "jobs u = jobs ?s1" "free_list u = free_list ?s1"
    "remote_free_list u = remote_free_list ?s1" "proc_state u = proc_state s"
    "core_fatal_shutdown_requested u = core_fatal_shutdown_requested s"
    "proc_shutdown_requested u = proc_shutdown_requested s" "\<And>q. queues u q = []"
    using init_cores_ok [OF b, of cfg ?n ?s1] q1
    by (auto simp: wp_iff fill_task_lookup_eq task_management_init_sys_fields)
  let ?t = "init_migration cfg u"
  note F = init_migration_fields [of cfg u]
  have fresh: "core_fresh b (cstate ?t i)" if "i < ?n" for i using u(2) [OF that] F(1) by simp
  have link: "job_link (jobs ?t p) = LinkNull" for p using u(3) F(2) l1 by simp
  have r: "refs ?n ?t p = 0" for p
    using fresh link by (simp add: refs_def core_refs_def core_fresh_def unlinked_def)
  have c: "counted ?n (\<lambda>_. 0) ?t"
    by (rule counted_same [OF c1]) (simp_all add: F u same_pool_def)
  have "queues_ok ?t" using u(9) F(3) link by (simp add: queues_ok_def queue_ok_def)
  moreover have "run_ok ?n ?t" using fresh by (simp add: run_ok_def core_fresh_def)
  moreover have "offers_ok ?n ?t" using fresh by (simp add: offers_ok_def core_fresh_def)
  ultimately have I: "sys_inv ?n (\<lambda>_. b) {#} ?t"
    using c fresh by (simp add: sys_inv_def r core_fresh_def)
  have "tick_inv ?n (\<lambda>_. b) ?t" unfolding tick_held_def locals_empty_def
    using I fresh d u(6,9) F by (simp add: core_fresh_def)
  moreover have "scheduler_init cfg s = Some ?t"
    using u(1) by (simp add: scheduler_init_def power_management_init_def)
  ultimately show ?thesis using fresh F u by simp
qed

text \<open>Both message queues start empty, with their 64 slots free.\<close>

definition messages_empty :: "processor_state \<Rightarrow> bool" where
  "messages_empty p \<longleftrightarrow> (\<forall>b. 64 \<le> b \<and> b + 64 < 2 ^ 64 \<longrightarrow>
       rb_live 64 b (incoming_completion_msg_queue p) \<and> rb_live 64 b (outgoing_completion_msg_queue p))
     \<and> rb_contents (incoming_completion_msg_queue p) = []
     \<and> rb_contents (outgoing_completion_msg_queue p) = []"

lemma rb_init_empty:
  assumes "3 \<le> sz" and "length buffer = unat sz" and "length seq = unat sz"
  shows "\<exists>rb'. ring_buffer_init rb sz buffer seq es = Some (0, rb') \<and> rb_contents rb' = []
           \<and> (\<forall>b. unat sz \<le> b \<and> unat sz + b < 2 ^ 64 \<longrightarrow> rb_live (unat sz) b rb')"
proof (cases "2 * unat sz < 2 ^ 64")
  case True
  then obtain rb' where r: "ring_buffer_init rb sz buffer seq es = Some (0, rb')" "rb_contents rb' = []"
    using rb_init_live [OF assms order_refl, of rb es] by auto
  then show ?thesis using rb_init_live [OF assms, of _ rb es] by (intro exI [of _ rb']) force
next
  case False
  obtain rb' where "ring_buffer_init rb sz buffer seq es = Some (0, rb')" "rb_contents rb' = []"
    using ring_buffer_init_ok [OF assms, of 0 rb es] by auto
  then show ?thesis using False by (intro exI [of _ rb']) auto
qed

lemma ipc_thread_init_ok:
  "wp (ipc_thread_init s) (\<lambda>t. messages_empty (proc_state t)
     \<and> (\<exists>q1 q2. t = upd_proc (incoming_completion_msg_queue_update (\<lambda>_. q1)
                     \<circ> outgoing_completion_msg_queue_update (\<lambda>_. q2)) s))"
proof -
  have i: "\<exists>q'. ring_buffer_init q (of_nat MESSAGE_QUEUE_SIZE) (replicate MESSAGE_QUEUE_SIZE zero_msg)
      (replicate MESSAGE_QUEUE_SIZE 0) (of_nat sizeof_completion_message) = Some (0, q')
      \<and> rb_contents q' = [] \<and> (\<forall>b. 64 \<le> b \<and> b + 64 < 2 ^ 64 \<longrightarrow> rb_live 64 b q')" for q
  proof -
    have n: "unat (64 :: u64) = 64" "(3 :: u64) \<le> 64" by simp_all
    have "length (replicate 64 zero_msg) = unat (64 :: u64)"
      "length (replicate 64 (0 :: u64)) = unat (64 :: u64)" using n by simp_all
    from rb_init_empty [OF n(2) this, of q "of_nat sizeof_completion_message"] show ?thesis
      unfolding n MESSAGE_QUEUE_SIZE_def by (simp add: add.commute del: take_bit_Suc)
  qed
  obtain q1 where q1: "ring_buffer_init (incoming_completion_msg_queue (proc_state s))
      (of_nat MESSAGE_QUEUE_SIZE) (replicate MESSAGE_QUEUE_SIZE zero_msg)
      (replicate MESSAGE_QUEUE_SIZE 0) (of_nat sizeof_completion_message) = Some (0, q1)"
    "rb_contents q1 = []" "\<forall>b. 64 \<le> b \<and> b + 64 < 2 ^ 64 \<longrightarrow> rb_live 64 b q1" using i by blast
  obtain q2 where q2: "ring_buffer_init (outgoing_completion_msg_queue (proc_state s))
      (of_nat MESSAGE_QUEUE_SIZE) (replicate MESSAGE_QUEUE_SIZE zero_msg)
      (replicate MESSAGE_QUEUE_SIZE 0) (of_nat sizeof_completion_message) = Some (0, q2)"
    "rb_contents q2 = []" "\<forall>b. 64 \<le> b \<and> b + 64 < 2 ^ 64 \<longrightarrow> rb_live 64 b q2" using i by blast
  show ?thesis
    using q1 q2 by (auto simp: ipc_thread_init_def messages_empty_def Let_def)
qed

lemma allocated_horizon_le_cap:
  "allocated_horizon_loop cfg c s ms h \<le> SLACK_CALC_HORIZON_TICKS_CAP"
  if "h \<le> SLACK_CALC_HORIZON_TICKS_CAP"
  using that by (induction ms arbitrary: h) (auto simp: Let_def safe_lcm_le_cap split: option.splits)

lemma calculate_allocated_horizon_le_cap:
  "calculate_allocated_horizon cfg c s \<le> SLACK_CALC_HORIZON_TICKS_CAP"
  unfolding calculate_allocated_horizon_def
  by (rule allocated_horizon_le_cap) (simp add: SLACK_CALC_HORIZON_TICKS_CAP_def)

definition acks_fresh :: "delegation_ack ring_buffer \<Rightarrow> bool" where
  "acks_fresh q \<longleftrightarrow> (\<forall>b. 200 \<le> b \<and> b + 200 < 2 ^ 64 \<longrightarrow> rb_live 200 b q) \<and> rb_contents q = []"

lemma init_core_acks:
  assumes "init_core cfg i s = Some t"
  shows "acks_fresh (delegation_ack_queue (cstate t i))"
proof -
  have n: "unat (200 :: u64) = 200" "(3 :: u64) \<le> 200" by simp_all
  have l: "length (replicate 200 undef_ack) = unat (200 :: u64)"
    "length (replicate 200 (0 :: u64)) = unat (200 :: u64)" using n by simp_all
  have d: "acks_fresh q'"
    if "ring_buffer_init q (of_nat MAX_FUTURE_DELEGATIONS) (replicate MAX_FUTURE_DELEGATIONS undef_ack)
        (replicate MAX_FUTURE_DELEGATIONS 0) 12 = Some (r, q')" for q q' r
    using rb_init_empty [OF n(2) l, of q 12] that
    unfolding n MAX_FUTURE_DELEGATIONS_def acks_fresh_def by (auto simp: add.commute)
  show ?thesis using assms by (auto simp: init_core_def Let_def bind_Some_iff intro: d)
qed

text \<open>What the initialisation tells a core about itself, and the table of tasks.\<close>

lemma init_core_ids:
  assumes "init_core cfg i s = Some t"
  shows "proc_id (cstate t i) = processor_id (proc_state s)" and "core_id (cstate t i) = i"
    and "d \<noteq> i \<Longrightarrow> cstate t d = cstate s d" and "proc_state t = proc_state s"
    and "task_lookup t = task_lookup s" and "dpm_block (cstate t i) = dpm_block (cstate s i)"
    and "delegated_job_queue (cstate t i) = []"
    and "cached_slack_horizon (cstate t i) \<le> SLACK_CALC_HORIZON_TICKS_CAP"
    and "current_dvfs_level (cstate t i) = 0"
  using assms by (auto simp: init_core_def Let_def bind_Some_iff calculate_allocated_horizon_le_cap)

lemma init_cores_ids:
  "foldM (init_core cfg) [0..<n] s = Some t \<Longrightarrow>
   (\<forall>i<n. proc_id (cstate t i) = processor_id (proc_state s) \<and> core_id (cstate t i) = i
      \<and> dpm_block (cstate t i) = dpm_block (cstate s i) \<and> delegated_job_queue (cstate t i) = []
      \<and> cached_slack_horizon (cstate t i) \<le> SLACK_CALC_HORIZON_TICKS_CAP
      \<and> current_dvfs_level (cstate t i) = 0
      \<and> acks_fresh (delegation_ack_queue (cstate t i)))
   \<and> (\<forall>i\<ge>n. cstate t i = cstate s i)
   \<and> proc_state t = proc_state s \<and> task_lookup t = task_lookup s"
proof (induction n arbitrary: t)
  case 0
  then show ?case by simp
next
  case (Suc n)
  then obtain u where u: "foldM (init_core cfg) [0..<n] s = Some u" "init_core cfg n u = Some t"
    by (auto simp: foldM_append bind_Some_iff)
  show ?case using Suc.IH [OF u(1)] init_core_ids [OF u(2)] init_core_acks [OF u(2)]
    by (auto simp: less_Suc_eq)
qed

lemma processor_init_ids:
  assumes "processor_init cfg pid s = Some t" and "i < NUM_CORES_PER_PROC cfg"
  shows "proc_id (cstate t i) = pid" and "core_id (cstate t i) = i"
    and "dpm_block (cstate t i) = dpm_block (cstate s i)"
    and "delegated_job_queue (cstate t i) = []"
    and "cached_slack_horizon (cstate t i) \<le> SLACK_CALC_HORIZON_TICKS_CAP"
    and "current_dvfs_level (cstate t i) = 0"
    and "acks_fresh (delegation_ack_queue (cstate t i))"
    and "task_lookup t
         = fold (\<lambda>t l. l(unat (t_id t) := Some t)) (system_tasks cfg) (task_lookup s)"
proof -
  let ?s1 = "(upd_proc (\<lambda>p. p\<lparr>system_time := 0, processor_id := pid,
       discard_queue_lock := False, system_criticality_level := 0\<rparr>) s)
       \<lparr>queues := (queues s)(ProcDiscardQ := [])\<rparr>"
  obtain q1 q2 where i: "ipc_thread_init ?s1 = Some (upd_proc (incoming_completion_msg_queue_update (\<lambda>_. q1)
            \<circ> outgoing_completion_msg_queue_update (\<lambda>_. q2)) ?s1)"
    using ipc_thread_init_ok [of ?s1] by (auto simp: wp_iff)
  let ?s2 = "upd_proc (incoming_completion_msg_queue_update (\<lambda>_. q1)
            \<circ> outgoing_completion_msg_queue_update (\<lambda>_. q2)) ?s1"
  let ?s3 = "fill_task_lookup cfg (task_management_init (NUM_CORES_PER_PROC cfg) ?s2)"
  obtain u where u: "foldM (init_core cfg) [0..<NUM_CORES_PER_PROC cfg] ?s3 = Some u"
    and t: "t = init_migration cfg u"
    using assms(1) i by (auto simp: processor_init_def scheduler_init_def bind_Some_iff
        power_management_init_def)
  show "proc_id (cstate t i) = pid" "core_id (cstate t i) = i"
    "dpm_block (cstate t i) = dpm_block (cstate s i)"
    "delegated_job_queue (cstate t i) = []"
    "cached_slack_horizon (cstate t i) \<le> SLACK_CALC_HORIZON_TICKS_CAP"
    "current_dvfs_level (cstate t i) = 0"
    "acks_fresh (delegation_ack_queue (cstate t i))"
    "task_lookup t
         = fold (\<lambda>t l. l(unat (t_id t) := Some t)) (system_tasks cfg) (task_lookup s)"
    using init_cores_ids [OF u] assms(2)
    by (simp_all add: t init_migration_fields fill_task_lookup_eq task_management_init_sys_fields)
qed

theorem processor_init_inv:
  assumes S: "boot s" and b: "32 \<le> b" "b + 32 < 2 ^ 64"
  shows "wp (processor_init cfg pid s) (\<lambda>t. tick_inv (NUM_CORES_PER_PROC cfg) (\<lambda>_. b) t
     \<and> (\<forall>i<NUM_CORES_PER_PROC cfg. core_fresh b (cstate t i)) \<and> (\<forall>q. queues t q = [])
     \<and> messages_empty (proc_state t) \<and> now t = 0 \<and> system_criticality_level (proc_state t) = 0
     \<and> processor_id (proc_state t) = pid
     \<and> core_fatal_shutdown_requested t = core_fatal_shutdown_requested s
     \<and> proc_shutdown_requested t = proc_shutdown_requested s)"
proof -
  let ?s1 = "(upd_proc (\<lambda>p. p\<lparr>system_time := 0, processor_id := pid,
       discard_queue_lock := False, system_criticality_level := 0\<rparr>) s)
       \<lparr>queues := (queues s)(ProcDiscardQ := [])\<rparr>"
  obtain q1 q2 t where t: "ipc_thread_init ?s1 = Some t" "messages_empty (proc_state t)"
    "t = upd_proc (incoming_completion_msg_queue_update (\<lambda>_. q1)
            \<circ> outgoing_completion_msg_queue_update (\<lambda>_. q2)) ?s1"
    using ipc_thread_init_ok [of ?s1] by (auto simp: wp_iff)
  have "boot t" using S t(3) by (simp add: boot_def)
  moreover have "\<not> discard_queue_lock (proc_state t)" using t(3) by simp
  ultimately have "wp (scheduler_init cfg t) (\<lambda>u. tick_inv (NUM_CORES_PER_PROC cfg) (\<lambda>_. b) u
     \<and> (\<forall>i<NUM_CORES_PER_PROC cfg. core_fresh b (cstate u i)) \<and> (\<forall>q. queues u q = [])
     \<and> proc_state u = proc_state t
     \<and> core_fatal_shutdown_requested u = core_fatal_shutdown_requested t
     \<and> proc_shutdown_requested u = proc_shutdown_requested t)"
    using b by (intro scheduler_init_ok)
  moreover have "processor_init cfg pid s = scheduler_init cfg t"
    using t(1) by (simp add: processor_init_def)
  ultimately show ?thesis using t(2,3) by (auto simp: wp_iff)
qed

end
