(* ===== verification/PoolInv.thy ===== *)
theory PoolInv
  imports InitInv
begin

text \<open>
  The job pools as a machine: creating a job, acquiring and releasing references in any order, with
  the abstract reference counts beside the store.
\<close>

section \<open>A pool that has no job left\<close>

lemma create_job_None:
  assumes "counted N R s" and c: "c < N" and e: "create_job t c s = (None, s')"
    and p: "pool_of p = c" "slot_of p < JOBS_PER_CORE"
  shows "0 < R p"
proof -
  from assms(1) obtain FL RL where C: "counted_with N R s FL RL" by (auto simp: counted_def)
  have "free_list s c = None \<and> remote_free_list s c = None"
    using e by (auto simp: create_job_def Let_def split: if_splits option.splits)
  moreover have "chain js None xs \<longleftrightarrow> xs = []" for js xs by (cases xs) simp_all
  ultimately have "FL c = []" "RL c = []"
    using counted_withD(1) [OF C] c by (auto simp: pools_def pool_ok_def)
  then have "\<not> is_free FL RL p" using p by (simp add: is_free_def)
  moreover have "in_pools N p" using p c by (simp add: in_pools_def)
  ultimately show ?thesis using counted_withD(2) [OF C] by (simp add: live_job_def)
qed

section \<open>The machine\<close>

inductive pool_step ::
  "nat \<Rightarrow> (jptr \<Rightarrow> nat) \<times> 'z jheap_scheme \<Rightarrow> (jptr \<Rightarrow> nat) \<times> 'z jheap_scheme \<Rightarrow> bool" for N :: nat
where
  create_fail: "c < N \<Longrightarrow> create_job t c s = (None, s') \<Longrightarrow> pool_step N (R, s) (R, s')"
| create: "c < N \<Longrightarrow> create_job t c s = (Some p, s') \<Longrightarrow> pool_step N (R, s) (R(p := 1), s')"
| acquire: "0 < R p \<Longrightarrow> pool_step N (R, s) (R(p := Suc (R p)), snd (get_job_ref (Some p) s))"
| release: "0 < R p \<Longrightarrow> pool_step N (R, s) (R(p := R p - 1), put_job_ref (Some p) c s)"

inductive_cases pool_stepE: "pool_step N (R, s) (R', s')"

interpretation pool_sys: inductive_invariant
  "\<lambda>(R, s). \<exists>z. R = (\<lambda>_. 0) \<and> s = task_management_init N z" "pool_step N"
  "\<lambda>(R, s). counted N R s" for N
proof unfold_locales
  show "(\<lambda>(R, s). counted N R s) x"
    if "(\<lambda>(R, s). \<exists>z. R = (\<lambda>_. 0) \<and> s = task_management_init N z) x"
    for x :: "(jptr \<Rightarrow> nat) \<times> 'a jheap_scheme"
    using that by (auto simp: task_management_init_counted)
  show "(\<lambda>(R, s). counted N R s) y"
    if "(\<lambda>(R, s). counted N R s) x" "pool_step N x y" for x y :: "(jptr \<Rightarrow> nat) \<times> 'a jheap_scheme"
    using that(2,1)
    by cases (auto dest: create_job_counted counted_put counted_get simp: get_job_ref_def)
qed

text \<open>C14: invariant. Start with the initialised pools and let the cores create jobs, acquire and
  release references in any order: the stored count of every job that is in use equals the number
  of references to it; a new job comes out of the pool of its core, nobody refers to it and the
  other jobs are left alone; and the creation fails only when all 50 jobs of that pool are in use.\<close>

theorem job_pool_exact:
  assumes "reachable (\<lambda>(R, s). \<exists>z. R = (\<lambda>_. 0) \<and> s = task_management_init N z) (pool_step N) (R, s)"
    and "c < N" and "create_job t c s = (r, s')"
  shows "(0 < R p \<longrightarrow> refcount (jobs s p) = int (R p))
    \<and> (case r of
         None \<Rightarrow> \<forall>p. pool_of p = c \<and> slot_of p < JOBS_PER_CORE \<longrightarrow> 0 < R p
       | Some p \<Rightarrow> R p = 0 \<and> pool_of p = c \<and> slot_of p < JOBS_PER_CORE \<and> refcount (jobs s' p) = 1
                 \<and> (\<forall>q. q \<noteq> p \<longrightarrow> jobs s' q = jobs s q))"
proof -
  have C: "counted N R s" using pool_sys.inv_reachable [OF assms(1)] by simp
  have "0 < R p \<longrightarrow> refcount (jobs s p) = int (R p)"
    using counted_live(2) [OF C] by (simp add: live_job_def)
  moreover have "case r of
         None \<Rightarrow> \<forall>p. pool_of p = c \<and> slot_of p < JOBS_PER_CORE \<longrightarrow> 0 < R p
       | Some p \<Rightarrow> R p = 0 \<and> pool_of p = c \<and> slot_of p < JOBS_PER_CORE \<and> refcount (jobs s' p) = 1
                 \<and> (\<forall>q. q \<noteq> p \<longrightarrow> jobs s' q = jobs s q)"
  proof (cases r)
    case None
    then show ?thesis using create_job_None [OF C assms(2)] assms(3) by simp
  next
    case (Some n)
    then have K: "R n = 0" "pool_of n = c" "counted N (R(n := 1)) s'"
      using create_job_counted [OF C assms(2,3)] by auto
    have "in_pools N n" using counted_live(1) [OF K(3), of n] by simp
    moreover have "refcount (jobs s' n) = 1"
      using counted_live(2) [OF K(3), of n] by (simp add: live_job_def)
    moreover have "\<forall>q. q \<noteq> n \<longrightarrow> jobs s' q = jobs s q"
      using assms(3) Some by (auto simp: create_job_def Let_def split: if_splits option.splits)
    ultimately show ?thesis using K Some by (simp add: in_pools_def)
  qed
  ultimately show ?thesis by blast
qed

definition pool_demo_task :: task_struct where
  "pool_demo_task = \<lparr>t_id = 1, t_period = 10, t_deadline = 10, t_wcet = [2, 4], t_crit_level = 1,
     t_num_replicas = 0\<rparr>"

text \<open>The job memory before \<^verbatim>\<open>main\<close>: all fields zero.\<close>

definition zero_job :: job_struct where
  "zero_job = \<lparr>next_free = None, parent_task = None, arrival_time = 0, relative_tuned_deadlines = [],
     actual_deadline = 0, virtual_deadline = 0, wcet = Fin 0, acet = Fin 0, executed_time = Fin 0,
     job_pool_id = 0, is_replica = False, state = JOB_STATE_IDLE, job_link = LinkNull,
     next_migration_eligible_tick = 0, refcount = 0, is_being_offered = False\<rparr>"

definition zero_heap :: jheap where
  "zero_heap = \<lparr>jobs = (\<lambda>_. zero_job), free_list = (\<lambda>_. None), remote_free_list = (\<lambda>_. None),
     queues = (\<lambda>_. [])\<rparr>"

theorem job_pool_exact_witness:
  "\<exists>r s'. create_job pool_demo_task 0 (task_management_init 2 zero_heap) = (r, s')
     \<and> (case r of None \<Rightarrow> False | Some p \<Rightarrow> pool_of p = 0 \<and> refcount (jobs s' p) = 1)"
proof -
  let ?s = "task_management_init 2 zero_heap"
  obtain r s' where e: "create_job pool_demo_task 0 ?s = (r, s')" by fastforce
  have "reachable (\<lambda>(R, s). \<exists>z. R = (\<lambda>_. 0) \<and> s = task_management_init 2 z) (pool_step 2)
      (\<lambda>_. 0, ?s)" by (rule reachable.start) auto
  from job_pool_exact [OF this _ e, of "JobPtr 0 0"] have D: "case r of
         None \<Rightarrow> \<forall>p. pool_of p = 0 \<and> slot_of p < JOBS_PER_CORE \<longrightarrow> False
       | Some p \<Rightarrow> pool_of p = 0 \<and> refcount (jobs s' p) = 1" by (auto split: option.splits)
  have "r \<noteq> None"
  proof
    assume "r = None"
    with D have "pool_of (JobPtr 0 0) = 0 \<and> slot_of (JobPtr 0 0) < JOBS_PER_CORE \<longrightarrow> False"
      by (simp only: option.case) blast
    then show False by (simp add: JOBS_PER_CORE_def)
  qed
  then obtain p where "r = Some p" by blast
  then show ?thesis using e D by auto
qed

end
