(* ===== verification/PoolThreads.thy ===== *)
theory PoolThreads
  imports PoolInv
begin

text \<open>
  The job pools used by the cores and the timer at once. The atomic accesses of \<^verbatim>\<open>create_job\<close>,
  \<^verbatim>\<open>get_job_ref\<close>, \<^verbatim>\<open>put_job_ref\<close> and \<^verbatim>\<open>__release_job_to_pool\<close> interleave: reading and writing a free
  list, taking and giving back the mutex of a pool, counting a reference up or down. Thread \<open>c\<close> below
  \<open>N\<close> is core \<open>c\<close>, which alone reads and writes its own free list; the timer, or any further thread,
  passes a number that is no core.
\<close>

section \<open>Threads\<close>

text \<open>Where a thread is: in \<^verbatim>\<open>create_job\<close> (first five, with the core and the task) or in
  \<^verbatim>\<open>__release_job_to_pool\<close> (the others, with the owner of the job).\<close>

datatype pool_pc =
  PIdle
| CreateLock nat task_struct
| CreateTake nat task_struct
| CreateUnlock nat task_struct
| CreatePop nat task_struct
| CreateInit nat task_struct jptr
| RelOwner jptr
| RelOwn jptr
| RelOwnSet jptr
| RelLock nat jptr
| RelRemote nat jptr
| RelRemoteSet nat jptr
| RelUnlock nat

text \<open>\<open>pt_refs\<close> counts the references to a job that exist, beside the counter of the code. A thread
  that acquires or drops a reference has one.\<close>

record pool_threads =
  pt_heap :: jheap
  pt_lock :: "nat \<Rightarrow> bool"
  pt_pcs :: "nat \<Rightarrow> pool_pc"
  pt_refs :: "jptr \<Rightarrow> nat"

inductive pt_step :: "nat \<Rightarrow> pool_threads \<Rightarrow> pool_threads \<Rightarrow> bool" for N :: nat where
  create_check:
    "\<lbrakk>pt_pcs t i = PIdle; i < N\<rbrakk>
     \<Longrightarrow> pt_step N t (t\<lparr>pt_pcs := (pt_pcs t)(i :=
           if free_list (pt_heap t) i = None then CreateLock i task else CreatePop i task)\<rparr>)"
| create_lock:
    "\<lbrakk>pt_pcs t i = CreateLock c task; \<not> pt_lock t c\<rbrakk>
     \<Longrightarrow> pt_step N t (t\<lparr>pt_lock := (pt_lock t)(c := True),
                       pt_pcs := (pt_pcs t)(i := CreateTake c task)\<rparr>)"
| create_take:
    "\<lbrakk>pt_pcs t i = CreateTake c task; s = pt_heap t\<rbrakk>
     \<Longrightarrow> pt_step N t (t\<lparr>pt_heap := s\<lparr>free_list := (free_list s)(c := remote_free_list s c),
                                   remote_free_list := (remote_free_list s)(c := None)\<rparr>,
                       pt_pcs := (pt_pcs t)(i := CreateUnlock c task)\<rparr>)"
| create_unlock:
    "pt_pcs t i = CreateUnlock c task
     \<Longrightarrow> pt_step N t (t\<lparr>pt_lock := (pt_lock t)(c := False),
                       pt_pcs := (pt_pcs t)(i := CreatePop c task)\<rparr>)"
| create_none:
    "\<lbrakk>pt_pcs t i = CreatePop c task; free_list (pt_heap t) c = None\<rbrakk>
     \<Longrightarrow> pt_step N t (t\<lparr>pt_pcs := (pt_pcs t)(i := PIdle)\<rparr>)"
| create_pop:
    "\<lbrakk>pt_pcs t i = CreatePop c task; s = pt_heap t; free_list s c = Some p\<rbrakk>
     \<Longrightarrow> pt_step N t (t\<lparr>pt_heap := s\<lparr>free_list := (free_list s)(c := next_free (jobs s p))\<rparr>,
                       pt_pcs := (pt_pcs t)(i := CreateInit c task p)\<rparr>)"
| create_init:
    "pt_pcs t i = CreateInit c task p
     \<Longrightarrow> pt_step N t (t\<lparr>pt_heap := upd_job p (new_job_fields task c) (pt_heap t),
                       pt_pcs := (pt_pcs t)(i := PIdle), pt_refs := (pt_refs t)(p := 1)\<rparr>)"
| get_ref:
    "\<lbrakk>pt_pcs t i = PIdle; 0 < pt_refs t p\<rbrakk>
     \<Longrightarrow> pt_step N t (t\<lparr>pt_heap := snd (get_job_ref (Some p) (pt_heap t)),
                       pt_refs := (pt_refs t)(p := Suc (pt_refs t p))\<rparr>)"
| put_ref:
    "\<lbrakk>pt_pcs t i = PIdle; 0 < pt_refs t p; prev = refcount (jobs (pt_heap t) p)\<rbrakk>
     \<Longrightarrow> pt_step N t (t\<lparr>pt_heap := upd_job p (refcount_update (\<lambda>r. r - 1)) (pt_heap t),
                       pt_pcs := (pt_pcs t)(i := if prev = 1 then RelOwner p else PIdle),
                       pt_refs := (pt_refs t)(p := pt_refs t p - 1)\<rparr>)"
| rel_owner:
    "\<lbrakk>pt_pcs t i = RelOwner p; c = job_pool_id (jobs (pt_heap t) p)\<rbrakk>
     \<Longrightarrow> pt_step N t (t\<lparr>pt_pcs := (pt_pcs t)(i := if c = i then RelOwn p else RelLock c p)\<rparr>)"
| rel_own:
    "pt_pcs t i = RelOwn p
     \<Longrightarrow> pt_step N t (t\<lparr>pt_heap := upd_job p (next_free_update (\<lambda>_. free_list (pt_heap t) i)) (pt_heap t),
                       pt_pcs := (pt_pcs t)(i := RelOwnSet p)\<rparr>)"
| rel_own_set:
    "\<lbrakk>pt_pcs t i = RelOwnSet p; s = pt_heap t\<rbrakk>
     \<Longrightarrow> pt_step N t (t\<lparr>pt_heap := s\<lparr>free_list := (free_list s)(i := Some p)\<rparr>,
                       pt_pcs := (pt_pcs t)(i := PIdle)\<rparr>)"
| rel_lock:
    "\<lbrakk>pt_pcs t i = RelLock c p; \<not> pt_lock t c\<rbrakk>
     \<Longrightarrow> pt_step N t (t\<lparr>pt_lock := (pt_lock t)(c := True), pt_pcs := (pt_pcs t)(i := RelRemote c p)\<rparr>)"
| rel_remote:
    "pt_pcs t i = RelRemote c p
     \<Longrightarrow> pt_step N t (t\<lparr>pt_heap :=
             upd_job p (next_free_update (\<lambda>_. remote_free_list (pt_heap t) c)) (pt_heap t),
                       pt_pcs := (pt_pcs t)(i := RelRemoteSet c p)\<rparr>)"
| rel_remote_set:
    "\<lbrakk>pt_pcs t i = RelRemoteSet c p; s = pt_heap t\<rbrakk>
     \<Longrightarrow> pt_step N t (t\<lparr>pt_heap := s\<lparr>remote_free_list := (remote_free_list s)(c := Some p)\<rparr>,
                       pt_pcs := (pt_pcs t)(i := RelUnlock c)\<rparr>)"
| rel_unlock:
    "pt_pcs t i = RelUnlock c
     \<Longrightarrow> pt_step N t (t\<lparr>pt_lock := (pt_lock t)(c := False), pt_pcs := (pt_pcs t)(i := PIdle)\<rparr>)"

definition pt_init :: "nat \<Rightarrow> pool_threads \<Rightarrow> bool" where
  "pt_init N t \<longleftrightarrow> (\<exists>z. pt_heap t = task_management_init N z) \<and> (\<forall>c. \<not> pt_lock t c)
     \<and> (\<forall>i. pt_pcs t i = PIdle) \<and> (\<forall>p. pt_refs t p = 0)"

section \<open>The invariant\<close>

text \<open>The job a thread has in its hands: out of the free lists and without references.\<close>

fun in_transit :: "pool_pc \<Rightarrow> jptr option" where
  "in_transit (CreateInit c task p) = Some p"
| "in_transit (RelOwner p) = Some p"
| "in_transit (RelOwn p) = Some p"
| "in_transit (RelOwnSet p) = Some p"
| "in_transit (RelLock c p) = Some p"
| "in_transit (RelRemote c p) = Some p"
| "in_transit (RelRemoteSet c p) = Some p"
| "in_transit _ = None"

text \<open>The mutex a thread holds.\<close>

fun has_lock :: "pool_pc \<Rightarrow> nat option" where
  "has_lock (CreateTake c task) = Some c"
| "has_lock (CreateUnlock c task) = Some c"
| "has_lock (RelRemote c p) = Some c"
| "has_lock (RelRemoteSet c p) = Some c"
| "has_lock (RelUnlock c) = Some c"
| "has_lock _ = None"

fun ppc_ok :: "nat \<Rightarrow> jheap \<Rightarrow> nat \<Rightarrow> pool_pc \<Rightarrow> bool" where
  "ppc_ok N s i PIdle = True"
| "ppc_ok N s i (CreateLock c task) = (c = i \<and> c < N \<and> free_list s c = None)"
| "ppc_ok N s i (CreateTake c task) = (c = i \<and> c < N \<and> free_list s c = None)"
| "ppc_ok N s i (CreateUnlock c task) = (c = i \<and> c < N)"
| "ppc_ok N s i (CreatePop c task) = (c = i \<and> c < N)"
| "ppc_ok N s i (CreateInit c task p) = (c = i \<and> pool_of p = c)"
| "ppc_ok N s i (RelOwner p) = (job_pool_id (jobs s p) = pool_of p)"
| "ppc_ok N s i (RelOwn p) = (pool_of p = i)"
| "ppc_ok N s i (RelOwnSet p) = (pool_of p = i \<and> next_free (jobs s p) = free_list s i)"
| "ppc_ok N s i (RelLock c p) = (pool_of p = c)"
| "ppc_ok N s i (RelRemote c p) = (pool_of p = c)"
| "ppc_ok N s i (RelRemoteSet c p) = (pool_of p = c \<and> next_free (jobs s p) = remote_free_list s c)"
| "ppc_ok N s i (RelUnlock c) = True"

definition refs_ok ::
  "nat \<Rightarrow> (jptr \<Rightarrow> nat) \<Rightarrow> jheap \<Rightarrow> (nat \<Rightarrow> jptr list) \<Rightarrow> (nat \<Rightarrow> jptr list) \<Rightarrow> (jptr \<Rightarrow> bool) \<Rightarrow> bool" where
  "refs_ok N R s FL RL H \<longleftrightarrow>
     (\<forall>p. if in_pools N p \<and> \<not> is_free FL RL p \<and> \<not> H p then live_job (R p) (jobs s p) p else R p = 0)
   \<and> (\<forall>p. H p \<longrightarrow> in_pools N p \<and> \<not> is_free FL RL p)"

definition pt_with :: "nat \<Rightarrow> pool_threads \<Rightarrow> (nat \<Rightarrow> jptr list) \<Rightarrow> (nat \<Rightarrow> jptr list) \<Rightarrow> bool" where
  "pt_with N t FL RL \<longleftrightarrow> pools N (pt_heap t) FL RL
     \<and> refs_ok N (pt_refs t) (pt_heap t) FL RL (holder in_transit (pt_pcs t))
     \<and> unshared in_transit (pt_pcs t) \<and> unshared has_lock (pt_pcs t)
     \<and> (\<forall>c. pt_lock t c \<longleftrightarrow> holder has_lock (pt_pcs t) c)
     \<and> (\<forall>i. ppc_ok N (pt_heap t) i (pt_pcs t i))"

definition pt_inv :: "nat \<Rightarrow> pool_threads \<Rightarrow> bool" where
  "pt_inv N t \<longleftrightarrow> (\<exists>FL RL. pt_with N t FL RL)"

lemma pt_withD:
  assumes "pt_with N t FL RL"
  shows "pools N (pt_heap t) FL RL"
    and "refs_ok N (pt_refs t) (pt_heap t) FL RL (holder in_transit (pt_pcs t))"
    and "unshared in_transit (pt_pcs t)" and "unshared has_lock (pt_pcs t)"
    and "pt_lock t c \<longleftrightarrow> holder has_lock (pt_pcs t) c" and "ppc_ok N (pt_heap t) i (pt_pcs t i)"
  using assms by (simp_all add: pt_with_def)

lemma free_hd:
  assumes "pools N s FL RL" and "c < N"
  shows "free_list s c = Some p \<Longrightarrow> \<exists>ps. FL c = p # ps \<and> is_free FL RL p"
    and "free_list s c = None \<longleftrightarrow> FL c = []"
proof -
  have P: "pool_ok N c (jobs s) (free_list s c) (remote_free_list s c) (FL c) (RL c)"
    using assms by (simp add: pools_def)
  then show "free_list s c = None \<longleftrightarrow> FL c = []" by (cases "FL c") (auto simp: pool_ok_def)
  show "\<exists>ps. FL c = p # ps \<and> is_free FL RL p" if "free_list s c = Some p"
    using P that by (cases "FL c") (auto simp: pool_ok_def is_free_def)
qed

section \<open>The steps keep the invariant\<close>

text \<open>A step, from what it does to the free lists and the references and what it leaves to the other
  threads.\<close>

lemma pt_move:
  assumes W: "pt_with N t FL RL" and p: "pools N s FL' RL'"
    and r: "refs_ok N R s FL' RL' (holder in_transit ((pt_pcs t)(i := p)))"
    and h: "\<And>k. in_transit p = Some k \<Longrightarrow> in_transit (pt_pcs t i) = Some k \<or> \<not> holder in_transit (pt_pcs t) k"
    and l: "\<And>c. has_lock p = Some c \<Longrightarrow> has_lock (pt_pcs t i) = Some c \<or> \<not> pt_lock t c"
    and k: "\<And>c. L c \<longleftrightarrow> has_lock p = Some c \<or> pt_lock t c \<and> has_lock (pt_pcs t i) \<noteq> Some c"
    and ok: "ppc_ok N s i p" "\<And>j. j \<noteq> i \<Longrightarrow> ppc_ok N s j (pt_pcs t j)"
  shows "pt_inv N (t\<lparr>pt_heap := s, pt_lock := L, pt_pcs := (pt_pcs t)(i := p), pt_refs := R\<rparr>)"
proof -
  note D = pt_withD [OF W]
  have "unshared in_transit ((pt_pcs t)(i := p))" using unshared_move [OF D(3)] h by blast
  moreover have "unshared has_lock ((pt_pcs t)(i := p))" using unshared_move [OF D(4)] l D(5) by blast
  moreover have "L c \<longleftrightarrow> holder has_lock ((pt_pcs t)(i := p)) c" for c
    using k D(5) holder_upd [OF D(4)] by simp
  ultimately show ?thesis using p r ok by (auto simp: pt_inv_def pt_with_def)
qed

text \<open>Only the thread moves on, and takes or gives back a mutex.\<close>

lemma pt_pc:
  assumes W: "pt_with N t FL RL" and h: "in_transit p = in_transit (pt_pcs t i)"
    and l: "\<And>c. has_lock p = Some c \<Longrightarrow> has_lock (pt_pcs t i) = Some c \<or> \<not> pt_lock t c"
    and k: "\<And>c. L c \<longleftrightarrow> has_lock p = Some c \<or> pt_lock t c \<and> has_lock (pt_pcs t i) \<noteq> Some c"
    and ok: "ppc_ok N (pt_heap t) i p"
  shows "pt_inv N (t\<lparr>pt_lock := L, pt_pcs := (pt_pcs t)(i := p)\<rparr>)"
proof -
  note D = pt_withD [OF W]
  have "pt_inv N (t\<lparr>pt_heap := pt_heap t, pt_lock := L, pt_pcs := (pt_pcs t)(i := p), pt_refs := pt_refs t\<rparr>)"
    by (rule pt_move [OF W D(1) _ _ l k ok D(6)])
      (use D(2) holder_same [OF D(3) h] h in simp_all)
  then show ?thesis by simp
qed

text \<open>A job that no other thread has in its hands is changed.\<close>

lemma ppc_ok_upd:
  "ppc_ok N s j pc \<Longrightarrow> in_transit pc \<noteq> Some p \<Longrightarrow> ppc_ok N (upd_job p f s) j pc"
  by (cases pc) (auto simp: upd_job_def)

lemma other_transit:
  assumes "unshared in_transit pcs" and "in_transit (pcs i) = Some p" and "j \<noteq> i"
  shows "in_transit (pcs j) \<noteq> Some p"
  using assms by (auto simp: unshared_def)

lemma transit_facts:
  assumes "pt_with N t FL RL" and "in_transit (pt_pcs t i) = Some p"
  shows "in_pools N p" and "\<not> is_free FL RL p" and "pt_refs t p = 0"
proof -
  have "holder in_transit (pt_pcs t) p" using assms(2) by (rule holder_at)
  then show "in_pools N p" "\<not> is_free FL RL p" "pt_refs t p = 0"
    using pt_withD(2) [OF assms(1)] unfolding refs_ok_def by (metis (no_types, lifting))+
qed

lemma live_facts:
  assumes "pt_with N t FL RL" and "0 < pt_refs t p"
  shows "in_pools N p" and "\<not> is_free FL RL p" and "live_job (pt_refs t p) (jobs (pt_heap t) p) p"
    and "\<not> holder in_transit (pt_pcs t) p"
  using pt_withD(2) [OF assms(1)] assms(2) unfolding refs_ok_def by (metis less_irrefl)+

text \<open>The five steps that change the free lists.\<close>

lemma pt_take:
  assumes W: "pt_with N t FL RL" and c: "pt_pcs t i = CreateTake c task"
  shows "pt_inv N (t\<lparr>pt_heap := (pt_heap t)\<lparr>free_list := (free_list (pt_heap t))(c := remote_free_list (pt_heap t) c),
       remote_free_list := (remote_free_list (pt_heap t))(c := None)\<rparr>,
     pt_pcs := (pt_pcs t)(i := CreateUnlock c task)\<rparr>)"
proof -
  note D = pt_withD [OF W]
  let ?s = "(pt_heap t)\<lparr>free_list := (free_list (pt_heap t))(c := remote_free_list (pt_heap t) c),
       remote_free_list := (remote_free_list (pt_heap t))(c := None)\<rparr>"
  have K: "c = i" "c < N" "free_list (pt_heap t) c = None" using D(6) [of i] c by auto
  have lk: "pt_lock t c" using D(5) holder_at [of has_lock "pt_pcs t" i c] c by simp
  have nil: "FL c = []" using free_hd(2) [OF D(1) K(2)] K(3) by simp
  have fr: "is_free (FL(c := RL c)) (RL(c := [])) p \<longleftrightarrow> is_free FL RL p" for p
    using nil by (auto simp: is_free_def)
  have "pools N ?s (FL(c := RL c)) (RL(c := []))"
    using D(1) nil by (auto simp: pools_def pool_ok_def)
  moreover have "holder in_transit ((pt_pcs t)(i := CreateUnlock c task)) = holder in_transit (pt_pcs t)"
    using holder_same [OF D(3)] c by simp
  then have "refs_ok N (pt_refs t) ?s (FL(c := RL c)) (RL(c := []))
      (holder in_transit ((pt_pcs t)(i := CreateUnlock c task)))"
    using D(2) by (simp add: refs_ok_def fr)
  moreover have "ppc_ok N ?s j (pt_pcs t j)" if "j \<noteq> i" for j
  proof -
    have "has_lock (pt_pcs t j) \<noteq> Some c" using D(4) c that by (auto simp: unshared_def)
    then show ?thesis using D(6) [of j] K(1) that by (cases "pt_pcs t j") auto
  qed
  ultimately have "pt_inv N (t\<lparr>pt_heap := ?s, pt_lock := pt_lock t,
      pt_pcs := (pt_pcs t)(i := CreateUnlock c task), pt_refs := pt_refs t\<rparr>)"
    using c K lk by (intro pt_move [OF W]) auto
  then show ?thesis by simp
qed

lemma pt_pop:
  assumes W: "pt_with N t FL RL" and c: "pt_pcs t i = CreatePop c task"
    and f: "free_list (pt_heap t) c = Some p"
  shows "pt_inv N (t\<lparr>pt_heap := (pt_heap t)\<lparr>free_list := (free_list (pt_heap t))(c := next_free (jobs (pt_heap t) p))\<rparr>,
     pt_pcs := (pt_pcs t)(i := CreateInit c task p)\<rparr>)"
proof -
  note D = pt_withD [OF W]
  let ?s = "(pt_heap t)\<lparr>free_list := (free_list (pt_heap t))(c := next_free (jobs (pt_heap t) p))\<rparr>"
  have K: "c = i" "c < N" using D(6) [of i] c by auto
  have "pool_ok N c (jobs (pt_heap t)) (Some p) (remote_free_list (pt_heap t) c) (FL c) (RL c)"
    using D(1) K(2) f by (simp add: pools_def flip: f)
  then obtain ps where ps: "FL c = p # ps" "p \<notin> set (ps @ RL c)" "in_pools N p" "pool_of p = c"
    "pool_ok N c (jobs (pt_heap t)) (next_free (jobs (pt_heap t) p)) (remote_free_list (pt_heap t) c) ps (RL c)"
    by (rule pool_ok_take)
  have fr: "is_free (FL(c := ps)) RL x \<longleftrightarrow> is_free FL RL x \<and> x \<noteq> p" for x
    using ps by (auto simp: is_free_def)
  have fp: "is_free FL RL p" using ps by (simp add: is_free_def)
  have nh: "\<not> holder in_transit (pt_pcs t) p" using D(2) fp by (auto simp: refs_ok_def)
  have "pools N ?s (FL(c := ps)) RL" using D(1) ps(5) by (auto simp: pools_def)
  moreover have "holder in_transit ((pt_pcs t)(i := CreateInit c task p)) x
      \<longleftrightarrow> x = p \<or> holder in_transit (pt_pcs t) x" for x
    using holder_upd [OF D(3), of i "CreateInit c task p" x] c by auto
  then have "refs_ok N (pt_refs t) ?s (FL(c := ps)) RL
      (holder in_transit ((pt_pcs t)(i := CreateInit c task p)))"
    using D(2) fp ps(3) by (auto simp: refs_ok_def fr split: if_splits)
  moreover have "ppc_ok N ?s j (pt_pcs t j)" if "j \<noteq> i" for j
    using D(6) [of j] K(1) that by (cases "pt_pcs t j") auto
  ultimately have "pt_inv N (t\<lparr>pt_heap := ?s, pt_lock := pt_lock t,
      pt_pcs := (pt_pcs t)(i := CreateInit c task p), pt_refs := pt_refs t\<rparr>)"
    using c K nh ps(4) by (intro pt_move [OF W]) auto
  then show ?thesis by simp
qed

lemma pt_init_job:
  assumes W: "pt_with N t FL RL" and c: "pt_pcs t i = CreateInit c task p"
  shows "pt_inv N (t\<lparr>pt_heap := upd_job p (new_job_fields task c) (pt_heap t),
     pt_pcs := (pt_pcs t)(i := PIdle), pt_refs := (pt_refs t)(p := 1)\<rparr>)"
proof -
  note D = pt_withD [OF W]
  let ?s = "upd_job p (new_job_fields task c) (pt_heap t)"
  have P: "in_transit (pt_pcs t i) = Some p" using c by simp
  note T = transit_facts [OF W P]
  have K: "c = i" "pool_of p = c" using D(6) [of i] c by auto
  have H: "holder in_transit ((pt_pcs t)(i := PIdle)) x \<longleftrightarrow> holder in_transit (pt_pcs t) x \<and> x \<noteq> p" for x
    using holder_upd [OF D(3), of i PIdle x] P by auto
  have "refs_ok N ((pt_refs t)(p := 1)) ?s FL RL (holder in_transit ((pt_pcs t)(i := PIdle)))"
  proof -
    have "live_job 1 (jobs ?s p) p" using K by (simp add: live_job_def new_job_fields_def upd_job_def)
    then show ?thesis using D(2) T(1,2) by (auto simp: refs_ok_def H upd_job_def split: if_splits)
  qed
  moreover have "ppc_ok N ?s j (pt_pcs t j)" if "j \<noteq> i" for j
    by (rule ppc_ok_upd [OF D(6) other_transit [OF D(3) P that]])
  ultimately have "pt_inv N (t\<lparr>pt_heap := ?s, pt_lock := pt_lock t,
      pt_pcs := (pt_pcs t)(i := PIdle), pt_refs := (pt_refs t)(p := 1)\<rparr>)"
    using c pools_upd [OF D(1) T(2), of "new_job_fields task c"] by (intro pt_move [OF W]) auto
  then show ?thesis by simp
qed

text \<open>Counting up and down.\<close>

lemma pt_get:
  assumes W: "pt_with N t FL RL" and p: "0 < pt_refs t p"
  shows "pt_inv N (t\<lparr>pt_heap := upd_job p (refcount_update (\<lambda>r. r + 1)) (pt_heap t),
     pt_refs := (pt_refs t)(p := Suc (pt_refs t p))\<rparr>)"
proof -
  note D = pt_withD [OF W] and L = live_facts [OF W p]
  let ?s = "upd_job p (refcount_update (\<lambda>r. r + 1)) (pt_heap t)"
  have "refs_ok N ((pt_refs t)(p := Suc (pt_refs t p))) ?s FL RL (holder in_transit (pt_pcs t))"
    using D(2) L by (auto simp: refs_ok_def upd_job_def live_job_def split: if_splits)
  moreover have "ppc_ok N ?s j (pt_pcs t j)" for j
    using ppc_ok_upd [OF D(6)] L(4) holder_at [of in_transit "pt_pcs t" j p] by blast
  ultimately show ?thesis using D(3-5) pools_upd [OF D(1) L(2), of "refcount_update (\<lambda>r. r + 1)"]
    by (auto simp: pt_inv_def pt_with_def)
qed

lemma pt_put:
  assumes W: "pt_with N t FL RL" and p: "0 < pt_refs t p" and c: "pt_pcs t i = PIdle"
  shows "pt_inv N (t\<lparr>pt_heap := upd_job p (refcount_update (\<lambda>r. r - 1)) (pt_heap t),
     pt_pcs := (pt_pcs t)(i := if refcount (jobs (pt_heap t) p) = 1 then RelOwner p else PIdle),
     pt_refs := (pt_refs t)(p := pt_refs t p - 1)\<rparr>)"
proof -
  note D = pt_withD [OF W] and L = live_facts [OF W p]
  let ?s = "upd_job p (refcount_update (\<lambda>r. r - 1)) (pt_heap t)"
  define q where "q = (if refcount (jobs (pt_heap t) p) = 1 then RelOwner p else PIdle)"
  have q: "in_transit q = (if pt_refs t p = 1 then Some p else None)" "has_lock q = None"
    "ppc_ok N ?s i q"
    using L(3) by (auto simp: q_def live_job_def upd_job_def)
  have H: "holder in_transit ((pt_pcs t)(i := q)) x
      \<longleftrightarrow> holder in_transit (pt_pcs t) x \<or> x = p \<and> pt_refs t p = 1" for x
    using holder_upd [OF D(3), of i q x] c q(1) by auto
  have "refs_ok N ((pt_refs t)(p := pt_refs t p - 1)) ?s FL RL (holder in_transit ((pt_pcs t)(i := q)))"
    using D(2) L p unfolding refs_ok_def H by (auto simp: upd_job_def live_job_def split: if_splits)
  moreover have "ppc_ok N ?s j (pt_pcs t j)" if "j \<noteq> i" for j
    using ppc_ok_upd [OF D(6)] L(4) holder_at [of in_transit "pt_pcs t" j p] by blast
  ultimately have "pt_inv N (t\<lparr>pt_heap := ?s, pt_lock := pt_lock t, pt_pcs := (pt_pcs t)(i := q),
      pt_refs := (pt_refs t)(p := pt_refs t p - 1)\<rparr>)"
    using c L(4) q pools_upd [OF D(1) L(2), of "refcount_update (\<lambda>r. r - 1)"]
    by (intro pt_move [OF W]) (auto split: if_splits)
  then show ?thesis by (simp add: q_def)
qed

text \<open>Linking a job that was released: first its own pointer, then the list.\<close>

lemma pt_link:
  assumes W: "pt_with N t FL RL" and c: "in_transit (pt_pcs t i) = Some p" "in_transit q = Some p"
    and l: "has_lock q = has_lock (pt_pcs t i)"
    and q: "ppc_ok N (upd_job p (next_free_update (\<lambda>_. f)) (pt_heap t)) i q"
  shows "pt_inv N (t\<lparr>pt_heap := upd_job p (next_free_update (\<lambda>_. f)) (pt_heap t),
     pt_pcs := (pt_pcs t)(i := q)\<rparr>)"
proof -
  note D = pt_withD [OF W] and T = transit_facts [OF W c(1)]
  let ?s = "upd_job p (next_free_update (\<lambda>_. f)) (pt_heap t)"
  have H: "holder in_transit ((pt_pcs t)(i := q)) = holder in_transit (pt_pcs t)"
    using holder_same [OF D(3)] c by simp
  have "holder in_transit (pt_pcs t) p" using c(1) by (rule holder_at)
  then have "refs_ok N (pt_refs t) ?s FL RL (holder in_transit ((pt_pcs t)(i := q)))"
    using D(2) by (auto simp: refs_ok_def H upd_job_def split: if_splits)
  moreover have "ppc_ok N ?s j (pt_pcs t j)" if "j \<noteq> i" for j
    by (rule ppc_ok_upd [OF D(6) other_transit [OF D(3) c(1) that]])
  moreover have "has_lock (pt_pcs t i) = Some x \<Longrightarrow> pt_lock t x" for x
    using D(5) holder_at [of has_lock "pt_pcs t" i x] by simp
  ultimately have "pt_inv N (t\<lparr>pt_heap := ?s, pt_lock := pt_lock t, pt_pcs := (pt_pcs t)(i := q),
      pt_refs := pt_refs t\<rparr>)"
    using c l q pools_upd [OF D(1) T(2), of "next_free_update (\<lambda>_. f)"]
    by (intro pt_move [OF W]) auto
  then show ?thesis by simp
qed

lemma pt_own_set:
  assumes W: "pt_with N t FL RL" and c: "pt_pcs t i = RelOwnSet p"
  shows "pt_inv N (t\<lparr>pt_heap := (pt_heap t)\<lparr>free_list := (free_list (pt_heap t))(i := Some p)\<rparr>,
     pt_pcs := (pt_pcs t)(i := PIdle)\<rparr>)"
proof -
  note D = pt_withD [OF W]
  let ?s = "(pt_heap t)\<lparr>free_list := (free_list (pt_heap t))(i := Some p)\<rparr>"
  have P: "in_transit (pt_pcs t i) = Some p" using c by simp
  note T = transit_facts [OF W P]
  have K: "pool_of p = i" "next_free (jobs (pt_heap t) p) = free_list (pt_heap t) i"
    using D(6) [of i] c by auto
  have iN: "i < N" using T(1) K(1) by (simp add: in_pools_def)
  have "pool_ok N i (jobs (pt_heap t)) (free_list (pt_heap t) i) (remote_free_list (pt_heap t) i) (FL i) (RL i)"
    using D(1) iN by (simp add: pools_def)
  moreover have "p \<notin> set (FL i @ RL i)" using T(2) K(1) by (auto simp: is_free_def)
  ultimately have "pool_ok N i (jobs (pt_heap t)) (Some p) (remote_free_list (pt_heap t) i) (p # FL i) (RL i)"
    using T(1) K by (auto simp: pool_ok_def)
  then have "pools N ?s (FL(i := p # FL i)) RL" using D(1) by (auto simp: pools_def)
  moreover have fr: "is_free (FL(i := p # FL i)) RL x \<longleftrightarrow> is_free FL RL x \<or> x = p" for x
    using K(1) by (auto simp: is_free_def)
  have H: "holder in_transit ((pt_pcs t)(i := PIdle)) x \<longleftrightarrow> holder in_transit (pt_pcs t) x \<and> x \<noteq> p" for x
    using holder_upd [OF D(3), of i PIdle x] P by auto
  have "refs_ok N (pt_refs t) ?s (FL(i := p # FL i)) RL (holder in_transit ((pt_pcs t)(i := PIdle)))"
    using D(2) T(3) by (auto simp: refs_ok_def H fr split: if_splits)
  moreover have "ppc_ok N ?s j (pt_pcs t j)" if "j \<noteq> i" for j
    using D(6) [of j] that by (cases "pt_pcs t j") auto
  ultimately have "pt_inv N (t\<lparr>pt_heap := ?s, pt_lock := pt_lock t, pt_pcs := (pt_pcs t)(i := PIdle),
      pt_refs := pt_refs t\<rparr>)"
    using c by (intro pt_move [OF W]) auto
  then show ?thesis by simp
qed

lemma pt_remote_set:
  assumes W: "pt_with N t FL RL" and c: "pt_pcs t i = RelRemoteSet c p"
  shows "pt_inv N (t\<lparr>pt_heap := (pt_heap t)\<lparr>remote_free_list := (remote_free_list (pt_heap t))(c := Some p)\<rparr>,
     pt_pcs := (pt_pcs t)(i := RelUnlock c)\<rparr>)"
proof -
  note D = pt_withD [OF W]
  let ?s = "(pt_heap t)\<lparr>remote_free_list := (remote_free_list (pt_heap t))(c := Some p)\<rparr>"
  have P: "in_transit (pt_pcs t i) = Some p" using c by simp
  note T = transit_facts [OF W P]
  have K: "pool_of p = c" "next_free (jobs (pt_heap t) p) = remote_free_list (pt_heap t) c"
    using D(6) [of i] c by auto
  have lk: "pt_lock t c" using D(5) holder_at [of has_lock "pt_pcs t" i c] c by simp
  have iN: "c < N" using T(1) K(1) by (simp add: in_pools_def)
  have "pool_ok N c (jobs (pt_heap t)) (free_list (pt_heap t) c) (remote_free_list (pt_heap t) c) (FL c) (RL c)"
    using D(1) iN by (simp add: pools_def)
  moreover have "p \<notin> set (FL c @ RL c)" using T(2) K(1) by (auto simp: is_free_def)
  ultimately have "pool_ok N c (jobs (pt_heap t)) (free_list (pt_heap t) c) (Some p) (FL c) (p # RL c)"
    using T(1) K by (auto simp: pool_ok_def)
  then have "pools N ?s FL (RL(c := p # RL c))" using D(1) by (auto simp: pools_def)
  moreover have fr: "is_free FL (RL(c := p # RL c)) x \<longleftrightarrow> is_free FL RL x \<or> x = p" for x
    using K(1) by (auto simp: is_free_def)
  have H: "holder in_transit ((pt_pcs t)(i := RelUnlock c)) x
      \<longleftrightarrow> holder in_transit (pt_pcs t) x \<and> x \<noteq> p" for x
    using holder_upd [OF D(3), of i "RelUnlock c" x] P by auto
  have "refs_ok N (pt_refs t) ?s FL (RL(c := p # RL c)) (holder in_transit ((pt_pcs t)(i := RelUnlock c)))"
    using D(2) T(3) by (auto simp: refs_ok_def H fr split: if_splits)
  moreover have "ppc_ok N ?s j (pt_pcs t j)" if "j \<noteq> i" for j
  proof -
    have "has_lock (pt_pcs t j) \<noteq> Some c" using D(4) c that by (auto simp: unshared_def)
    then show ?thesis using D(6) [of j] by (cases "pt_pcs t j") auto
  qed
  ultimately have "pt_inv N (t\<lparr>pt_heap := ?s, pt_lock := pt_lock t, pt_pcs := (pt_pcs t)(i := RelUnlock c),
      pt_refs := pt_refs t\<rparr>)"
    using c lk by (intro pt_move [OF W]) auto
  then show ?thesis by simp
qed

lemma pt_inv_init:
  assumes "pt_init N t"
  shows "pt_inv N t"
proof -
  obtain z where z: "pt_heap t = task_management_init N z" using assms by (auto simp: pt_init_def)
  have R: "pt_refs t = (\<lambda>_. 0)" using assms by (auto simp: pt_init_def)
  obtain FL RL where "counted_with N (\<lambda>_. 0) (pt_heap t) FL RL"
    using task_management_init_counted [of N z] z by (auto simp: counted_def)
  then have "pt_with N t FL RL" using assms R
    by (auto simp: pt_with_def pt_init_def counted_with_def refs_ok_def unshared_def holder_def)
  then show ?thesis by (auto simp: pt_inv_def)
qed

lemma pt_inv_step:
  assumes I: "pt_inv N t" and st: "pt_step N t u"
  shows "pt_inv N u"
proof -
  obtain FL RL where W: "pt_with N t FL RL" using I by (auto simp: pt_inv_def)
  note D = pt_withD [OF W]
  have lk: "pt_lock t c" if "has_lock (pt_pcs t i) = Some c" for i c
    using D(5) holder_at [of has_lock "pt_pcs t" i c] that by simp
  have pc: "pt_inv N (t\<lparr>pt_pcs := (pt_pcs t)(i := p)\<rparr>)"
    if "in_transit p = in_transit (pt_pcs t i)" "has_lock p = has_lock (pt_pcs t i)"
      "ppc_ok N (pt_heap t) i p" for i p
  proof -
    have "pt_inv N (t\<lparr>pt_lock := pt_lock t, pt_pcs := (pt_pcs t)(i := p)\<rparr>)"
      using that lk by (intro pt_pc [OF W]) auto
    then show ?thesis by simp
  qed
  from st show ?thesis
  proof (cases rule: pt_step.cases)
    case (create_check i task)
    then show ?thesis using pc [of _ i] by simp
  next
    case (create_lock i c task)
    then show ?thesis using D(6) [of i] by (auto intro!: pt_pc [OF W])
  next
    case (create_take i c task s)
    then show ?thesis using pt_take [OF W, of i c task] by simp
  next
    case (create_unlock i c task)
    then show ?thesis using D(6) [of i] by (auto intro!: pt_pc [OF W] split: if_splits)
  next
    case (create_none i c task)
    then show ?thesis using pc [of PIdle i] by simp
  next
    case (create_pop i c task s p)
    then show ?thesis using pt_pop [OF W, of i c task p] by simp
  next
    case (create_init i c task p)
    then show ?thesis using pt_init_job [OF W, of i c task p] by simp
  next
    case (get_ref i p)
    then show ?thesis using pt_get [OF W, of p] by (simp add: get_job_ref_def)
  next
    case (put_ref i p prev)
    then show ?thesis using pt_put [OF W, of p i] by simp
  next
    case (rel_owner i p c)
    then show ?thesis using pc [of _ i] D(6) [of i] by auto
  next
    case (rel_own i p)
    then show ?thesis using pt_link [OF W, of i p "RelOwnSet p"] D(6) [of i] by (simp add: upd_job_def)
  next
    case (rel_own_set i p s)
    then show ?thesis using pt_own_set [OF W, of i p] by simp
  next
    case (rel_lock i c p)
    then show ?thesis using D(6) [of i] by (auto intro!: pt_pc [OF W])
  next
    case (rel_remote i c p)
    then show ?thesis using pt_link [OF W, of i p "RelRemoteSet c p"] D(6) [of i] by (simp add: upd_job_def)
  next
    case (rel_remote_set i c p s)
    then show ?thesis using pt_remote_set [OF W, of i c p] by simp
  next
    case (rel_unlock i c)
    then show ?thesis using lk [of i c] by (auto intro!: pt_pc [OF W] split: if_splits)
  qed
qed

interpretation pool_run: inductive_invariant "pt_init N" "pt_step N" "pt_inv N" for N
  by unfold_locales (auto intro: pt_inv_init pt_inv_step)

section \<open>Waiting\<close>

text \<open>A thread that waits for no mutex can go on, and so can one whose mutex is free.\<close>

lemma pt_moves:
  assumes "pt_pcs t i \<noteq> PIdle"
    and "\<And>c task. pt_pcs t i = CreateLock c task \<Longrightarrow> \<not> pt_lock t c"
    and "\<And>c p. pt_pcs t i = RelLock c p \<Longrightarrow> \<not> pt_lock t c"
  shows "\<exists>u. pt_step N t u \<and> pt_pcs u i \<noteq> pt_pcs t i"
proof -
  have go: ?thesis if "pt_step N t u" "pt_pcs u i \<noteq> pt_pcs t i" for u using that by blast
  show ?thesis
  proof (cases "pt_pcs t i")
    case (CreateLock c task)
    from go [OF pt_step.create_lock [OF CreateLock assms(2) [OF CreateLock]]] CreateLock
    show ?thesis by simp
  next
    case (CreateTake c task)
    from go [OF pt_step.create_take [OF CreateTake refl]] CreateTake show ?thesis by simp
  next
    case (CreateUnlock c task)
    from go [OF pt_step.create_unlock [OF CreateUnlock]] CreateUnlock show ?thesis by simp
  next
    case (CreatePop c task)
    show ?thesis
      using go [OF pt_step.create_none [OF CreatePop]] go [OF pt_step.create_pop [OF CreatePop refl]]
        CreatePop by (cases "free_list (pt_heap t) c") simp_all
  next
    case (CreateInit c task p)
    from go [OF pt_step.create_init [OF CreateInit]] CreateInit show ?thesis by simp
  next
    case (RelOwner p)
    from go [OF pt_step.rel_owner [OF RelOwner refl]] RelOwner show ?thesis by simp
  next
    case (RelOwn p)
    from go [OF pt_step.rel_own [OF RelOwn]] RelOwn show ?thesis by simp
  next
    case (RelOwnSet p)
    from go [OF pt_step.rel_own_set [OF RelOwnSet refl]] RelOwnSet show ?thesis by simp
  next
    case (RelLock c p)
    from go [OF pt_step.rel_lock [OF RelLock assms(3) [OF RelLock]]] RelLock show ?thesis by simp
  next
    case (RelRemote c p)
    from go [OF pt_step.rel_remote [OF RelRemote]] RelRemote show ?thesis by simp
  next
    case (RelRemoteSet c p)
    from go [OF pt_step.rel_remote_set [OF RelRemoteSet refl]] RelRemoteSet show ?thesis by simp
  next
    case (RelUnlock c)
    from go [OF pt_step.rel_unlock [OF RelUnlock]] RelUnlock show ?thesis by simp
  qed (use assms(1) in simp)
qed

section \<open>The property\<close>

text \<open>C13: safety. Whatever the interleaving of the accesses of the cores and the timer: the counter of
  a job that has references is their number, and no thread is putting it back or handing it out; a job
  on its way between its free list and its users is in the hands of one thread and comes from the pool
  of its core; with all threads out of these functions the pools are exact, so that the sequential
  functions describe them; and the threads never block each other for good.\<close>

theorem pool_threads_exact:
  assumes "reachable (pt_init N) (pt_step N) t"
  shows "(\<forall>p. 0 < pt_refs t p \<longrightarrow> refcount (jobs (pt_heap t) p) = int (pt_refs t p)
          \<and> (\<forall>i. in_transit (pt_pcs t i) \<noteq> Some p))
     \<and> (\<forall>i j p. in_transit (pt_pcs t i) = Some p \<longrightarrow> in_transit (pt_pcs t j) = Some p \<longrightarrow> i = j)
     \<and> (\<forall>i c task p. pt_pcs t i = CreateInit c task p \<longrightarrow> pool_of p = i \<and> slot_of p < JOBS_PER_CORE)
     \<and> ((\<forall>i. pt_pcs t i = PIdle) \<longrightarrow> counted N (pt_refs t) (pt_heap t))
     \<and> ((\<exists>i. pt_pcs t i \<noteq> PIdle)
          \<longrightarrow> (\<exists>i u. pt_pcs t i \<noteq> PIdle \<and> pt_step N t u \<and> pt_pcs u i \<noteq> pt_pcs t i))"
proof -
  obtain FL RL where W: "pt_with N t FL RL"
    using pool_run.inv_reachable [OF assms] by (auto simp: pt_inv_def)
  note D = pt_withD [OF W]
  have 1: "refcount (jobs (pt_heap t) p) = int (pt_refs t p)
      \<and> (\<forall>i. in_transit (pt_pcs t i) \<noteq> Some p)" if "0 < pt_refs t p" for p
    using live_facts(3,4) [OF W that] by (auto simp: live_job_def holder_def)
  have 2: "\<forall>i j p. in_transit (pt_pcs t i) = Some p \<longrightarrow> in_transit (pt_pcs t j) = Some p \<longrightarrow> i = j"
    using D(3) by (simp add: unshared_def)
  have 3: "pool_of p = i \<and> slot_of p < JOBS_PER_CORE" if "pt_pcs t i = CreateInit c task p" for i c task p
    using transit_facts(1) [OF W, of i p] D(6) [of i] that by (simp add: in_pools_def)
  have 4: "counted N (pt_refs t) (pt_heap t)" if "\<forall>i. pt_pcs t i = PIdle"
  proof -
    have "\<not> holder in_transit (pt_pcs t) p" for p using that by (simp add: holder_def)
    then have "counted_with N (pt_refs t) (pt_heap t) FL RL"
      using D(1,2) by (simp add: counted_with_def refs_ok_def)
    then show ?thesis by (auto simp: counted_def)
  qed
  have 5: "\<exists>i u. pt_pcs t i \<noteq> PIdle \<and> pt_step N t u \<and> pt_pcs u i \<noteq> pt_pcs t i" if "pt_pcs t i \<noteq> PIdle" for i
  proof (cases "\<exists>c. pt_lock t c")
    case True
    then obtain c j where "has_lock (pt_pcs t j) = Some c" using D(5) by (auto simp: holder_def)
    then have "pt_pcs t j \<noteq> PIdle" "\<exists>u. pt_step N t u \<and> pt_pcs u j \<noteq> pt_pcs t j"
      by (auto intro!: pt_moves)
    then show ?thesis by blast
  next
    case False
    then show ?thesis using pt_moves [OF that] that by blast
  qed
  show ?thesis using 1 2 3 4 5 by blast
qed

text \<open>A core creates a job, and the timer drops it.\<close>

definition pool_start :: pool_threads where
  "pool_start = \<lparr>pt_heap = task_management_init 2 zero_heap, pt_lock = (\<lambda>_. False),
     pt_pcs = (\<lambda>_. PIdle), pt_refs = (\<lambda>_. 0)\<rparr>"

theorem pool_threads_exact_witness:
  "\<exists>(t :: pool_threads) p. pt_refs t p = 1 \<and> refcount (jobs (pt_heap t) p) = 1
     \<and> counted 2 (pt_refs t) (pt_heap t) \<and> pool_of p = 0"
proof -
  define h where "h = task_management_init 2 zero_heap"
  have st: "pt_heap pool_start = h" "pt_pcs pool_start = (\<lambda>_. PIdle)" "pt_refs pool_start = (\<lambda>_. 0)"
    "\<not> pt_lock pool_start c" for c by (simp_all add: pool_start_def h_def)
  obtain FL RL where P: "pools 2 h FL RL" "\<forall>c<2. FL c = all_slots c JOBS_PER_CORE"
    unfolding h_def using task_management_init_pools [of 2 zero_heap] by blast
  have "FL 0 \<noteq> []" using P(2) by (simp add: all_slots_def JOBS_PER_CORE_def del: upt_rec_numeral upt_conv_Nil)
  then obtain p where p: "free_list h 0 = Some p" using free_hd(2) [OF P(1), of 0] by auto
  define t1 where "t1 = pool_start\<lparr>pt_pcs := (pt_pcs pool_start)(0 := CreatePop 0 pool_demo_task)\<rparr>"
  define t2 where "t2 = t1\<lparr>pt_heap := h\<lparr>free_list := (free_list h)(0 := next_free (jobs h p))\<rparr>,
    pt_pcs := (pt_pcs t1)(0 := CreateInit 0 pool_demo_task p)\<rparr>"
  define t3 where "t3 = t2\<lparr>pt_heap := upd_job p (new_job_fields pool_demo_task 0) (pt_heap t2),
    pt_pcs := (pt_pcs t2)(0 := PIdle), pt_refs := (pt_refs t2)(p := 1)\<rparr>"
  have "reachable (pt_init 2) (pt_step 2) pool_start"
    by (rule reachable.start) (use st in \<open>auto simp: pt_init_def h_def\<close>)
  moreover have "pt_step 2 pool_start t1"
    using pt_step.create_check [of pool_start 0 2 pool_demo_task] p by (simp add: t1_def st)
  ultimately have "reachable (pt_init 2) (pt_step 2) t1" by (rule reachable.move)
  moreover have "pt_step 2 t1 t2"
    using pt_step.create_pop [of t1 0 0 pool_demo_task h p 2] p
    by (simp add: t2_def t1_def st)
  ultimately have R2: "reachable (pt_init 2) (pt_step 2) t2" by (rule reachable.move)
  have "pt_step 2 t2 t3"
    using pt_step.create_init [of t2 0 0 pool_demo_task p 2] by (simp add: t3_def t2_def)
  with R2 have R3: "reachable (pt_init 2) (pt_step 2) t3" by (rule reachable.move)
  have i: "pt_pcs t3 i = PIdle" for i by (simp add: t3_def t2_def t1_def st)
  have r: "pt_refs t3 p = 1" by (simp add: t3_def)
  have "pt_pcs t2 0 = CreateInit 0 pool_demo_task p" by (simp add: t2_def)
  then have "pool_of p = 0" using pool_threads_exact [OF R2] by blast
  moreover have "refcount (jobs (pt_heap t3) p) = 1" "counted 2 (pt_refs t3) (pt_heap t3)"
    using pool_threads_exact [OF R3] i r by auto
  ultimately show ?thesis using r by blast
qed

end
