(* ===== verification/ModeInv.thy ===== *)
theory ModeInv
  imports CoreInv
begin

text \<open>
  The mode change of \<^verbatim>\<open>sched_core.c\<close>: which jobs stay and which are discarded, with which deadlines
  and budgets, that no job is lost or duplicated, and that the two loops end.
\<close>

section \<open>The filter loop\<close>

definition mode_drop :: "nat \<Rightarrow> job_struct \<Rightarrow> bool" where
  "mode_drop l j \<longleftrightarrow> t_crit_level (ptask j) < l \<and> \<not> is_being_offered j"

definition mode_target :: "nat \<Rightarrow> qid \<Rightarrow> nat \<Rightarrow> job_struct \<Rightarrow> qid" where
  "mode_target c dest l j = (if mode_drop l j then DiscardL c else dest)"

definition moved_job :: "nat \<Rightarrow> qid \<Rightarrow> nat \<Rightarrow> job_struct \<Rightarrow> job_struct" where
  "moved_job c dest l j = (retune l j)\<lparr>job_link := LinkIn (mode_target c dest l j)\<rparr>"

text \<open>The two uses of the loop.\<close>

definition filter_pair :: "nat \<Rightarrow> qid \<Rightarrow> qid \<Rightarrow> bool" where
  "filter_pair c src dest \<longleftrightarrow>
     src = ReadyQ c \<and> dest = NewReadyQ c \<or> src = ReplicaQ c \<and> dest = NewReplicaQ c"

lemma filter_pairD:
  assumes "filter_pair c src dest"
  shows "src \<noteq> dest" and "src \<noteq> DiscardL c" and "dest \<noteq> DiscardL c"
    and "entry_ok src j \<Longrightarrow> entry_ok dest j" and "entry_ok src j \<Longrightarrow> \<not> is_being_offered j \<Longrightarrow> entry_ok (DiscardL c) j"
    and "queue_key dest j = virtual_deadline j" and "queue_key (DiscardL c) j = virtual_deadline j"
    and "entry_ok src (k\<lparr>state := state j, is_replica := is_replica j\<rparr>) = entry_ok src j"
  using assms by (auto simp: filter_pair_def)

lemma entry_ok_cong:
  "state j = state k \<Longrightarrow> is_replica j = is_replica k \<Longrightarrow>
   is_being_offered j = is_being_offered k \<Longrightarrow> entry_ok q j \<longleftrightarrow> entry_ok q k"
  by (cases q) simp_all

lemma filter_job_eq:
  "filter_job_for_mode_change c dest p s =
     (let l = local_criticality_level (cstate s c); s = upd_job p (retune l) s
      in if mode_drop l (jobs s p) then add_to_queue_sorted (Some (DiscardL c)) (Some p) s
         else add_to_queue_sorted (Some dest) (Some p) s)"
  by (simp add: filter_job_for_mode_change_def retune_def [abs_def] mode_drop_def Let_def)

definition filter_step_state :: "nat \<Rightarrow> qid \<Rightarrow> qid \<Rightarrow> jptr \<Rightarrow> sys \<Rightarrow> sys" where
  "filter_step_state c src dest p s =
     (let l = local_criticality_level (cstate s c)
      in linked_state virtual_deadline (mode_target c dest l (jobs s p)) p
           (upd_job p (retune l) (unlinked_state src p s)))"

lemma filter_step:
  assumes I: "sys_inv N B H s" and q: "queues s src = p # xs" and F: "filter_pair c src dest"
  shows "pop_next_job src s = Some (Some p, unlinked_state src p s)"
    and "filter_job_for_mode_change c dest p (unlinked_state src p s)
           = Some (filter_step_state c src dest p s)"
    and "sys_inv N B H (filter_step_state c src dest p s)"
proof -
  let ?u = "unlinked_state src p s" and ?l = "local_criticality_level (cstate s c)"
  let ?v = "upd_job p (retune ?l) ?u"
  have link: "job_link (jobs s p) = LinkIn src" using queues_entry [OF I, of p src] q by simp
  have e: "entry_ok src (jobs s p)" using linked_entry_ok [OF sys_invD(1) [OF I] link] .
  show "pop_next_job src s = Some (Some p, ?u)"
    using pop_next_job_eq [OF sys_invD(1) [OF I] q] .
  note d = sys_inv_del [OF I link]
  have V: "sys_inv N B (add_mset p H) ?v"
    using d by (intro sys_inv_upd_unlinked) (simp_all add: same_count_def unlinked_def retune_def)
  have uv: "unlinked (jobs ?v p)" and dr: "mode_drop ?l (jobs ?v p) = mode_drop ?l (jobs s p)"
    by (simp_all add: unlinked_def retune_def mode_drop_def)
  have ev: "entry_ok src (jobs ?v p)" using e by (subst entry_ok_cong [of _ "jobs s p"]) (simp_all add: retune_def)
  have nr: "not_running N ?v p" using d(2) by (simp add: not_running_def)
  show "filter_job_for_mode_change c dest p ?u = Some (filter_step_state c src dest p s)"
    using add_to_queue_sorted_eq [OF uv] dr
    by (simp add: filter_job_eq Let_def filter_step_state_def mode_target_def
        del: upd_job_fields)
  have "entry_ok (mode_target c dest ?l (jobs s p)) (jobs ?v p)"
  proof (cases "mode_drop ?l (jobs s p)")
    case True
    then have "\<not> is_being_offered (jobs ?v p)" by (simp add: mode_drop_def retune_def)
    from filter_pairD(5) [OF F ev this] True show ?thesis by (simp only: mode_target_def if_True)
  next
    case False
    with filter_pairD(4) [OF F ev] show ?thesis by (simp only: mode_target_def if_False)
  qed
  then show "sys_inv N B H (filter_step_state c src dest p s)"
    unfolding filter_step_state_def Let_def
    using V uv nr filter_pairD(6,7) [OF F]
    by (intro sys_inv_add) (auto simp: mode_target_def)
qed

lemma filter_step_fields:
  assumes "filter_pair c src dest" and "queues s src = p # xs"
  defines "l \<equiv> local_criticality_level (cstate s c)"
  defines "t \<equiv> filter_step_state c src dest p s"
  shows "same_rest s t"
    and "jobs t = (jobs s)(p := moved_job c dest l (jobs s p))"
    and "queues t src = xs"
    and "q \<noteq> src \<Longrightarrow> mset (queues t q)
      = (if q = mode_target c dest l (jobs s p) then add_mset p (mset (queues s q))
         else mset (queues s q))"
  using filter_pairD(1,2,3) [OF assms(1)] assms(2)
  by (auto simp: t_def filter_step_state_def l_def moved_job_def retune_def linked_state_def
      unlinked_state_def mode_target_def same_rest_def Let_def)

text \<open>
  The whole loop ends; it moves every job of the source to its target, changes those jobs only, and
  keeps the multisets.
\<close>

definition filtered ::
  "nat \<Rightarrow> qid \<Rightarrow> qid \<Rightarrow> nat \<Rightarrow> jptr list \<Rightarrow> sys \<Rightarrow> sys \<Rightarrow> bool" where
  "filtered c src dest l xs s t \<longleftrightarrow> same_rest s t \<and> queues t src = []
     \<and> (\<forall>p. jobs t p = (if p \<in> set xs then moved_job c dest l (jobs s p) else jobs s p))
     \<and> (\<forall>q. q \<noteq> src \<longrightarrow> mset (queues t q) = mset (queues s q)
          + mset (filter (\<lambda>p. mode_target c dest l (jobs s p) = q) xs))"

lemma filter_loop_ok:
  assumes "sys_inv N B H s" and "queues s src = xs" and F: "filter_pair c src dest"
    and l: "l = local_criticality_level (cstate s c)"
  shows "wp (filter_queue_for_mode_change src dest c s)
           (\<lambda>t. sys_inv N B H t \<and> filtered c src dest l xs s t)"
  using assms(1,2,4)
proof (induction xs arbitrary: s)
  case Nil
  then show ?case by (subst filter_queue_for_mode_change.simps) (simp add: filtered_def)
next
  case (Cons p xs)
  let ?t = "filter_step_state c src dest p s"
  note st = filter_step [OF Cons.prems(1,2) F]
  note fl = filter_step_fields [OF F Cons.prems(2)]
  have dist: "p \<notin> set xs" using queue_okD(1) [OF sys_invD(1) [OF Cons.prems(1)], of src] Cons.prems(2) by simp
  have "local_criticality_level (cstate ?t c) = l" using fl(1) Cons.prems(3) by (simp add: same_rest_def)
  then have "wp (filter_queue_for_mode_change src dest c ?t)
      (\<lambda>t. sys_inv N B H t \<and> filtered c src dest l xs ?t t)"
    using Cons.IH [of ?t] st(3) fl(3) by simp
  then have "wp (filter_queue_for_mode_change src dest c s)
      (\<lambda>t. sys_inv N B H t \<and> filtered c src dest l xs ?t t)"
    using st(1,2) Cons.prems(2) by (subst filter_queue_for_mode_change.simps) simp
  then show ?case
  proof (rule wp_mono)
    fix t assume t: "sys_inv N B H t \<and> filtered c src dest l xs ?t t"
    have same: "jobs ?t x = jobs s x" if "x \<in> set xs" for x using that dist fl(2) by auto
    have "filter (\<lambda>p. mode_target c dest l (jobs ?t p) = q) xs
        = filter (\<lambda>p. mode_target c dest l (jobs s p) = q) xs" for q
      using same by (intro filter_cong) simp_all
    moreover have "mset (queues ?t q) = mset (queues s q)
        + mset (filter (\<lambda>p. mode_target c dest l (jobs s p) = q) [p])" if "q \<noteq> src" for q
      using fl(4) [OF that] Cons.prems(3) by simp
    moreover have "same_rest s t" using t fl(1) same_rest_trans by (auto simp: filtered_def)
    ultimately show "sys_inv N B H t \<and> filtered c src dest l (p # xs) s t"
      using t same fl(2) Cons.prems(3) dist by (auto simp: filtered_def)
  qed
qed

section \<open>The mode change\<close>

text \<open>The state in which the loops start: the running job, if any, is back in the queue of its kind.\<close>

definition stop_and_requeue :: "nat \<Rightarrow> sys \<Rightarrow> sys option" where
  "stop_and_requeue c s =
     (case running_job (cstate s c) of
        None \<Rightarrow> Some s
      | Some p \<Rightarrow> add_ready_or_replica c p
          (upd_core c (is_idle_update (\<lambda>_. True) \<circ> running_job_update (\<lambda>_. None))
             (upd_job p (state_update (\<lambda>_. JOB_STATE_READY)) s)))"

definition requeued :: "nat \<Rightarrow> sys \<Rightarrow> sys \<Rightarrow> bool" where
  "requeued c s t \<longleftrightarrow> proc_state t = proc_state s \<and> sent_packets t = sent_packets s \<and> running_job (cstate t c) = None
     \<and> is_idle (cstate t c)
     \<and> (\<forall>d. d \<noteq> c \<longrightarrow> cstate t d = cstate s d)
     \<and> local_criticality_level (cstate t c) = local_criticality_level (cstate s c)
     \<and> decision_point (cstate t c) = decision_point (cstate s c)
     \<and> rq_lock (cstate t c) = rq_lock (cstate s c)
     \<and> (\<forall>q. q \<noteq> ReadyQ c \<longrightarrow> q \<noteq> ReplicaQ c \<longrightarrow> queues t q = queues s q)
     \<and> mset (queues t (ReadyQ c)) + mset (queues t (ReplicaQ c))
        = mset (queues s (ReadyQ c)) + mset (queues s (ReplicaQ c))
          + mset (opt_list (running_job (cstate s c)))
     \<and> (\<forall>p. \<exists>l st. jobs t p = (jobs s p)\<lparr>job_link := l, state := st\<rparr>)"

lemma requeue_running_ok:
  assumes I: "sys_inv N B H s" and c: "c < N" and p: "running_job (cstate s c) = Some p"
    and f: "\<And>x. running_job (f x) = None"
      "\<And>x. migration_request_queue (f x) = migration_request_queue x"
  defines "u \<equiv> upd_job p (state_update (\<lambda>_. JOB_STATE_READY)) (upd_core c f s)"
  shows "unlinked (jobs u p)"
    and "sys_inv N B H (linked_state virtual_deadline (kind_queue c (jobs s p)) p u)"
proof -
  note n = running_link [OF I c p]
  note st = sys_inv_stop [OF I p c f]
  have U: "sys_inv N B (add_mset p H) u" unfolding u_def
    using st n by (intro sys_inv_upd_unlinked) (simp_all add: same_count_def unlinked_def)
  show un: "unlinked (jobs u p)" using n(2) by (simp add: u_def unlinked_def)
  have "not_running N u p" using st(2) by (simp add: u_def not_running_def)
  moreover have k: "kind_queue c (jobs u p) = kind_queue c (jobs s p)" "state (jobs u p) = JOB_STATE_READY"
    by (simp_all add: u_def kind_queue_def)
  ultimately show "sys_inv N B H (linked_state virtual_deadline (kind_queue c (jobs s p)) p u)"
    using sys_inv_add_kind [OF U un, of c] unfolding k(1) by simp
qed

lemma stop_and_requeue_ok:
  assumes L: "sys_inv N B {#} s" and c: "c < N"
    and idle: "running_job (cstate s c) = None \<Longrightarrow> is_idle (cstate s c)"
  shows "wp (stop_and_requeue c s) (\<lambda>t. sys_inv N B {#} t \<and> requeued c s t)"
proof (cases "running_job (cstate s c)")
  case None
  have "\<exists>l st. jobs s p = (jobs s p)\<lparr>job_link := l, state := st\<rparr>" for p
    by (rule exI [of _ "job_link (jobs s p)"], rule exI [of _ "state (jobs s p)"]) simp
  with None show ?thesis using L idle by (simp add: stop_and_requeue_def requeued_def opt_list_def)
next
  case (Some p)
  let ?f = "is_idle_update (\<lambda>_. True) \<circ> running_job_update (\<lambda>_. None)"
  let ?u = "upd_job p (state_update (\<lambda>_. JOB_STATE_READY)) (upd_core c ?f s)"
  let ?q = "kind_queue c (jobs s p)"
  let ?t = "linked_state virtual_deadline ?q p ?u"
  note R = requeue_running_ok [OF L c Some, of ?f, simplified]
  have "kind_queue c (jobs ?u p) = ?q" by (simp add: kind_queue_def)
  then have e: "stop_and_requeue c s = Some ?t"
    using Some R(1) by (simp add: stop_and_requeue_def add_ready_or_replica_eq upd_job_upd_core)
  have "\<exists>l st. jobs ?t x = (jobs s x)\<lparr>job_link := l, state := st\<rparr>" for x
    by (rule exI [of _ "job_link (jobs ?t x)"], rule exI [of _ "state (jobs ?t x)"]) simp
  then have "requeued c s ?t" unfolding requeued_def
    using Some by (auto simp: kind_queue_def linked_state_def opt_list_def)
  then show ?thesis unfolding e using R(2) by simp
qed

lemma sys_inv_splice:
  assumes I: "sys_inv N B H s" and "queues s r = []" and "l \<noteq> r"
    and "\<And>j. queue_key r j = queue_key l j" and "\<And>j. entry_ok r j = entry_ok l j"
  shows "sys_inv N B H (splice_jobs l r s)"
proof -
  note D = sys_invD [OF I]
  let ?t = "splice_jobs l r s"
  have link: "x \<in> set (queues s l) \<longleftrightarrow> job_link (jobs s x) = LinkIn l" for x
    using queues_entry [OF I] .
  have F: "core_states ?t = core_states s" "free_list ?t = free_list s"
    "remote_free_list ?t = remote_free_list s" by (simp_all add: splice_jobs_def)
  have r: "refs N ?t x = refs N s x" for x
    using link [of x] by (intro refs_same_link) (simp_all add: splice_jobs_def unlinked_def)
  have "counted N (\<lambda>p. refs N s p + count H p) ?t"
    using D(2) F(2,3) by (rule counted_same) (simp add: splice_jobs_def same_pool_def)
  moreover have "run_ok N ?t"
    using D(3) link by (auto simp: run_ok_def splice_jobs_def)
  moreover have "offers_ok N ?t"
    using D(5) by (rule offers_ok_mono) (auto simp: splice_jobs_def intro: offer_ok_link)
  ultimately show ?thesis
    using D(4) queues_ok_splice [OF D(1) assms(2-5)] F(1) by (simp add: sys_inv_def r)
qed

lemma handle_mode_change_alt:
  assumes "locals_empty s"
  shows "handle_mode_change c l s = do {
     let s = upd_core c (local_criticality_level_update (\<lambda>_. l))
               (upd_proc (system_criticality_level_update (\<lambda>_. l)) (set_decision_point c s));
     s \<leftarrow> LOCK_RQ c s;
     s \<leftarrow> stop_and_requeue c s;
     s \<leftarrow> filter_queue_for_mode_change (ReadyQ c) (NewReadyQ c) c
            (s\<lparr>queues := (queues s)(NewReadyQ c := [], NewReplicaQ c := [])\<rparr>);
     s \<leftarrow> filter_queue_for_mode_change (ReplicaQ c) (NewReplicaQ c) c s;
     Some (UNLOCK_RQ c (splice_jobs (NewReplicaQ c) (ReplicaQ c)
             (splice_jobs (NewReadyQ c) (ReadyQ c) s))) }"
proof -
  have "(case running_job (cstate s c) of None \<Rightarrow> Some s
     | Some p \<Rightarrow> add_ready_or_replica c p (upd_core c (is_idle_update (\<lambda>_. True))
         (upd_job p (state_update (\<lambda>_. JOB_STATE_READY))
           (upd_core c (running_job_update (\<lambda>_. None)) s)))) = stop_and_requeue c s" for s
    by (simp add: stop_and_requeue_def upd_job_upd_core upd_core_upd_core split: option.split)
  then show ?thesis by (simp add: handle_mode_change_def Let_def cong: option.case_cong)
qed

definition mode_jobs :: "nat \<Rightarrow> sys \<Rightarrow> jptr multiset" where
  "mode_jobs c s = mset (queues s (ReadyQ c)) + mset (queues s (ReplicaQ c))
                   + mset (opt_list (running_job (cstate s c)))"

definition mode_changed :: "nat \<Rightarrow> nat \<Rightarrow> sys \<Rightarrow> sys \<Rightarrow> bool" where
  "mode_changed c l s t \<longleftrightarrow>
     mset (queues t (ReadyQ c)) + mset (queues t (ReplicaQ c))
       = filter_mset (\<lambda>p. \<not> mode_drop l (jobs s p)) (mode_jobs c s)
     \<and> mset (queues t (DiscardL c)) = mset (queues s (DiscardL c))
       + filter_mset (\<lambda>p. mode_drop l (jobs s p)) (mode_jobs c s)
     \<and> (\<forall>p\<in>#mode_jobs c s.
          virtual_deadline (jobs t p) = arrival_time (jobs s p) + relative_tuned_deadlines (jobs s p) ! l
          \<and> wcet (jobs t p) = of_u32 (t_wcet (ptask (jobs s p)) ! l))
     \<and> running_job (cstate t c) = None \<and> local_criticality_level (cstate t c) = l
     \<and> proc_state t = (proc_state s)\<lparr>system_criticality_level := l\<rparr> \<and> decision_point (cstate t c)
     \<and> sent_packets t = sent_packets s"

lemma mode_drop_cong:
  "parent_task j = parent_task k \<Longrightarrow> is_being_offered j = is_being_offered k \<Longrightarrow>
   mode_drop l j = mode_drop l k"
  by (simp add: mode_drop_def)

text \<open>The two filter loops and the two splices together, with the lock held.\<close>

definition refill :: "nat \<Rightarrow> sys \<Rightarrow> sys option" where
  "refill c s = do {
     s \<leftarrow> filter_queue_for_mode_change (ReadyQ c) (NewReadyQ c) c s;
     s \<leftarrow> filter_queue_for_mode_change (ReplicaQ c) (NewReplicaQ c) c s;
     Some (splice_jobs (NewReplicaQ c) (ReplicaQ c) (splice_jobs (NewReadyQ c) (ReadyQ c) s)) }"

lemma refill_ok:
  assumes I: "sys_inv N B {#} s" and l: "local_criticality_level (cstate s c) = l"
    and E: "locals_empty s"
  shows "wp (refill c s)
           (\<lambda>t. sys_inv N B {#} t \<and> same_rest s t \<and> locals_empty t
              \<and> mset (queues t (ReadyQ c)) = filter_mset (\<lambda>p. \<not> mode_drop l (jobs s p)) (mset (queues s (ReadyQ c)))
              \<and> mset (queues t (ReplicaQ c)) = filter_mset (\<lambda>p. \<not> mode_drop l (jobs s p)) (mset (queues s (ReplicaQ c)))
              \<and> mset (queues t (DiscardL c)) = mset (queues s (DiscardL c))
                + filter_mset (\<lambda>p. mode_drop l (jobs s p)) (mset (queues s (ReadyQ c)) + mset (queues s (ReplicaQ c)))
              \<and> (\<forall>p\<in>set (queues s (ReadyQ c)) \<union> set (queues s (ReplicaQ c)). \<exists>k.
                   jobs t p = (retune l (jobs s p))\<lparr>job_link := k\<rparr>))"
proof -
  let ?R = "queues s (ReadyQ c)" and ?P = "queues s (ReplicaQ c)"
  have F1: "filter_pair c (ReadyQ c) (NewReadyQ c)" and F2: "filter_pair c (ReplicaQ c) (NewReplicaQ c)"
    by (simp_all add: filter_pair_def)
  have E': "queues s (NewReadyQ d) = []" "queues s (NewReplicaQ d) = []" for d
    using E by (simp_all add: locals_empty_def)
  obtain t where t: "filter_queue_for_mode_change (ReadyQ c) (NewReadyQ c) c s = Some t"
    and It: "sys_inv N B {#} t" and Ft: "filtered c (ReadyQ c) (NewReadyQ c) l ?R s t"
    using filter_loop_ok [OF I refl F1] l by (auto simp: wp_iff)
  have lt: "l = local_criticality_level (cstate t c)" using Ft l by (simp add: filtered_def same_rest_def)
  obtain u where u: "filter_queue_for_mode_change (ReplicaQ c) (NewReplicaQ c) c t = Some u"
    and Iu: "sys_inv N B {#} u" and Fu: "filtered c (ReplicaQ c) (NewReplicaQ c) l (queues t (ReplicaQ c)) t u"
    using filter_loop_ok [OF It refl F2 lt] by (auto simp: wp_iff)
  have Qt: "mset (queues t q) = mset (queues s q)
      + mset (filter (\<lambda>p. mode_target c (NewReadyQ c) l (jobs s p) = q) ?R)" if "q \<noteq> ReadyQ c" for q
    using Ft that by (simp add: filtered_def)
  have Pt: "mset (queues t (ReplicaQ c)) = mset ?P" using Qt [of "ReplicaQ c"] by (simp add: mode_target_def)
  then have Pset: "set (queues t (ReplicaQ c)) = set ?P" by (metis set_mset_mset)
  have Qu: "mset (queues u q) = mset (queues t q)
      + mset (filter (\<lambda>p. mode_target c (NewReplicaQ c) l (jobs t p) = q) (queues t (ReplicaQ c)))"
    if "q \<noteq> ReplicaQ c" for q
    using Fu that by (simp add: filtered_def)
  have disj: "p \<notin> set ?R" if "p \<in> set ?P" for p
    using that queues_entry [OF I, of p "ReadyQ c"] queues_entry [OF I, of p "ReplicaQ c"] by simp
  have Jt: "jobs t p = (if p \<in> set ?R then moved_job c (NewReadyQ c) l (jobs s p) else jobs s p)" for p
    using Ft by (simp add: filtered_def)
  have Ju: "jobs u p = (if p \<in> set ?P then moved_job c (NewReplicaQ c) l (jobs t p) else jobs t p)" for p
    using Fu Pset by (simp add: filtered_def)
  have flt: "mset (filter (\<lambda>p. mode_target c (NewReplicaQ c) l (jobs t p) = q) (queues t (ReplicaQ c)))
      = filter_mset (\<lambda>p. mode_target c (NewReplicaQ c) l (jobs s p) = q) (mset ?P)" for q
  proof -
    have "mset (filter (\<lambda>p. mode_target c (NewReplicaQ c) l (jobs t p) = q) (queues t (ReplicaQ c)))
        = filter_mset (\<lambda>p. mode_target c (NewReplicaQ c) l (jobs t p) = q) (mset ?P)"
      using Pt by (simp add: mset_filter)
    also have "\<dots> = filter_mset (\<lambda>p. mode_target c (NewReplicaQ c) l (jobs s p) = q) (mset ?P)"
      using disj Jt by (intro filter_mset_cong) auto
    finally show ?thesis .
  qed
  have Qu': "mset (queues u q) = mset (queues t q)
      + filter_mset (\<lambda>p. mode_target c (NewReplicaQ c) l (jobs s p) = q) (mset ?P)"
    if "q \<noteq> ReplicaQ c" for q
    using Qu [OF that] unfolding flt .
  have M0: "\<not> mode_target c d l j = q" if "q \<noteq> DiscardL c" "q \<noteq> d" for d q j
    using that by (simp add: mode_target_def)
  have M: "mode_target c d l j = DiscardL c \<longleftrightarrow> mode_drop l j" if "d \<noteq> DiscardL c" for d j
    using that by (simp add: mode_target_def)
  have M': "mode_target c d l j = d \<longleftrightarrow> \<not> mode_drop l j" if "d \<noteq> DiscardL c" for d j
    using that by (auto simp: mode_target_def)
  have Nr: "mset (queues u (NewReadyQ c)) = filter_mset (\<lambda>p. \<not> mode_drop l (jobs s p)) (mset ?R)"
    using Qu' [of "NewReadyQ c"] Qt [of "NewReadyQ c"] E'
    by (simp add: M' mset_filter) (simp add: mode_target_def)
  have Np: "mset (queues u (NewReplicaQ c)) = filter_mset (\<lambda>p. \<not> mode_drop l (jobs s p)) (mset ?P)"
    using Qu' [of "NewReplicaQ c"] Qt [of "NewReplicaQ c"] E'
    by (simp add: M' mset_filter) (simp add: mode_target_def)
  have Dl: "mset (queues u (DiscardL c)) = mset (queues s (DiscardL c))
      + filter_mset (\<lambda>p. mode_drop l (jobs s p)) (mset ?R + mset ?P)"
    using Qu' [of "DiscardL c"] Qt [of "DiscardL c"] by (simp add: M mset_filter ac_simps)
  have e1: "queues u (ReadyQ c) = []" using Qu' [of "ReadyQ c"] Ft M0
    by (simp add: filtered_def)
  have e2: "queues u (ReplicaQ c) = []" using Fu by (simp add: filtered_def)
  let ?v = "splice_jobs (NewReadyQ c) (ReadyQ c) u"
  let ?w = "splice_jobs (NewReplicaQ c) (ReplicaQ c) ?v"
  have Iv: "sys_inv N B {#} ?v" using Iu e1 by (rule sys_inv_splice) simp_all
  have "queues ?v (ReplicaQ c) = []" using e2 by (simp add: splice_jobs_def)
  with Iv have Iw: "sys_inv N B {#} ?w" by (rule sys_inv_splice) simp_all
  have Qw: "queues ?w = (queues u)(ReadyQ c := queues u (NewReadyQ c), NewReadyQ c := [],
      ReplicaQ c := queues u (NewReplicaQ c), NewReplicaQ c := [])"
    using e1 e2 by (simp add: splice_jobs_def)
  have "queues u (NewReadyQ d) = []" "queues u (NewReplicaQ d) = []" if "d \<noteq> c" for d
    using Qu' [of "NewReadyQ d"] Qt [of "NewReadyQ d"] Qu' [of "NewReplicaQ d"] Qt [of "NewReplicaQ d"]
      E' that M0 by simp_all
  then have "locals_empty ?w" unfolding locals_empty_def Qw by auto
  moreover have "same_rest s ?w" using Ft Fu
    by (simp add: filtered_def same_rest_def splice_jobs_def)
  moreover have "\<exists>k. jobs ?w p = (jobs u p)\<lparr>job_link := k\<rparr>" for p
    by (rule exI [of _ "job_link (jobs ?w p)"]) (simp add: splice_jobs_def)
  moreover have "\<exists>k. jobs u p = (retune l (jobs s p))\<lparr>job_link := k\<rparr>" if "p \<in> set ?R \<union> set ?P" for p
    using that disj by (auto simp: Ju Jt moved_job_def)
  ultimately have J: "\<exists>k. jobs ?w p = (retune l (jobs s p))\<lparr>job_link := k\<rparr>" if "p \<in> set ?R \<union> set ?P" for p
    using that by (metis (no_types, lifting) job_struct.surjective job_struct.update_convs(13))
  show ?thesis unfolding refill_def using t u Iw \<open>locals_empty ?w\<close> \<open>same_rest s ?w\<close> Nr Np Dl J Qw by simp
qed

lemma clear_locals: "locals_empty s \<Longrightarrow> s\<lparr>queues := (queues s)(NewReadyQ c := [], NewReplicaQ c := [])\<rparr> = s"
proof -
  assume "locals_empty s"
  then have "(queues s)(NewReadyQ c := [], NewReplicaQ c := []) = queues s"
    by (auto simp: locals_empty_def)
  then show ?thesis by simp
qed

lemma requeued_keeps:
  assumes "requeued c s t"
  shows "locals_empty t \<longleftrightarrow> locals_empty s" and "mode_drop l (jobs t p) = mode_drop l (jobs s p)"
    and "retune l (jobs t p) = (retune l (jobs s p))\<lparr>job_link := job_link (jobs t p), state := state (jobs t p)\<rparr>"
proof -
  show "locals_empty t \<longleftrightarrow> locals_empty s" using assms by (simp add: requeued_def locals_empty_def)
  obtain k st where j: "jobs t p = (jobs s p)\<lparr>job_link := k, state := st\<rparr>"
    using assms unfolding requeued_def by blast
  show "mode_drop l (jobs t p) = mode_drop l (jobs s p)" unfolding j by (simp add: mode_drop_def)
  show "retune l (jobs t p) = (retune l (jobs s p))\<lparr>job_link := job_link (jobs t p), state := state (jobs t p)\<rparr>"
    unfolding j by (simp add: retune_def)
qed

lemma handle_mode_change_ok:
  assumes T: "tick_inv N B s" and c: "c < N"
  shows "wp (handle_mode_change c l s) (\<lambda>t. tick_inv N B t \<and> mode_changed c l s t)"
proof -
  note D = tick_invD [OF T]
  let ?s0 = "upd_core c (local_criticality_level_update (\<lambda>_. l))
      (upd_proc (system_criticality_level_update (\<lambda>_. l)) (set_decision_point c s))"
  let ?s1 = "upd_core c (rq_lock_update (\<lambda>_. True)) ?s0"
  have I1: "sys_inv N B {#} ?s1" using D(1) by (simp add: set_decision_point_def)
  have lock: "LOCK_RQ c ?s0 = Some ?s1" using D(2) [OF c] by (simp add: LOCK_RQ_eq set_decision_point_def)
  obtain t where t: "stop_and_requeue c ?s1 = Some t" "sys_inv N B {#} t" and R: "requeued c ?s1 t"
    using stop_and_requeue_ok [OF I1 c] D(4) [OF c] by (auto simp: wp_iff set_decision_point_def)
  have lt: "local_criticality_level (cstate t c) = l" and dp: "decision_point (cstate t c)"
    using R by (simp_all add: requeued_def set_decision_point_def)
  have Et: "locals_empty t" using requeued_keeps(1) [OF R] D(5) by (simp add: set_decision_point_def)
  note K = requeued_keeps(2,3) [OF R]
  obtain w where w: "refill c t = Some w" and W: "sys_inv N B {#} w"
    and rest: "same_rest t w" "locals_empty w"
    and Q: "mset (queues w (ReadyQ c)) = filter_mset (\<lambda>p. \<not> mode_drop l (jobs t p)) (mset (queues t (ReadyQ c)))"
      "mset (queues w (ReplicaQ c)) = filter_mset (\<lambda>p. \<not> mode_drop l (jobs t p)) (mset (queues t (ReplicaQ c)))"
      "mset (queues w (DiscardL c)) = mset (queues t (DiscardL c))
        + filter_mset (\<lambda>p. mode_drop l (jobs t p)) (mset (queues t (ReadyQ c)) + mset (queues t (ReplicaQ c)))"
    and J: "\<forall>p\<in>set (queues t (ReadyQ c)) \<union> set (queues t (ReplicaQ c)). \<exists>k.
      jobs w p = (retune l (jobs t p))\<lparr>job_link := k\<rparr>"
    using refill_ok [OF t(2) lt Et] by (auto simp: wp_iff)
  have A: "mset (queues t (ReadyQ c)) + mset (queues t (ReplicaQ c)) = mode_jobs c s"
    and Dq: "queues t (DiscardL c) = queues s (DiscardL c)"
    using R by (simp_all add: requeued_def mode_jobs_def set_decision_point_def)
  have e: "handle_mode_change c l s = Some (UNLOCK_RQ c w)"
    using lock t(1) w [unfolded refill_def]
    by (auto simp: handle_mode_change_alt [OF D(5)] clear_locals [OF Et] bind_Some_iff)
  have cw: "cstate w d = cstate t d" "proc_state w = proc_state t" "sent_packets w = sent_packets s" for d
    using rest(1) R by (simp_all add: same_rest_def requeued_def set_decision_point_def)
  have "(rq_lock (cstate w d) \<longleftrightarrow> d = c) \<and> (is_idle (cstate w d) \<longleftrightarrow> running_job (cstate w d) = None)"
    if "d < N" for d
    using R D(2,4) [OF that] by (cases "d = c") (simp_all add: cw requeued_def set_decision_point_def)
  then have "locked_inv N B c w"
    using W rest(2) R D(3) by (simp add: locked_held_def cw requeued_def set_decision_point_def)
  then have "tick_inv N B (UNLOCK_RQ c w)" by (rule unlock_rq)
  moreover have "mode_changed c l s (UNLOCK_RQ c w)"
  proof -
    have "virtual_deadline (jobs w p) = arrival_time (jobs s p) + relative_tuned_deadlines (jobs s p) ! l
        \<and> wcet (jobs w p) = of_u32 (t_wcet (ptask (jobs s p)) ! l)" if "p \<in># mode_jobs c s" for p
    proof -
      have "p \<in> set (queues t (ReadyQ c)) \<union> set (queues t (ReplicaQ c))"
        using that unfolding A [symmetric] by simp
      with J obtain k where "jobs w p = (retune l (jobs t p))\<lparr>job_link := k\<rparr>" by blast
      with K(2) [of l p] show ?thesis by (simp add: retune_def set_decision_point_def)
    qed
    moreover have "mode_drop l (jobs t p) = mode_drop l (jobs s p)" for p
      using K(1) [of l p] by (simp add: set_decision_point_def)
    moreover have "running_job (cstate t c) = None" and "proc_state t = (proc_state s)\<lparr>system_criticality_level := l\<rparr>"
      using R by (simp_all add: requeued_def)
    ultimately show ?thesis unfolding mode_changed_def A [symmetric]
      using Q Dq lt dp by (simp add: UNLOCK_RQ_def cw)
  qed
  ultimately show ?thesis unfolding e by simp
qed

end
