(* ===== verification/DispatchInv.thy ===== *)
theory DispatchInv
  imports ModeInv
begin

text \<open>
  Selection and dispatch: a tick leaves the job with the earliest virtual deadline running, and a
  core runs a job whenever one of its two queues has one.
\<close>

section \<open>Earliest deadline first\<close>

definition edf_ok :: "nat \<Rightarrow> sys \<Rightarrow> bool" where
  "edf_ok c s \<longleftrightarrow> (\<forall>p\<in>set (queues s (ReadyQ c)) \<union> set (queues s (ReplicaQ c)).
     \<exists>r. running_job (cstate s c) = Some r
       \<and> virtual_deadline (jobs s r) \<le> virtual_deadline (jobs s p))"

lemma queue_head_least:
  assumes "queues_ok s" and "queues s q = p # ps" and "x \<in> set (queues s q)"
  shows "queue_key q (jobs s p) \<le> queue_key q (jobs s x)"
  using queue_okD(3) [OF assms(1), of q] assms(2,3) by auto

definition ready_jobs :: "nat \<Rightarrow> sys \<Rightarrow> jptr set" where
  "ready_jobs c s = set (queues s (ReadyQ c)) \<union> set (queues s (ReplicaQ c))"

text \<open>The candidate is the head of the queue of its kind and has the least virtual deadline.\<close>

lemma select_candidate_None: "select_candidate c s = None \<longleftrightarrow> ready_jobs c s = {}"
  by (auto simp: select_candidate_def peek_next_job_def ready_jobs_def split: list.splits)

lemma select_candidate_Some:
  assumes I: "queues_ok s" and n: "select_candidate c s = Some n"
  shows "\<exists>ps. queues s (kind_queue c (jobs s n)) = n # ps"
    and "x \<in> ready_jobs c s \<Longrightarrow> virtual_deadline (jobs s n) \<le> virtual_deadline (jobs s x)"
proof -
  have k: "kind_queue c (jobs s p) = ReadyQ c" if "p \<in> set (queues s (ReadyQ c))" for p
    using queue_okD(4) [OF I that] by (simp add: kind_queue_def)
  have k': "kind_queue c (jobs s p) = ReplicaQ c" if "p \<in> set (queues s (ReplicaQ c))" for p
    using queue_okD(4) [OF I that] by (simp add: kind_queue_def)
  have least: "virtual_deadline (jobs s p) \<le> virtual_deadline (jobs s x)"
    if "queues s q = p # ps" "x \<in> set (queues s q)" "q = ReadyQ c \<or> q = ReplicaQ c" for p ps x q
    using queue_head_least [OF I that(1,2)] that(3) by auto
  show "\<exists>ps. queues s (kind_queue c (jobs s n)) = n # ps"
    using n k k' by (auto simp: select_candidate_def peek_next_job_def split: list.splits if_splits)
  assume x: "x \<in> ready_jobs c s"
  show "virtual_deadline (jobs s n) \<le> virtual_deadline (jobs s x)"
  proof (cases "queues s (ReadyQ c)")
    case Nil
    then show ?thesis using n x least [of "ReplicaQ c"]
      by (auto simp: select_candidate_def peek_next_job_def ready_jobs_def split: list.splits)
  next
    case r: (Cons a as)
    show ?thesis
    proof (cases "queues s (ReplicaQ c)")
      case Nil
      then show ?thesis using n x r least [of "ReadyQ c" a as]
        by (auto simp: select_candidate_def peek_next_job_def ready_jobs_def)
    next
      case q: (Cons b bs)
      have "virtual_deadline (jobs s n) \<le> virtual_deadline (jobs s a)
          \<and> virtual_deadline (jobs s n) \<le> virtual_deadline (jobs s b)"
        using n r q by (auto simp: select_candidate_def peek_next_job_def split: if_splits)
      moreover have "virtual_deadline (jobs s a) \<le> virtual_deadline (jobs s x)
          \<or> virtual_deadline (jobs s b) \<le> virtual_deadline (jobs s x)"
        using x least [OF r] least [OF q] by (auto simp: ready_jobs_def)
      ultimately show ?thesis by auto
    qed
  qed
qed

section \<open>Selection\<close>

definition preempts :: "nat \<Rightarrow> jptr \<Rightarrow> sys \<Rightarrow> bool" where
  "preempts c n s \<longleftrightarrow> (case running_job (cstate s c) of None \<Rightarrow> True
     | Some r \<Rightarrow> virtual_deadline (jobs s n) < virtual_deadline (jobs s r))"

lemma select_next_job_eq:
  assumes T: "tick_inv N B s" and c: "c < N"
  shows "select_next_job c s =
    (case select_candidate c s of
       None \<Rightarrow> Some (None, s)
     | Some n \<Rightarrow> if preempts c n s
                 then Some (Some n, unlinked_state (kind_queue c (jobs s n)) n s)
                 else Some (None, s))"
proof -
  let ?l = "upd_core c (rq_lock_update (\<lambda>_. True)) s"
  note D = tick_invD [OF T]
  have cand: "select_candidate c ?l = select_candidate c s"
    by (simp add: select_candidate_def peek_next_job_def split: list.splits)
  have ul: "UNLOCK_RQ c (unlinked_state q n ?l) = unlinked_state q n s" for q n
  proof -
    have "unlinked_state q n ?l = upd_core c (rq_lock_update (\<lambda>_. True)) (unlinked_state q n s)"
      by (simp add: unlinked_state_def upd_core_def upd_job_def)
    then show ?thesis using unlock_lock [of "unlinked_state q n s" c] D(2) [OF c] by simp
  qed
  show ?thesis
  proof (cases "select_candidate c s")
    case None
    then show ?thesis using lock_rq(1) [OF T c] unlock_lock [OF D(2) [OF c]] cand
      by (simp add: select_next_job_def)
  next
    case (Some n)
    let ?q = "kind_queue c (jobs s n)"
    have Q: "queues_ok ?l" using sys_invD(1) [OF D(1)] by (simp add: queues_ok_def queue_ok_def)
    obtain ps where ps: "queues ?l ?q = n # ps"
      using select_candidate_Some(1) [OF sys_invD(1) [OF D(1)] Some] by auto
    have pop: "pop_next_job ?q ?l = Some (Some n, unlinked_state ?q n ?l)"
      by (rule pop_next_job_eq [OF Q ps])
    have "(if \<not> is_replica (jobs s n) then pop_next_job (ReadyQ c) ?l
        else pop_next_job (ReplicaQ c) ?l) = pop_next_job ?q ?l"
      by (simp add: kind_queue_def)
    with pop show ?thesis
      using Some lock_rq(1) [OF T c] unlock_lock [OF D(2) [OF c]] cand ul
      by (auto simp: select_next_job_def preempts_def split: option.splits)
  qed
qed

section \<open>Dispatch\<close>

text \<open>The dispatch of the popped job \<open>n\<close>, with the reference to it in the hands of the caller.\<close>

definition start_job :: "nat \<Rightarrow> jptr \<Rightarrow> sys \<Rightarrow> sys" where
  "start_job c n s = upd_job n (state_update (\<lambda>_. JOB_STATE_RUNNING))
     (upd_core c (is_idle_update (\<lambda>_. False)) (upd_core c (running_job_update (\<lambda>_. Some n)) s))"

definition preempted :: "nat \<Rightarrow> sys \<Rightarrow> sys" where
  "preempted c s =
     (case running_job (cstate s c) of
        None \<Rightarrow> s
      | Some r \<Rightarrow> linked_state virtual_deadline (kind_queue c (jobs s r)) r
          (upd_job r (state_update (\<lambda>_. JOB_STATE_READY))
            (upd_core c (running_job_update (\<lambda>_. None)) s)))"

lemma running_twice:
  "running_job_update f \<circ> running_job_update (\<lambda>_. None) = running_job_update (\<lambda>_. f None)"
  by (rule ext, rule core_state.equality) simp_all

lemma dispatch_job_eq:
  assumes "\<not> rq_lock (cstate s c)" and "\<And>r. running_job (cstate s c) = Some r \<Longrightarrow> unlinked (jobs s r)"
  shows "dispatch_job c n s = Some (start_job c n (preempted c s))"
proof (cases "running_job (cstate s c)")
  case None
  let ?s = "upd_core c (rq_lock_update (\<lambda>_. True)) s"
  have "UNLOCK_RQ c (upd_job n (state_update (\<lambda>_. JOB_STATE_RUNNING))
      (upd_core c (is_idle_update (\<lambda>_. False)) (upd_core c (running_job_update (\<lambda>_. Some n)) ?s)))
    = start_job c n (UNLOCK_RQ c ?s)"
    by (simp add: start_job_def unlock_commute)
  then show ?thesis using None assms(1) unlock_lock [OF assms(1)]
    by (simp add: dispatch_job_def LOCK_RQ_eq preempted_def)
next
  case (Some r)
  let ?s = "upd_core c (rq_lock_update (\<lambda>_. True)) s"
  let ?u = "upd_job r (state_update (\<lambda>_. JOB_STATE_READY)) ?s"
  let ?q = "kind_queue c (jobs s r)"
  have "unlinked (jobs ?u r)" using assms(2) [OF Some] by (simp add: unlinked_def)
  then have a: "add_ready_or_replica c r ?u = Some (linked_state virtual_deadline ?q r ?u)"
    by (subst add_ready_or_replica_eq) (simp_all add: kind_queue_def)
  have "UNLOCK_RQ c (upd_job n (state_update (\<lambda>_. JOB_STATE_RUNNING))
      (upd_core c (is_idle_update (\<lambda>_. False)) (upd_core c (running_job_update (\<lambda>_. Some n))
        (linked_state virtual_deadline ?q r ?u))))
    = start_job c n (linked_state virtual_deadline ?q r
        (upd_job r (state_update (\<lambda>_. JOB_STATE_READY)) s))"
    using unlock_lock [OF assms(1)] by (simp add: start_job_def unlock_commute)
  moreover have "start_job c n (linked_state virtual_deadline ?q r
        (upd_job r (state_update (\<lambda>_. JOB_STATE_READY)) s)) = start_job c n (preempted c s)"
    using Some by (simp add: start_job_def preempted_def upd_job_upd_core linked_state_upd_core
        upd_core_upd_core running_twice)
  ultimately show ?thesis using Some assms(1) a by (simp add: dispatch_job_def LOCK_RQ_eq)
qed

lemma preempted_ok:
  assumes I: "sys_inv N B H s" and c: "c < N"
  shows "sys_inv N B H (preempted c s)" and "running_job (cstate (preempted c s) c) = None"
    and "d \<noteq> c \<Longrightarrow> cstate (preempted c s) d = cstate s d"
    and "mset (queues (preempted c s) (ReadyQ c)) + mset (queues (preempted c s) (ReplicaQ c))
         = mode_jobs c s"
    and "q \<noteq> ReadyQ c \<Longrightarrow> q \<noteq> ReplicaQ c \<Longrightarrow> queues (preempted c s) q = queues s q"
    and "virtual_deadline (jobs (preempted c s) p) = virtual_deadline (jobs s p)"
    and "running_job (cstate s c) \<noteq> Some p \<Longrightarrow> jobs (preempted c s) p = jobs s p"
    and "rq_lock (cstate (preempted c s) c) = rq_lock (cstate s c)"
    and "proc_state (preempted c s) = proc_state s"
proof -
  show "sys_inv N B H (preempted c s)"
  proof (cases "running_job (cstate s c)")
    case None
    then show ?thesis using I by (simp add: preempted_def)
  next
    case (Some r)
    then show ?thesis
      using requeue_running_ok(2) [OF I c Some, of "running_job_update (\<lambda>_. None)"]
      by (simp add: preempted_def)
  qed
qed (auto simp: preempted_def mode_jobs_def opt_list_def kind_queue_def linked_state_def
      split: option.splits)

lemma start_job_ok:
  assumes I: "sys_inv N B (add_mset n H) s" and "running_job (cstate s c) = None" and c: "c < N"
    and l: "job_link (jobs s n) = LinkNull" and nr: "not_running N s n"
  shows "sys_inv N B H (start_job c n s)"
proof -
  let ?f = "is_idle_update (\<lambda>_. False) \<circ> running_job_update (\<lambda>_. Some n)"
  have "sys_inv N B H (upd_core c ?f s)" using assms by (intro sys_inv_start) simp_all
  then show ?thesis unfolding start_job_def upd_core_upd_core
    using l by (intro sys_inv_upd_unlinked) (simp_all add: same_count_def unlinked_def)
qed

text \<open>The whole phase.\<close>

lemma dispatch_phase_ok:
  assumes T: "tick_inv N B s" and c: "c < N"
  shows "wp (dispatch_phase c s) (\<lambda>t. tick_inv N B t \<and> edf_ok c t \<and> mode_jobs c t = mode_jobs c s
     \<and> proc_state t = proc_state s \<and> (\<forall>p. virtual_deadline (jobs t p) = virtual_deadline (jobs s p)))"
proof -
  note D = tick_invD [OF T]
  note sel = select_next_job_eq [OF T c]
  have Q: "queues_ok s" using sys_invD(1) [OF D(1)] .
  show ?thesis
  proof (cases "\<exists>n. select_candidate c s = Some n \<and> preempts c n s")
    case False
    have "edf_ok c s"
    proof (cases "select_candidate c s")
      case None
      then show ?thesis using select_candidate_None [of c s] by (simp add: edf_ok_def ready_jobs_def)
    next
      case (Some n)
      with False obtain r where r: "running_job (cstate s c) = Some r"
        and le: "virtual_deadline (jobs s r) \<le> virtual_deadline (jobs s n)"
        by (auto simp: preempts_def split: option.splits)
      have "virtual_deadline (jobs s r) \<le> virtual_deadline (jobs s x)" if "x \<in> ready_jobs c s" for x
        using le select_candidate_Some(2) [OF Q Some that] by (rule order.trans)
      then show ?thesis using r by (simp add: edf_ok_def ready_jobs_def)
    qed
    moreover have "dispatch_phase c s = Some s"
      using False sel by (auto simp: dispatch_phase_def split: option.splits)
    ultimately show ?thesis using T by simp
  next
    case True
    then obtain n where n: "select_candidate c s = Some n" and pre: "preempts c n s" by blast
    let ?q = "kind_queue c (jobs s n)"
    let ?u = "set_decision_point c (unlinked_state ?q n s)"
    obtain ps where ps: "queues s ?q = n # ps" using select_candidate_Some(1) [OF Q n] by blast
    have link: "job_link (jobs s n) = LinkIn ?q" using queues_entry [OF D(1), of n ?q] ps by simp
    note del = sys_inv_del [OF D(1) link]
    have U: "sys_inv N B {#n#} ?u" using del(1) by (simp add: set_decision_point_def)
    have run: "unlinked (jobs ?u r)" if "running_job (cstate ?u c) = Some r" for r
      using sys_invD(3) [OF U] that c by (simp add: run_ok_def unlinked_cases)
    have ul: "\<not> rq_lock (cstate ?u c)" using D(2) [OF c] by (simp add: set_decision_point_def)
    let ?t = "start_job c n (preempted c ?u)"
    have e: "dispatch_phase c s = Some ?t"
      using n pre sel dispatch_job_eq [OF ul run] by (simp add: dispatch_phase_def)
    note P = preempted_ok [OF U c]
    have rn: "running_job (cstate ?u c) \<noteq> Some n"
      using del(2) c by (simp add: not_running_def set_decision_point_def)
    have jn: "jobs (preempted c ?u) n = (jobs s n)\<lparr>job_link := LinkNull\<rparr>"
      using P(7) [OF rn] by (simp add: set_decision_point_def)
    have "not_running N (preempted c ?u) n"
      using del(2) P(2,3) unfolding not_running_def
      by (metis option.distinct(1) set_decision_point_def sys_state_fields(1) upd_core_fields(1) fun_upd_other)
    then have It: "sys_inv N B {#} ?t" using start_job_ok [OF P(1,2) c] jn by simp
    have vd: "virtual_deadline (jobs ?t x) = virtual_deadline (jobs s x)" for x
      using P(6) [of x] by (cases "x = n") (simp_all add: start_job_def set_decision_point_def)
    have qt: "queues ?t = queues (preempted c ?u)" by (simp add: start_job_def)
    have rt: "running_job (cstate ?t c) = Some n" by (simp add: start_job_def)
    have ms: "mode_jobs c ?u = mode_jobs c s - {#n#}" and inm: "n \<in># mode_jobs c s"
      using ps by (auto simp: mode_jobs_def kind_queue_def set_decision_point_def split: if_splits)
    have mt: "mode_jobs c ?t = mode_jobs c s"
      using P(4) ms inm rt by (simp add: mode_jobs_def [of c ?t] qt opt_list_def)
    have "edf_ok c ?t"
    proof -
      have "virtual_deadline (jobs s n) \<le> virtual_deadline (jobs s x)" if "x \<in># mode_jobs c s" for x
      proof -
        from that have "x \<in> ready_jobs c s \<or> running_job (cstate s c) = Some x"
          by (auto simp: mode_jobs_def ready_jobs_def opt_list_def split: option.splits)
        then show ?thesis
          using select_candidate_Some(2) [OF Q n, of x] pre by (auto simp: preempts_def)
      qed
      moreover have "x \<in># mode_jobs c s" if "x \<in> set (queues ?t (ReadyQ c)) \<union> set (queues ?t (ReplicaQ c))" for x
        using that unfolding mt [symmetric] by (auto simp: mode_jobs_def)
      ultimately show ?thesis using rt vd by (auto simp: edf_ok_def)
    qed
    moreover have "tick_inv N B ?t"
    proof -
      have "(is_idle (cstate ?t d) \<longleftrightarrow> running_job (cstate ?t d) = None) \<and> \<not> rq_lock (cstate ?t d)"
        if "d < N" for d
        using P(3) [of d] P(8) D(2,4) [OF that]
        by (cases "d = c") (simp_all add: start_job_def set_decision_point_def)
      moreover have "locals_empty ?t"
        unfolding locals_empty_def qt
        using D(5) P(5) by (simp add: locals_empty_def set_decision_point_def kind_queue_def)
      ultimately show ?thesis
        using It D(3) P(9) by (simp add: tick_held_def start_job_def set_decision_point_def)
    qed
    ultimately show ?thesis unfolding e using mt vd P(9)
      by (simp add: start_job_def set_decision_point_def)
  qed
qed

end
