(* ===== verification/ReclaimInv.thy ===== *)
theory ReclaimInv
  imports DispatchInv
begin

text \<open>
  The discarded jobs of a core and of the processor: every tick each of them is either taken back into
  the queue of its kind, when it is admissible, or kept for the processor to expire. No job is lost or
  duplicated, and a core's own discard list is empty afterwards. The admission test may trap (theory
  \<open>SchedUtil\<close>), so the loops are partially correct; each step returns whenever its test does.
\<close>

section \<open>Both locks\<close>

lemma locked_heldD:
  assumes "locked_held N B H c s"
  shows "sys_inv N B H s" and "\<not> discard_queue_lock (proc_state s)" and "locals_empty s"
    and "d < N \<Longrightarrow> rq_lock (cstate s d) \<longleftrightarrow> d = c"
    and "d < N \<Longrightarrow> is_idle (cstate s d) \<longleftrightarrow> running_job (cstate s d) = None"
  using assms by (simp_all add: locked_held_def)

lemma locked_held_step:
  assumes "locked_held N B H c s" and "sys_inv N B' H' t" and "locals_empty t"
    and "\<And>c. rq_lock (cstate t c) = rq_lock (cstate s c)"
    and "\<And>c. is_idle (cstate t c) = is_idle (cstate s c)"
    and "\<And>c. running_job (cstate t c) = running_job (cstate s c)"
    and "discard_queue_lock (proc_state t) = discard_queue_lock (proc_state s)"
  shows "locked_held N B' H' c t"
  using assms by (simp add: locked_held_def)

text \<open>The run-queue lock of core \<open>c\<close> and the lock of the processor's discard queue.\<close>

definition both_held :: "nat \<Rightarrow> (nat \<Rightarrow> nat) \<Rightarrow> jptr multiset \<Rightarrow> nat \<Rightarrow> sys \<Rightarrow> bool" where
  "both_held N B H c s \<longleftrightarrow> discard_queue_lock (proc_state s)
     \<and> locked_held N B H c (unlock_discard_queue s)"

lemma unlock_discard_fields [simp]:
  "core_states (unlock_discard_queue s) = core_states s" "jobs (unlock_discard_queue s) = jobs s"
  "queues (unlock_discard_queue s) = queues s"
  "system_time (proc_state (unlock_discard_queue s)) = system_time (proc_state s)"
  "discard_queue_lock (proc_state (unlock_discard_queue s)) = False"
  "locals_empty (unlock_discard_queue s) \<longleftrightarrow> locals_empty s"
  by (simp_all add: unlock_discard_queue_def)

lemma lock_discard:
  assumes "locked_held N B H c s"
  shows "lock_discard_queue s = Some (upd_proc (discard_queue_lock_update (\<lambda>_. True)) s)"
    and "both_held N B H c (upd_proc (discard_queue_lock_update (\<lambda>_. True)) s)"
  using assms by (auto simp: lock_discard_queue_def both_held_def locked_held_def unlock_discard_queue_def)

lemma both_heldD:
  assumes "both_held N B H c s"
  shows "sys_inv N B H s" and "locked_held N B H c (unlock_discard_queue s)" and "locals_empty s"
  using assms by (simp_all add: both_held_def locked_held_def)

lemma both_held_step:
  assumes "both_held N B H c s" and "sys_inv N B' H' t" and "locals_empty t"
    and "\<And>c. rq_lock (cstate t c) = rq_lock (cstate s c)"
    and "\<And>c. is_idle (cstate t c) = is_idle (cstate s c)"
    and "\<And>c. running_job (cstate t c) = running_job (cstate s c)"
    and "discard_queue_lock (proc_state t) = discard_queue_lock (proc_state s)"
  shows "both_held N B' H' c t"
  using assms by (simp add: both_held_def locked_held_def)

lemma locals_empty_linked:
  assumes "locals_empty s" and "\<And>d. q \<noteq> NewReadyQ d" and "\<And>d. q \<noteq> NewReplicaQ d"
  shows "locals_empty (linked_state key q p s)"
proof -
  have "queues (linked_state key q p s) r = queues s r" if "r \<noteq> q" for r
    using that by (simp add: linked_state_def)
  then show ?thesis using assms unfolding locals_empty_def by metis
qed

lemma locals_empty_unlinked [simp]: "locals_empty s \<Longrightarrow> locals_empty (unlinked_state q p s)"
  by (auto simp: locals_empty_def)

section \<open>The core's own discarded jobs\<close>

text \<open>Everything the reclaim can move around.\<close>

definition reclaim_jobs :: "nat \<Rightarrow> sys \<Rightarrow> jptr multiset" where
  "reclaim_jobs c s = mset (queues s (ReadyQ c)) + mset (queues s (ReplicaQ c))
     + mset (queues s (DiscardL c)) + mset (queues s ProcDiscardQ)"

definition kept_for_later :: "job_struct \<Rightarrow> job_struct" where
  "kept_for_later j = j\<lparr>virtual_deadline := actual_deadline j\<rparr>"

definition taken_back :: "nat \<Rightarrow> jptr \<Rightarrow> sys \<Rightarrow> sys" where
  "taken_back c p s = linked_state virtual_deadline (kind_queue c (jobs s p)) p (set_decision_point c s)"

definition given_up :: "jptr \<Rightarrow> sys \<Rightarrow> sys" where
  "given_up p s = linked_state virtual_deadline ProcDiscardQ p (upd_job p kept_for_later s)"

lemma linked_state_upd_proc:
  "linked_state key q p (upd_proc f s) = upd_proc f (linked_state key q p s)"
  by (simp add: linked_state_def upd_proc_def upd_job_def)

lemma reclaim_own_eq:
  assumes L: "locked_held N B H c s" and u: "unlinked (jobs s p)"
    and o: "\<not> is_being_offered (jobs s p)"
    and ok: "is_admissible_locked cfg c p (lit 0 1) s = Some ok"
  shows "reclaim_own cfg c p s = Some (if ok then taken_back c p s else given_up p s)"
proof -
  have a: "add_ready_or_replica c p (set_decision_point c s) = Some (taken_back c p s)"
    using u by (subst add_ready_or_replica_eq) (simp_all add: taken_back_def)
  let ?d = "upd_proc (discard_queue_lock_update (\<lambda>_. True)) s"
  have u': "unlinked (jobs (upd_job p kept_for_later ?d) p)"
    using u by (simp add: kept_for_later_def unlinked_def)
  have k: "upd_job p (\<lambda>j. j\<lparr>virtual_deadline := actual_deadline j\<rparr>) ?d = upd_job p kept_for_later ?d"
    by (simp add: kept_for_later_def [abs_def])
  have ps: "(proc_state s)\<lparr>discard_queue_lock := False\<rparr> = proc_state s"
    using locked_heldD(2) [OF L] by simp
  have "unlock_discard_queue (linked_state virtual_deadline ProcDiscardQ p (upd_job p kept_for_later ?d))
      = given_up p s"
    by (simp add: given_up_def linked_state_def upd_job_def upd_proc_def unlock_discard_queue_def ps)
  then show ?thesis
    using ok o a lock_discard(1) [OF L] add_to_queue_sorted_eq [OF u'] k
    by (simp add: reclaim_own_def)
qed

lemma reclaim_own_ok:
  assumes L: "locked_held N B (add_mset p H) c s" and u: "unlinked (jobs s p)"
    and r: "state (jobs s p) = JOB_STATE_READY" and n: "not_running N s p"
  shows "locked_held N B H c (taken_back c p s)" and "locked_held N B H c (given_up p s)"
proof -
  note D = locked_heldD [OF L]
  have I: "sys_inv N B (add_mset p H) (set_decision_point c s)" using D(1) by simp
  have k: "kind_queue c (jobs (set_decision_point c s) p) = kind_queue c (jobs s p)" by simp
  have t: "sys_inv N B H (taken_back c p s)" unfolding taken_back_def k [symmetric]
    by (rule sys_inv_add_kind [OF I]) (use u r n in \<open>simp_all add: not_running_def\<close>)
  have le: "locals_empty (taken_back c p s)" unfolding taken_back_def
    using D(3) by (intro locals_empty_linked) (simp_all add: kind_queue_def)
  show "locked_held N B H c (taken_back c p s)"
    by (rule locked_held_step [OF L t le]) (simp_all add: taken_back_def)
  let ?u = "upd_job p kept_for_later s"
  have U: "sys_inv N B (add_mset p H) ?u"
    using D(1) u n by (intro sys_inv_upd_unlinked) (simp_all add: same_count_def kept_for_later_def unlinked_def)
  have g: "sys_inv N B H (given_up p s)" unfolding given_up_def
    by (rule sys_inv_add [OF U])
      (use u r n in \<open>simp_all add: kept_for_later_def unlinked_def not_running_def\<close>)
  have le: "locals_empty (given_up p s)" unfolding given_up_def
    using D(3) by (intro locals_empty_linked) simp_all
  show "locked_held N B H c (given_up p s)"
    by (rule locked_held_step [OF L g le]) (simp_all add: given_up_def)
qed

lemma reclaim_own_queues:
  shows "mset (queues (taken_back c p s) q)
      = mset (queues s q) + (if q = kind_queue c (jobs s p) then {#p#} else {#})"
    and "mset (queues (given_up p s) q)
      = mset (queues s q) + (if q = ProcDiscardQ then {#p#} else {#})"
  by (simp_all add: taken_back_def given_up_def linked_state_def)

text \<open>One turn of the loop: the head of the discard list is moved.\<close>

lemma reclaim_own_turn:
  assumes L: "locked_inv N B c s" and q: "queues s (DiscardL c) = p # ps"
  shows "pop_next_job (DiscardL c) s = Some (Some p, unlinked_state (DiscardL c) p s)"
    and "wlp (reclaim_own cfg c p (unlinked_state (DiscardL c) p s)) (\<lambda>t. locked_inv N B c t
       \<and> length (queues t (DiscardL c)) = length ps \<and> reclaim_jobs c t = reclaim_jobs c s
       \<and> proc_state t = proc_state s)"
proof -
  note D = locked_heldD [OF L]
  let ?u = "unlinked_state (DiscardL c) p s"
  show "pop_next_job (DiscardL c) s = Some (Some p, ?u)"
    by (rule pop_next_job_eq [OF sys_invD(1) [OF D(1)] q])
  have link: "job_link (jobs s p) = LinkIn (DiscardL c)"
    using queues_entry [OF D(1), of p "DiscardL c"] q by simp
  have e: "state (jobs s p) = JOB_STATE_READY" "\<not> is_being_offered (jobs s p)"
    using linked_entry_ok [OF sys_invD(1) [OF D(1)] link] by simp_all
  note d = sys_inv_del [OF D(1) link]
  have U: "locked_held N B {#p#} c ?u"
    by (rule locked_held_step [OF L d(1)]) (use D(3) in simp_all)
  have u: "unlinked (jobs ?u p)" by (simp add: unlinked_def)
  have R: "locked_inv N B c (taken_back c p ?u)" "locked_inv N B c (given_up p ?u)"
    using reclaim_own_ok [OF U u _ d(2)] e by simp_all
  have P: "proc_state (taken_back c p ?u) = proc_state s" "proc_state (given_up p ?u) = proc_state s"
    by (simp_all add: taken_back_def given_up_def)
  have M: "mset (queues (taken_back c p ?u) (DiscardL c)) = mset ps"
    "mset (queues (given_up p ?u) (DiscardL c)) = mset ps"
    using q by (simp_all add: reclaim_own_queues kind_queue_def)
  have J: "reclaim_jobs c (taken_back c p ?u) = reclaim_jobs c s"
    "reclaim_jobs c (given_up p ?u) = reclaim_jobs c s"
    using q by (simp_all add: reclaim_jobs_def reclaim_own_queues kind_queue_def)
  show "wlp (reclaim_own cfg c p ?u) (\<lambda>t. locked_inv N B c t
       \<and> length (queues t (DiscardL c)) = length ps \<and> reclaim_jobs c t = reclaim_jobs c s
       \<and> proc_state t = proc_state s)"
  proof (cases "is_admissible_locked cfg c p (lit 0 1) ?u")
    case None
    then show ?thesis by (simp add: reclaim_own_def)
  next
    case (Some ok)
    have "reclaim_own cfg c p ?u = Some (if ok then taken_back c p ?u else given_up p ?u)"
      using e by (intro reclaim_own_eq [OF U u _ Some]) simp
    then show ?thesis using R P J M [THEN mset_eq_length] by simp
  qed
qed

lemma reclaim_own_list_ok:
  assumes "locked_inv N B c s"
  shows "wlp (reclaim_own_list cfg c s) (\<lambda>t. locked_inv N B c t \<and> queues t (DiscardL c) = []
     \<and> reclaim_jobs c t = reclaim_jobs c s \<and> proc_state t = proc_state s)"
  using assms
proof (induction "length (queues s (DiscardL c))" arbitrary: s)
  case 0
  then show ?case by (subst reclaim_own_list.simps) simp
next
  case (Suc n)
  then obtain p ps where q: "queues s (DiscardL c) = p # ps" and n: "length ps = n"
    by (metis length_Suc_conv)
  note T = reclaim_own_turn [OF Suc.prems q]
  have "wlp (reclaim_own cfg c p (unlinked_state (DiscardL c) p s)) (\<lambda>t.
      wlp (reclaim_own_list cfg c t) (\<lambda>u. locked_inv N B c u \<and> queues u (DiscardL c) = []
        \<and> reclaim_jobs c u = reclaim_jobs c s \<and> proc_state u = proc_state s))"
  proof (rule wlp_mono [OF T(2)])
    fix t assume t: "locked_inv N B c t \<and> length (queues t (DiscardL c)) = length ps
      \<and> reclaim_jobs c t = reclaim_jobs c s \<and> proc_state t = proc_state s"
    have "wlp (reclaim_own_list cfg c t) (\<lambda>u. locked_inv N B c u \<and> queues u (DiscardL c) = []
        \<and> reclaim_jobs c u = reclaim_jobs c t \<and> proc_state u = proc_state t)"
      using t n by (intro Suc.hyps(1)) simp_all
    with t show "wlp (reclaim_own_list cfg c t) (\<lambda>u. locked_inv N B c u \<and> queues u (DiscardL c) = []
        \<and> reclaim_jobs c u = reclaim_jobs c s \<and> proc_state u = proc_state s)" by simp
  qed
  then show ?case using q T(1) by (subst reclaim_own_list.simps) simp
qed

section \<open>The processor's discarded jobs\<close>

definition taken_shared :: "nat \<Rightarrow> jptr \<Rightarrow> sys \<Rightarrow> sys" where
  "taken_shared c p s = linked_state virtual_deadline (kind_queue c (jobs s p)) p
     (unlinked_state ProcDiscardQ p (set_decision_point c s))"

lemma reclaim_shared_eq:
  assumes "job_link (jobs s p) = LinkIn ProcDiscardQ"
    and "is_admissible_locked cfg c p MIGRATION_PENALTY_TICKS s = Some ok"
  shows "reclaim_shared cfg c p s = Some (if ok then taken_shared c p s else s)"
proof -
  let ?u = "unlinked_state ProcDiscardQ p (set_decision_point c s)"
  have "list_del_job p (set_decision_point c s) = Some ?u"
    using assms(1) by (intro list_del_job_eq) simp
  moreover have "unlinked (jobs ?u p)" by (simp add: unlinked_def)
  moreover have "kind_queue c (jobs ?u p) = kind_queue c (jobs s p)" by (simp add: kind_queue_def)
  ultimately show ?thesis
    using assms(2) add_ready_or_replica_eq [of ?u p c] by (simp add: reclaim_shared_def taken_shared_def)
qed

lemma taken_shared_ok:
  assumes L: "both_held N B H c s" and link: "job_link (jobs s p) = LinkIn ProcDiscardQ"
  shows "both_held N B H c (taken_shared c p s)" and "reclaim_jobs c (taken_shared c p s) = reclaim_jobs c s"
    and "x \<noteq> p \<Longrightarrow> jobs (taken_shared c p s) x = jobs s x"
    and "proc_state (taken_shared c p s) = proc_state s"
    and "queues (taken_shared c p s) (DiscardL c) = queues s (DiscardL c)"
proof -
  note D = both_heldD [OF L]
  let ?s = "set_decision_point c s" and ?u = "unlinked_state ProcDiscardQ p (set_decision_point c s)"
  have I: "sys_inv N B H ?s" using D(1) by simp
  have link': "job_link (jobs ?s p) = LinkIn ProcDiscardQ" using link by simp
  have e: "state (jobs s p) = JOB_STATE_READY"
    using linked_entry_ok [OF sys_invD(1) [OF D(1)] link] by simp
  note d = sys_inv_del [OF I link']
  have k: "kind_queue c (jobs ?u p) = kind_queue c (jobs s p)" by (simp add: kind_queue_def)
  have t: "sys_inv N B H (taken_shared c p s)" unfolding taken_shared_def k [symmetric]
    by (rule sys_inv_add_kind [OF d(1) _ _ d(2)]) (use e in \<open>simp_all add: unlinked_def\<close>)
  have le: "locals_empty (taken_shared c p s)" unfolding taken_shared_def
    using D(3) by (intro locals_empty_linked) (simp_all add: kind_queue_def)
  show "both_held N B H c (taken_shared c p s)"
    by (rule both_held_step [OF L t le]) (simp_all add: taken_shared_def)
  have "p \<in> set (queues s ProcDiscardQ)" using queues_entry [OF D(1), of p] link by simp
  then have "mset (remove1 p (queues s ProcDiscardQ)) + {#p#} = mset (queues s ProcDiscardQ)" by simp
  then show "reclaim_jobs c (taken_shared c p s) = reclaim_jobs c s"
    by (simp add: reclaim_jobs_def taken_shared_def linked_state_def kind_queue_def)
qed (simp_all add: taken_shared_def kind_queue_def linked_state_def)

text \<open>The loop invariant: \<open>ys\<close> are the entries still to visit.\<close>

definition shared_todo ::
  "nat \<Rightarrow> (nat \<Rightarrow> nat) \<Rightarrow> jptr multiset \<Rightarrow> nat \<Rightarrow> sys \<Rightarrow> jptr list \<Rightarrow> sys \<Rightarrow> bool" where
  "shared_todo N B H c s ys t \<longleftrightarrow> both_held N B H c t
     \<and> reclaim_jobs c t = reclaim_jobs c s \<and> proc_state t = proc_state s
     \<and> queues t (DiscardL c) = queues s (DiscardL c)
     \<and> distinct ys \<and> (\<forall>p\<in>set ys. job_link (jobs t p) = LinkIn ProcDiscardQ)"

lemma shared_todo_start:
  assumes "both_held N B H c s"
  shows "shared_todo N B H c s (queues s ProcDiscardQ) s"
  using assms queue_okD(1,2) [OF sys_invD(1) [OF both_heldD(1) [OF assms]], where q = ProcDiscardQ]
  by (simp add: shared_todo_def)

lemma reclaim_shared_turn:
  assumes A: "shared_todo N B H c s (p # ys) t"
    and ok: "is_admissible_locked cfg c p MIGRATION_PENALTY_TICKS t = Some ok"
  shows "wp (reclaim_shared cfg c p t) (shared_todo N B H c s ys)"
proof -
  have link: "job_link (jobs t p) = LinkIn ProcDiscardQ" and B: "both_held N B H c t"
    using A by (simp_all add: shared_todo_def)
  note T = taken_shared_ok [OF B link]
  have J: "jobs (taken_shared c p t) x = jobs t x" if "x \<in> set ys" for x
    using that A by (intro T(3)) (auto simp: shared_todo_def)
  show ?thesis unfolding reclaim_shared_eq [OF link ok] using A T J by (simp add: shared_todo_def)
qed

lemma reclaim_shared_loop:
  assumes L: "both_held N B H c s"
  shows "wlp (foldM (reclaim_shared cfg c) (queues s ProcDiscardQ) s) (shared_todo N B H c s [])"
proof (rule partial.loop [where I = "shared_todo N B H c s", OF shared_todo_start [OF L]])
  fix p ys t assume A: "shared_todo N B H c s (p # ys) t"
  show "wlp (reclaim_shared cfg c p t) (shared_todo N B H c s ys)"
  proof (cases "is_admissible_locked cfg c p MIGRATION_PENALTY_TICKS t")
    case None
    then show ?thesis by (simp add: reclaim_shared_def)
  next
    case (Some ok)
    then show ?thesis by (intro wp_wlp reclaim_shared_turn [OF A])
  qed
qed

lemma both_locks_order:
  "UNLOCK_RQ c (unlock_discard_queue s) = unlock_discard_queue (UNLOCK_RQ c s)"
  by (simp add: UNLOCK_RQ_def unlock_discard_queue_def upd_core_def upd_proc_def)

lemma reclaim_discarded_jobs_ok:
  assumes T: "tick_inv N B s" and c: "c < N"
  shows "wlp (reclaim_discarded_jobs cfg c s) (\<lambda>t. tick_inv N B t \<and> queues t (DiscardL c) = []
     \<and> reclaim_jobs c t = reclaim_jobs c s \<and> proc_state t = proc_state s)"
proof -
  let ?s = "upd_core c (rq_lock_update (\<lambda>_. True)) s"
  note L = lock_rq [OF T c]
  let ?Q = "\<lambda>t. tick_inv N B t \<and> queues t (DiscardL c) = []
     \<and> reclaim_jobs c t = reclaim_jobs c s \<and> proc_state t = proc_state s"
  have "wlp (reclaim_own_list cfg c ?s) (\<lambda>t. wlp (lock_discard_queue t) (\<lambda>t.
      wlp (foldM (reclaim_shared cfg c) (queues t ProcDiscardQ) t)
        (\<lambda>t. ?Q (UNLOCK_RQ c (unlock_discard_queue t)))))"
  proof (rule wlp_mono [OF reclaim_own_list_ok [OF L(2)]])
    fix t
    assume t: "locked_inv N B c t \<and> queues t (DiscardL c) = []
     \<and> reclaim_jobs c t = reclaim_jobs c ?s \<and> proc_state t = proc_state ?s"
    then have K: "locked_inv N B c t" by simp
    let ?t = "upd_proc (discard_queue_lock_update (\<lambda>_. True)) t"
    have ps: "(proc_state t)\<lparr>discard_queue_lock := False\<rparr> = proc_state s"
      using locked_heldD(2) [OF K] t by simp
    have "wlp (foldM (reclaim_shared cfg c) (queues ?t ProcDiscardQ) ?t)
        (\<lambda>u. ?Q (UNLOCK_RQ c (unlock_discard_queue u)))"
    proof (rule wlp_mono [OF reclaim_shared_loop [OF lock_discard(2) [OF K]]])
      fix u
      assume "shared_todo N B {#} c ?t [] u"
      then have u: "both_held N B {#} c u \<and> reclaim_jobs c u = reclaim_jobs c ?t
        \<and> proc_state u = proc_state ?t \<and> queues u (DiscardL c) = queues ?t (DiscardL c)"
        by (simp add: shared_todo_def)
      then have "tick_inv N B (UNLOCK_RQ c (unlock_discard_queue u))"
        by (intro unlock_rq both_heldD(2)) simp
      moreover have q: "queues (UNLOCK_RQ c (unlock_discard_queue u)) = queues u"
        by (simp add: UNLOCK_RQ_def)
      moreover have "reclaim_jobs c (UNLOCK_RQ c (unlock_discard_queue u)) = reclaim_jobs c u"
        "reclaim_jobs c ?t = reclaim_jobs c t" "reclaim_jobs c ?s = reclaim_jobs c s"
        by (simp_all add: reclaim_jobs_def q)
      moreover have "proc_state (UNLOCK_RQ c (unlock_discard_queue u)) = proc_state s"
        using u ps by (simp add: UNLOCK_RQ_def unlock_discard_queue_def)
      ultimately show "?Q (UNLOCK_RQ c (unlock_discard_queue u))"
        using u t by simp
    qed
    then show "wlp (lock_discard_queue t) (\<lambda>t. wlp (foldM (reclaim_shared cfg c) (queues t ProcDiscardQ) t)
        (\<lambda>t. ?Q (UNLOCK_RQ c (unlock_discard_queue t))))"
      using lock_discard(1) [OF K] by simp
  qed
  then show ?thesis using L(1) by (simp add: reclaim_discarded_jobs_def)
qed

end
