(* ===== verification/ArrivalInv.thy ===== *)
theory ArrivalInv
  imports DispatchInv
begin

text \<open>
  Arrivals: the pending jobs of other cores that are due, and the jobs of the tasks allocated to
  the core.
\<close>

section \<open>Queueing an arrived job\<close>

definition arrival_queue :: "nat \<Rightarrow> nat \<Rightarrow> job_struct \<Rightarrow> qid" where
  "arrival_queue c l j = (if t_crit_level (ptask j) < l then DiscardL c else kind_queue c j)"

definition enqueued :: "nat \<Rightarrow> jptr \<Rightarrow> sys \<Rightarrow> sys" where
  "enqueued c p s =
     (let l = local_criticality_level (cstate s c)
      in linked_state virtual_deadline (arrival_queue c l (jobs s p)) p
           (if t_crit_level (ptask (jobs s p)) < l then s else set_decision_point c s))"

lemma enqueue_arrival_eq:
  assumes "\<not> rq_lock (cstate s c)" and "unlinked (jobs s p)"
  shows "enqueue_arrival c p s = Some (enqueued c p s)"
proof -
  let ?s = "upd_core c (rq_lock_update (\<lambda>_. True)) s"
  have u: "unlinked (jobs (set_decision_point c ?s) p)" "unlinked (jobs ?s p)" using assms(2) by simp_all
  note simps = add_ready_or_replica_eq [OF u(1)] add_to_queue_sorted_eq [OF u(2)]
  show ?thesis using assms(1) simps
    by (simp add: enqueue_arrival_def LOCK_RQ_eq enqueued_def arrival_queue_def unlock_commute
        unlock_lock Let_def)
qed

lemma enqueued_ok:
  assumes T: "tick_held N B (add_mset p H) s" and u: "unlinked (jobs s p)"
    and r: "state (jobs s p) = JOB_STATE_READY" and n: "not_running N s p"
    and o: "\<not> is_being_offered (jobs s p)"
  shows "tick_held N B H (enqueued c p s)"
proof -
  note D = tick_invD [OF T]
  let ?l = "local_criticality_level (cstate s c)"
  let ?s = "if t_crit_level (ptask (jobs s p)) < ?l then s else set_decision_point c s"
  have "entry_ok (arrival_queue c ?l (jobs s p)) (jobs s p)" and
    k: "queue_key (arrival_queue c ?l (jobs s p)) j = virtual_deadline j" for j
    using r o by (simp_all add: arrival_queue_def)
  then have "sys_inv N B H (enqueued c p s)" unfolding enqueued_def Let_def
    using D(1) u n by (intro sys_inv_add) (simp_all add: not_running_def)
  moreover have "locals_empty (enqueued c p s)" using D(5)
    by (simp add: enqueued_def Let_def locals_empty_def linked_state_def arrival_queue_def kind_queue_def)
  ultimately show ?thesis
    by (rule tick_held_step [OF T]) (simp_all add: enqueued_def Let_def)
qed

lemma enqueued_fields:
  shows "proc_state (enqueued c p s) = proc_state s"
    and "local_criticality_level (cstate (enqueued c p s) d) = local_criticality_level (cstate s d)"
    and "jobs (enqueued c p s) = (jobs s)(p := (jobs s p)\<lparr>job_link := LinkIn
          (arrival_queue c (local_criticality_level (cstate s c)) (jobs s p))\<rparr>)"
    and "proc_id (cstate (enqueued c p s) d) = proc_id (cstate s d)"
    and "core_id (cstate (enqueued c p s) d) = core_id (cstate s d)"
  by (simp_all add: enqueued_def Let_def)

section \<open>Pending jobs\<close>

definition due_job :: "nat \<Rightarrow> u32 \<Rightarrow> job_struct \<Rightarrow> job_struct" where
  "due_job l t j = j\<lparr>state := JOB_STATE_READY,
     virtual_deadline := t + relative_tuned_deadlines j ! l,
     wcet := of_u32 (t_wcet (ptask j) ! l), arrival_time := t\<rparr>"

lemma del_held:
  assumes T: "tick_held N B H s" and link: "job_link (jobs s p) = LinkIn q"
  shows "tick_held N B (add_mset p H) (unlinked_state q p s)"
    and "not_running N (unlinked_state q p s) p"
proof -
  note d = sys_inv_del [OF tick_invD(1) [OF T] link]
  have "locals_empty (unlinked_state q p s)" using tick_invD(5) [OF T] by (auto simp: locals_empty_def)
  then show "tick_held N B (add_mset p H) (unlinked_state q p s)"
    using d(1) by (intro tick_held_step [OF T]) simp_all
  show "not_running N (unlinked_state q p s) p" by (rule d(2))
qed

lemma put_held:
  assumes "tick_held N B (add_mset p H) s"
  shows "tick_held N B H (put_job_ref (Some p) c s)"
  using sys_inv_put [OF tick_invD(1) [OF assms]] tick_invD(5) [OF assms]
  by (intro tick_held_step [OF assms]) simp_all

lemma upd_unlinked_held:
  assumes T: "tick_held N B H s" and "unlinked (jobs s p)" and "not_running N s p"
    and "same_count (jobs s p) (f (jobs s p))" and "unlinked (f (jobs s p))"
  shows "tick_held N B H (upd_job p f s)" and "not_running N (upd_job p f s) p"
proof -
  have "sys_inv N B H (upd_job p f s)"
    using tick_invD(1) [OF T] assms(2-5) by (intro sys_inv_upd_unlinked) simp_all
  then show "tick_held N B H (upd_job p f s)" using tick_invD(5) [OF T]
    by (intro tick_held_step [OF T]) simp_all
  show "not_running N (upd_job p f s) p" using assms(3) by (simp add: not_running_def)
qed

text \<open>The fields of a new job, which nobody else knows.\<close>

lemma upd_private_held:
  assumes T: "tick_held N B H s" and "p \<in># H" and "refcount (jobs s p) = 1"
    and "unlinked (jobs s p)" and "unlinked (f (jobs s p))" and "same_pool (jobs s p) (f (jobs s p))"
  shows "tick_held N B H (upd_job p f s)"
proof -
  have "sys_inv N B H (upd_job p f s)"
    using private_refs [OF tick_invD(1) [OF T] assms(2,3)] tick_invD(1) [OF T] assms(4-6)
    by (intro sys_inv_upd_private) simp_all
  then show ?thesis using tick_invD(5) [OF T] by (intro tick_held_step [OF T]) simp_all
qed

text \<open>The two branches of the loop that change the state.\<close>

definition expire_pending :: "nat \<Rightarrow> jptr \<Rightarrow> sys \<Rightarrow> sys" where
  "expire_pending c p s = put_job_ref (Some p) c (unlinked_state (PendingQ c) p s)"

definition release_pending :: "nat \<Rightarrow> jptr \<Rightarrow> sys \<Rightarrow> sys" where
  "release_pending c p s =
     enqueued c p (upd_job p (due_job (local_criticality_level (cstate s c)) (now s))
                     (unlinked_state (PendingQ c) p s))"

lemma release_pending_ok:
  assumes T: "tick_inv N B s" and link: "job_link (jobs s p) = LinkIn (PendingQ c)"
  shows "tick_inv N B (release_pending c p s)" and "tick_inv N B (expire_pending c p s)"
proof -
  note d = del_held [OF T link]
  have o: "\<not> is_being_offered (jobs s p)"
    using linked_entry_ok [OF sys_invD(1) [OF tick_invD(1) [OF T]] link] by simp
  let ?u = "unlinked_state (PendingQ c) p s"
  let ?f = "due_job (local_criticality_level (cstate s c)) (now s)"
  have "unlinked (jobs ?u p)" by (simp add: unlinked_def)
  note V = upd_unlinked_held [OF d(1) this d(2), of ?f]
  have V': "tick_held N B {#p#} (upd_job p ?f ?u)" "not_running N (upd_job p ?f ?u) p"
    using V by (simp_all add: same_count_def due_job_def unlinked_def)
  show "tick_inv N B (release_pending c p s)" unfolding release_pending_def
    by (rule enqueued_ok [OF V'(1) _ _ V'(2)]) (use o in \<open>simp_all add: due_job_def unlinked_def\<close>)
  show "tick_inv N B (expire_pending c p s)" unfolding expire_pending_def
    using d(1) by (rule put_held)
qed

lemma pending_arrivals_Cons:
  assumes T: "tick_inv N B s" and c: "c < N" and link: "job_link (jobs s p) = LinkIn (PendingQ c)"
  shows "pending_arrivals c (p # ps) s =
    (if arrival_time (jobs s p) < now s
     then if t_crit_level (ptask (jobs s p)) < local_criticality_level (cstate s c)
          then pending_arrivals c ps (expire_pending c p s)
          else pending_arrivals c ps s
     else if now s < arrival_time (jobs s p) then Some s
     else pending_arrivals c ps (release_pending c p s))"
proof -
  let ?u = "unlinked_state (PendingQ c) p s"
  let ?v = "upd_job p (due_job (local_criticality_level (cstate s c)) (now s)) ?u"
  have "enqueue_arrival c p ?v = Some (enqueued c p ?v)"
    using tick_invD(2) [OF T c] by (intro enqueue_arrival_eq) (simp_all add: due_job_def unlinked_def)
  then show ?thesis
    by (simp add: list_del_job_eq [OF link] expire_pending_def release_pending_def
        due_job_def [abs_def] Let_def)
qed

lemma pending_step_fields:
  "proc_state (release_pending c p s) = proc_state s" "proc_state (expire_pending c p s) = proc_state s"
  "x \<noteq> p \<Longrightarrow> jobs (release_pending c p s) x = jobs s x"
  "x \<noteq> p \<Longrightarrow> jobs (expire_pending c p s) x = jobs s x"
  "job_link (jobs (release_pending c p s) p) \<noteq> LinkIn (PendingQ c)"
  "job_link (jobs (expire_pending c p s) p) \<noteq> LinkIn (PendingQ c)"
  "local_criticality_level (cstate (release_pending c p s) d) = local_criticality_level (cstate s d)"
  "local_criticality_level (cstate (expire_pending c p s) d) = local_criticality_level (cstate s d)"
  by (simp_all add: release_pending_def expire_pending_def enqueued_fields put_job_ref_other
      arrival_queue_def kind_queue_def)

lemma pending_step_queues:
  "queues (expire_pending c p s) = (queues s)(PendingQ c := remove1 p (queues s (PendingQ c)))"
  "queues (release_pending c p s) (PendingQ c) = remove1 p (queues s (PendingQ c))"
  "q \<noteq> PendingQ c \<Longrightarrow> mset (queues (release_pending c p s) q) = mset (queues s q)
     + (if arrival_queue c (local_criticality_level (cstate s c)) (jobs s p) = q then {#p#} else {#})"
  by (auto simp: expire_pending_def release_pending_def enqueued_def unlinked_state_def linked_state_def
      Let_def arrival_queue_def kind_queue_def due_job_def)

lemma pending_step_job:
  "jobs (release_pending c p s) p
     = (due_job (local_criticality_level (cstate s c)) (now s) (jobs s p))
         \<lparr>job_link := LinkIn (arrival_queue c (local_criticality_level (cstate s c)) (jobs s p))\<rparr>"
  "decision_point (cstate (release_pending c p s) c) \<longleftrightarrow> decision_point (cstate s c)
     \<or> \<not> t_crit_level (ptask (jobs s p)) < local_criticality_level (cstate s c)"
  "decision_point (cstate (expire_pending c p s) c) \<longleftrightarrow> decision_point (cstate s c)"
  by (simp_all add: release_pending_def expire_pending_def enqueued_def enqueued_fields unlinked_state_def
      Let_def arrival_queue_def kind_queue_def due_job_def set_decision_point_def)

text \<open>A pending job whose arrival was missed and that the core still has to run; a job that is due; the
  jobs that the walk leaves alone.\<close>

definition overdue :: "nat \<Rightarrow> sys \<Rightarrow> jptr \<Rightarrow> bool" where
  "overdue c s p \<longleftrightarrow> arrival_time (jobs s p) < now s
     \<and> \<not> t_crit_level (ptask (jobs s p)) < local_criticality_level (cstate s c)"

definition is_due :: "sys \<Rightarrow> jptr \<Rightarrow> bool" where
  "is_due s p \<longleftrightarrow> arrival_time (jobs s p) = now s"

definition stays_pending :: "nat \<Rightarrow> sys \<Rightarrow> jptr \<Rightarrow> bool" where
  "stays_pending c s p \<longleftrightarrow> overdue c s p \<or> now s < arrival_time (jobs s p)"

text \<open>What the walk over the jobs \<open>ps\<close> of the pending queue does.\<close>

definition pending_walked :: "nat \<Rightarrow> jptr list \<Rightarrow> sys \<Rightarrow> sys \<Rightarrow> bool" where
  "pending_walked c ps s t \<longleftrightarrow>
     (let l = local_criticality_level (cstate s c) in
      proc_state t = proc_state s
      \<and> queues t (PendingQ c) = filter (\<lambda>p. p \<in> set ps \<longrightarrow> stays_pending c s p) (queues s (PendingQ c))
      \<and> (\<forall>q. q \<noteq> PendingQ c \<longrightarrow> mset (queues t q) = mset (queues s q)
           + mset (filter (\<lambda>p. is_due s p \<and> arrival_queue c l (jobs s p) = q) ps))
      \<and> (\<forall>p. p \<notin> set ps \<or> stays_pending c s p \<longrightarrow> jobs t p = jobs s p)
      \<and> (\<forall>p\<in>set ps. is_due s p \<longrightarrow> jobs t p
           = (due_job l (now s) (jobs s p))\<lparr>job_link := LinkIn (arrival_queue c l (jobs s p))\<rparr>)
      \<and> (decision_point (cstate t c) \<longleftrightarrow> decision_point (cstate s c)
           \<or> (\<exists>p\<in>set ps. is_due s p \<and> \<not> t_crit_level (ptask (jobs s p)) < l)))"

lemma pending_walked_none:
  assumes "\<And>p. p \<in> set ps \<Longrightarrow> stays_pending c s p"
  shows "pending_walked c ps s s"
proof -
  have "\<not> is_due s p" if "p \<in> set ps" for p
    using assms [OF that] by (auto simp: stays_pending_def overdue_def is_due_def)
  then show ?thesis using assms by (auto simp: pending_walked_def Let_def filter_id_conv)
qed

lemma filter_remove1:
  assumes "distinct qs" and "p \<notin> set ps" and "\<not> S p" and "\<And>x. x \<in> set ps \<Longrightarrow> S' x = S x"
  shows "filter (\<lambda>x. x \<in> set ps \<longrightarrow> S' x) (remove1 p qs) = filter (\<lambda>x. x \<in> set (p # ps) \<longrightarrow> S x) qs"
  using assms by (auto simp: distinct_remove1_removeAll removeAll_filter_not_eq intro!: filter_cong)

text \<open>One step of the walk, followed by the walk over the other jobs.\<close>

definition pending_step :: "nat \<Rightarrow> jptr \<Rightarrow> sys \<Rightarrow> sys \<Rightarrow> bool" where
  "pending_step c p s t \<longleftrightarrow> stays_pending c s p \<and> t = s
     \<or> \<not> stays_pending c s p \<and> \<not> is_due s p \<and> t = expire_pending c p s
     \<or> is_due s p \<and> t = release_pending c p s"

lemma stays_not_due: "stays_pending c s p \<Longrightarrow> \<not> is_due s p"
  by (auto simp: stays_pending_def overdue_def is_due_def)

lemma pending_step_same:
  assumes "pending_step c p s t"
  shows "proc_state t = proc_state s"
    and "local_criticality_level (cstate t d) = local_criticality_level (cstate s d)"
    and "x \<noteq> p \<Longrightarrow> jobs t x = jobs s x"
    and "x \<noteq> p \<Longrightarrow> is_due t x = is_due s x" and "x \<noteq> p \<Longrightarrow> stays_pending c t x = stays_pending c s x"
proof -
  show P: "proc_state t = proc_state s"
    "local_criticality_level (cstate t d) = local_criticality_level (cstate s d)"
    "x \<noteq> p \<Longrightarrow> jobs t x = jobs s x" for d
    using assms by (auto simp: pending_step_def pending_step_fields)
  then show "x \<noteq> p \<Longrightarrow> is_due t x = is_due s x" "x \<noteq> p \<Longrightarrow> stays_pending c t x = stays_pending c s x"
    by (simp_all add: is_due_def stays_pending_def overdue_def)
qed

lemma pending_walked_queues:
  assumes W: "pending_walked c ps t u" and d: "p \<notin> set ps" "distinct (queues s (PendingQ c))"
    and step: "pending_step c p s t"
  shows "queues u (PendingQ c) = filter (\<lambda>x. x \<in> set (p # ps) \<longrightarrow> stays_pending c s x) (queues s (PendingQ c))"
    and "q \<noteq> PendingQ c \<Longrightarrow> mset (queues u q) = mset (queues s q)
      + mset (filter (\<lambda>x. is_due s x \<and> arrival_queue c (local_criticality_level (cstate s c)) (jobs s x) = q) (p # ps))"
proof -
  let ?l = "local_criticality_level (cstate s c)"
  note S = pending_step_same [OF step]
  note W' = W [unfolded pending_walked_def Let_def S(1,2)] and step' = step [unfolded pending_step_def]
  have np: "x \<noteq> p" if "x \<in> set ps" for x using that d(1) by auto
  show "queues u (PendingQ c) = filter (\<lambda>x. x \<in> set (p # ps) \<longrightarrow> stays_pending c s x) (queues s (PendingQ c))"
  proof (cases "stays_pending c s p")
    case True
    then show ?thesis using W' step' stays_not_due [OF True] by (auto intro!: filter_cong)
  next
    case False
    then have "queues t (PendingQ c) = remove1 p (queues s (PendingQ c))"
      using step' by (auto simp: pending_step_queues)
    then show ?thesis using W' S(5) np
        filter_remove1 [where S = "stays_pending c s" and S' = "stays_pending c t", OF d(2,1) False] by simp
  qed
  assume q: "q \<noteq> PendingQ c"
  have "filter (\<lambda>x. is_due t x \<and> arrival_queue c ?l (jobs t x) = q) ps
      = filter (\<lambda>x. is_due s x \<and> arrival_queue c ?l (jobs s x) = q) ps"
    using S(3,4) np by (intro filter_cong) simp_all
  moreover have "mset (queues u q) = mset (queues t q)
        + mset (filter (\<lambda>x. is_due t x \<and> arrival_queue c ?l (jobs t x) = q) ps)"
    using W' q by blast
  ultimately have "mset (queues u q) = mset (queues t q)
        + mset (filter (\<lambda>x. is_due s x \<and> arrival_queue c ?l (jobs s x) = q) ps)"
    by (simp only:)
  then show "mset (queues u q) = mset (queues s q)
      + mset (filter (\<lambda>x. is_due s x \<and> arrival_queue c ?l (jobs s x) = q) (p # ps))"
    using step' stays_not_due [of c s p] q by (auto simp: pending_step_queues)
qed

lemma pending_walked_jobs:
  assumes W: "pending_walked c ps t u" and p: "p \<notin> set ps" and step: "pending_step c p s t"
  shows "x \<notin> set (p # ps) \<or> stays_pending c s x \<Longrightarrow> jobs u x = jobs s x"
    and "x \<in> set (p # ps) \<Longrightarrow> is_due s x \<Longrightarrow> jobs u x
      = (due_job (local_criticality_level (cstate s c)) (now s) (jobs s x))
          \<lparr>job_link := LinkIn (arrival_queue c (local_criticality_level (cstate s c)) (jobs s x))\<rparr>"
proof -
  note S = pending_step_same [OF step]
  note W' = W [unfolded pending_walked_def Let_def S(1,2)] and step' = step [unfolded pending_step_def]
  show "jobs u x = jobs s x" if "x \<notin> set (p # ps) \<or> stays_pending c s x"
  proof (cases "x = p")
    case True
    then have "t = s" using that step' stays_not_due [of c s p] by auto
    then show ?thesis using W' True p by simp
  next
    case False
    then show ?thesis using W' S(3,5) [OF False] that by auto
  qed
  show "jobs u x = (due_job (local_criticality_level (cstate s c)) (now s) (jobs s x))
      \<lparr>job_link := LinkIn (arrival_queue c (local_criticality_level (cstate s c)) (jobs s x))\<rparr>"
    if "x \<in> set (p # ps)" "is_due s x"
  proof (cases "x = p")
    case True
    then have "t = release_pending c p s" using that step' stays_not_due [of c s p] by auto
    then show ?thesis using W' True p by (simp add: pending_step_job)
  next
    case False
    then show ?thesis using W' S(3,4) [OF False] that by simp
  qed
qed

lemma pending_walked_Cons:
  assumes W: "pending_walked c ps t u" and d: "p \<notin> set ps" "distinct (queues s (PendingQ c))"
    and step: "pending_step c p s t"
  shows "pending_walked c (p # ps) s u"
proof -
  let ?l = "local_criticality_level (cstate s c)"
  note S = pending_step_same [OF step]
  note W' = W [unfolded pending_walked_def Let_def S(1,2)]
  have np: "x \<noteq> p" if "x \<in> set ps" for x using that d(1) by auto
  have "decision_point (cstate t c) \<longleftrightarrow> decision_point (cstate s c)
      \<or> is_due s p \<and> \<not> t_crit_level (ptask (jobs s p)) < ?l"
    using step stays_not_due [of c s p] by (auto simp: pending_step_def pending_step_job)
  moreover have "(\<exists>x\<in>set ps. is_due t x \<and> \<not> t_crit_level (ptask (jobs t x)) < ?l)
      \<longleftrightarrow> (\<exists>x\<in>set ps. is_due s x \<and> \<not> t_crit_level (ptask (jobs s x)) < ?l)"
    using S(3,4) np by (intro bex_cong) simp_all
  ultimately have "decision_point (cstate u c) \<longleftrightarrow> decision_point (cstate s c)
      \<or> (\<exists>x\<in>set (p # ps). is_due s x \<and> \<not> t_crit_level (ptask (jobs s x)) < ?l)"
    using W' by auto
  moreover have "proc_state u = proc_state s" using W' by simp
  ultimately show ?thesis unfolding pending_walked_def Let_def
    using pending_walked_queues [OF W d step] pending_walked_jobs [OF W d(1) step] by blast
qed

lemma pending_arrivals_ok:
  assumes "tick_inv N B s" and c: "c < N" and "distinct ps"
    and "\<And>p. p \<in> set ps \<Longrightarrow> job_link (jobs s p) = LinkIn (PendingQ c)"
    and "sorted (map (\<lambda>p. arrival_time (jobs s p)) ps)"
  shows "wp (pending_arrivals c ps s) (\<lambda>t. tick_inv N B t \<and> pending_walked c ps s t)"
  using assms(1,3-)
proof (induction ps arbitrary: s)
  case Nil
  then show ?case using pending_walked_none [of "[]" c s] by simp
next
  case (Cons p ps)
  have link: "job_link (jobs s p) = LinkIn (PendingQ c)" using Cons.prems(3) by simp
  note C = pending_arrivals_Cons [OF Cons.prems(1) c link, of ps]
  note R = release_pending_ok [OF Cons.prems(1) link]
  have dq: "distinct (queues s (PendingQ c))"
    using queue_okD(1) [OF sys_invD(1) [OF tick_invD(1) [OF Cons.prems(1)]]] .
  have IH: "wp (pending_arrivals c ps t) (\<lambda>u. tick_inv N B u \<and> pending_walked c (p # ps) s u)"
    if t: "tick_inv N B t" and step: "pending_step c p s t" for t
  proof -
    have same: "jobs t x = jobs s x" if "x \<in> set ps" for x
      using pending_step_same(3) [OF step, of x] that Cons.prems(2) by auto
    then have M: "map (\<lambda>p. arrival_time (jobs t p)) ps = map (\<lambda>p. arrival_time (jobs s p)) ps" by simp
    have "sorted (map (\<lambda>p. arrival_time (jobs t p)) ps)" unfolding M using Cons.prems(4) by simp
    with t Cons.prems(2,3) same
    have "wp (pending_arrivals c ps t) (\<lambda>u. tick_inv N B u \<and> pending_walked c ps t u)"
      by (intro Cons.IH) simp_all
    then show ?thesis
      by (rule wp_mono) (use Cons.prems(2) dq step in \<open>auto intro: pending_walked_Cons\<close>)
  qed
  show ?case
  proof (cases "arrival_time (jobs s p)" "now s" rule: linorder_cases)
    case less
    then have d: "\<not> is_due s p" "stays_pending c s p \<longleftrightarrow> \<not> t_crit_level (ptask (jobs s p))
        < local_criticality_level (cstate s c)"
      by (auto simp: overdue_def stays_pending_def is_due_def)
    have "wp (pending_arrivals c ps s) (\<lambda>u. tick_inv N B u \<and> pending_walked c (p # ps) s u)"
      if "stays_pending c s p" using IH [of s] Cons.prems(1) that by (simp add: pending_step_def)
    moreover have "wp (pending_arrivals c ps (expire_pending c p s))
        (\<lambda>u. tick_inv N B u \<and> pending_walked c (p # ps) s u)"
      if "\<not> stays_pending c s p" using IH [of "expire_pending c p s"] R(2) d(1) that by (simp add: pending_step_def)
    ultimately show ?thesis unfolding C using less d(2) by simp
  next
    case equal
    then show ?thesis unfolding C using IH [of "release_pending c p s"] R(1) by (simp add: is_due_def pending_step_def)
  next
    case greater
    then have "now s < arrival_time (jobs s x)" if "x \<in> set (p # ps)" for x
      using that Cons.prems(4) by (auto intro: order.strict_trans2)
    then have "pending_walked c (p # ps) s s" by (intro pending_walked_none) (simp add: stays_pending_def)
    then show ?thesis unfolding C using greater less_imp_not_less [OF greater] Cons.prems(1) by simp
  qed
qed

section \<open>Arrivals of tasks\<close>

text \<open>The walk over the delegations touches only them.\<close>

definition same_but_delegations :: "sys \<Rightarrow> sys \<Rightarrow> bool" where
  "same_but_delegations s t \<longleftrightarrow> jobs t = jobs s \<and> queues t = queues s \<and> free_list t = free_list s
     \<and> remote_free_list t = remote_free_list s \<and> proc_state t = proc_state s
     \<and> task_lookup t = task_lookup s \<and> core_summaries t = core_summaries s
     \<and> rand_count t = rand_count s
     \<and> (\<forall>c. \<exists>dq. cstate t c = (cstate s c)\<lparr>delegated_job_queue := dq\<rparr>)"

lemma same_but_delegations_refl: "same_but_delegations s s"
proof -
  have "\<exists>dq. cstate s c = (cstate s c)\<lparr>delegated_job_queue := dq\<rparr>" for c
    by (rule exI [of _ "delegated_job_queue (cstate s c)"]) simp
  then show ?thesis by (simp add: same_but_delegations_def)
qed

lemma same_but_delegations_trans:
  assumes "same_but_delegations s t" and "same_but_delegations t u"
  shows "same_but_delegations s u"
proof -
  have "\<exists>dq. cstate u c = (cstate s c)\<lparr>delegated_job_queue := dq\<rparr>" for c
  proof -
    obtain a where "cstate t c = (cstate s c)\<lparr>delegated_job_queue := a\<rparr>"
      using assms(1) unfolding same_but_delegations_def by blast
    moreover obtain b where "cstate u c = (cstate t c)\<lparr>delegated_job_queue := b\<rparr>"
      using assms(2) unfolding same_but_delegations_def by blast
    ultimately show ?thesis by (intro exI [of _ b]) simp
  qed
  then show ?thesis using assms by (simp add: same_but_delegations_def)
qed

lemma release_step_same:
  "same_but_delegations s (release_delegation (Some d) c (unlink_delegation d c s))"
proof -
  have "\<exists>dq. cstate (unlink_delegation d c s) e = (cstate s e)\<lparr>delegated_job_queue := dq\<rparr>" for e
    by (rule exI [of _ "delegated_job_queue (cstate (unlink_delegation d c s) e)"])
      (simp add: unlink_delegation_def)
  then show ?thesis
    by (simp add: same_but_delegations_def release_delegation_def Let_def unlink_delegation_def)
qed

lemma check_delegated_same:
  "check_delegated c tid ds s = (b, t) \<Longrightarrow> same_but_delegations s t"
proof (induction ds arbitrary: s)
  case Nil
  then show ?case by (simp add: same_but_delegations_refl)
next
  case (Cons d ds)
  show ?case
  proof (cases "dj_arrival_tick (delegated_jobs_pool s d) < now s")
    case True
    then have "check_delegated c tid ds (release_delegation (Some d) c (unlink_delegation d c s)) = (b, t)"
      using Cons.prems by (simp add: Let_def)
    from same_but_delegations_trans [OF release_step_same Cons.IH [OF this]] show ?thesis .
  qed (use Cons in \<open>auto simp: Let_def same_but_delegations_refl split: if_splits\<close>)
qed

lemma same_but_delegations_held:
  assumes S: "same_but_delegations s t" and T: "tick_held N B H s"
  shows "tick_held N B H t"
proof -
  have c: "rq_lock (cstate t c) = rq_lock (cstate s c) \<and> is_idle (cstate t c) = is_idle (cstate s c)
      \<and> running_job (cstate t c) = running_job (cstate s c)
      \<and> migration_request_queue (cstate t c) = migration_request_queue (cstate s c)" for c
  proof -
    obtain a where "cstate t c = (cstate s c)\<lparr>delegated_job_queue := a\<rparr>"
      using S unfolding same_but_delegations_def by blast
    then show ?thesis by simp
  qed
  have "sys_inv N B H t \<longleftrightarrow> sys_inv N B H s"
    using S c by (intro sys_inv_cong) (simp_all add: same_but_delegations_def)
  then show ?thesis
    using tick_invD(1,5) [OF T] c S
    by (intro tick_held_step [OF T]) (simp_all add: same_but_delegations_def locals_empty_def)
qed

text \<open>
  What the generation of execution times needs of the configuration: the random numbers are in
  range, and \<^verbatim>\<open>powf\<close> maps the unit interval to itself. The theory of \<^verbatim>\<open>sched_util.c\<close> shows that it
  then returns and only draws two numbers.
\<close>

definition acet_returns :: "config \<Rightarrow> bool" where
  "acet_returns cfg \<longleftrightarrow>
     (\<forall>p s. \<exists>a. generate_acet cfg p s = Some (a, s\<lparr>rand_count := rand_count s + 2\<rparr>))"

definition arrived_job :: "config \<Rightarrow> task_alloc_map \<Rightarrow> task_struct \<Rightarrow> u32 \<Rightarrow> nat \<Rightarrow> job_struct \<Rightarrow> bool" where
  "arrived_job cfg m task t l j \<longleftrightarrow>
     parent_task j = Some task \<and> arrival_time j = t
     \<and> actual_deadline j = t + t_deadline task
     \<and> virtual_deadline j = t + m_tuned_deadlines m ! l
     \<and> wcet j = of_u32 (t_wcet task ! l) \<and> executed_time j = lit 0 1
     \<and> relative_tuned_deadlines j
        = map (\<lambda>i. m_tuned_deadlines m ! i) [0..<MAX_CRITICALITY_LEVELS cfg]
     \<and> (is_replica j \<longleftrightarrow> m_task_type m = Replica) \<and> state j = JOB_STATE_READY
     \<and> refcount j = 1 \<and> \<not> is_being_offered j"

lemma init_arrived_job_ok:
  assumes G: "acet_returns cfg" and T: "tick_held N B H s" and l: "job_link (jobs s p) = LinkSelf"
    and h: "p \<in># H"
    and n: "not_running N s p" and pt: "parent_task (jobs s p) = Some task"
    and rc: "refcount (jobs s p) = 1" "\<not> is_being_offered (jobs s p)"
  shows "wp (init_arrived_job cfg c m p s) (\<lambda>t. tick_held N B H t \<and> not_running N t p
     \<and> job_link (jobs t p) = LinkSelf \<and> (\<forall>x. x \<noteq> p \<longrightarrow> jobs t x = jobs s x)
     \<and> core_states t = core_states s \<and> proc_state t = proc_state s \<and> queues t = queues s
     \<and> task_lookup t = task_lookup s
     \<and> arrived_job cfg m task (now s) (local_criticality_level (cstate s c)) (jobs t p))"
proof -
  let ?l = "local_criticality_level (cstate s c)"
  let ?f = "\<lambda>j. let j = copy_deadlines cfg m (j\<lparr>arrival_time := now s\<rparr>) in
      j\<lparr>actual_deadline := now s + t_deadline (ptask j),
        virtual_deadline := now s + m_tuned_deadlines m ! ?l,
        wcet := of_u32 (t_wcet (ptask j) ! ?l)\<rparr>"
  let ?u = "upd_job p ?f s"
  have u: "unlinked (jobs s p)" using l by (simp add: unlinked_cases)
  have U: "tick_held N B H ?u" "not_running N ?u p"
    using upd_unlinked_held [OF T u n, of ?f] l
    by (simp_all add: same_count_def copy_deadlines_def unlinked_def Let_def)
  obtain a where a: "generate_acet cfg p ?u = Some (a, ?u\<lparr>rand_count := rand_count ?u + 2\<rparr>)"
    using G unfolding acet_returns_def by blast
  let ?v = "?u\<lparr>rand_count := rand_count ?u + 2\<rparr>"
  let ?g = "\<lambda>j. j\<lparr>acet := a, executed_time := lit 0 1, is_replica := (m_task_type m = Replica),
      state := JOB_STATE_READY\<rparr>"
  have V: "tick_held N B H ?v" using tick_invD(1,5) [OF U(1)]
    by (intro tick_held_step [OF U(1)]) (simp_all add: locals_empty_def)
  have nv: "not_running N ?v p" and uv: "unlinked (jobs ?v p)" using U(2) l
    by (simp_all add: not_running_def unlinked_def copy_deadlines_def Let_def)
  have W: "tick_held N B H (upd_job p ?g ?v)"
    using upd_private_held [OF V h _ uv, of ?g] l rc
    by (simp add: same_pool_def unlinked_def copy_deadlines_def Let_def)
  have W': "not_running N (upd_job p ?g ?v) p" using nv by (simp add: not_running_def)
  have "init_arrived_job cfg c m p s = Some (upd_job p ?g ?v)"
    unfolding init_arrived_job_def Let_def [of ?l] using a by (simp add: Let_def)
  moreover have "arrived_job cfg m task (now s) ?l (jobs (upd_job p ?g ?v) p)"
    using pt rc by (simp add: arrived_job_def copy_deadlines_def Let_def)
  ultimately show ?thesis using W W' l by (simp add: copy_deadlines_def Let_def)
qed

lemma new_job_held:
  assumes T: "tick_inv N B s" and c: "c < N" and e: "create_job t c s = (r, s')"
  shows "r = None \<Longrightarrow> tick_inv N B s'"
    and "r = Some p \<Longrightarrow> tick_held N B {#p#} s' \<and> not_running N s' p
           \<and> jobs s' p = new_job_fields t c (jobs s p)"
proof -
  note E = create_job_sys_fields [OF e] and C = sys_inv_create [OF tick_invD(1) [OF T] c e]
  have L: "locals_empty s'" using tick_invD(5) [OF T] E(3) by (simp add: locals_empty_def)
  show "tick_inv N B s'" if "r = None"
    using C that L E by (intro tick_held_step [OF T]) simp_all
  show "tick_held N B {#p#} s' \<and> not_running N s' p \<and> jobs s' p = new_job_fields t c (jobs s p)"
    if "r = Some p"
    using C that L E by (auto intro: tick_held_step [OF T])
qed

text \<open>One entry of the allocation map: nothing arrives, or one job with the right parameters.\<close>

definition arrives :: "config \<Rightarrow> nat \<Rightarrow> task_alloc_map \<Rightarrow> sys \<Rightarrow> task_struct \<Rightarrow> bool" where
  "arrives cfg c m s task \<longleftrightarrow> on_core s c m \<and> find_task_by_id cfg (m_task_id m) s = Some task
     \<and> t_period task \<noteq> 0 \<and> now s mod t_period task = 0
     \<and> \<not> fst (check_delegated c (t_id task) (delegated_job_queue (cstate s c)) s)"

lemma task_arrival_ok:
  assumes G: "acet_returns cfg" and T: "tick_inv N B s" and c: "c < N"
  shows "wp (task_arrival cfg c m s) (\<lambda>t. tick_inv N B t \<and> proc_state t = proc_state s
     \<and> (\<forall>task. arrives cfg c m s task \<and> (free_list s c \<noteq> None \<or> remote_free_list s c \<noteq> None) \<longrightarrow>
          (\<exists>p. arrived_job cfg m task (now s) (local_criticality_level (cstate s c)) (jobs t p)
             \<and> job_link (jobs t p) = LinkIn (arrival_queue c
                 (local_criticality_level (cstate s c)) (jobs t p)))))"
proof (cases "\<exists>task. arrives cfg c m s task")
  case False
  have "tick_inv N B t \<and> proc_state t = proc_state s"
    if "check_delegated c tid ds s = (b, t)" for tid ds b t
    using check_delegated_same [OF that] same_but_delegations_held [OF _ T]
    by (simp add: same_but_delegations_def)
  then show ?thesis using False T
    by (auto simp: task_arrival_def arrives_def split: option.splits prod.splits bool.splits
        del: mod_0_imp_dvd)
next
  case True
  then obtain task where A: "arrives cfg c m s task" by blast
  let ?l = "local_criticality_level (cstate s c)"
  obtain u where u: "check_delegated c (t_id task) (delegated_job_queue (cstate s c)) s = (False, u)"
    using A by (auto simp: arrives_def) (metis prod.collapse)
  note S = check_delegated_same [OF u]
  have U: "tick_inv N B u" using same_but_delegations_held [OF S T] .
  have lu: "local_criticality_level (cstate u c) = ?l"
  proof -
    obtain dq where "cstate u c = (cstate s c)\<lparr>delegated_job_queue := dq\<rparr>"
      using S unfolding same_but_delegations_def by blast
    then show ?thesis by simp
  qed
  have su: "proc_state u = proc_state s" "free_list u = free_list s"
    "remote_free_list u = remote_free_list s" using S by (simp_all add: same_but_delegations_def)
  obtain r v where v: "create_job task c u = (r, v)" by (cases "create_job task c u")
  note E = create_job_sys_fields [OF v]
  have e: "task_arrival cfg c m s = (case r of None \<Rightarrow> Some v
      | Some p \<Rightarrow> Option.bind (init_arrived_job cfg c m p v) (enqueue_arrival c p))"
    using A u v by (auto simp: task_arrival_def arrives_def split: option.splits)
  have one: "task' = task" if "arrives cfg c m s task'" for task'
    using A that by (simp add: arrives_def)
  show ?thesis
  proof (cases r)
    case None
    then have "free_list s c = None" and "remote_free_list s c = None"
      using v su by (auto simp: create_job_def Let_def split: option.splits if_splits)
    then show ?thesis using e None new_job_held(1) [OF U c v] E(2) su(1) by simp
  next
    case (Some p)
    have V: "tick_held N B {#p#} v" "not_running N v p" "jobs v p = new_job_fields task c (jobs u p)"
      using new_job_held(2) [OF U c v Some] by simp_all
    have nv: "now v = now s" "local_criticality_level (cstate v c) = ?l"
      using E su lu by simp_all
    obtain w where w: "init_arrived_job cfg c m p v = Some w" "tick_held N B {#p#} w"
      "not_running N w p" "job_link (jobs w p) = LinkSelf" "core_states w = core_states v"
      "proc_state w = proc_state v" "arrived_job cfg m task (now s) ?l (jobs w p)"
      using init_arrived_job_ok [OF G V(1) _ _ V(2), where task = task and c = c and m = m] V(3) nv
      by (auto simp: wp_iff new_job_fields_def)
    have uw: "unlinked (jobs w p)" and rw: "state (jobs w p) = JOB_STATE_READY"
      and ow: "\<not> is_being_offered (jobs w p)"
      using w by (simp_all add: unlinked_cases arrived_job_def)
    have q: "enqueue_arrival c p w = Some (enqueued c p w)"
      using tick_invD(2) [OF w(2) c] uw by (rule enqueue_arrival_eq)
    have X: "tick_inv N B (enqueued c p w)" by (rule enqueued_ok [OF w(2) uw rw w(3) ow])
    let ?j = "jobs (enqueued c p w) p"
    have lw: "local_criticality_level (cstate w c) = ?l" using w(5) nv by simp
    have "?j = (jobs w p)\<lparr>job_link := LinkIn (arrival_queue c ?l (jobs w p))\<rparr>"
      by (simp add: enqueued_fields lw)
    then have "arrived_job cfg m task (now s) ?l ?j \<and> job_link ?j = LinkIn (arrival_queue c ?l ?j)"
      using w(7) by (simp add: arrived_job_def arrival_queue_def kind_queue_def)
    then show ?thesis using e Some w(1,6) q X E(2) su(1) one
      by (auto simp: enqueued_fields(1))
  qed
qed

lemma handle_job_arrivals_ok:
  assumes G: "acet_returns cfg" and T: "tick_inv N B s" and c: "c < N"
  shows "wp (handle_job_arrivals cfg c s) (\<lambda>t. tick_inv N B t \<and> proc_state t = proc_state s)"
proof -
  have Q: "queues_ok s" using sys_invD(1) [OF tick_invD(1) [OF T]] .
  have p: "wp (pending_arrivals c (queues s (PendingQ c)) s) (\<lambda>t. tick_inv N B t \<and> proc_state t = proc_state s)"
    using pending_arrivals_ok [OF T c, of "queues s (PendingQ c)"] queue_okD(1,3) [OF Q, of "PendingQ c"]
      queue_okD(2) [OF Q, of _ "PendingQ c"]
    by (auto simp: pending_walked_def Let_def elim!: wp_mono)
  let ?I = "\<lambda>u. tick_inv N B u \<and> proc_state u = proc_state s"
  have one: "wp (task_arrival cfg c m u) ?I" if "?I u" for m u
  proof -
    have U: "tick_inv N B u" and pu: "proc_state u = proc_state s" using that by simp_all
    show ?thesis by (rule wp_mono [OF task_arrival_ok [OF G U c]]) (simp add: pu)
  qed
  have "wp (foldM (task_arrival cfg c) ms u) ?I" if "?I u" for ms u
    by (rule total.loop_inv) (use that one in auto)
  then show ?thesis using p by (auto simp: handle_job_arrivals_def elim!: wp_mono)
qed

end
