(* ===== verification/MigrationInv.thy ===== *)
theory MigrationInv
  imports ReclaimInv ArrivalInv
begin

text \<open>
  Migration keeps the invariant. A push gives a request one counted reference to the job it offers, and
  the core that takes the request either moves the job to exactly one of its queues or drops the
  reference. A request to a full queue blocks for ever in this sequential model, and the admission
  test may trap, so the loops are partially correct; the handling of one request returns whenever its
  test does and the queue of acknowledgements has room.
\<close>

section \<open>Acknowledgements\<close>

definition same_but_acks :: "sys \<Rightarrow> sys \<Rightarrow> bool" where
  "same_but_acks s t \<longleftrightarrow> jobs t = jobs s \<and> queues t = queues s \<and> free_list t = free_list s
     \<and> remote_free_list t = remote_free_list s \<and> proc_state t = proc_state s
     \<and> task_lookup t = task_lookup s \<and> rand_count t = rand_count s
     \<and> (\<forall>c. \<exists>q. cstate t c = (cstate s c)\<lparr>delegation_ack_queue := q\<rparr>)"

lemma same_but_acks_refl: "same_but_acks s s"
proof -
  have "\<exists>q. cstate s c = (cstate s c)\<lparr>delegation_ack_queue := q\<rparr>" for c
    by (rule exI [of _ "delegation_ack_queue (cstate s c)"]) simp
  then show ?thesis by (simp add: same_but_acks_def)
qed

lemma same_but_acks_trans:
  assumes "same_but_acks s t" and "same_but_acks t u"
  shows "same_but_acks s u"
proof -
  have "\<exists>q. cstate u c = (cstate s c)\<lparr>delegation_ack_queue := q\<rparr>" for c
  proof -
    obtain a where "cstate t c = (cstate s c)\<lparr>delegation_ack_queue := a\<rparr>"
      using assms(1) unfolding same_but_acks_def by blast
    moreover obtain b where "cstate u c = (cstate t c)\<lparr>delegation_ack_queue := b\<rparr>"
      using assms(2) unfolding same_but_acks_def by blast
    ultimately show ?thesis by (intro exI [of _ b]) simp
  qed
  then show ?thesis using assms by (simp add: same_but_acks_def)
qed

lemma ack_step_same:
  "same_but_acks s (apply_ack c a (upd_core c (delegation_ack_queue_update (\<lambda>_. q)) s))"
proof -
  have "\<exists>r. cstate (upd_core c (delegation_ack_queue_update (\<lambda>_. q)) s) d
      = (cstate s d)\<lparr>delegation_ack_queue := r\<rparr>" for d
  proof (cases "d = c")
    case False
    then show ?thesis by (intro exI [of _ "delegation_ack_queue (cstate s d)"]) simp
  qed auto
  then show ?thesis by (simp add: same_but_acks_def apply_ack_def split: option.splits)
qed

lemma update_delegations_same:
  assumes "update_delegations c s = Some t"
  shows "same_but_acks s t"
proof (rule update_delegations.raw_induct [where P = "\<lambda>_ s t. same_but_acks s t", OF _ assms])
  fix upd :: "nat \<Rightarrow> sys \<Rightarrow> sys option" and c s t
  assume IH: "\<And>c s t. upd c s = Some t \<Longrightarrow> same_but_acks s t"
    and e: "Option.bind (ring_buffer_try_dequeue (Some undef_ack) (delegation_ack_queue (cstate s c)))
      (\<lambda>(r, ack, q). if r = 0
         then upd c (apply_ack c (the ack) (upd_core c (delegation_ack_queue_update (\<lambda>_. q)) s))
         else Some s) = Some t"
  from e obtain r a q where d: "ring_buffer_try_dequeue (Some undef_ack)
      (delegation_ack_queue (cstate s c)) = Some (r, a, q)" by (auto simp: bind_Some_iff)
  show "same_but_acks s t"
  proof (cases "r = 0")
    case True
    then have "upd c (apply_ack c (the a) (upd_core c (delegation_ack_queue_update (\<lambda>_. q)) s)) = Some t"
      using e d by simp
    from same_but_acks_trans [OF ack_step_same IH [OF this]] show ?thesis .
  next
    case False
    then show ?thesis using e d by (simp add: same_but_acks_refl)
  qed
qed

lemma same_but_acks_held:
  assumes S: "same_but_acks s t" and T: "tick_held N B H s"
  shows "tick_held N B H t"
proof -
  have c: "rq_lock (cstate t c) = rq_lock (cstate s c) \<and> is_idle (cstate t c) = is_idle (cstate s c)
      \<and> running_job (cstate t c) = running_job (cstate s c)
      \<and> migration_request_queue (cstate t c) = migration_request_queue (cstate s c)" for c
  proof -
    obtain a where "cstate t c = (cstate s c)\<lparr>delegation_ack_queue := a\<rparr>"
      using S unfolding same_but_acks_def by blast
    then show ?thesis by simp
  qed
  have "sys_inv N B H t \<longleftrightarrow> sys_inv N B H s"
    using S c by (intro sys_inv_cong) (simp_all add: same_but_acks_def)
  then show ?thesis
    using tick_invD(1,5) [OF T] c S
    by (intro tick_held_step [OF T]) (simp_all add: same_but_acks_def locals_empty_def)
qed

lemma update_delegations_ok:
  assumes "tick_inv N B s"
  shows "wlp (update_delegations c s) (\<lambda>t. tick_inv N B t \<and> proc_state t = proc_state s)"
  using same_but_acks_held [OF update_delegations_same assms] update_delegations_same
  by (auto simp: wlp_iff same_but_acks_def)

section \<open>The chosen core\<close>

text \<open>
  The core chosen for a job is the core itself, or the busy core with the highest utilisation above
  the threshold among those with enough slack (the first of them, when several tie).
\<close>

definition eligible :: "sys \<Rightarrow> f32 \<Rightarrow> nat \<Rightarrow> bool" where
  "eligible s demand i \<longleftrightarrow> \<not> sum_is_idle (core_summaries s i)
     \<and> f_le demand (sum_slack (core_summaries s i))"

lemma best_core_range:
  "fst (fold (best_core_step s demand) is a) \<in> insert (fst a) (set is)"
proof (induction "is" arbitrary: a)
  case Nil
  then show ?case by simp
next
  case (Cons i "is")
  have "fst (best_core_step s demand i a) \<in> {fst a, i}"
    by (cases a) (simp add: best_core_step_def Let_def)
  then show ?case using Cons.IH [of "best_core_step s demand i a"] by auto
qed

lemma find_best_core_range:
  assumes "c < NUM_CORES_PER_PROC cfg"
  shows "find_best_core_for_migration cfg p c s < NUM_CORES_PER_PROC cfg"
proof -
  let ?d = "f_sub (wcet (jobs s p)) (executed_time (jobs s p))"
  have "fst (fold (best_core_step s ?d) [0..<NUM_CORES_PER_PROC cfg] (c, LIGHT_DONOR_UTIL_THRESHOLD))
      \<in> insert (fst (c, LIGHT_DONOR_UTIL_THRESHOLD)) (set [0..<NUM_CORES_PER_PROC cfg])"
    by (rule best_core_range)
  then show ?thesis using assms by (auto simp: find_best_core_for_migration_def Let_def)
qed

lemma best_core_eligible:
  assumes "fst (fold (best_core_step s demand) is (c, u)) \<noteq> c"
  shows "eligible s demand (fst (fold (best_core_step s demand) is (c, u)))"
proof -
  have "fst (fold (best_core_step s demand) is a) = fst a
      \<or> eligible s demand (fst (fold (best_core_step s demand) is a))" for a
  proof (induction "is" arbitrary: a)
    case Nil
    then show ?case by simp
  next
    case (Cons i "is")
    have "fst (best_core_step s demand i a) = fst a \<or> eligible s demand (fst (best_core_step s demand i a))"
      by (cases a) (simp add: best_core_step_def eligible_def Let_def)
    then show ?case using Cons.IH [of "best_core_step s demand i a"] by auto
  qed
  from this [of "(c, u)"] show ?thesis using assms by simp
qed

lemma find_best_core_eligible:
  assumes "find_best_core_for_migration cfg p c s \<noteq> c"
  shows "eligible s (f_sub (wcet (jobs s p)) (executed_time (jobs s p)))
           (find_best_core_for_migration cfg p c s)"
  using assms unfolding find_best_core_for_migration_def Let_def by (rule best_core_eligible)

section \<open>Offering a queued job\<close>

lemma sys_inv_upd_offered:
  assumes I: "sys_inv N B H s" and link: "job_link (jobs s p) = LinkIn (kind_queue c (jobs s p))"
  shows "sys_inv N B H (upd_job p (is_being_offered_update f) s)"
proof (rule sys_inv_upd_job [OF I])
  show "queues_ok (upd_job p (is_being_offered_update f) s)"
    unfolding queues_ok_def
  proof
    fix q
    note Q = sys_invD(1) [OF I]
    have n: "p \<notin> set (queues s q)" if "q \<noteq> kind_queue c (jobs s p)"
      using queue_okD(2) [OF Q, of p q] link that by simp
    have o: "entry_ok (kind_queue c (jobs s p)) (is_being_offered_update f j)
        = entry_ok (kind_queue c (jobs s p)) j" for j
      by (simp add: kind_queue_def)
    have k: "queue_key q (is_being_offered_update f j) = queue_key q j" for j by (cases q) simp_all
    show "queue_ok (upd_job p (is_being_offered_update f) s) q"
    proof (rule queue_ok_cong)
      show "queue_ok s q" using Q by (simp add: queues_ok_def)
      show "entry_ok q (jobs (upd_job p (is_being_offered_update f) s) x)"
        if "x \<in> set (queues s q)" "entry_ok q (jobs s x)" for x
      proof (cases "x = p")
        case True
        then have q: "q = kind_queue c (jobs s p)" using that(1) n by blast
        show ?thesis using o [of "jobs s p"] that(2) unfolding True q
          by (simp only: upd_job_fields fun_upd_same)
      qed (use that in simp)
    qed (simp_all add: k)
  qed
qed (use link in \<open>auto simp: same_count_def unlinked_def\<close>)

text \<open>What the offer of one queued job does.\<close>

lemma try_offload_job_ok:
  assumes L: "locked_held N B H c s" and c: "c < N" and N: "N = NUM_CORES_PER_PROC cfg"
    and link: "job_link (jobs s p) = LinkIn (kind_queue c (jobs s p))"
  shows "wlp (try_offload_job cfg c p s) (\<lambda>t. locked_held N B H c t \<and> queues t = queues s
     \<and> proc_state t = proc_state s \<and> task_lookup t = task_lookup s
     \<and> (\<forall>x. job_link (jobs t x) = job_link (jobs s x) \<and> is_replica (jobs t x) = is_replica (jobs s x)))"
    (is "wlp _ ?Q")
proof -
  note D = locked_heldD [OF L]
  let ?o = "is_being_offered_update (\<lambda>_. True)"
  let ?s = "upd_job p ?o s"
  have I: "sys_inv N B H ?s" using sys_inv_upd_offered [OF D(1) link] .
  have S: "?Q ?s" using D(3)
    by (auto intro!: locked_held_step [OF L I])
  have I': "sys_inv N B H (upd_job p (is_being_offered_update (\<lambda>_. False)) ?s)"
    by (rule sys_inv_upd_offered [OF I, where c = c]) (use link in \<open>simp add: kind_queue_def\<close>)
  have C: "?Q (upd_job p (is_being_offered_update (\<lambda>_. False)) ?s)" using D(3)
    by (auto intro!: locked_held_step [OF L I'])
  let ?d = "find_best_core_for_migration cfg p c ?s"
  have d: "?d < N" using find_best_core_range [of c cfg p ?s] c N by simp
  let ?r = "\<lparr>req_job = p, from_core = c\<rparr>"
  let ?g = "upd_job p (refcount_update (\<lambda>r. r + 1)) ?s"
  let ?q = "migration_request_queue (cstate ?s ?d)"
  have e: "state (jobs s p) = JOB_STATE_READY"
    using linked_entry_ok [OF sys_invD(1) [OF D(1)] link] by simp
  have "0 < refs N ?s p" using link by (simp add: refs_def unlinked_def)
  then have G: "sys_inv N B (add_mset p H) ?g" using e by (intro sys_inv_get [OF I]) simp_all
  have X: "?Q (upd_core ?d (migration_request_queue_update (\<lambda>_. rb_push ?r ?q)) ?g)"
    if room: "0 < rb_room ?q"
  proof -
    have "sys_inv N B H (upd_core ?d (migration_request_queue_update (\<lambda>_. rb_push ?r ?q)) ?g)"
      using sys_inv_send [of N B ?r H ?g ?d] G d room c e link by (simp add: offer_ok_def)
    then have "locked_held N B H c (upd_core ?d (migration_request_queue_update (\<lambda>_. rb_push ?r ?q)) ?g)"
      by (rule locked_held_step [OF L]) (use D(3) in simp_all)
    then show ?thesis by simp
  qed
  have live: "rb_live 32 (B ?d) ?q" using sys_invD(4) [OF I d] .
  have W: "wlp (send_request ?d ?r ?g) ?Q"
  proof (cases "rb_room ?q = 0")
    case True
    then show ?thesis using rb_live_put(1) [OF live] by (simp add: send_request_def)
  next
    case False
    then show ?thesis using rb_live_put(1) [OF live] X by (simp add: send_request_def)
  qed
  have gr: "get_job_ref (Some p) ?s = (Some p, ?g)" by (simp add: get_job_ref_def)
  show ?thesis
    using S C W L gr by (simp add: try_offload_job_def Let_def)
qed

text \<open>The loop invariant of the offers: \<open>ys\<close> are the entries still to visit.\<close>

definition offload_todo ::
  "nat \<Rightarrow> (nat \<Rightarrow> nat) \<Rightarrow> jptr multiset \<Rightarrow> nat \<Rightarrow> sys \<Rightarrow> jptr list \<Rightarrow> sys \<Rightarrow> bool" where
  "offload_todo N B H c s ys t \<longleftrightarrow> locked_held N B H c t \<and> queues t = queues s
     \<and> proc_state t = proc_state s \<and> task_lookup t = task_lookup s
     \<and> (\<forall>p\<in>set ys. job_link (jobs t p) = LinkIn (kind_queue c (jobs t p)))"

lemma offload_todo_start:
  assumes L: "locked_held N B H c s" and q: "q = ReadyQ c \<or> q = ReplicaQ c"
  shows "offload_todo N B H c s (queues s q) s"
proof -
  have "job_link (jobs s p) = LinkIn (kind_queue c (jobs s p))" if "p \<in> set (queues s q)" for p
  proof -
    note I = locked_heldD(1) [OF L]
    have link: "job_link (jobs s p) = LinkIn q" using queues_entry [OF I] that by simp
    then show ?thesis using linked_entry_ok [OF sys_invD(1) [OF I] link] q
      by (auto simp: kind_queue_def)
  qed
  then show ?thesis using L by (simp add: offload_todo_def)
qed

lemma try_offload_job_turn:
  assumes A: "offload_todo N B H c s (p # ys) t" and c: "c < N" and N: "N = NUM_CORES_PER_PROC cfg"
  shows "wlp (try_offload_job cfg c p t) (offload_todo N B H c s ys)"
proof -
  from A have T: "locked_held N B H c t" and link: "job_link (jobs t p) = LinkIn (kind_queue c (jobs t p))"
    by (simp_all add: offload_todo_def)
  show ?thesis
    by (rule wlp_mono [OF try_offload_job_ok [OF T c N link]])
      (use A in \<open>simp add: offload_todo_def kind_queue_def\<close>)
qed

lemma try_offload_jobs_ok:
  assumes L: "locked_held N B H c s" and c: "c < N" and N: "N = NUM_CORES_PER_PROC cfg"
    and q: "q = ReadyQ c \<or> q = ReplicaQ c"
  shows "wlp (try_offload_jobs_from_queue cfg q c s) (\<lambda>t. locked_held N B H c t
     \<and> queues t = queues s \<and> proc_state t = proc_state s \<and> task_lookup t = task_lookup s)"
  unfolding try_offload_jobs_from_queue_def
  by (rule partial.loop [where I = "offload_todo N B H c s", OF offload_todo_start [OF L q]
        try_offload_job_turn [OF _ c N]]) (simp_all add: offload_todo_def)

lemma attempt_rq_load_shedding_ok:
  assumes T: "tick_inv N B s" and c: "c < N" and N: "N = NUM_CORES_PER_PROC cfg"
  shows "wlp (attempt_rq_load_shedding cfg c s) (\<lambda>t. tick_inv N B t \<and> queues t = queues s
     \<and> proc_state t = proc_state s)"
proof -
  let ?s = "upd_core c (rq_lock_update (\<lambda>_. True)) s"
  note L = lock_rq [OF T c]
  have "wlp (try_offload_jobs_from_queue cfg (ReadyQ c) c ?s) (\<lambda>t.
      wlp (try_offload_jobs_from_queue cfg (ReplicaQ c) c t) (\<lambda>t. tick_inv N B (UNLOCK_RQ c t)
        \<and> queues (UNLOCK_RQ c t) = queues s \<and> proc_state (UNLOCK_RQ c t) = proc_state s))"
  proof (rule wlp_mono [OF try_offload_jobs_ok [OF L(2) c N]])
    fix t
    assume t: "locked_inv N B c t \<and> queues t = queues ?s \<and> proc_state t = proc_state ?s
      \<and> task_lookup t = task_lookup ?s"
    then have K: "locked_inv N B c t" by simp
    show "wlp (try_offload_jobs_from_queue cfg (ReplicaQ c) c t) (\<lambda>t. tick_inv N B (UNLOCK_RQ c t)
        \<and> queues (UNLOCK_RQ c t) = queues s \<and> proc_state (UNLOCK_RQ c t) = proc_state s)"
      by (rule wlp_mono [OF try_offload_jobs_ok [OF K c N]])
        (use t unlock_rq in \<open>auto simp: UNLOCK_RQ_def\<close>)
  qed simp
  then show ?thesis using L(1) by (simp add: attempt_rq_load_shedding_def)
qed

section \<open>Offering a future job\<close>

lemma generate_acet_frame:
  assumes "generate_acet cfg p s = Some (a, t)"
  shows "t = s\<lparr>rand_count := rand_count s + 2\<rparr>"
  using assms by (auto simp: generate_acet_def draw_def Let_def bind_Some_iff)

definition future_job :: "config \<Rightarrow> task_alloc_map \<Rightarrow> u32 \<Rightarrow> nat \<Rightarrow> job_struct \<Rightarrow> bool" where
  "future_job cfg m t l j \<longleftrightarrow> arrival_time j = t
     \<and> actual_deadline j = t + t_deadline (ptask j)
     \<and> virtual_deadline j = t + relative_tuned_deadlines j ! l
     \<and> relative_tuned_deadlines j
        = map (\<lambda>i. m_tuned_deadlines m ! i) [0..<MAX_CRITICALITY_LEVELS cfg]
     \<and> wcet j = of_u32 (t_wcet (ptask j) ! l) \<and> executed_time j = lit 0 1
     \<and> (is_replica j \<longleftrightarrow> m_task_type m = Replica) \<and> state j = JOB_STATE_IDLE"

lemma init_future_job_ok:
  assumes T: "tick_held N B H s" and h: "p \<in># H" and rc: "refcount (jobs s p) = 1"
    and l: "job_link (jobs s p) = LinkSelf"
  shows "wlp (init_future_job cfg c m t p s) (\<lambda>u. tick_held N B H u \<and> refcount (jobs u p) = 1
     \<and> job_link (jobs u p) = LinkSelf \<and> core_states u = core_states s \<and> proc_state u = proc_state s
     \<and> future_job cfg m t (local_criticality_level (cstate s c)) (jobs u p))"
proof -
  let ?l = "local_criticality_level (cstate s c)"
  let ?f = "\<lambda>j. let j = copy_deadlines cfg m (j\<lparr>arrival_time := t\<rparr>) in
      j\<lparr>actual_deadline := t + t_deadline (ptask j),
        virtual_deadline := arrival_time j + relative_tuned_deadlines j ! ?l\<rparr>"
  let ?u = "upd_job p ?f s"
  have U: "tick_held N B H ?u"
    using upd_private_held [OF T h rc, of ?f] l
    by (simp add: unlinked_def same_pool_def copy_deadlines_def Let_def)
  show ?thesis
  proof (cases "generate_acet cfg p ?u")
    case None
    then show ?thesis by (simp add: init_future_job_def Let_def)
  next
    case (Some r)
    then obtain a v where a: "generate_acet cfg p ?u = Some (a, v)" by (cases r) auto
    note v = generate_acet_frame [OF a]
    have V: "tick_held N B H v" unfolding v using tick_invD(1,5) [OF U]
      by (intro tick_held_step [OF U]) (simp_all add: locals_empty_def)
    let ?g = "\<lambda>j. j\<lparr>acet := a, wcet := of_u32 (t_wcet (ptask j) ! ?l), executed_time := lit 0 1,
        is_replica := (m_task_type m = Replica), state := JOB_STATE_IDLE\<rparr>"
    have rv: "refcount (jobs v p) = 1" and lv: "job_link (jobs v p) = LinkSelf"
      using rc l by (simp_all add: v copy_deadlines_def Let_def)
    have W: "tick_held N B H (upd_job p ?g v)"
      using upd_private_held [OF V h rv, of ?g] lv by (simp add: unlinked_def same_pool_def)
    have "init_future_job cfg c m t p s = Some (upd_job p ?g v)"
      using a by (simp add: init_future_job_def Let_def)
    moreover have "future_job cfg m t ?l (jobs (upd_job p ?g v) p)"
      by (simp add: v future_job_def copy_deadlines_def Let_def)
    ultimately show ?thesis using W rv lv by (simp add: v)
  qed
qed

lemma delegation_fields [simp]:
  "add_delegation_sorted d c s = upd_core c (delegated_job_queue_update
     (insert_first (\<lambda>a b. dj_arrival_tick (delegated_jobs_pool s a)
        < dj_arrival_tick (delegated_jobs_pool s b)) d)) s"
  by (simp add: add_delegation_sorted_def)

lemma tick_held_frame [simp]:
  "tick_held N B H (s\<lparr>delegated_jobs_free_list := fl\<rparr>) \<longleftrightarrow> tick_held N B H s"
  "tick_held N B H (upd_dj d h s) \<longleftrightarrow> tick_held N B H s"
  "tick_held N B H (upd_core c (delegated_job_queue_update g) s) \<longleftrightarrow> tick_held N B H s"
  "tick_held N B H (upd_core c (delegation_ack_queue_update g2) s) \<longleftrightarrow> tick_held N B H s"
  "tick_held N B H (upd_core c (core_next_migration_eligible_tick_update g3) s)
     \<longleftrightarrow> tick_held N B H s"
  by (auto simp: tick_held_def locals_empty_def)

lemma create_delegation_held:
  assumes "create_delegation c s = (r, t)"
  shows "tick_held N B H t \<longleftrightarrow> tick_held N B H s" and "jobs t = jobs s"
    and "core_states t = core_states s" and "proc_state t = proc_state s"
  using assms by (auto simp: create_delegation_def split: list.splits)

text \<open>Sending a request for a job that the caller holds gives the reference away.\<close>

lemma send_request_held:
  assumes T: "tick_held N B (add_mset (req_job r) H) s" and d: "d < N" and f: "from_core r < N"
    and o: "offer_ok (jobs s (req_job r))"
  shows "wlp (send_request d r s) (\<lambda>t. tick_held N B H t \<and> proc_state t = proc_state s
     \<and> requests (cstate t d) = requests (cstate s d) @ [r])"
proof -
  note D = tick_invD [OF T]
  let ?q = "migration_request_queue (cstate s d)"
  have live: "rb_live 32 (B d) ?q" using sys_invD(4) [OF D(1) d] .
  show ?thesis
  proof (cases "rb_room ?q = 0")
    case True
    then show ?thesis using rb_live_put(1) [OF live] by (simp add: send_request_def)
  next
    case False
    then have "sys_inv N B H (upd_core d (migration_request_queue_update (\<lambda>_. rb_push r ?q)) s)"
      using D(1) d f o by (intro sys_inv_send) simp_all
    then have "tick_held N B H (upd_core d (migration_request_queue_update (\<lambda>_. rb_push r ?q)) s)"
      by (rule tick_held_step [OF T]) (use D(5) in simp_all)
    then show ?thesis using rb_live_put(1,3) [OF live] False
      by (simp add: send_request_def requests_def)
  qed
qed

lemma offer_future_job_ok:
  assumes T: "tick_inv N B s" and c: "c < N" and N: "N = NUM_CORES_PER_PROC cfg"
  shows "wlp (offer_future_job cfg c m task t s) (\<lambda>u. tick_inv N B u \<and> proc_state u = proc_state s)"
proof -
  obtain r s1 where e: "create_job task c s = (r, s1)" by (cases "create_job task c s")
  note E = create_job_sys_fields [OF e] and J = new_job_held [OF T c e]
  show ?thesis
  proof (cases r)
    case None
    then show ?thesis using e J(1) E(2) by (simp add: offer_future_job_def)
  next
    case (Some p)
    have J1: "tick_held N B {#p#} s1" "jobs s1 p = new_job_fields task c (jobs s p)"
      using J(2) [OF Some] by simp_all
    have "wlp (init_future_job cfg c m t p s1) (\<lambda>s. tick_held N B {#p#} s \<and> refcount (jobs s p) = 1
       \<and> job_link (jobs s p) = LinkSelf \<and> core_states s = core_states s1 \<and> proc_state s = proc_state s1
       \<and> future_job cfg m t (local_criticality_level (cstate s1 c)) (jobs s p))"
      using J1 by (intro init_future_job_ok) (simp_all add: new_job_fields_def)
    then show ?thesis unfolding offer_future_job_def e Some prod.case option.case wlp_simps
    proof (rule wlp_mono)
      fix s2
      assume A: "tick_held N B {#p#} s2 \<and> refcount (jobs s2 p) = 1
       \<and> job_link (jobs s2 p) = LinkSelf \<and> core_states s2 = core_states s1 \<and> proc_state s2 = proc_state s1
       \<and> future_job cfg m t (local_criticality_level (cstate s1 c)) (jobs s2 p)"
      have o: "offer_ok (jobs s2 p)" using A by (simp add: offer_ok_def future_job_def)
      let ?d = "find_best_core_for_migration cfg p c s2"
      have d: "?d < N" using find_best_core_range [of c cfg p s2] c N by simp
      obtain dr s3 where s3: "create_delegation c s2 = (dr, s3)" by (cases "create_delegation c s2")
      note S3 = create_delegation_held [OF s3]
      let ?s4 = "\<lambda>k. upd_dj k (\<lambda>_. \<lparr>dj_arrival_tick = t, dj_task_id = t_id task,
                                  dj_owned_by_remote = False\<rparr>) s3"
      have S4: "wlp (send_request ?d \<lparr>req_job = p, from_core = c\<rparr> (add_delegation_sorted k c (?s4 k)))
          (\<lambda>u. tick_inv N B u \<and> proc_state u = proc_state s)" for k
      proof (rule wlp_mono [OF send_request_held])
        show "tick_held N B (add_mset (req_job \<lparr>req_job = p, from_core = c\<rparr>) {#})
            (add_delegation_sorted k c (?s4 k))"
          using A S3(1) by simp
      qed (use d c o S3 A E(2) in simp_all)
      have "tick_inv N B (put_job_ref (Some p) c s2)" "tick_inv N B (put_job_ref (Some p) c s3)"
        using A S3(1) by (auto intro!: put_held)
      then show "wlp (let dest = find_best_core_for_migration cfg p c s2
          in if dest = c then Some (put_job_ref (Some p) c s2)
             else case create_delegation c s2 of (None, s) \<Rightarrow> Some (put_job_ref (Some p) c s)
                  | (Some d, s) \<Rightarrow> do {
                      let s = upd_dj d (\<lambda>_. \<lparr>dj_arrival_tick = t, dj_task_id = t_id task,
                                             dj_owned_by_remote = False\<rparr>) s;
                      let s = add_delegation_sorted d c s;
                      s \<leftarrow> send_request dest \<lparr>req_job = p, from_core = c\<rparr> s;
                      Some (upd_core c (core_next_migration_eligible_tick_update
                              (\<lambda>_. now s + CORE_MIGRATION_COOLDOWN_TICKS)) s) })
          (\<lambda>u. tick_inv N B u \<and> proc_state u = proc_state s)"
        using S4 s3 A S3 E(2) by (auto simp: Let_def split: option.splits elim!: wlp_mono)
    qed
  qed
qed

lemma attempt_future_load_shedding_ok:
  assumes T: "tick_inv N B s" and c: "c < N" and N: "N = NUM_CORES_PER_PROC cfg"
  shows "wlp (attempt_future_load_shedding cfg c s) (\<lambda>t. tick_inv N B t \<and> proc_state t = proc_state s)"
  unfolding attempt_future_load_shedding_def
proof (rule partial.loop_inv)
  fix m t assume t: "tick_inv N B t \<and> proc_state t = proc_state s"
  have o: "wlp (offer_future_job cfg c m task a t) (\<lambda>u. tick_inv N B u \<and> proc_state u = proc_state s)" for task a
    by (rule wlp_mono [OF offer_future_job_ok [OF _ c N]]) (use t in auto)
  show "wlp (shed_future_step cfg c m t) (\<lambda>u. tick_inv N B u \<and> proc_state u = proc_state s)"
    using t o by (auto simp: shed_future_step_def Let_def split: option.splits)
qed (use T in simp)

lemma get_util_same:
  assumes "\<not> rq_lock (cstate s c)"
  shows "\<exists>u. get_util c s = Some (u, s)"
  using unlock_lock [OF assms] assms by (simp add: get_util_def LOCK_RQ_eq Let_def)

lemma attempt_migration_push_ok:
  assumes T: "tick_inv N B s" and c: "c < N" and N: "N = NUM_CORES_PER_PROC cfg"
  shows "wlp (attempt_migration_push cfg c s) (\<lambda>t. tick_inv N B t \<and> proc_state t = proc_state s)"
proof -
  note ul = tick_invD(2) [OF T c]
  obtain u where u: "get_util c s = Some (u, s)" using get_util_same [OF ul] by blast
  have r: "wlp (attempt_rq_load_shedding cfg c s) (\<lambda>t. tick_inv N B t \<and> proc_state t = proc_state s)"
    by (rule wlp_mono [OF attempt_rq_load_shedding_ok [OF T c N]]) simp
  show ?thesis
    using T lock_rq(1) [OF T c] unlock_lock [OF ul] u r attempt_future_load_shedding_ok [OF T c N]
    by (simp add: attempt_migration_push_def Let_def)
qed

end
