(* ===== verification/RunInv.thy ===== *)
theory RunInv
  imports DispatchInv
begin

text \<open>
  The running job in a tick: it is charged the frequency it ran at, a deadline miss stops the
  processor, a finished job is completed, a job over its budget raises the criticality level, and
  otherwise nothing but the executed time changes.
\<close>

section \<open>The next level\<close>

lemma find_upt_least:
  assumes "find P [a..<b] = Some l"
  shows "a \<le> l" and "l < b" and "P l" and "\<And>k. a \<le> k \<Longrightarrow> k < l \<Longrightarrow> \<not> P k"
proof -
  from assms obtain i where i: "i < b - a" "P ([a..<b] ! i)" "l = [a..<b] ! i"
    "\<forall>j<i. \<not> P ([a..<b] ! j)"
    unfolding find_Some_iff by auto
  then show "a \<le> l" and "l < b" and "P l" by auto
  fix k assume k: "a \<le> k" "k < l"
  then have "k - a < i" "[a..<b] ! (k - a) = k" using i by (auto simp: nth_upt)
  with i(4) show "\<not> P k" by metis
qed

text \<open>
  The new level is the least one above the current whose budget exceeds what the job has executed; it
  never lowers the level, and it is a level of the configuration.
\<close>

lemma next_criticality_bounds:
  assumes "l < MAX_CRITICALITY_LEVELS cfg"
  shows "l \<le> next_criticality cfg l j" and "next_criticality cfg l j < MAX_CRITICALITY_LEVELS cfg"
  using assms find_upt_least(1,2) [of _ "l + 1" "MAX_CRITICALITY_LEVELS cfg"]
  by (auto simp: next_criticality_def split: option.splits) fastforce

lemma next_criticality_least:
  assumes "l < k" and "k < next_criticality cfg l j"
  shows "\<not> f_lt (executed_time j) (of_u32 (t_wcet (ptask j) ! k))"
  using assms find_upt_least(4) [of _ "l + 1" "MAX_CRITICALITY_LEVELS cfg" _ k]
  by (auto simp: next_criticality_def split: option.splits)

lemma next_criticality_above:
  assumes "next_criticality cfg l j \<noteq> l"
  shows "f_lt (executed_time j) (of_u32 (t_wcet (ptask j) ! next_criticality cfg l j))"
  using assms find_upt_least(3) [of _ "l + 1" "MAX_CRITICALITY_LEVELS cfg"]
  by (auto simp: next_criticality_def split: option.splits)

text \<open>Together they say what the new level is.\<close>

definition next_level :: "config \<Rightarrow> nat \<Rightarrow> job_struct \<Rightarrow> nat \<Rightarrow> bool" where
  "next_level cfg l j k \<longleftrightarrow>
     (l < k \<and> k < MAX_CRITICALITY_LEVELS cfg \<and> f_lt (executed_time j) (of_u32 (t_wcet (ptask j) ! k))
        \<or> k = l \<and> (\<forall>i. l < i \<and> i < MAX_CRITICALITY_LEVELS cfg
            \<longrightarrow> \<not> f_lt (executed_time j) (of_u32 (t_wcet (ptask j) ! i))))
     \<and> (\<forall>i. l < i \<and> i < k \<longrightarrow> \<not> f_lt (executed_time j) (of_u32 (t_wcet (ptask j) ! i)))"

lemma next_criticality_next_level: "next_level cfg l j (next_criticality cfg l j)"
proof (cases "find (\<lambda>k. f_lt (executed_time j) (of_u32 (t_wcet (ptask j) ! k)))
    [l + 1..<MAX_CRITICALITY_LEVELS cfg]")
  case None
  then have "next_criticality cfg l j = l" by (simp add: next_criticality_def)
  then show ?thesis using None by (auto simp: next_level_def find_None_iff)
next
  case (Some k)
  then have "next_criticality cfg l j = k" by (simp add: next_criticality_def)
  then show ?thesis using find_upt_least [OF Some] by (simp add: next_level_def)
qed

section \<open>Charging the running job\<close>

definition charged :: "nat \<Rightarrow> sys \<Rightarrow> job_struct \<Rightarrow> job_struct" where
  "charged c s = executed_time_update (\<lambda>e. f_add e (power_get_current_scaling_factor c s))"

lemma charged_fields [simp]:
  "executed_time (charged c s j) = f_add (executed_time j) (power_get_current_scaling_factor c s)"
  "state (charged c s j) = state j" "actual_deadline (charged c s j) = actual_deadline j"
  "acet (charged c s j) = acet j" "wcet (charged c s j) = wcet j"
  "parent_task (charged c s j) = parent_task j" "arrival_time (charged c s j) = arrival_time j"
  "job_link (charged c s j) = job_link j" "same_count j (charged c s j)"
  "same_entry j (charged c s j)" "is_being_offered (charged c s j) = is_being_offered j"
  "relative_tuned_deadlines (charged c s j) = relative_tuned_deadlines j"
  by (simp_all add: charged_def same_count_def same_entry_def)

lemma charged_held:
  assumes "tick_held N B H s"
  shows "tick_held N B H (upd_job p (charged c s') s)"
  using tick_invD(1,5) [OF assms]
  by (intro tick_held_step [OF assms]) (simp_all add: sys_inv_upd_same)

text \<open>The three ends of the charge.\<close>

definition missed :: "u32 \<Rightarrow> job_struct \<Rightarrow> bool" where
  "missed t j \<longleftrightarrow> state j = JOB_STATE_RUNNING \<and> actual_deadline j < t"

definition finished :: "job_struct \<Rightarrow> bool" where
  "finished j \<longleftrightarrow> f_le (acet j) (executed_time j)"

definition over_budget :: "job_struct \<Rightarrow> bool" where
  "over_budget j \<longleftrightarrow> f_le (wcet j) (executed_time j)"

text \<open>The state after a missed deadline.\<close>

definition stopped :: "nat \<Rightarrow> jptr \<Rightarrow> sys \<Rightarrow> sys" where
  "stopped c p s = put_job_ref (Some p) c
     (upd_core c (is_idle_update (\<lambda>_. True)) (upd_core c (running_job_update (\<lambda>_. None))
       (upd_job p (state_update (\<lambda>_. JOB_STATE_COMPLETED)) s)))"

lemma stopped_held:
  assumes T: "tick_inv N B s" and c: "c < N" and p: "running_job (cstate s c) = Some p"
  shows "tick_inv N B (stopped c p s)"
proof -
  note D = tick_invD [OF T]
  let ?f = "is_idle_update (\<lambda>_. True) \<circ> running_job_update (\<lambda>_. None)"
  let ?g = "state_update (\<lambda>_. JOB_STATE_COMPLETED)"
  note st = sys_inv_stop [OF D(1) p c, of ?f]
  have "sys_inv N B {#p#} (upd_job p ?g (upd_core c ?f s))"
    using st running_link [OF D(1) c p]
    by (intro sys_inv_upd_unlinked) (simp_all add: same_count_def unlinked_def)
  then have "sys_inv N B {#} (put_job_ref (Some p) c (upd_job p ?g (upd_core c ?f s)))"
    by (rule sys_inv_put)
  moreover have "stopped c p s = put_job_ref (Some p) c (upd_job p ?g (upd_core c ?f s))"
    by (simp add: stopped_def upd_job_upd_core upd_core_upd_core [symmetric])
  ultimately show ?thesis using D by (auto simp: tick_held_def stopped_def)
qed

lemma UNLOCK_RQ_put:
  "UNLOCK_RQ c (put_job_ref r d s) = put_job_ref r d (UNLOCK_RQ c s)"
  by (simp add: UNLOCK_RQ_def upd_core_def put_job_ref_def release_job_to_pool_def push_free_def
      push_remote_free_def upd_job_def Let_def split: option.splits)

text \<open>The handler, branch by branch, with the lock taken and released.\<close>

lemma handle_running_job_eq:
  assumes T: "tick_inv N B s" and c: "c < N"
  shows "handle_running_job cfg c s =
    (case running_job (cstate s c) of
       None \<Rightarrow> Some s
     | Some p \<Rightarrow>
         (let s' = upd_job p (charged c s) s; j = jobs s' p;
              l = next_criticality cfg (local_criticality_level (cstate s c)) j
          in if missed (now s) j then Some ((stopped c p s')\<lparr>core_fatal_shutdown_requested := True\<rparr>)
             else if finished j then handle_job_completion c s'
             else if over_budget j
             then handle_mode_change c l (ipc_broadcast_criticality_change l s')
             else Some s'))"
proof -
  let ?l = "upd_core c (rq_lock_update (\<lambda>_. True)) s"
  have ul: "\<not> rq_lock (cstate s c)" using tick_invD(2) [OF T c] .
  have sf: "power_get_current_scaling_factor c ?l = power_get_current_scaling_factor c s"
    by (simp add: power_get_current_scaling_factor_def)
  show ?thesis
  proof (cases "running_job (cstate s c)")
    case None
    then show ?thesis using lock_rq(1) [OF T c] unlock_lock [OF ul]
      by (simp add: handle_running_job_def)
  next
    case (Some p)
    let ?s' = "upd_job p (charged c s) s"
    have u: "upd_job p (executed_time_update (\<lambda>e. f_add e (power_get_current_scaling_factor c s))) ?l
        = upd_core c (rq_lock_update (\<lambda>_. True)) ?s'"
      by (simp add: charged_def [abs_def] upd_job_upd_core)
    have ul': "UNLOCK_RQ c (upd_core c (rq_lock_update (\<lambda>_. True)) ?s') = ?s'"
      using ul by (intro unlock_lock) simp
    have st: "UNLOCK_RQ c (put_job_ref (Some p) c (upd_core c (is_idle_update (\<lambda>_. True))
        (upd_core c (running_job_update (\<lambda>_. None)) (upd_job p (state_update (\<lambda>_. JOB_STATE_COMPLETED))
          (upd_core c (rq_lock_update (\<lambda>_. True)) ?s'))))) = stopped c p ?s'"
      by (simp add: UNLOCK_RQ_put unlock_commute ul' stopped_def)
    show ?thesis
      using Some lock_rq(1) [OF T c] u ul' st
      by (simp add: handle_running_job_def sf Let_def missed_def finished_def over_budget_def
          upd_job_upd_core)
  qed
qed

section \<open>The handler\<close>

lemma tick_held_sent [simp]:
  "tick_held N B H (s\<lparr>sent_packets := ps\<rparr>) \<longleftrightarrow> tick_held N B H s"
  "tick_held N B H (s\<lparr>core_fatal_shutdown_requested := b\<rparr>) \<longleftrightarrow> tick_held N B H s"
  "tick_held N B H (s\<lparr>proc_shutdown_requested := b\<rparr>) \<longleftrightarrow> tick_held N B H s"
  by (simp_all add: tick_held_def locals_empty_def)

definition out_msg :: "sys \<Rightarrow> jptr \<Rightarrow> completion_message" where
  "out_msg s p = \<lparr>completed_task_id = t_id (ptask (jobs s p)),
     job_arrival_time = arrival_time (jobs s p), msg_system_time = now s\<rparr>"

text \<open>
  What the handler does to the running job \<open>p\<close>, in the order of the tests of the code. \<open>outgoing\<close> is
  the queue of completion messages.
\<close>

abbreviation outgoing :: "sys \<Rightarrow> completion_message list" where
  "outgoing s \<equiv> rb_contents (outgoing_completion_msg_queue (proc_state s))"

definition run_effect :: "config \<Rightarrow> nat \<Rightarrow> jptr \<Rightarrow> sys \<Rightarrow> sys \<Rightarrow> bool" where
  "run_effect cfg c p s t \<longleftrightarrow>
     (let s' = upd_job p (charged c s) s; j = jobs s' p;
          l = next_criticality cfg (local_criticality_level (cstate s c)) j
      in if missed (now s) j
         then running_job (cstate t c) = None \<and> core_fatal_shutdown_requested t
              \<and> proc_state t = proc_state s \<and> queues t = queues s \<and> sent_packets t = sent_packets s
         else if finished j
         then running_job (cstate t c) = None \<and> outgoing t = outgoing s @ [out_msg s p]
              \<and> (\<exists>q. proc_state t = (proc_state s)\<lparr>outgoing_completion_msg_queue := q\<rparr>)
              \<and> queues t = queues s \<and> sent_packets t = sent_packets s
         else if over_budget j
         then mode_changed c l (ipc_broadcast_criticality_change l s') t
         else t = s')"

lemma handle_running_job_ok:
  assumes T: "tick_inv N B s" and c: "c < N"
    and Q: "rb_live 64 b (outgoing_completion_msg_queue (proc_state s))"
    and room: "0 < rb_room (outgoing_completion_msg_queue (proc_state s))"
  shows "wp (handle_running_job cfg c s) (\<lambda>t. tick_inv N B t
     \<and> rb_live 64 b (outgoing_completion_msg_queue (proc_state t))
     \<and> (case running_job (cstate s c) of None \<Rightarrow> t = s | Some p \<Rightarrow> run_effect cfg c p s t))"
proof (cases "running_job (cstate s c)")
  case None
  then show ?thesis using T Q handle_running_job_eq [OF T c] by simp
next
  case (Some p)
  let ?s = "upd_job p (charged c s) s"
  let ?j = "jobs ?s p"
  let ?l = "next_criticality cfg (local_criticality_level (cstate s c)) ?j"
  let ?b = "ipc_broadcast_criticality_change ?l ?s"
  have S: "tick_inv N B ?s" using T by (rule charged_held)
  have r: "running_job (cstate ?s c) = Some p" using Some by simp
  have Bc: "tick_inv N B ?b" "proc_state ?b = proc_state s"
    using S by (simp_all add: ipc_broadcast_criticality_change_def sendto_def)
  note M = handle_mode_change_ok [OF Bc(1) c, of ?l]
  have C: "wp (handle_job_completion c ?s) (\<lambda>t. tick_inv N B t
      \<and> rb_live 64 b (outgoing_completion_msg_queue (proc_state t)) \<and> running_job (cstate t c) = None
      \<and> outgoing t = outgoing s @ [out_msg s p]
      \<and> (\<exists>q. proc_state t = (proc_state s)\<lparr>outgoing_completion_msg_queue := q\<rparr>)
      \<and> queues t = queues s \<and> sent_packets t = sent_packets s)"
    by (rule wp_mono [OF handle_job_completion_ok [OF S c r, of b]]) (use Q room in \<open>simp_all add: out_msg_def\<close>)
  consider "missed (now s) ?j" | "\<not> missed (now s) ?j" "finished ?j"
    | "\<not> missed (now s) ?j" "\<not> finished ?j" "over_budget ?j"
    | "\<not> missed (now s) ?j" "\<not> finished ?j" "\<not> over_budget ?j" by blast
  then show ?thesis
  proof cases
    case 1
    then show ?thesis using Some stopped_held [OF S c r] Q
      by (simp add: handle_running_job_eq [OF T c] run_effect_def Let_def) (simp add: stopped_def)
  next
    case 2
    with C show ?thesis using Some
      by (simp add: handle_running_job_eq [OF T c] run_effect_def Let_def)
  next
    case 3
    have "wp (handle_mode_change c ?l ?b) (\<lambda>t. tick_inv N B t
        \<and> rb_live 64 b (outgoing_completion_msg_queue (proc_state t)) \<and> mode_changed c ?l ?b t)"
      by (rule wp_mono [OF M]) (use Q Bc(2) in \<open>simp add: mode_changed_def\<close>)
    with 3 show ?thesis using Some
      by (simp add: handle_running_job_eq [OF T c] run_effect_def Let_def)
  next
    case 4
    then show ?thesis using Some S Q
      by (simp add: handle_running_job_eq [OF T c] run_effect_def Let_def)
  qed
qed

end
