(* ===== verification/UtilInv.thy ===== *)
theory UtilInv
  imports PowerMgmt CoreInv
begin

text \<open>
  The schedulability analysis of \<^verbatim>\<open>sched_util.c\<close>: horizons, the array of deadlines, the slack loop and
  when it ends, admission; and the frequency and sleep decisions of \<^verbatim>\<open>power_management.c\<close> that rest
  on them.
\<close>

section \<open>What the analysis reads\<close>

text \<open>What a state and the same state under locks have in common. The analysis does not read the locks: its results are those of any state that agrees up to
  the run-queue locks.\<close>

definition same_but_locks :: "sys \<Rightarrow> sys \<Rightarrow> bool" where
  "same_but_locks s t \<longleftrightarrow> jobs t = jobs s \<and> queues t = queues s \<and> proc_state t = proc_state s
     \<and> task_lookup t = task_lookup s
     \<and> (\<forall>c. \<exists>l. cstate t c = (cstate s c)\<lparr>rq_lock := l\<rparr>)"

lemma same_but_locksD:
  assumes "same_but_locks s t"
  shows "jobs t = jobs s" and "queues t = queues s" and "proc_state t = proc_state s"
    and "task_lookup t = task_lookup s"
    and "local_criticality_level (cstate t c) = local_criticality_level (cstate s c)"
    and "delegation_ack_queue (cstate t c) = delegation_ack_queue (cstate s c)"
    and "running_job (cstate t c) = running_job (cstate s c)"
    and "migration_request_queue (cstate t c) = migration_request_queue (cstate s c)"
    and "requests (cstate t c) = requests (cstate s c)"
    and "proc_id (cstate t c) = proc_id (cstate s c)" and "core_id (cstate t c) = core_id (cstate s c)"
    and "cached_slack_horizon (cstate t c) = cached_slack_horizon (cstate s c)"
proof -
  from assms obtain l where "cstate t c = (cstate s c)\<lparr>rq_lock := l\<rparr>"
    unfolding same_but_locks_def by blast
  then show "local_criticality_level (cstate t c) = local_criticality_level (cstate s c)"
    and "delegation_ack_queue (cstate t c) = delegation_ack_queue (cstate s c)"
    and "running_job (cstate t c) = running_job (cstate s c)"
    and "migration_request_queue (cstate t c) = migration_request_queue (cstate s c)"
    and "requests (cstate t c) = requests (cstate s c)"
    and "proc_id (cstate t c) = proc_id (cstate s c)" and "core_id (cstate t c) = core_id (cstate s c)"
    and "cached_slack_horizon (cstate t c) = cached_slack_horizon (cstate s c)"
    by (simp_all add: requests_def)
qed (use assms in \<open>simp_all add: same_but_locks_def\<close>)

lemma same_but_locks_lock: "same_but_locks s (upd_core c (rq_lock_update f) s)"
proof -
  have "\<exists>l. cstate (upd_core c (rq_lock_update f) s) d = (cstate s d)\<lparr>rq_lock := l\<rparr>" for d
  proof (cases "d = c")
    case True
    then show ?thesis by (auto simp: upd_core_def intro!: exI [of _ "f (rq_lock (cstate s c))"])
  next
    case False
    then show ?thesis by (auto simp: upd_core_def intro!: exI [of _ "rq_lock (cstate s d)"])
  qed
  then show ?thesis by (simp add: same_but_locks_def upd_core_def)
qed

lemma analysis_locks:
  assumes S: "same_but_locks s t"
  shows "on_core t = on_core s" and "find_task_by_id cfg i t = find_task_by_id cfg i s"
    and "calculate_horizon c t = calculate_horizon c s"
    and "find_slack_core cfg c l t0 f x t = find_slack_core cfg c l t0 f x s"
    and "is_admissible_levels cfg c p margin t ls = is_admissible_levels cfg c p margin s ls"
proof -
  note E = same_but_locksD [OF S]
  show o: "on_core t = on_core s" by (simp add: on_core_def E fun_eq_iff)
  show f: "find_task_by_id cfg i t = find_task_by_id cfg i s" for i by (simp add: find_task_by_id_def E)
  have q: "calculate_queue_horizon t ps h = calculate_queue_horizon s ps h" for ps h
    by (induction ps arbitrary: h) (simp_all add: E Let_def)
  show h: "calculate_horizon c t = calculate_horizon c s" by (simp add: calculate_horizon_def E q Let_def split: option.splits)
  have j: "process_job_deadline t = process_job_deadline s"
    by (intro ext) (simp add: process_job_deadline_def E split: option.splits)
  have jq: "process_queue_deadlines t = process_queue_deadlines s"
    by (intro ext) (simp add: process_queue_deadlines_def j)
  have ct: "collect_task_deadlines cfg c t = collect_task_deadlines cfg c s"
    by (intro ext) (simp add: collect_task_deadlines_def o f)
  have co: "collect_active_and_future_deadlines cfg c l u n x t
      = collect_active_and_future_deadlines cfg c l u n x s" for l u n x
    by (simp add: collect_active_and_future_deadlines_def h j jq ct E)
  have td: "task_demand cfg c t = task_demand cfg c s"
    by (intro ext) (simp add: task_demand_def o f)
  have qd: "queue_demand t = queue_demand s" by (intro ext) (simp add: queue_demand_def E)
  have st: "slack_step cfg c l u f x t = slack_step cfg c l u f x s" for l u f x
    by (intro ext) (simp add: slack_step_def demand_by_def td qd E)
  show fs: "find_slack_core cfg c l t0 f x t = find_slack_core cfg c l t0 f x s" for l t0 f x
    by (simp add: find_slack_core_def co st E cong: if_cong)
  show "is_admissible_levels cfg c p margin t ls = is_admissible_levels cfg c p margin s ls"
    by (induction ls) (simp_all add: fs E Let_def cong: if_cong)
qed

section \<open>The horizon of a core\<close>

text \<open>The periods of the tasks allocated to a core, in the order of the map.\<close>

definition core_periods :: "config \<Rightarrow> nat \<Rightarrow> sys \<Rightarrow> task_alloc_map list \<Rightarrow> nat list" where
  "core_periods cfg c s ms = concat (map (\<lambda>m.
     if on_core s c m
     then (case find_task_by_id cfg (m_task_id m) s of None \<Rightarrow> []
           | Some t \<Rightarrow> if t_period t = 0 then [] else [unat (t_period t)])
     else []) ms)"

lemma core_periods_pos: "p \<in> set (core_periods cfg c s ms) \<Longrightarrow> 0 < p"
  by (auto simp: core_periods_def unat_gt_0 split: if_splits option.splits)

lemma Lcm_insert_ge:
  assumes "0 < h" and "\<And>p. p \<in> set ps \<Longrightarrow> 0 < (p :: nat)"
  shows "h \<le> Lcm (insert h (set ps))"
proof -
  have "0 \<notin> insert h (set ps)" using assms by auto
  then have "Lcm (insert h (set ps)) \<noteq> 0" by (subst Lcm_0_iff) simp_all
  then have "0 < Lcm (insert h (set ps))" by blast
  moreover have "h dvd Lcm (insert h (set ps))" by (rule dvd_Lcm) simp
  ultimately show ?thesis by (rule dvd_imp_le [rotated])
qed

lemma allocated_horizon_loop_eq:
  assumes "0 < unat h" and "unat h < 5000"
  shows "unat (allocated_horizon_loop cfg c s ms h)
         = min 5000 (Lcm (insert (unat h) (set (core_periods cfg c s ms))))"
  using assms
proof (induction ms arbitrary: h)
  case Nil
  then show ?case by (simp add: core_periods_def)
next
  case (Cons m ms)
  have cap: "unat SLACK_CALC_HORIZON_TICKS_CAP = 5000" by (simp add: SLACK_CALC_HORIZON_TICKS_CAP_def)
  show ?case
  proof (cases "\<exists>t. on_core s c m \<and> find_task_by_id cfg (m_task_id m) s = Some t \<and> t_period t \<noteq> 0")
    case False
    then have "core_periods cfg c s (m # ms) = core_periods cfg c s ms"
      by (auto simp: core_periods_def split: option.splits)
    moreover have "allocated_horizon_loop cfg c s (m # ms) h = allocated_horizon_loop cfg c s ms h"
      using False by (auto split: option.splits)
    ultimately show ?thesis using Cons by simp
  next
    case True
    then obtain t where t: "on_core s c m" "find_task_by_id cfg (m_task_id m) s = Some t" "t_period t \<noteq> 0"
      by blast
    let ?p = "unat (t_period t)" and ?ps = "core_periods cfg c s ms"
    let ?h = "safe_lcm h (t_period t) SLACK_CALC_HORIZON_TICKS_CAP"
    have p: "0 < ?p" using t(3) by (simp add: unat_gt_0)
    have ps: "core_periods cfg c s (m # ms) = ?p # ?ps" using t by (simp add: core_periods_def)
    have L: "Lcm (insert (unat h) (set (?p # ?ps))) = Lcm (insert (lcm (unat h) ?p) (set ?ps))"
      by (simp add: lcm.assoc)
    have h: "unat ?h = min (lcm (unat h) ?p) 5000"
      using Cons.prems t(3) by (auto simp: safe_lcm_correct cap)
    have pos: "0 < lcm (unat h) ?p" using Cons.prems p by (simp add: lcm_pos_nat)
    show ?thesis
    proof (cases "5000 \<le> lcm (unat h) ?p")
      case True
      then have "SLACK_CALC_HORIZON_TICKS_CAP \<le> ?h" by (simp add: word_le_nat_alt h cap)
      moreover have "5000 \<le> Lcm (insert (lcm (unat h) ?p) (set ?ps))"
        using Lcm_insert_ge [of "lcm (unat h) ?p" ?ps] pos core_periods_pos True by force
      ultimately show ?thesis using t by (simp add: ps L [simplified] cap)
    next
      case False
      then have "\<not> SLACK_CALC_HORIZON_TICKS_CAP \<le> ?h" by (simp add: word_le_nat_alt h cap)
      moreover have "unat ?h = lcm (unat h) ?p" using False h by simp
      ultimately show ?thesis using t False pos Cons.IH [of ?h] by (simp add: ps L [simplified])
    qed
  qed
qed

text \<open>The cached horizon of a core is the least common multiple of the periods of
  the tasks allocated to it, cut off at 5000 ticks, although the loop stops as soon as it gets there.\<close>

theorem allocated_horizon_is_lcm:
  "unat (calculate_allocated_horizon cfg c s)
   = min 5000 (Lcm (set (core_periods cfg c s (allocation_map cfg))))"
  by (simp add: calculate_allocated_horizon_def allocated_horizon_loop_eq)

section \<open>The array of deadlines\<close>

text \<open>The in-place compaction of a sorted array.\<close>

lemma sorted_list_of_set_snoc:
  fixes A :: "'a::linorder set"
  assumes "finite A" and "\<And>a. a \<in> A \<Longrightarrow> a < x"
  shows "sorted_list_of_set (insert x A) = sorted_list_of_set A @ [x]"
proof -
  have "x \<notin> A" using assms(2) by blast
  then have "sorted_wrt (<) (sorted_list_of_set A @ [x]) \<and> set (sorted_list_of_set A @ [x]) = insert x A
      \<and> length (sorted_list_of_set A @ [x]) = card (insert x A)"
    using assms by (auto simp: sorted_wrt_append)
  then show ?thesis using sorted_list_of_set_unique [of "insert x A"] assms(1) by blast
qed

lemma unique_loop:
  assumes S: "sorted ds" and "n < length ds"
  shows "\<exists>es u. fold unique_step [1..<Suc n] (ds, 0) = (es, u) \<and> u \<le> n \<and> length es = length ds
           \<and> drop (Suc n) es = drop (Suc n) ds \<and> es ! u = ds ! n
           \<and> take (Suc u) es = sorted_list_of_set (set (take (Suc n) ds))"
  using assms(2)
proof (induction n)
  case 0
  then show ?case by (cases ds) simp_all
next
  case (Suc n)
  then obtain es u where I: "fold unique_step [1..<Suc n] (ds, 0) = (es, u)" "u \<le> n"
    "length es = length ds" "drop (Suc n) es = drop (Suc n) ds" "es ! u = ds ! n"
    "take (Suc u) es = sorted_list_of_set (set (take (Suc n) ds))" by auto
  have n: "es ! Suc n = ds ! Suc n"
    using arg_cong [OF I(4), of hd] Suc.prems I(3) by (simp add: hd_drop_conv_nth)
  have t: "take (Suc (Suc n)) ds = take (Suc n) ds @ [ds ! Suc n]"
    using Suc.prems by (simp add: take_Suc_conv_app_nth)
  have m: "ds ! n \<in> set (take (Suc n) ds)" using Suc.prems by (auto simp: in_set_conv_nth)
  have f: "fold unique_step [1..<Suc (Suc n)] (ds, 0) = unique_step (Suc n) (es, u)"
    using I(1) by simp
  have d: "drop (Suc (Suc n)) es = drop (Suc (Suc n)) ds"
    using arg_cong [OF I(4), of tl] by (simp add: drop_Suc tl_drop)
  show ?case
  proof (cases "ds ! Suc n = ds ! n")
    case True
    then have "fold unique_step [1..<Suc (Suc n)] (ds, 0) = (es, u)"
      using f n I(5) by (simp add: unique_step_def)
    moreover have "set (take (Suc (Suc n)) ds) = set (take (Suc n) ds)"
      using m by (simp add: t True insert_absorb del: take_Suc)
    ultimately show ?thesis using I True d by simp
  next
    case False
    let ?es = "es[Suc u := ds ! Suc n]"
    have e: "fold unique_step [1..<Suc (Suc n)] (ds, 0) = (?es, Suc u)"
      using f n I(5) False by (simp add: unique_step_def)
    have "a < ds ! Suc n" if "a \<in> set (take (Suc n) ds)" for a
    proof -
      from that obtain i where i: "i < Suc n" "a = ds ! i" by (auto simp: in_set_conv_nth)
      then have "a \<le> ds ! n" using S Suc.prems by (simp add: sorted_nth_mono)
      also have "ds ! n < ds ! Suc n"
        using False S Suc.prems by (simp add: sorted_nth_mono order.not_eq_order_implies_strict)
      finally show ?thesis .
    qed
    then have "sorted_list_of_set (set (take (Suc (Suc n)) ds))
        = sorted_list_of_set (set (take (Suc n) ds)) @ [ds ! Suc n]"
      using sorted_list_of_set_snoc [of "set (take (Suc n) ds)" "ds ! Suc n"] by (simp add: t)
    moreover have "take (Suc (Suc u)) ?es = take (Suc u) es @ [ds ! Suc n]"
      using I(2,3) Suc.prems by (simp add: take_Suc_conv_app_nth)
    moreover have "drop (Suc (Suc n)) ?es = drop (Suc (Suc n)) ds" using d I(2) by simp
    ultimately show ?thesis using e I Suc.prems by (intro exI [of _ ?es] exI [of _ "Suc u"]) simp
  qed
qed

lemma unique_deadlines_sort:
  assumes "ds \<noteq> []"
  shows "unique_deadlines (c_qsort cmp_uint32 ds) = sorted_list_of_set (set ds)"
proof -
  obtain n where n: "length (sort ds) = Suc n" using assms by (cases ds) auto
  then obtain es u where "fold unique_step [1..<Suc n] (sort ds, 0) = (es, u)"
    and "take (Suc u) es = sorted_list_of_set (set (take (Suc n) (sort ds)))"
    using unique_loop [of "sort ds" n] by auto
  then show ?thesis using n by (simp add: unique_deadlines_def c_qsort_sort)
qed

text \<open>Sorting the array and removing repeated neighbours in place leaves the strictly
  increasing list of the values in it.\<close>

theorem unique_deadlines_is_set:
  assumes "ds \<noteq> []"
  shows "unique_deadlines (c_qsort cmp_uint32 ds) = sorted_list_of_set (set ds)"
  using assms by (rule unique_deadlines_sort)

theorem unique_deadlines_is_set_witness:
  "unique_deadlines (c_qsort cmp_uint32 [30, 10, 30, 20, 10]) = [10, 20, 30]"
  using unique_deadlines_is_set [of "[30, 10, 30, 20, 10]"]
  by (simp add: insert_Diff_if)

section \<open>The loop over future arrivals\<close>

text \<open>Away from the end of the clock the loop adds the cost once per arrival that is due by \<open>d\<close>.\<close>

definition arrivals_due :: "nat \<Rightarrow> nat \<Rightarrow> nat \<Rightarrow> nat \<Rightarrow> nat" where
  "arrivals_due tuned p d a = card {k. a + k * p + tuned \<le> d}"

lemma arrivals_due_bound:
  assumes "0 < (p :: nat)"
  shows "{k. a + k * p + tuned \<le> d} \<subseteq> {..d}"
proof
  fix k assume "k \<in> {k. a + k * p + tuned \<le> d}"
  then have "k * p \<le> d" by simp
  moreover have "k * 1 \<le> k * p" using assms by (intro mult_le_mono2) simp
  ultimately have "k \<le> d" unfolding mult_1_right by (rule le_trans [rotated])
  then show "k \<in> {..d}" by simp
qed

lemma arrivals_due_step:
  assumes "0 < p"
  shows "arrivals_due tuned p d a
         = (if a + tuned \<le> d then Suc (arrivals_due tuned p d (a + p)) else 0)"
proof -
  let ?K = "\<lambda>a. {k. a + k * p + tuned \<le> d}"
  have split: "?K a = (if a + tuned \<le> d then insert 0 (Suc ` ?K (a + p)) else {})"
  proof -
    have "k \<in> ?K a \<longleftrightarrow> (if a + tuned \<le> d then k = 0 \<or> k \<in> Suc ` ?K (a + p) else False)" for k
      by (cases k) (auto simp: algebra_simps)
    then show ?thesis by auto
  qed
  have "finite (?K (a + p))" by (rule finite_subset [OF arrivals_due_bound [OF assms]]) simp
  then have "card (insert 0 (Suc ` ?K (a + p))) = Suc (card (?K (a + p)))"
    by (subst card_insert_disjoint) (auto simp: card_image)
  then show ?thesis unfolding arrivals_due_def split by (simp split: if_splits)
qed

lemma future_demand_ends:
  assumes p: "p \<noteq> 0" and "unat a + unat tuned < 2 ^ 32" and d: "unat d + unat p < 2 ^ 32"
  shows "future_demand tuned p d cost a dem
         = Some (((\<lambda>x. f_add x cost) ^^ arrivals_due (unat tuned) (unat p) (unat d) (unat a)) dem)"
  using assms(2)
proof (induction "Suc (unat d) - (unat a + unat tuned)" arbitrary: a dem rule: less_induct)
  case less
  have p0: "0 < unat p" using p by (simp add: unat_gt_0)
  have w: "unat (a + tuned) = unat a + unat tuned" using less.prems by (intro unat_plus_if_small) simp
  show ?case
  proof (cases "unat a + unat tuned \<le> unat d")
    case False
    then show ?thesis using w p0
      by (simp add: future_demand.simps [of tuned p d cost a] arrivals_due_step [of "unat p" _ _ "unat a"]
          word_le_nat_alt)
  next
    case True
    have swap: "((\<lambda>x. f_add x cost) ^^ n) (f_add dem cost) = f_add (((\<lambda>x. f_add x cost) ^^ n) dem) cost"
      for n by (induction n) simp_all
    from True have ap: "unat (a + p) = unat a + unat p" using d by (intro unat_plus_if_small) simp
    have "future_demand tuned p d cost (a + p) (f_add dem cost) = Some (((\<lambda>x. f_add x cost) ^^
        arrivals_due (unat tuned) (unat p) (unat d) (unat (a + p))) (f_add dem cost))"
      by (rule less.hyps) (use True ap p0 d in simp_all)
    then show ?thesis using w True p0
      by (simp add: future_demand.simps [of tuned p d cost a] arrivals_due_step [of "unat p" _ _ "unat a"]
          word_le_nat_alt ap swap)
  qed
qed

text \<open>C28: termination. The innermost loop of the slack analysis ends whenever the deadline plus one
  period stays below the end of the 32-bit clock, and then adds the cost of a job exactly as often
  as the task arrives with a deadline by \<open>d\<close>; at the last value of the clock it never ends.\<close>

theorem future_demand_counts_arrivals:
  assumes "p \<noteq> 0" and "unat a + unat tuned < 2 ^ 32" and "unat d + unat p < 2 ^ 32"
  shows "future_demand tuned p d cost a dem
           = Some (((\<lambda>x. f_add x cost) ^^ card {k. unat a + k * unat p + unat tuned \<le> unat d}) dem)
         \<and> future_demand tuned p UINT32_MAX cost a dem = None"
proof
  show "future_demand tuned p d cost a dem
      = Some (((\<lambda>x. f_add x cost) ^^ card {k. unat a + k * unat p + unat tuned \<le> unat d}) dem)"
    using future_demand_ends [OF assms] by (simp add: arrivals_due_def)
  have "future_demand tuned p UINT32_MAX cost a dem \<noteq> Some y" for y
  proof
    assume "future_demand tuned p UINT32_MAX cost a dem = Some y"
    then have "UINT32_MAX = UINT32_MAX \<longrightarrow> False"
      by (rule future_demand.raw_induct [where P = "\<lambda>tuned p d cost a dem y. d = UINT32_MAX \<longrightarrow> False",
            rotated]) (auto split: if_splits)
    then show False by simp
  qed
  then show "future_demand tuned p UINT32_MAX cost a dem = None" by auto
qed

theorem future_demand_counts_arrivals_witness:
  "future_demand 6 10 35 (lit 2 1) 10 (lit 0 1) = Some (lit 4 1)
   \<and> future_demand 6 10 UINT32_MAX (lit 2 1) 10 (lit 0 1) = None"
proof -
  have "{k. 10 + k * 10 + 6 \<le> (35 :: nat)} = {0, 1}" by auto
  moreover have "f_add (f_add (lit 0 1) (lit 2 1)) (lit 2 1) = lit 4 1" by code_simp
  ultimately show ?thesis using future_demand_counts_arrivals [of 10 10 6 35 "lit 2 1" "lit 0 1"]
    by simp
qed

section \<open>The slack of a core\<close>

text \<open>The clock is far from its end: \<open>D\<close> bounds every deadline, and a period still fits above it.\<close>

definition calendar_ok :: "config \<Rightarrow> nat \<Rightarrow> sys \<Rightarrow> nat \<Rightarrow> u32 \<Rightarrow> nat \<Rightarrow> bool" where
  "calendar_ok cfg c s l t D \<longleftrightarrow> unat t + unat (calculate_horizon c s) \<le> D \<and> D < 2 ^ 32
     \<and> (\<forall>m\<in>set (allocation_map cfg). on_core s c m \<longrightarrow>
          (\<exists>task. find_task_by_id cfg (m_task_id m) s = Some task
             \<and> (t_crit_level task < l
                \<or> t_period task \<noteq> 0 \<and> D + unat (t_period task) < 2 ^ 32
                  \<and> unat t + unat (t_period task) + unat (m_tuned_deadlines m ! l) < 2 ^ 32)))"

definition analysed_jobs :: "nat \<Rightarrow> jptr option \<Rightarrow> sys \<Rightarrow> jptr set" where
  "analysed_jobs c extra s = set (opt_list extra) \<union> set (opt_list (running_job (cstate s c)))
     \<union> set (queues s (ReadyQ c)) \<union> set (queues s (ReplicaQ c)) \<union> set (queues s (PendingQ c))"

definition jobs_due_by :: "nat \<Rightarrow> jptr set \<Rightarrow> sys \<Rightarrow> nat \<Rightarrow> bool" where
  "jobs_due_by l P s D \<longleftrightarrow> (\<forall>p\<in>P. unat (get_job_deadline (jobs s p) l) \<le> D)"

definition collected :: "u32 \<Rightarrow> nat \<Rightarrow> nat \<Rightarrow> u32 list \<Rightarrow> bool" where
  "collected t D n ds \<longleftrightarrow> (\<forall>d\<in>set ds. t < d \<and> unat d \<le> D) \<and> length ds \<le> n"

lemma collected_add:
  "collected t D n ds \<Longrightarrow> unat d \<le> D \<Longrightarrow> collected t D n (add_deadline_to_array d t n ds)"
  by (auto simp: collected_def add_deadline_to_array_def)

lemma collected_job:
  assumes "collected t D n ds" and "jobs_due_by l (set (opt_list x)) s D"
  shows "collected t D n (process_job_deadline s l t n x ds)"
  using assms by (auto simp: process_job_deadline_def opt_list_def jobs_due_by_def
      intro: collected_add split: option.splits)

lemma collected_queue:
  assumes "collected t D n ds" and "jobs_due_by l (set q) s D"
  shows "collected t D n (process_queue_deadlines s l t n q ds)"
  unfolding process_queue_deadlines_def using assms
proof (induction q arbitrary: ds)
  case Nil
  then show ?case by simp
next
  case (Cons p q)
  then have "collected t D n (process_job_deadline s l t n (Some p) ds)"
    by (intro collected_job) (simp_all add: opt_list_def jobs_due_by_def)
  then show ?case using Cons by (simp add: jobs_due_by_def)
qed

lemma collected_future:
  assumes "collected t D n ds" and "unat (t + h) \<le> D"
  shows "collected t D n (future_deadlines t h p n dl a ds)"
  using assms
proof (induction t h p n dl a ds rule: future_deadlines.induct)
  case (1 t h p n dl a ds)
  show ?case
  proof (cases "t < a + dl \<and> a + dl \<le> t + h \<and> length ds < n")
    case True
    then have "unat (a + dl) \<le> D" using 1(3) by (simp add: word_le_nat_alt)
    then have "collected t D n (ds @ [a + dl])" using True 1(2) by (auto simp: collected_def)
    then show ?thesis using 1(1) [OF True] 1(3) True by (subst future_deadlines.simps) simp
  next
    case False
    then show ?thesis using 1(2) by (subst future_deadlines.simps) auto
  qed
qed

lemma collected_task:
  assumes C: "collected t D n ds" and K: "calendar_ok cfg c s l t D" and m: "m \<in> set (allocation_map cfg)"
  shows "wp (collect_task_deadlines cfg c s l t (calculate_horizon c s) n m ds) (collected t D n)"
proof (cases "on_core s c m")
  case False
  then show ?thesis using C by (simp add: collect_task_deadlines_def)
next
  case True
  have b: "unat t + unat (calculate_horizon c s) \<le> D" "D < 2 ^ 32" using K by (simp_all add: calendar_ok_def)
  then have "unat (t + calculate_horizon c s) = unat t + unat (calculate_horizon c s)"
    by (intro unat_plus_if_small) simp
  then have h: "unat (t + calculate_horizon c s) \<le> D" using b by simp
  obtain task where "find_task_by_id cfg (m_task_id m) s = Some task"
    and "t_crit_level task < l \<or> t_period task \<noteq> 0"
    using K m True by (auto simp: calendar_ok_def)
  then show ?thesis using True C h
    by (auto simp: collect_task_deadlines_def intro: collected_future)
qed

lemma collect_deadlines_ok:
  assumes K: "calendar_ok cfg c s l t D" and l: "l < MAX_CRITICALITY_LEVELS cfg"
    and J: "jobs_due_by l (analysed_jobs c x s) s D"
  shows "wp (collect_active_and_future_deadlines cfg c l t n x s)
           (\<lambda>ds. sorted_wrt (<) ds \<and> collected t D n ds)"
proof (cases "n = 0")
  case True
  then show ?thesis by (simp add: collect_active_and_future_deadlines_def collected_def)
next
  case False
  define ds where "ds = process_queue_deadlines s l t n (queues s (PendingQ c))
    (process_queue_deadlines s l t n (queues s (ReplicaQ c))
      (process_queue_deadlines s l t n (queues s (ReadyQ c))
        (process_job_deadline s l t n (running_job (cstate s c)) (process_job_deadline s l t n x []))))"
  have P: "jobs_due_by l P s D" if "P \<subseteq> analysed_jobs c x s" for P
    using J that by (auto simp: jobs_due_by_def)
  have "collected t D n ds" unfolding ds_def
    by (intro collected_queue collected_job P) (auto simp: analysed_jobs_def collected_def)
  then have F: "wp (foldM (collect_task_deadlines cfg c s l t (calculate_horizon c s) n)
      (allocation_map cfg) ds) (collected t D n)"
    by (rule total.loop_inv) (rule collected_task [OF _ K])
  have U: "sorted_wrt (<) (unique_deadlines (c_qsort cmp_uint32 es))
      \<and> collected t D n (unique_deadlines (c_qsort cmp_uint32 es))"
    if "collected t D n es" "es \<noteq> []" for es
  proof -
    have u: "unique_deadlines (c_qsort cmp_uint32 es) = sorted_list_of_set (set es)"
      using that(2) by (rule unique_deadlines_sort)
    have "card (set es) \<le> n" using card_length [of es] that(1) by (simp add: collected_def)
    then show ?thesis unfolding u using that(1) by (simp add: collected_def)
  qed
  obtain es where "foldM (collect_task_deadlines cfg c s l t (calculate_horizon c s) n)
      (allocation_map cfg) ds = Some es" and "collected t D n es" using F by (auto simp: wp_iff)
  then show ?thesis using False l U [of es]
    unfolding collect_active_and_future_deadlines_def Let_def ds_def [symmetric]
    by (cases "es = []") simp_all
qed

subsection \<open>The least slack\<close>

lemma f_lt_trans: "f_lt x y \<Longrightarrow> f_lt y z \<Longrightarrow> f_lt x z"
  by (cases x; cases y; cases z) auto

lemma f_lt_irrefl [simp]: "\<not> f_lt x x"
  by (cases x) auto

lemma f_le_nonneg: "x \<noteq> NaN \<Longrightarrow> \<not> f_lt x (Fin 0) \<Longrightarrow> f_le (Fin 0) x"
  by (cases x) auto

lemma demand_returns:
  assumes K: "calendar_ok cfg c s l t D" and d: "unat d \<le> D"
  shows "\<exists>dem. demand_by cfg c l t f x d s = Some dem"
proof -
  have step: "wp (task_demand cfg c s l t f d m dem) (\<lambda>_. True)"
    if m: "m \<in> set (allocation_map cfg)" for m dem
  proof (cases "on_core s c m")
    case False
    then show ?thesis by (simp add: task_demand_def)
  next
    case True
    then obtain task where T: "find_task_by_id cfg (m_task_id m) s = Some task"
      "t_crit_level task < l \<or> t_period task \<noteq> 0 \<and> D + unat (t_period task) < 2 ^ 32
         \<and> unat t + unat (t_period task) + unat (m_tuned_deadlines m ! l) < 2 ^ 32"
      using K m by (auto simp: calendar_ok_def)
    show ?thesis
    proof (cases "t_crit_level task < l")
      case True
      then show ?thesis using T(1) by (simp add: task_demand_def)
    next
      case False
      let ?p = "t_period task"
      let ?a = "(t div ?p + 1) * ?p"
      have P: "?p \<noteq> 0" "D + unat ?p < 2 ^ 32"
        "unat t + unat ?p + unat (m_tuned_deadlines m ! l) < 2 ^ 32" using T(2) False by simp_all
      have n: "(unat t div unat ?p + 1) * unat ?p \<le> unat t + unat ?p" by (simp add: div_times_less_eq_dividend)
      have q: "unat t div unat ?p + 1 \<le> unat t + unat ?p"
        using P(1) by (intro add_mono div_le_dividend) (simp add: unat_gt_0 Suc_leI)
      have "unat (t div ?p + 1) = unat t div unat ?p + 1"
        using q P(3) by (simp add: unat_Suc_small unat_div)
      moreover have "(unat t div unat ?p + 1) * unat ?p < 2 ^ 32"
        by (rule order.strict_trans1 [OF n]) (use P(3) in simp)
      ultimately have "unat ?a = (unat t div unat ?p + 1) * unat ?p"
        using unat_mult_lem [of "t div ?p + 1" ?p] by simp
      then have "unat ?a \<le> unat t + unat ?p" using n by (simp only:)
      then have "unat ?a + unat (m_tuned_deadlines m ! l) < 2 ^ 32" using P(3) by (meson add_le_mono1 le_less_trans)
      moreover have "unat d + unat ?p < 2 ^ 32" using d P(2) by simp
      ultimately show ?thesis
        using future_demand_ends [OF P(1)] T(1) True False P(1) by (simp add: task_demand_def)
    qed
  qed
  have "wp (foldM (task_demand cfg c s l t f d) (allocation_map cfg) dem) (\<lambda>_. True)" for dem
    by (rule total.loop_inv) (simp_all add: step)
  then show ?thesis by (simp add: demand_by_def Let_def wp_iff)
qed

definition slack_at :: "u32 \<Rightarrow> u32 \<Rightarrow> f32 \<Rightarrow> f32" where
  "slack_at t d demand = f_sub (of_u32 (d - t)) demand"

lemma slack_loop:
  assumes K: "calendar_ok cfg c s l t D" and "\<forall>d\<in>set ds. unat d \<le> D" and "m \<noteq> NaN"
  shows "wp (foldM (slack_step cfg c l t f x s) ds m) (\<lambda>r. r \<noteq> NaN \<and> (r = m \<or> f_lt r m)
     \<and> (\<forall>d\<in>set ds. \<exists>dem. demand_by cfg c l t f x d s = Some dem \<and> \<not> f_lt (slack_at t d dem) r))"
  using assms(2,3)
proof (induction ds arbitrary: m)
  case Nil
  then show ?case by simp
next
  case (Cons d ds)
  obtain dem where d: "demand_by cfg c l t f x d s = Some dem"
    using demand_returns [OF K, of d f x] Cons.prems(1) by auto
  let ?v = "slack_at t d dem"
  let ?m = "if f_lt ?v m then ?v else m"
  have m: "?m \<noteq> NaN" using Cons.prems(2) by (auto simp: f_lt.simps)
  have "wp (foldM (slack_step cfg c l t f x s) ds ?m) (\<lambda>r. r \<noteq> NaN \<and> (r = ?m \<or> f_lt r ?m)
     \<and> (\<forall>d\<in>set ds. \<exists>dem. demand_by cfg c l t f x d s = Some dem \<and> \<not> f_lt (slack_at t d dem) r))"
    using Cons.prems(1) by (intro Cons.IH m) simp
  then obtain r where r: "foldM (slack_step cfg c l t f x s) ds ?m = Some r" "r \<noteq> NaN"
    "r = ?m \<or> f_lt r ?m"
    "\<forall>d\<in>set ds. \<exists>dem. demand_by cfg c l t f x d s = Some dem \<and> \<not> f_lt (slack_at t d dem) r"
    unfolding wp_iff by blast
  have "slack_step cfg c l t f x s d m = Some ?m" using d by (simp add: slack_step_def slack_at_def)
  moreover have "\<not> f_lt ?v r" using r(3) f_lt_trans [of ?v r m] f_lt_trans [of ?v r ?v] by (auto split: if_splits)
  moreover have "r = m \<or> f_lt r m" using r(3) f_lt_trans [of r ?v m] by (auto split: if_splits)
  ultimately show ?case using r d by simp
qed

lemma find_slack_core_spec:
  fixes s :: sys
  defines "t \<equiv> \<lambda>t0. if now s < t0 then t0 else now s"
    and "g \<equiv> \<lambda>f. if f_le f (lit 0 1) then lit 1 1 else f"
  assumes K: "calendar_ok cfg c s l (t t0) D" and l: "l < MAX_CRITICALITY_LEVELS cfg"
    and J: "jobs_due_by l (analysed_jobs c x s) s D"
  shows "\<exists>r ds. find_slack_core cfg c l t0 f x s = Some r \<and> f_le (lit 0 1) r
           \<and> collect_active_and_future_deadlines cfg c l (t t0) (MAX_DEADLINES cfg) x s = Some ds
           \<and> sorted_wrt (<) ds \<and> (\<forall>d\<in>set ds. t t0 < d)
           \<and> (\<forall>d\<in>set ds. \<exists>dem. demand_by cfg c l (t t0) (g f) x d s = Some dem
                \<and> (r = lit 0 1 \<or> \<not> f_lt (f_sub (of_u32 (d - t t0)) dem) r))"
proof -
  obtain ds where ds: "collect_active_and_future_deadlines cfg c l (t t0) (MAX_DEADLINES cfg) x s = Some ds"
    "sorted_wrt (<) ds" "collected (t t0) D (MAX_DEADLINES cfg) ds"
    using collect_deadlines_ok [OF K l J, of "MAX_DEADLINES cfg"] by (auto simp: wp_iff)
  have z: "lit 0 1 = Fin 0" by code_simp
  have F: "FLT_MAX \<noteq> NaN" "f_le (Fin 0) FLT_MAX" by (simp_all add: FLT_MAX_def max_units_def)
  obtain r where r: "foldM (slack_step cfg c l (t t0) (g f) x s) ds FLT_MAX = Some r" "r \<noteq> NaN"
    "\<forall>d\<in>set ds. \<exists>dem. demand_by cfg c l (t t0) (g f) x d s = Some dem
      \<and> \<not> f_lt (slack_at (t t0) d dem) r"
    using slack_loop [OF K _ F(1), of ds "g f" x] ds(3) by (auto simp: wp_iff collected_def)
  have "find_slack_core cfg c l t0 f x s
      = Some (if ds = [] then FLT_MAX else if f_lt r (lit 0 1) then lit 0 1 else r)"
    using l ds(1) r(1) by (simp add: find_slack_core_def Let_def t_def g_def)
  moreover have "f_le (lit 0 1) (if ds = [] then FLT_MAX else if f_lt r (lit 0 1) then lit 0 1 else r)"
    using F r(2) by (simp add: z f_le_nonneg)
  ultimately show ?thesis using ds r(3) by (auto simp: collected_def slack_at_def)
qed

text \<open>The clock is far from its end for every level, with the job \<open>x\<close> added at \<open>t\<close> or later.\<close>

definition calm :: "config \<Rightarrow> nat \<Rightarrow> u32 \<Rightarrow> jptr option \<Rightarrow> sys \<Rightarrow> nat \<Rightarrow> bool" where
  "calm cfg c t x s D \<longleftrightarrow> (\<forall>l<MAX_CRITICALITY_LEVELS cfg.
     calendar_ok cfg c s l (if now s < t then t else now s) D \<and> jobs_due_by l (analysed_jobs c x s) s D)"

lemma find_slack_core_returns:
  assumes "calm cfg c t x s D"
  shows "\<exists>r. find_slack_core cfg c l t f x s = Some r"
proof (cases "l < MAX_CRITICALITY_LEVELS cfg")
  case True
  then show ?thesis using assms find_slack_core_spec [of cfg c s l t D x f] by (auto simp: calm_def)
qed (simp add: find_slack_core_def)

lemma find_slack_returns:
  assumes "calm cfg c t x s D" and "\<not> rq_lock (cstate s c)"
  shows "\<exists>r. find_slack cfg c l t f x s = Some (r, s)"
proof -
  obtain r where "find_slack_core cfg c l t f x s = Some r"
    using find_slack_core_returns [OF assms(1)] by blast
  then show ?thesis using assms(2) unlock_lock [OF assms(2)]
    by (simp add: find_slack_def LOCK_RQ_eq analysis_locks(4) [OF same_but_locks_lock])
qed

lemma is_admissible_returns:
  assumes "calm cfg c (arrival_time (jobs s p)) (Some p) s D"
  shows "\<exists>b. is_admissible_levels cfg c p margin s ls = Some b"
proof (induction ls)
  case (Cons l ls)
  then show ?case using find_slack_core_returns [OF assms, of l "lit 1 1"] by (auto simp: Let_def)
qed auto

text \<open>C17: functional and termination. While the clock is far from its end and every task of the core
  is known and has a period, the analysis returns. What it returns is at least zero, and for every
  deadline it looked at it is no more than the time left until then minus the work due by then, or
  it is zero: no deadline has less room than \<^verbatim>\<open>find_slack\<close> says.\<close>

theorem find_slack_bounds_every_deadline:
  fixes s :: sys
  defines "t \<equiv> \<lambda>t0. if now s < t0 then t0 else now s"
    and "g \<equiv> \<lambda>f. if f_le f (lit 0 1) then lit 1 1 else f"
  assumes K: "calendar_ok cfg c s l (t t0) D" and l: "l < MAX_CRITICALITY_LEVELS cfg"
    and J: "jobs_due_by l (analysed_jobs c x s) s D"
  shows "\<exists>r ds. find_slack_core cfg c l t0 f x s = Some r \<and> f_le (lit 0 1) r
           \<and> collect_active_and_future_deadlines cfg c l (t t0) (MAX_DEADLINES cfg) x s = Some ds
           \<and> sorted_wrt (<) ds \<and> (\<forall>d\<in>set ds. t t0 < d)
           \<and> (\<forall>d\<in>set ds. \<exists>dem. demand_by cfg c l (t t0) (g f) x d s = Some dem
                \<and> (r = lit 0 1 \<or> \<not> f_lt (f_sub (of_u32 (d - t t0)) dem) r))"
  unfolding t_def g_def by (rule find_slack_core_spec [OF K [unfolded t_def] l J])

section \<open>Admission\<close>

definition level_admits :: "config \<Rightarrow> nat \<Rightarrow> jptr \<Rightarrow> f32 \<Rightarrow> sys \<Rightarrow> nat \<Rightarrow> bool" where
  "level_admits cfg c p margin s l \<longleftrightarrow>
     now s < arrival_time (jobs s p) + relative_tuned_deadlines (jobs s p) ! l
     \<and> (\<exists>a. find_slack_core cfg c l (arrival_time (jobs s p)) (lit 1 1) (Some p) s = Some a
          \<and> \<not> f_lt a (f_add SLACK_MARGIN_TICKS margin))"

lemma is_admissible_levels_iff:
  "is_admissible_levels cfg c p margin s ls = Some True \<longleftrightarrow>
   (\<forall>l\<in>set ls. level_admits cfg c p margin s l)"
proof (induction ls)
  case Nil
  then show ?case by simp
next
  case (Cons l ls)
  then show ?case
    by (cases "find_slack_core cfg c l (arrival_time (jobs s p)) (lit 1 1) (Some p) s")
      (auto simp: level_admits_def Let_def)
qed

text \<open>C18: equivalence. While the clock is far from its end the admission test returns, with the state
  as it was. A job is admitted exactly when, at every level from the current one of the core on, its
  deadline at that level is in the future and the slack of the core with the job added is not below
  the margin; the version that takes the run-queue lock and the one for a caller that holds it give
  the same answer.\<close>

theorem admission_checks_every_level:
  assumes "\<not> rq_lock (cstate s c)" and "calm cfg c (arrival_time (jobs s p)) (Some p) s D"
  shows "\<exists>b. is_admissible cfg c p margin s = Some (b, s)
           \<and> is_admissible_locked cfg c p margin (upd_core c (rq_lock_update (\<lambda>_. True)) s) = Some b
           \<and> (b \<longleftrightarrow> (\<forall>l\<in>{local_criticality_level (cstate s c)..<MAX_CRITICALITY_LEVELS cfg}.
                        level_admits cfg c p margin s l))"
proof -
  let ?ls = "[local_criticality_level (cstate s c)..<MAX_CRITICALITY_LEVELS cfg]"
  obtain b where b: "is_admissible_levels cfg c p margin s ?ls = Some b"
    using is_admissible_returns [OF assms(2)] by blast
  then have "b \<longleftrightarrow> (\<forall>l\<in>set ?ls. level_admits cfg c p margin s l)"
    using is_admissible_levels_iff [of cfg c p margin s ?ls] by auto
  moreover have "is_admissible_locked cfg c p margin (upd_core c (rq_lock_update (\<lambda>_. True)) s) = Some b"
    using b by (simp add: is_admissible_locked_def is_admissible_core_def
        analysis_locks(5) [OF same_but_locks_lock])
  ultimately show ?thesis
    using assms(1) unlock_lock [OF assms(1)]
    by (simp add: is_admissible_locked_def is_admissible_def LOCK_RQ_eq)
qed

end
