(* ===== verification/AcceptInv.thy ===== *)
theory AcceptInv
  imports MigrationInv RunInv UtilInv
begin

text \<open>
  The receiving end of a migration: the request of one job, taken under the run-queue locks of the
  two cores. A future job goes to the pending queue of the new core, a queued one moves from the
  queue it is in to one queue of the new core, and any other request only drops its reference.
\<close>

section \<open>Two run-queue locks\<close>

definition pair_held ::
  "nat \<Rightarrow> (nat \<Rightarrow> nat) \<Rightarrow> jptr multiset \<Rightarrow> nat \<Rightarrow> nat \<Rightarrow> sys \<Rightarrow> bool" where
  "pair_held N B H c f s \<longleftrightarrow> sys_inv N B H s \<and> (\<forall>d<N. rq_lock (cstate s d) \<longleftrightarrow> d = c \<or> d = f)
     \<and> \<not> discard_queue_lock (proc_state s)
     \<and> (\<forall>c<N. is_idle (cstate s c) \<longleftrightarrow> running_job (cstate s c) = None) \<and> locals_empty s"

lemma pair_heldD:
  assumes "pair_held N B H c f s"
  shows "sys_inv N B H s" and "locals_empty s"
  using assms by (simp_all add: pair_held_def)

lemma pair_held_step:
  assumes "pair_held N B H c f s" and "sys_inv N B' H' t" and "locals_empty t"
    and "\<And>c. rq_lock (cstate t c) = rq_lock (cstate s c)"
    and "\<And>c. is_idle (cstate t c) = is_idle (cstate s c)"
    and "\<And>c. running_job (cstate t c) = running_job (cstate s c)"
    and "discard_queue_lock (proc_state t) = discard_queue_lock (proc_state s)"
  shows "pair_held N B' H' c f t"
  using assms by (simp add: pair_held_def)

lemma lock_update_same: "\<exists>l. (if d = c then (cstate s c)\<lparr>rq_lock := k\<rparr> else cstate s d) = (cstate s d)\<lparr>rq_lock := l\<rparr>"
proof (cases "d = c")
  case False
  then show ?thesis by (intro exI [of _ "rq_lock (cstate s d)"]) simp
qed auto

lemma double_lock:
  assumes T: "tick_held N B H s" and c: "c < N" and f: "f < N"
  shows "\<exists>t. double_rq_lock c f s = Some t \<and> pair_held N B H c f t \<and> same_but_locks s t"
proof -
  let ?lk = "\<lambda>d. upd_core d (rq_lock_update (\<lambda>_. True))"
  let ?t = "if c < f then ?lk f (?lk c s) else if f < c then ?lk c (?lk f s) else ?lk c s"
  note D = tick_invD [OF T]
  have "double_rq_lock c f s = Some ?t"
    using D(2) [OF c] D(2) [OF f] by (simp add: double_rq_lock_def LOCK_RQ_eq)
  moreover have "pair_held N B H c f ?t"
    using D by (auto simp: pair_held_def)
  moreover have "\<exists>l. cstate ?t d = (cstate s d)\<lparr>rq_lock := l\<rparr>" for d
    by (rule exI [of _ "rq_lock (cstate ?t d)"]) auto
  then have "same_but_locks s ?t" by (simp add: same_but_locks_def)
  ultimately show ?thesis by blast
qed

lemma double_unlock_fields [simp]:
  "jobs (double_rq_unlock c f s) = jobs s" "queues (double_rq_unlock c f s) = queues s"
  "proc_state (double_rq_unlock c f s) = proc_state s"
  "locals_empty (double_rq_unlock c f s) \<longleftrightarrow> locals_empty s"
  "local_criticality_level (cstate (double_rq_unlock c f s) d) = local_criticality_level (cstate s d)"
  "requests (cstate (double_rq_unlock c f s) d) = requests (cstate s d)"
  by (simp_all add: double_rq_unlock_def UNLOCK_RQ_def)

lemma double_unlock:
  assumes "pair_held N B H c f s"
  shows "tick_held N B H (double_rq_unlock c f s)"
  using assms by (auto simp: tick_held_def pair_held_def double_rq_unlock_def UNLOCK_RQ_def)

section \<open>Updates that commute with linking\<close>

lemma upd_job_linked:
  assumes "\<And>j g. f (job_link_update g j) = job_link_update g (f j)" and "\<And>j. key (f j) = key j"
  shows "upd_job p f (linked_state key q p s) = linked_state key q p (upd_job p f s)"
proof -
  have k: "key (jobs (upd_job p f s) x) = key (jobs s x)" for x by (simp add: assms(2))
  have "(\<lambda>a b. key (jobs (upd_job p f s) a) < key (jobs (upd_job p f s) b))
      = (\<lambda>a b. key (jobs s a) < key (jobs s b))" unfolding k ..
  then show ?thesis unfolding linked_state_def by (simp only:) (simp add: upd_job_def assms(1))
qed

lemma upd_job_double_unlock:
  "upd_job p f (double_rq_unlock c d s) = double_rq_unlock c d (upd_job p f s)"
  by (simp add: double_rq_unlock_def UNLOCK_RQ_def upd_job_upd_core)

lemma put_double_unlock:
  "put_job_ref r e (double_rq_unlock c d s) = double_rq_unlock c d (put_job_ref r e s)"
  by (simp add: double_rq_unlock_def UNLOCK_RQ_put)

section \<open>A dropped request\<close>

lemma drop_request_ok:
  assumes L: "pair_held N B (add_mset p H) c f s"
  shows "tick_held N B H (drop_request c f p s)"
    and "queues (drop_request c f p s) = queues s"
proof -
  note D = pair_heldD [OF L]
  let ?f = "is_being_offered_update (\<lambda>_. False)"
  have "queues_ok (upd_job p ?f s)"
    unfolding queues_ok_def
  proof
    fix q
    have e: "entry_ok q j \<Longrightarrow> entry_ok q (?f j)" for j by (cases q) simp_all
    have k: "queue_key q (?f j) = queue_key q j" for j by (cases q) simp_all
    show "queue_ok (upd_job p ?f s) q"
      by (rule queue_ok_cong [where s = s])
        (use sys_invD(1) [OF D(1)] e in \<open>auto simp: k queues_ok_def\<close>)
  qed
  then have "sys_inv N B (add_mset p H) (upd_job p ?f s)"
    by (intro sys_inv_upd_job [OF D(1)]) (auto simp: same_count_def unlinked_def)
  then have I: "sys_inv N B H (put_job_ref (Some p) c (upd_job p ?f s))" by (rule sys_inv_put)
  have "pair_held N B H c f (put_job_ref (Some p) c (upd_job p ?f s))"
    by (rule pair_held_step [OF L I]) (use D(2) in simp_all)
  then show "tick_held N B H (drop_request c f p s)" unfolding drop_request_def by (rule double_unlock)
qed (simp add: drop_request_def)

section \<open>A future job\<close>

lemma requests_ack [simp]: "requests (cs\<lparr>delegation_ack_queue := q\<rparr>) = requests cs"
  by (simp add: requests_def)

definition accepted_fields :: "nat \<Rightarrow> u32 \<Rightarrow> job_struct \<Rightarrow> job_struct" where
  "accepted_fields l t j = (retune l j)
     \<lparr>is_being_offered := False, next_migration_eligible_tick := t + JOB_MIGRATION_COOLDOWN_TICKS\<rparr>"

lemma accepted_fields_simps [simp]:
  "job_link (accepted_fields l t j) = job_link j" "state (accepted_fields l t j) = state j"
  "is_replica (accepted_fields l t j) = is_replica j" "refcount (accepted_fields l t j) = refcount j"
  "\<not> is_being_offered (accepted_fields l t j)" "arrival_time (accepted_fields l t j) = arrival_time j"
  "parent_task (accepted_fields l t j) = parent_task j"
  "same_count j (accepted_fields l t j)"
  "accepted_fields l t (job_link_update g j) = job_link_update g (accepted_fields l t j)"
  by (simp_all add: accepted_fields_def retune_def same_count_def)

definition ack_for :: "job_struct \<Rightarrow> delegation_ack" where
  "ack_for j = \<lparr>ack_task_id = t_id (ptask j), ack_arrival_tick = arrival_time j, ack_accepted = True\<rparr>"

text \<open>The state after the acceptance: the job is pending on core \<open>c\<close>, and core \<open>f\<close> has the answer.\<close>

definition accepted_future ::
  "nat \<Rightarrow> nat \<Rightarrow> jptr \<Rightarrow> delegation_ack ring_buffer \<Rightarrow> sys \<Rightarrow> sys" where
  "accepted_future c f p q s = double_rq_unlock c f
     (upd_core f (delegation_ack_queue_update (\<lambda>_. q))
       (linked_state arrival_time (PendingQ c) p
         (upd_job p (accepted_fields (local_criticality_level (cstate s c)) (now s)) s)))"

lemma accept_future_eq:
  assumes u: "unlinked (jobs s p)"
    and q: "ring_buffer_enqueue (ack_for (jobs s p)) (delegation_ack_queue (cstate s f)) = Some (r, q)"
  shows "accept_future c f p s = Some (accepted_future c f p q s)"
proof -
  let ?l = "linked_state arrival_time (PendingQ c) p s"
  let ?lv = "local_criticality_level (cstate s c)"
  have a: "ack_for (jobs ?l p) = ack_for (jobs s p)" by (simp add: ack_for_def)
  have "upd_job p (next_migration_eligible_tick_update (\<lambda>_. now s + JOB_MIGRATION_COOLDOWN_TICKS))
      (upd_job p (is_being_offered_update (\<lambda>_. False))
        (upd_core f (delegation_ack_queue_update (\<lambda>_. q)) (upd_job p (retune ?lv) ?l)))
    = upd_core f (delegation_ack_queue_update (\<lambda>_. q)) (upd_job p (accepted_fields ?lv (now s)) ?l)"
    by (simp add: upd_job_def upd_core_def accepted_fields_def)
  moreover have "upd_job p (accepted_fields ?lv (now s)) ?l
    = linked_state arrival_time (PendingQ c) p (upd_job p (accepted_fields ?lv (now s)) s)"
    by (rule upd_job_linked) simp_all
  ultimately show ?thesis
    using q a by (simp add: accept_future_def add_by_arrival_eq [OF u] ack_for_def accepted_future_def)
qed

lemma accepted_future_ok:
  assumes L: "pair_held N B (add_mset p H) c f s" and u: "unlinked (jobs s p)"
    and i: "state (jobs s p) = JOB_STATE_IDLE" and n: "not_running N s p"
  shows "tick_held N B H (accepted_future c f p q s)"
    and "queues (accepted_future c f p q s) x
         = (if x = PendingQ c then insert_first (\<lambda>a b. arrival_time (jobs s a) < arrival_time (jobs s b))
              p (queues s x) else queues s x)"
proof -
  note D = pair_heldD [OF L]
  let ?g = "accepted_fields (local_criticality_level (cstate s c)) (now s)"
  let ?u = "upd_job p ?g s"
  have U: "sys_inv N B (add_mset p H) ?u"
    using D(1) u n by (intro sys_inv_upd_unlinked) (simp_all add: unlinked_def)
  let ?v = "linked_state arrival_time (PendingQ c) p ?u"
  have V: "sys_inv N B H ?v"
    by (rule sys_inv_add [OF U]) (use u i n in \<open>simp_all add: unlinked_def not_running_def\<close>)
  let ?w = "upd_core f (delegation_ack_queue_update (\<lambda>_. q)) ?v"
  have W: "sys_inv N B H ?w" using V by simp
  have le: "locals_empty ?w" using D(2) by (simp add: locals_empty_linked)
  have "pair_held N B H c f ?w" by (rule pair_held_step [OF L W le]) simp_all
  then show "tick_held N B H (accepted_future c f p q s)"
    unfolding accepted_future_def by (rule double_unlock)
  have k: "arrival_time (jobs ?u y) = arrival_time (jobs s y)" for y by simp
  have "queues ?v x = (if x = PendingQ c then insert_first (\<lambda>a b. arrival_time (jobs s a) < arrival_time (jobs s b))
              p (queues s x) else queues s x)"
    unfolding linked_state_def k by simp
  then show "queues (accepted_future c f p q s) x
      = (if x = PendingQ c then insert_first (\<lambda>a b. arrival_time (jobs s a) < arrival_time (jobs s b))
              p (queues s x) else queues s x)"
    by (simp add: accepted_future_def)
qed

section \<open>A queued job\<close>

definition moved_fields :: "nat \<Rightarrow> job_struct \<Rightarrow> job_struct" where
  "moved_fields l j = (retune l j)\<lparr>is_being_offered := False\<rparr>"

lemma moved_fields_simps [simp]:
  "job_link (moved_fields l j) = job_link j" "state (moved_fields l j) = state j"
  "is_replica (moved_fields l j) = is_replica j" "\<not> is_being_offered (moved_fields l j)"
  "parent_task (moved_fields l j) = parent_task j" "same_count j (moved_fields l j)"
  by (simp_all add: moved_fields_def retune_def same_count_def)

definition accepted_queued :: "nat \<Rightarrow> nat \<Rightarrow> jptr \<Rightarrow> qid \<Rightarrow> sys \<Rightarrow> sys" where
  "accepted_queued c f p q s = (let l = local_criticality_level (cstate s c) in
     double_rq_unlock c f
       (upd_job p (next_migration_eligible_tick_update (\<lambda>_. now s + JOB_MIGRATION_COOLDOWN_TICKS))
         (put_job_ref (Some p) c
           (linked_state virtual_deadline (arrival_queue c l (jobs s p)) p
             (upd_job p (moved_fields l) (unlinked_state q p s))))))"

lemma accept_queued_eq:
  assumes link: "job_link (jobs s p) = LinkIn q"
  shows "accept_queued c f p s = Some (accepted_queued c f p q s)"
proof -
  let ?l = "local_criticality_level (cstate s c)"
  let ?u = "unlinked_state q p s"
  let ?v = "upd_job p (retune ?l) ?u"
  let ?q = "arrival_queue c ?l (jobs s p)"
  let ?f = "is_being_offered_update (\<lambda>_. False)"
  have uv: "unlinked (jobs ?v p)" by (simp add: unlinked_def retune_def)
  have e: "t_crit_level (ptask (jobs ?v p)) = t_crit_level (ptask (jobs s p))"
    "is_replica (jobs ?v p) = is_replica (jobs s p)" by (simp_all add: retune_def)
  have m: "upd_job p ?f ?v = upd_job p (moved_fields ?l) ?u"
    by (simp add: upd_job_def moved_fields_def)
  have k: "upd_job p ?f (linked_state virtual_deadline r p ?v)
    = linked_state virtual_deadline r p (upd_job p (moved_fields ?l) ?u)" for r
    unfolding m [symmetric] by (rule upd_job_linked) simp_all
  show ?thesis
    by (simp add: accept_queued_def list_del_job_eq [OF link] accepted_queued_def Let_def
        upd_job_double_unlock put_double_unlock add_to_queue_sorted_eq [OF uv] e k
        arrival_queue_def kind_queue_def del: upd_job_fields(1))
qed

lemma accepted_queued_ok:
  assumes L: "pair_held N B (add_mset p H) c f s" and link: "job_link (jobs s p) = LinkIn q"
    and r: "state (jobs s p) \<noteq> JOB_STATE_IDLE" "state (jobs s p) = JOB_STATE_READY"
  shows "tick_held N B H (accepted_queued c f p q s)"
    and "x \<noteq> q \<Longrightarrow> x \<noteq> arrival_queue c (local_criticality_level (cstate s c)) (jobs s p) \<Longrightarrow>
         queues (accepted_queued c f p q s) x = queues s x"
    and "job_link (jobs (accepted_queued c f p q s) p)
         = LinkIn (arrival_queue c (local_criticality_level (cstate s c)) (jobs s p))"
proof -
  note D = pair_heldD [OF L]
  let ?l = "local_criticality_level (cstate s c)"
  let ?t = "arrival_queue c ?l (jobs s p)"
  let ?u = "unlinked_state q p s"
  let ?v = "upd_job p (moved_fields ?l) ?u"
  let ?w = "linked_state virtual_deadline ?t p ?v"
  let ?x = "put_job_ref (Some p) c ?w"
  let ?y = "upd_job p (next_migration_eligible_tick_update (\<lambda>_. now s + JOB_MIGRATION_COOLDOWN_TICKS)) ?x"
  note d = sys_inv_del [OF D(1) link]
  have V: "sys_inv N B (add_mset p (add_mset p H)) ?v"
    using d by (intro sys_inv_upd_unlinked) (simp_all add: unlinked_def)
  have W: "sys_inv N B (add_mset p H) ?w"
  proof (rule sys_inv_add [OF V])
    show "unlinked (jobs ?v p)" by (simp add: unlinked_def)
    show "entry_ok ?t (jobs ?v p)" using r by (simp add: arrival_queue_def)
    show "not_running N ?v p" using d(2) by (simp add: not_running_def)
    show "virtual_deadline j = queue_key ?t j" for j by (simp add: arrival_queue_def)
  qed
  have X: "sys_inv N B H ?x" using W by (rule sys_inv_put)
  have Y: "sys_inv N B H ?y"
    using X by (rule sys_inv_upd_same) (simp_all add: same_count_def same_entry_def)
  have le: "locals_empty ?y" using D(2)
    by (simp add: locals_empty_linked arrival_queue_def kind_queue_def)
  have "pair_held N B H c f ?y" by (rule pair_held_step [OF L Y le]) simp_all
  then show "tick_held N B H (accepted_queued c f p q s)"
    unfolding accepted_queued_def Let_def by (rule double_unlock)
  show "queues (accepted_queued c f p q s) x = queues s x" if "x \<noteq> q" "x \<noteq> ?t"
    using that by (simp add: accepted_queued_def Let_def linked_state_def)
  show "job_link (jobs (accepted_queued c f p q s) p) = LinkIn ?t"
    by (simp add: accepted_queued_def Let_def)
qed

section \<open>One request\<close>

definition answer_request :: "nat \<Rightarrow> nat \<Rightarrow> jptr \<Rightarrow> bool \<Rightarrow> sys \<Rightarrow> sys option" where
  "answer_request c f p ok s =
     (if \<not> ok then Some (drop_request c f p s)
      else if state (jobs s p) = JOB_STATE_IDLE \<and> now s < arrival_time (jobs s p)
      then accept_future c f p s
      else if job_link (jobs s p) \<noteq> LinkNull \<and> state (jobs s p) = JOB_STATE_READY
      then accept_queued c f p s
      else Some (drop_request c f p s))"

lemma process_request_alt:
  "process_request cfg c r s = do {
     s \<leftarrow> double_rq_lock c (from_core r) s;
     ok \<leftarrow> is_admissible_locked cfg c (req_job r) MIGRATION_PENALTY_TICKS s;
     answer_request c (from_core r) (req_job r) ok s }"
  unfolding process_request_def answer_request_def Let_def by (rule refl)

text \<open>The answer returns when the queue of acknowledgements takes one more, and keeps the invariant.\<close>

lemma answer_request_ok:
  assumes L: "pair_held N B {#p#} c f s" and o: "offer_ok (jobs s p)"
  shows "wlp (answer_request c f p ok s) (\<lambda>t. tick_inv N B t \<and> proc_state t = proc_state s
       \<and> (\<forall>d. requests (cstate t d) = requests (cstate s d)))"
    and "(\<And>a. ring_buffer_enqueue a (delegation_ack_queue (cstate s f)) \<noteq> None) \<Longrightarrow>
         answer_request c f p ok s \<noteq> None"
proof -
  note D = pair_heldD [OF L]
  have drop: "tick_inv N B (drop_request c f p s) \<and> proc_state (drop_request c f p s) = proc_state s
      \<and> (\<forall>d. requests (cstate (drop_request c f p s) d) = requests (cstate s d))"
    using drop_request_ok(1) [OF L] by (simp add: drop_request_def)
  have fut: "unlinked (jobs s p) \<and> not_running N s p" if i: "state (jobs s p) = JOB_STATE_IDLE"
  proof -
    have "refs N s p = 0"
      using private_refs [OF D(1), of p] o i by (simp add: offer_ok_def)
    then show ?thesis by (auto simp: refs_def core_refs_def not_running_def)
  qed
  have que: "\<exists>q. job_link (jobs s p) = LinkIn q"
    if "state (jobs s p) = JOB_STATE_READY" "job_link (jobs s p) \<noteq> LinkNull"
    using that o by (cases "job_link (jobs s p)") (simp_all add: offer_ok_def)
  have F: "wlp (accept_future c f p s) (\<lambda>t. tick_inv N B t \<and> proc_state t = proc_state s
       \<and> (\<forall>d. requests (cstate t d) = requests (cstate s d)))"
    if i: "state (jobs s p) = JOB_STATE_IDLE"
  proof (cases "ring_buffer_enqueue (ack_for (jobs s p)) (delegation_ack_queue (cstate s f))")
    case None
    moreover have "ack_for ((jobs s p)\<lparr>job_link := k\<rparr>) = ack_for (jobs s p)" for k by (simp add: ack_for_def)
    ultimately show ?thesis using fut [OF i]
      by (simp add: accept_future_def add_by_arrival_eq ack_for_def)
  next
    case (Some rq)
    then obtain r q where "ring_buffer_enqueue (ack_for (jobs s p)) (delegation_ack_queue (cstate s f))
        = Some (r, q)" by (cases rq) auto
    then show ?thesis
      using fut [OF i] accept_future_eq [of s p f r q c] accepted_future_ok(1) [OF L _ i, of q]
      by (simp add: accepted_future_def)
  qed
  have Q: "\<exists>t. accept_queued c f p s = Some t \<and> tick_inv N B t \<and> proc_state t = proc_state s
      \<and> (\<forall>d. requests (cstate t d) = requests (cstate s d))"
    if r: "state (jobs s p) = JOB_STATE_READY" and l: "job_link (jobs s p) \<noteq> LinkNull"
  proof -
    obtain q where "job_link (jobs s p) = LinkIn q" using que [OF r l] by blast
    then show ?thesis using accept_queued_eq accepted_queued_ok(1) [OF L] r
      by (simp add: accepted_queued_def Let_def)
  qed
  show "wlp (answer_request c f p ok s) (\<lambda>t. tick_inv N B t \<and> proc_state t = proc_state s
       \<and> (\<forall>d. requests (cstate t d) = requests (cstate s d)))"
    using drop F Q by (auto simp: answer_request_def)
  assume a: "\<And>a. ring_buffer_enqueue a (delegation_ack_queue (cstate s f)) \<noteq> None"
  have "accept_future c f p s \<noteq> None" if i: "state (jobs s p) = JOB_STATE_IDLE"
  proof -
    obtain r q where "ring_buffer_enqueue (ack_for (jobs s p)) (delegation_ack_queue (cstate s f))
        = Some (r, q)" using a by (metis not_None_eq surj_pair)
    then show ?thesis using fut [OF i] accept_future_eq [of s p f r q c] by simp
  qed
  then show "answer_request c f p ok s \<noteq> None" using Q by (auto simp: answer_request_def)
qed

lemma same_but_locks_pair:
  assumes "tick_held N B H s" and "c < N" and "f < N"
  obtains t where "double_rq_lock c f s = Some t" and "pair_held N B H c f t" and "same_but_locks s t"
  using double_lock [OF assms] by blast

lemma process_request_ok:
  assumes T: "tick_held N B {#req_job r#} s" and c: "c < N" and f: "from_core r < N"
    and o: "offer_ok (jobs s (req_job r))"
  shows "wlp (process_request cfg c r s) (\<lambda>t. tick_inv N B t \<and> proc_state t = proc_state s
       \<and> (\<forall>d. requests (cstate t d) = requests (cstate s d)))"
proof -
  obtain t where t: "double_rq_lock c (from_core r) s = Some t"
    "pair_held N B {#req_job r#} c (from_core r) t" "same_but_locks s t"
    by (rule same_but_locks_pair [OF T c f])
  note S = same_but_locksD [OF t(3)]
  show ?thesis unfolding process_request_alt t(1) wlp_simps
    using answer_request_ok(1) [OF t(2)] o S(1,3,9) by (auto simp: wlp_iff)
qed

lemma process_request_returns:
  assumes T: "tick_held N B {#req_job r#} s" and c: "c < N" and f: "from_core r < N"
    and o: "offer_ok (jobs s (req_job r))"
    and adm: "\<And>t. same_but_locks s t \<Longrightarrow>
      is_admissible_locked cfg c (req_job r) MIGRATION_PENALTY_TICKS t \<noteq> None"
    and ack: "rb_live 200 b (delegation_ack_queue (cstate s (from_core r)))"
      "0 < rb_room (delegation_ack_queue (cstate s (from_core r)))"
  shows "wp (process_request cfg c r s) (\<lambda>t. tick_inv N B t \<and> proc_state t = proc_state s
       \<and> (\<forall>d. requests (cstate t d) = requests (cstate s d)))"
proof -
  obtain t where t: "double_rq_lock c (from_core r) s = Some t"
    "pair_held N B {#req_job r#} c (from_core r) t" "same_but_locks s t"
    by (rule same_but_locks_pair [OF T c f])
  note S = same_but_locksD [OF t(3)]
  obtain ok where ok: "is_admissible_locked cfg c (req_job r) MIGRATION_PENALTY_TICKS t = Some ok"
    using adm [OF t(3)] by blast
  have "answer_request c (from_core r) (req_job r) ok t \<noteq> None"
    using o S(1) rb_live_put(1) [OF ack(1)] ack(2)
    by (intro answer_request_ok(2) [OF t(2)]) (simp_all add: S(6))
  then have "process_request cfg c r s \<noteq> None" using t(1) ok by (simp add: process_request_alt)
  then show ?thesis using process_request_ok [OF T c f o] by (auto simp: wp_iff wlp_iff)
qed

section \<open>The loop\<close>

text \<open>One core takes at most the requests it finds, and each costs one unit of the queue's budget.\<close>

lemma receive_request:
  assumes T: "tick_inv N B s" and c: "c < N" and b: "32 < B c"
  shows "ring_buffer_try_dequeue (Some undef_request) (migration_request_queue (cstate s c)) =
     (case requests (cstate s c) of
        [] \<Rightarrow> Some (- EAGAIN, Some undef_request, migration_request_queue (cstate s c))
      | r # rs \<Rightarrow> Some (0, Some r, rb_pop (migration_request_queue (cstate s c))))"
    and "requests (cstate s c) = r # rs \<Longrightarrow>
       tick_held N (B(c := B c - 1)) {#req_job r#} (upd_core c (migration_request_queue_update
         (\<lambda>_. rb_pop (migration_request_queue (cstate s c)))) s)"
    and "requests (cstate s c) = r # rs \<Longrightarrow> from_core r < N \<and> offer_ok (jobs s (req_job r))"
    and "requests (cstate s c) = r # rs \<Longrightarrow> requests (cstate (upd_core c (migration_request_queue_update
         (\<lambda>_. rb_pop (migration_request_queue (cstate s c)))) s) c) = rs"
proof -
  note D = tick_invD [OF T]
  note live = rb_live_take [OF sys_invD(4) [OF D(1) c]]
  show "ring_buffer_try_dequeue (Some undef_request) (migration_request_queue (cstate s c)) =
     (case requests (cstate s c) of
        [] \<Rightarrow> Some (- EAGAIN, Some undef_request, migration_request_queue (cstate s c))
      | r # rs \<Rightarrow> Some (0, Some r, rb_pop (migration_request_queue (cstate s c))))"
    using live(1) [of undef_request] by (auto simp: requests_def split: list.splits)
  assume r: "requests (cstate s c) = r # rs"
  show "tick_held N (B(c := B c - 1)) {#req_job r#} (upd_core c (migration_request_queue_update
         (\<lambda>_. rb_pop (migration_request_queue (cstate s c)))) s)"
    by (rule tick_held_step [OF T sys_inv_receive [OF D(1) c r b]]) (use D(5) in simp_all)
  show "from_core r < N \<and> offer_ok (jobs s (req_job r))"
    using sys_invD(5) [OF D(1)] c r by (simp add: offers_ok_def)
  show "requests (cstate (upd_core c (migration_request_queue_update
         (\<lambda>_. rb_pop (migration_request_queue (cstate s c)))) s) c) = rs"
    using live(3) r by (simp add: requests_def)
qed

lemma process_migration_requests_ok:
  assumes "tick_inv N B s" and c: "c < N" and "32 + length (requests (cstate s c)) \<le> B c"
  shows "wlp (process_migration_requests cfg c s) (\<lambda>t.
     tick_inv N (B(c := B c - length (requests (cstate s c)))) t \<and> proc_state t = proc_state s
     \<and> requests (cstate t c) = [])"
  using assms(1,3)
proof (induction "requests (cstate s c)" arbitrary: s B)
  case Nil
  have "ring_buffer_try_dequeue (Some undef_request) (migration_request_queue (cstate s c))
      = Some (- EAGAIN, Some undef_request, migration_request_queue (cstate s c))"
    using rb_live_take(1) [OF sys_invD(4) [OF tick_invD(1) [OF Nil.prems(1)] c], of undef_request]
      Nil.hyps by (simp add: requests_def)
  then show ?case using Nil by (subst process_migration_requests.simps) (simp add: EAGAIN_def)
next
  case (Cons r rs)
  let ?s = "upd_core c (migration_request_queue_update
      (\<lambda>_. rb_pop (migration_request_queue (cstate s c)))) s"
  let ?B = "B(c := B c - 1)"
  have b: "32 < B c" using Cons.prems(2) by (simp add: Cons.hyps(2) [symmetric])
  note R = receive_request [OF Cons.prems(1) c b]
  have hd: "requests (cstate s c) = r # rs" using Cons.hyps(2) by simp
  have deq: "ring_buffer_try_dequeue (Some undef_request) (migration_request_queue (cstate s c))
      = Some (0, Some r, rb_pop (migration_request_queue (cstate s c)))" using R(1) hd by simp
  have o: "from_core r < N" "offer_ok (jobs ?s (req_job r))" using R(3) [OF hd] by simp_all
  have "wlp (process_request cfg c r ?s) (\<lambda>u. wlp (process_migration_requests cfg c u) (\<lambda>t.
     tick_inv N (B(c := B c - length (requests (cstate s c)))) t \<and> proc_state t = proc_state s
     \<and> requests (cstate t c) = []))"
  proof (rule wlp_mono [OF process_request_ok [OF R(2) [OF hd] c o]])
    fix u
    assume u: "tick_inv N ?B u \<and> proc_state u = proc_state ?s
       \<and> (\<forall>d. requests (cstate u d) = requests (cstate ?s d))"
    have rs: "rs = requests (cstate u c)" using u R(4) [OF hd] by simp
    have B: "?B(c := ?B c - length (requests (cstate u c))) = B(c := B c - length (requests (cstate s c)))"
      using hd rs by simp
    have "wlp (process_migration_requests cfg c u) (\<lambda>t.
        tick_inv N (?B(c := ?B c - length (requests (cstate u c)))) t \<and> proc_state t = proc_state u
        \<and> requests (cstate t c) = [])"
      using u rs Cons.prems(2) hd by (intro Cons.hyps(1)) simp_all
    then show "wlp (process_migration_requests cfg c u) (\<lambda>t.
        tick_inv N (B(c := B c - length (requests (cstate s c)))) t \<and> proc_state t = proc_state s
        \<and> requests (cstate t c) = [])" unfolding B using u by simp
  qed
  then show ?case using deq by (subst process_migration_requests.simps) simp
qed

end
