(* ===== verification/TickInv.thy ===== *)
theory TickInv
  imports AcceptInv
begin

text \<open>
  The power phase, the summary and the tick as a whole: whatever a tick does, it leaves the shared
  state well formed, every lock free, and at most one more completion message to send.
\<close>

section \<open>Slack queries\<close>

text \<open>A query takes and releases the run-queue lock and changes nothing.\<close>

lemma find_slack_same:
  assumes "\<not> rq_lock (cstate s c)" and "find_slack cfg c l t f x s = Some (v, u)"
  shows "u = s"
  using assms unlock_lock [OF assms(1)] by (auto simp: find_slack_def LOCK_RQ_eq bind_Some_iff)

lemma min_slack_same:
  assumes "\<not> rq_lock (cstate s c)" and "min_slack_levels cfg c f ls m s = Some (v, u)"
  shows "u = s"
  using assms(2)
proof (induction ls arbitrary: m)
  case (Cons l ls)
  then obtain v' u' where f: "find_slack cfg c l (now s) f None s = Some (v', u')"
    and m: "min_slack_levels cfg c f ls (if f_lt v' m then v' else m) u' = Some (v, u)"
    by (auto simp: bind_Some_iff)
  show ?case using Cons.IH m find_slack_same [OF assms(1) f] by simp
qed simp

lemma dvfs_search_same:
  assumes "\<not> rq_lock (cstate s c)" and "dvfs_search cfg c is b s = Some (l, u)"
  shows "u = s" and "l = b \<or> l \<in> set is"
proof -
  have "u = s \<and> (l = b \<or> l \<in> set is)"
    using assms(2)
  proof (induction "is" arbitrary: b)
    case (Cons i "is")
    then obtain v u' where m: "min_slack_levels cfg c (scaling_factor (dvfs_levels ! i))
        [local_criticality_level (cstate s c)..<MAX_CRITICALITY_LEVELS cfg] FLT_MAX s = Some (v, u')"
      by (auto simp: bind_Some_iff)
    have [simp]: "u' = s" using min_slack_same [OF assms(1) m] .
    show ?case using Cons.IH [of i] Cons.prems m by (auto split: if_splits)
  qed simp
  then show "u = s" and "l = b \<or> l \<in> set is" by simp_all
qed

text \<open>The level chosen is always a row of the frequency table.\<close>

lemma calc_required_dvfs_level_same:
  assumes "\<not> rq_lock (cstate s c)" and "calc_required_dvfs_level cfg c s = Some (l, u)"
  shows "u = s" and "l < NUM_DVFS_LEVELS"
  using assms dvfs_search_same [OF assms(1), of cfg "[0..<NUM_DVFS_LEVELS]" 0 l u]
  by (auto simp: calc_required_dvfs_level_def NUM_DVFS_LEVELS_def split: if_splits)

section \<open>The power phase\<close>

lemma tick_held_power [simp]:
  "tick_held N B H (upd_core c (dpm_block_update f) s) \<longleftrightarrow> tick_held N B H s"
  "tick_held N B H (upd_core c (current_dvfs_level_update g) s) \<longleftrightarrow> tick_held N B H s"
  "tick_held N B H (s\<lparr>core_summaries := cs\<rparr>) \<longleftrightarrow> tick_held N B H s"
  by (auto simp: tick_held_def locals_empty_def)

lemma set_dpm_interval_form:
  assumes "power_management_set_dpm_interval c n s = Some t"
  shows "\<exists>f. t = upd_core c (dpm_block_update f) s"
proof -
  have "dpm_block_update (\<lambda>x. x) = (\<lambda>x. x :: core_state)"
    by (rule ext, rule core_state.equality) simp_all
  then have "s = upd_core c (dpm_block_update (\<lambda>x. x)) s" by (simp add: upd_core_def)
  then show ?thesis using assms
    by (auto simp: power_management_set_dpm_interval_def enter_low_power_def Let_def bind_Some_iff
        split: if_splits)
qed

lemma set_dpm_interval_ok:
  assumes "tick_held N B H s"
  shows "wlp (power_management_set_dpm_interval c n s) (\<lambda>t. tick_held N B H t \<and> proc_state t = proc_state s)"
  using assms set_dpm_interval_form [of c n s] by (auto simp: wlp_iff)

text \<open>The preempted job of a procrastination goes back to its queue.\<close>

definition put_off :: "nat \<Rightarrow> jptr \<Rightarrow> sys \<Rightarrow> sys" where
  "put_off c p s = linked_state virtual_deadline (kind_queue c (jobs s p)) p
     (upd_job p (state_update (\<lambda>_. JOB_STATE_READY))
       (upd_core c (running_job_update (\<lambda>_. None) \<circ> is_idle_update (\<lambda>_. True)) s))"

lemma put_off_held:
  assumes T: "tick_inv N B s" and c: "c < N" and p: "running_job (cstate s c) = Some p"
  shows "tick_inv N B (put_off c p s)" and "mode_jobs c (put_off c p s) = mode_jobs c s"
    and "running_job (cstate (put_off c p s) c) = None" and "is_idle (cstate (put_off c p s) c)"
    and "proc_state (put_off c p s) = proc_state s"
proof -
  note D = tick_invD [OF T]
  let ?f = "running_job_update (\<lambda>_. None) \<circ> is_idle_update (\<lambda>_. True)"
  have I: "sys_inv N B {#} (put_off c p s)" unfolding put_off_def
    using requeue_running_ok(2) [OF D(1) c p, of ?f] by simp
  have "locals_empty (put_off c p s)" unfolding put_off_def
    using D(5) by (intro locals_empty_linked) (simp_all add: kind_queue_def)
  with I show "tick_inv N B (put_off c p s)"
    using D by (auto simp: tick_held_def put_off_def)
  show "mode_jobs c (put_off c p s) = mode_jobs c s"
    using p by (auto simp: mode_jobs_def put_off_def linked_state_def kind_queue_def opt_list_def)
qed (simp_all add: put_off_def)

lemma requeue_unlock:
  assumes "\<not> rq_lock (cstate s c)" and "unlinked (jobs s p)"
  shows "\<exists>u. requeue_running c p (upd_core c (rq_lock_update (\<lambda>_. True)) s) = Some u
     \<and> UNLOCK_RQ c (upd_core c (running_job_update (\<lambda>_. None) \<circ> is_idle_update (\<lambda>_. True)) u)
         = put_off c p s"
proof -
  let ?lk = "upd_core c (rq_lock_update (\<lambda>_. True))"
  let ?f = "running_job_update (\<lambda>_. None) \<circ> is_idle_update (\<lambda>_. True)"
  let ?r = "upd_job p (state_update (\<lambda>_. JOB_STATE_READY))"
  have u: "unlinked (jobs (?r (?lk s)) p)" using assms(2) by (simp add: unlinked_def)
  have e: "requeue_running c p (?lk s)
      = Some (linked_state virtual_deadline (kind_queue c (jobs s p)) p (?r (?lk s)))"
    unfolding requeue_running_def Let_def add_to_queue_sorted_eq [OF u]
    by (simp add: kind_queue_def)
  have c: "?f \<circ> rq_lock_update (\<lambda>_. True) = rq_lock_update (\<lambda>_. True) \<circ> ?f"
    by (rule ext, rule core_state.equality) simp_all
  have "upd_core c ?f (linked_state virtual_deadline (kind_queue c (jobs s p)) p (?r (?lk s)))
      = ?lk (put_off c p s)"
    unfolding put_off_def
    by (simp add: upd_job_upd_core linked_state_upd_core upd_core_upd_core c)
  moreover have "UNLOCK_RQ c (?lk (put_off c p s)) = put_off c p s"
    using assms(1) by (intro unlock_lock) (simp add: put_off_def)
  ultimately show ?thesis using e by simp
qed

lemma try_procrastination_ok:
  assumes T: "tick_inv N B s" and c: "c < N"
  shows "wlp (power_management_try_procrastination cfg c s) (\<lambda>(b, t). tick_inv N B t
     \<and> proc_state t = proc_state s \<and> (\<not> b \<longrightarrow> t = s) \<and> (b \<longrightarrow> mode_jobs c t = mode_jobs c s))"
proof -
  note D = tick_invD [OF T]
  note ul = D(2) [OF c]
  let ?ms = "min_slack_levels cfg c (scaling_factor (dvfs_levels ! (NUM_DVFS_LEVELS - 1)))
      [local_criticality_level (cstate s c)..<MAX_CRITICALITY_LEVELS cfg] FLT_MAX s"
  have dpm: "wlp (power_management_set_dpm_interval c n (put_off c p s)) (\<lambda>t. tick_inv N B t
      \<and> proc_state t = proc_state s \<and> mode_jobs c t = mode_jobs c s)"
    if p: "running_job (cstate s c) = Some p" for n p
    using put_off_held [OF T c p] set_dpm_interval_form [of c n "put_off c p s"]
    by (auto simp: wlp_iff mode_jobs_def)
  show ?thesis
  proof (cases ?ms)
    case None
    then show ?thesis using T by (simp add: power_management_try_procrastination_def Let_def)
  next
    case (Some r)
    then obtain m where m: "?ms = Some (m, s)" using min_slack_same [OF ul] by (cases r) auto
    show ?thesis
    proof (cases "running_job (cstate s c)")
      case None
      then show ?thesis using T m lock_rq(1) [OF T c] unlock_lock [OF ul]
        by (simp add: power_management_try_procrastination_def Let_def)
    next
      case p: (Some p)
      obtain u where u: "requeue_running c p (upd_core c (rq_lock_update (\<lambda>_. True)) s) = Some u"
        "UNLOCK_RQ c (upd_core c (running_job_update (\<lambda>_. None) \<circ> is_idle_update (\<lambda>_. True)) u)
         = put_off c p s"
        using requeue_unlock [OF ul running_link(2) [OF D(1) c p]] by blast
      show ?thesis
        using T m p lock_rq(1) [OF T c] u put_off_held [OF T c p] dpm [OF p]
        by (auto simp: power_management_try_procrastination_def Let_def wlp_iff bind_Some_iff)
    qed
  qed
qed

lemma power_phase_ok:
  assumes T: "tick_inv N B s" and c: "c < N"
  shows "wlp (power_phase cfg c s) (\<lambda>t. tick_inv N B t \<and> proc_state t = proc_state s
     \<and> mode_jobs c t = mode_jobs c s)"
proof -
  note ul = tick_invD(2) [OF T c]
  let ?Q = "\<lambda>t. tick_inv N B t \<and> proc_state t = proc_state s \<and> mode_jobs c t = mode_jobs c s"
  have dpm: "wlp (power_management_set_dpm_interval c n t) ?Q" if "?Q t" for n t
    using that set_dpm_interval_form [of c n t] by (auto simp: wlp_iff mode_jobs_def)
  let ?dvfs = "if ENABLE_DVFS cfg \<and> decision_point (cstate s c)
      then do { (l, s) \<leftarrow> calc_required_dvfs_level cfg c s; Some (power_set_dvfs_level c l s) }
      else Some s"
  have dvfs: "wlp ?dvfs ?Q"
    using T by (auto simp: wlp_iff bind_Some_iff power_set_dvfs_level_def mode_jobs_def
        dest: calc_required_dvfs_level_same(1) [OF ul])
  have rest: "wlp ?dvfs (\<lambda>t. wlp (if ENABLE_DPM cfg \<and> is_idle (cstate t c)
      then power_management_set_dpm_interval c (find_next_effective_arrival_time cfg c t) t
      else Some t) ?Q)"
    by (rule wlp_mono [OF dvfs]) (use dpm in auto)
  have "wlp (if ENABLE_PROCRASTINATION cfg then power_management_try_procrastination cfg c s
      else Some (False, s)) (\<lambda>(b, t). ?Q t \<and> (\<not> b \<longrightarrow> t = s))"
    using try_procrastination_ok [OF T c, of cfg] T by (auto simp: wlp_iff)
  then show ?thesis unfolding power_phase_def wlp_simps
  proof (rule wlp_mono)
    fix r assume r: "case r of (b, t) \<Rightarrow> ?Q t \<and> (\<not> b \<longrightarrow> t = s)"
    obtain b t where bt: "r = (b, t)" by (cases r)
    show "wlp (case r of (skip, s) \<Rightarrow> if skip then Some s
        else do {
          s \<leftarrow> (if ENABLE_DVFS cfg \<and> decision_point (cstate s c)
               then do { (l, s) \<leftarrow> calc_required_dvfs_level cfg c s; Some (power_set_dvfs_level c l s) }
               else Some s);
          if ENABLE_DPM cfg \<and> is_idle (cstate s c)
          then power_management_set_dpm_interval c (find_next_effective_arrival_time cfg c s) s
          else Some s }) ?Q"
    proof (cases b)
      case True
      then show ?thesis using r bt by simp
    next
      case False
      then have "r = (False, s)" using r bt by simp
      then show ?thesis using rest by (simp only: prod.case if_False wlp_simps)
    qed
  qed
qed

lemma update_core_summary_ok:
  assumes T: "tick_inv N B s" and c: "c < N"
  shows "wlp (update_core_summary cfg c s) (\<lambda>t. tick_inv N B t \<and> proc_state t = proc_state s
     \<and> mode_jobs c t = mode_jobs c s)"
proof -
  note ul = tick_invD(2) [OF T c]
  obtain u where u: "get_util c s = Some (u, s)" using get_util_same [OF ul] by blast
  show ?thesis using T u
    by (auto simp: update_core_summary_def wlp_iff bind_Some_iff mode_jobs_def Let_def
        dest: find_slack_same [OF ul])
qed

section \<open>The tick\<close>

text \<open>What a tick may do to the state of the processor.\<close>

definition proc_step :: "processor_state \<Rightarrow> processor_state \<Rightarrow> bool" where
  "proc_step p p' \<longleftrightarrow> system_time p' = system_time p \<and> processor_id p' = processor_id p
     \<and> incoming_completion_msg_queue p' = incoming_completion_msg_queue p
     \<and> length (rb_contents (outgoing_completion_msg_queue p'))
         \<le> Suc (length (rb_contents (outgoing_completion_msg_queue p)))"

lemma mode_check_ok:
  assumes T: "tick_inv N B s" and c: "c < N"
  shows "wp (mode_check c s) (\<lambda>t. tick_inv N B t \<and> proc_state t = proc_state s
     \<and> local_criticality_level (cstate t c) = system_criticality_level (proc_state s))"
proof (cases "local_criticality_level (cstate s c) = system_criticality_level (proc_state s)")
  case True
  then show ?thesis using T by (simp add: mode_check_def Let_def)
next
  case False
  have "wp (handle_mode_change c (system_criticality_level (proc_state s)) s) (\<lambda>t. tick_inv N B t
      \<and> proc_state t = proc_state s
      \<and> local_criticality_level (cstate t c) = system_criticality_level (proc_state s))"
    by (rule wp_mono [OF handle_mode_change_ok [OF T c]]) (auto simp: mode_changed_def)
  then show ?thesis using False by (simp add: mode_check_def Let_def)
qed

lemma run_effect_proc:
  assumes "run_effect cfg c p s t"
  shows "proc_step (proc_state s) (proc_state t)"
  using assms
  by (auto simp: run_effect_def proc_step_def mode_changed_def ipc_broadcast_criticality_change_def
      sendto_def Let_def split: if_splits)

lemma log_core_state_same:
  assumes "\<not> rq_lock (cstate s c)"
  shows "\<exists>msgs. log_core_state c s = Some (msgs, s)"
  using assms unlock_lock [OF assms] by (simp add: log_core_state_def LOCK_RQ_eq)

lemma end_of_tick_ok:
  assumes T: "tick_inv N B s" and c: "c < N"
  shows "wlp (end_of_tick cfg c s) (\<lambda>t. tick_inv N B t \<and> proc_state t = proc_state s
     \<and> mode_jobs c t = mode_jobs c s)"
  unfolding end_of_tick_def wlp_simps
proof (rule wlp_mono [OF update_core_summary_ok [OF T c]])
  fix t assume t: "tick_inv N B t \<and> proc_state t = proc_state s \<and> mode_jobs c t = mode_jobs c s"
  then obtain msgs where "log_core_state c t = Some (msgs, t)"
    using log_core_state_same [of t c] tick_invD(2) c by blast
  then show "wlp (log_core_state c t) (\<lambda>x. wlp (case x of (_, s) \<Rightarrow> Some s)
      (\<lambda>t. tick_inv N B t \<and> proc_state t = proc_state s \<and> mode_jobs c t = mode_jobs c s))"
    using t by simp
qed

text \<open>The invariant with the queue of outgoing messages alive.\<close>

definition tick_ready :: "nat \<Rightarrow> (nat \<Rightarrow> nat) \<Rightarrow> nat \<Rightarrow> sys \<Rightarrow> bool" where
  "tick_ready N B b s \<longleftrightarrow> tick_inv N B s \<and> rb_live 64 b (outgoing_completion_msg_queue (proc_state s))"

lemma handle_running_job_proc:
  assumes T: "tick_ready N B b s" and c: "c < N"
    and room: "0 < rb_room (outgoing_completion_msg_queue (proc_state s))"
  shows "wp (handle_running_job cfg c s) (\<lambda>t. tick_ready N B b t
     \<and> proc_step (proc_state s) (proc_state t))"
proof -
  have T': "tick_inv N B s" "rb_live 64 b (outgoing_completion_msg_queue (proc_state s))"
    using T by (simp_all add: tick_ready_def)
  show ?thesis
    by (rule wp_mono [OF handle_running_job_ok [OF T'(1) c T'(2) room]])
      (auto simp: tick_ready_def run_effect_proc proc_step_def [of "proc_state s" "proc_state s"]
        split: option.splits)
qed

text \<open>From the arrivals on, the state of the processor does not change.\<close>

definition later_phases :: "config \<Rightarrow> nat \<Rightarrow> sys \<Rightarrow> sys option" where
  "later_phases cfg c s = do {
     s \<leftarrow> handle_job_arrivals cfg c s;
     s \<leftarrow> reclaim_discarded_jobs cfg c s;
     s \<leftarrow> (if ENABLE_MIGRATION cfg
          then do {
            s \<leftarrow> update_delegations c s;
            s \<leftarrow> attempt_migration_push cfg c s;
            process_migration_requests cfg c s }
          else Some s);
     s \<leftarrow> dispatch_phase c s;
     s \<leftarrow> power_phase cfg c s;
     end_of_tick cfg c s }"

lemma active_tick_alt:
  "active_tick cfg c s = Option.bind (handle_running_job cfg c s) (later_phases cfg c)"
  by (simp add: active_tick_def later_phases_def [abs_def])

definition spent :: "nat \<Rightarrow> (nat \<Rightarrow> nat) \<Rightarrow> (nat \<Rightarrow> nat) \<Rightarrow> bool" where
  "spent c B B' \<longleftrightarrow> (\<forall>d. d \<noteq> c \<longrightarrow> B' d = B d) \<and> B c \<le> B' c + 32 \<and> B' c \<le> B c"

lemma migration_phase_ok:
  assumes T: "tick_inv N B s" and c: "c < N" and N: "N = NUM_CORES_PER_PROC cfg" and b: "64 \<le> B c"
  shows "wlp (do {
      s \<leftarrow> update_delegations c s;
      s \<leftarrow> attempt_migration_push cfg c s;
      process_migration_requests cfg c s }) (\<lambda>t. (\<exists>B'. spent c B B' \<and> tick_inv N B' t)
      \<and> proc_state t = proc_state s)"
  unfolding wlp_simps
proof (rule wlp_mono [OF update_delegations_ok [OF T]], rule wlp_mono)
  fix t assume t: "tick_inv N B t \<and> proc_state t = proc_state s"
  then show "wlp (attempt_migration_push cfg c t) (\<lambda>u. tick_inv N B u \<and> proc_state u = proc_state s)"
    using attempt_migration_push_ok [of N B t c cfg] c N by simp
  fix u assume u: "tick_inv N B u \<and> proc_state u = proc_state s"
  then have U: "tick_inv N B u" by simp
  let ?n = "length (requests (cstate u c))"
  have n: "?n \<le> 32"
    using rb_live_length [OF sys_invD(4) [OF tick_invD(1) [OF U] c]] by (simp add: requests_def)
  show "wlp (process_migration_requests cfg c u) (\<lambda>t. (\<exists>B'. spent c B B' \<and> tick_inv N B' t)
      \<and> proc_state t = proc_state s)"
  proof (rule wlp_mono [OF process_migration_requests_ok [OF U c]])
    show "32 + ?n \<le> B c" using n b by simp
    fix v assume "tick_inv N (B(c := B c - ?n)) v \<and> proc_state v = proc_state u \<and> requests (cstate v c) = []"
    moreover have "spent c B (B(c := B c - ?n))" using n by (simp add: spent_def)
    ultimately show "(\<exists>B'. spent c B B' \<and> tick_inv N B' v) \<and> proc_state v = proc_state s"
      using u by auto
  qed
qed

lemma last_phases_ok:
  assumes T: "tick_inv N B s" and c: "c < N"
  shows "wlp (do { s \<leftarrow> dispatch_phase c s; s \<leftarrow> power_phase cfg c s; end_of_tick cfg c s })
     (\<lambda>t. tick_inv N B t \<and> proc_state t = proc_state s \<and> mode_jobs c t = mode_jobs c s)"
  unfolding wlp_simps
proof (rule wlp_mono [OF wp_wlp [OF dispatch_phase_ok [OF T c]]], rule wlp_mono)
  fix t
  assume t: "tick_inv N B t \<and> edf_ok c t \<and> mode_jobs c t = mode_jobs c s \<and> proc_state t = proc_state s
      \<and> (\<forall>p. virtual_deadline (jobs t p) = virtual_deadline (jobs s p))"
  then show "wlp (power_phase cfg c t) (\<lambda>u. tick_inv N B u \<and> proc_state u = proc_state s
      \<and> mode_jobs c u = mode_jobs c s)"
    using power_phase_ok [of N B t c cfg] c by simp
  fix u assume "tick_inv N B u \<and> proc_state u = proc_state s \<and> mode_jobs c u = mode_jobs c s"
  then show "wlp (end_of_tick cfg c u) (\<lambda>t. tick_inv N B t \<and> proc_state t = proc_state s
      \<and> mode_jobs c t = mode_jobs c s)"
    using end_of_tick_ok [of N B u c cfg] c by simp
qed

lemma later_phases_ok:
  assumes G: "acet_returns cfg" and T: "tick_inv N B s" and c: "c < N"
    and N: "N = NUM_CORES_PER_PROC cfg" and b: "64 \<le> B c"
  shows "wlp (later_phases cfg c s) (\<lambda>t. (\<exists>B'. spent c B B' \<and> tick_inv N B' t)
     \<and> proc_state t = proc_state s)"
proof -
  let ?Q = "\<lambda>t. (\<exists>B'. spent c B B' \<and> tick_inv N B' t) \<and> proc_state t = proc_state s"
  have last: "wlp (do { s \<leftarrow> dispatch_phase c t; s \<leftarrow> power_phase cfg c s; end_of_tick cfg c s }) ?Q"
    if "?Q t" for t
  proof -
    from that obtain B' where B': "spent c B B'" "tick_inv N B' t" "proc_state t = proc_state s" by blast
    show ?thesis by (rule wlp_mono [OF last_phases_ok [OF B'(2) c]]) (use B' in auto)
  qed
  have keep: "spent c B B" by (simp add: spent_def)
  have mig: "wlp (if ENABLE_MIGRATION cfg
          then do {
            s \<leftarrow> update_delegations c t;
            s \<leftarrow> attempt_migration_push cfg c s;
            process_migration_requests cfg c s }
          else Some t) ?Q" if "tick_inv N B t" "proc_state t = proc_state s" for t
    using migration_phase_ok [OF that(1) c N b] that keep by auto
  show ?thesis unfolding later_phases_def wlp_simps
  proof (rule wlp_mono [OF wp_wlp [OF handle_job_arrivals_ok [OF G T c]]], rule wlp_mono)
    fix t assume t: "tick_inv N B t \<and> proc_state t = proc_state s"
    then show "wlp (reclaim_discarded_jobs cfg c t) (\<lambda>u. tick_inv N B u \<and> queues u (DiscardL c) = []
        \<and> reclaim_jobs c u = reclaim_jobs c t \<and> proc_state u = proc_state t)"
      using reclaim_discarded_jobs_ok [of N B t c cfg] c by simp
    fix u assume "tick_inv N B u \<and> queues u (DiscardL c) = [] \<and> reclaim_jobs c u = reclaim_jobs c t
      \<and> proc_state u = proc_state t"
    with t have u: "tick_inv N B u" "proc_state u = proc_state s" by simp_all
    show "wlp (if ENABLE_MIGRATION cfg
          then Option.bind (update_delegations c u) (\<lambda>s. Option.bind (attempt_migration_push cfg c s)
            (process_migration_requests cfg c))
          else Some u)
        (\<lambda>s'. wlp (dispatch_phase c s') (\<lambda>x. wlp (power_phase cfg c x) (\<lambda>x. wlp (end_of_tick cfg c x) ?Q)))"
      by (rule wlp_mono [OF mig [OF u]]) (use last in simp)
  qed
qed

text \<open>A tick of one core.\<close>

lemma spent_live:
  assumes "spent c B B'" and "d < N" and "\<And>d. d < N \<Longrightarrow> n + 32 \<le> B d"
  shows "n \<le> B' d"
  using assms by (cases "d = c") (force simp: spent_def)+

lemma active_tick_ok:
  assumes G: "acet_returns cfg" and T: "tick_ready N B b s" and c: "c < N"
    and N: "N = NUM_CORES_PER_PROC cfg" and B: "64 \<le> B c"
    and room: "0 < rb_room (outgoing_completion_msg_queue (proc_state s))"
  shows "wlp (active_tick cfg c s) (\<lambda>t. (\<exists>B'. spent c B B' \<and> tick_ready N B' b t)
     \<and> proc_step (proc_state s) (proc_state t))"
  unfolding active_tick_alt wlp_simps
proof (rule wlp_mono [OF wp_wlp [OF handle_running_job_proc [OF T c room]]])
  fix t assume t: "tick_ready N B b t \<and> proc_step (proc_state s) (proc_state t)"
  then have K: "tick_inv N B t" by (simp add: tick_ready_def)
  show "wlp (later_phases cfg c t) (\<lambda>t. (\<exists>B'. spent c B B' \<and> tick_ready N B' b t)
      \<and> proc_step (proc_state s) (proc_state t))"
    by (rule wlp_mono [OF later_phases_ok [OF G K c N B]]) (use t in \<open>auto simp: tick_ready_def\<close>)
qed

lemma scheduler_tick_ok:
  assumes G: "acet_returns cfg" and T: "tick_ready N B b s" and c: "c < N"
    and N: "N = NUM_CORES_PER_PROC cfg" and B: "64 \<le> B c"
    and room: "0 < rb_room (outgoing_completion_msg_queue (proc_state s))"
    and inc: "rb_inv a (incoming_completion_msg_queue (proc_state s))"
  shows "wlp (scheduler_tick cfg c s) (\<lambda>t. (\<exists>B'. spent c B B' \<and> tick_ready N B' b t)
     \<and> proc_step (proc_state s) (proc_state t))"
proof -
  let ?Q = "\<lambda>t. (\<exists>B'. spent c B B' \<and> tick_ready N B' b t) \<and> proc_step (proc_state s) (proc_state t)"
  let ?wake = "dpm_block_update (in_low_power_state_update (\<lambda>_. False))"
  have T': "tick_inv N B s" using T by (simp add: tick_ready_def)
  have ecc: "wlp (if ENABLE_ECC cfg then remove_completed_jobs c s else Some s)
      (\<lambda>t. tick_inv N B t \<and> proc_state t = proc_state s)"
    using wp_wlp [OF remove_completed_jobs_ok [OF T' c inc]] T' by simp
  have act: "wlp (active_tick cfg c t) ?Q" if "tick_inv N B t" "proc_state t = proc_state s" for t
  proof -
    have "tick_ready N B b t" using that T by (simp add: tick_ready_def)
    from active_tick_ok [OF G this c N B] room that show ?thesis by simp
  qed
  have sleep: "?Q t" if "tick_inv N B t" "proc_state t = proc_state s" for t
    using that T by (auto simp: tick_ready_def proc_step_def spent_def intro: exI [of _ B])
  show ?thesis unfolding scheduler_tick_def wlp_simps
  proof (rule wlp_mono [OF ecc], rule wlp_mono)
    fix t assume t: "tick_inv N B t \<and> proc_state t = proc_state s"
    then show "wlp (mode_check c t) (\<lambda>u. tick_inv N B u \<and> proc_state u = proc_state t
        \<and> local_criticality_level (cstate u c) = system_criticality_level (proc_state t))"
      using wp_wlp [OF mode_check_ok [of N B t c]] c by simp
    fix u assume u: "tick_inv N B u \<and> proc_state u = proc_state t
        \<and> local_criticality_level (cstate u c) = system_criticality_level (proc_state t)"
    then have w: "tick_inv N B (upd_core c ?wake u)" by simp
    show "wlp (if in_low_power_state (dpm_block (cstate u c))
        then if dpm_end_time (dpm_block (cstate u c)) \<le> now u
             then active_tick cfg c (upd_core c ?wake u) else Some u
        else active_tick cfg c u) ?Q"
      using act [OF w] act [of u] sleep [of u] u t by simp
  qed
qed

end
