(* ===== verification/PowerInv.thy ===== *)
theory PowerInv
  imports TickInv UtilInv
begin

text \<open>
  The frequency and sleep decisions of \<^verbatim>\<open>power_management.c\<close>: which level is chosen, when a core goes
  to sleep and when it wakes up, and that the wake-up time lies in the future.
\<close>

section \<open>Frequency\<close>

definition level_has_slack :: "config \<Rightarrow> nat \<Rightarrow> sys \<Rightarrow> nat \<Rightarrow> bool" where
  "level_has_slack cfg c s i \<longleftrightarrow>
     (\<exists>m. min_slack_levels cfg c (scaling_factor (dvfs_levels ! i))
            [local_criticality_level (cstate s c)..<MAX_CRITICALITY_LEVELS cfg] FLT_MAX s = Some (m, s)
        \<and> f_le SLACK_MARGIN_TICKS m)"

lemma dvfs_search_spec:
  assumes "\<not> rq_lock (cstate s c)" and "dvfs_search cfg c [k..<n] b s = Some (l, u)"
  shows "(l = b \<and> (k < n \<longrightarrow> \<not> level_has_slack cfg c s k))
    \<or> (k \<le> l \<and> l < n \<and> (\<forall>i\<in>{k..l}. level_has_slack cfg c s i)
       \<and> (Suc l < n \<longrightarrow> \<not> level_has_slack cfg c s (Suc l)))"
  using assms(2)
proof (induction "n - k" arbitrary: k b)
  case 0
  then show ?case by simp
next
  case (Suc x)
  then have k: "[k..<n] = k # [Suc k..<n]" by (simp add: upt_conv_Cons)
  from Suc.prems obtain m v where m: "min_slack_levels cfg c (scaling_factor (dvfs_levels ! k))
      [local_criticality_level (cstate s c)..<MAX_CRITICALITY_LEVELS cfg] FLT_MAX s = Some (m, v)"
    by (auto simp: k bind_Some_iff)
  have v: "v = s" using min_slack_same [OF assms(1) m] .
  have h: "level_has_slack cfg c s k \<longleftrightarrow> f_le SLACK_MARGIN_TICKS m"
    using m v by (auto simp: level_has_slack_def)
  show ?case
  proof (cases "f_le SLACK_MARGIN_TICKS m")
    case False
    then show ?thesis using Suc.prems m v h by (simp add: k)
  next
    case True
    then have "dvfs_search cfg c [Suc k..<n] k s = Some (l, u)" using Suc.prems m v by (simp add: k)
    from Suc.hyps(1) [OF _ this] Suc.hyps(2)
    have "(l = k \<and> (Suc k < n \<longrightarrow> \<not> level_has_slack cfg c s (Suc k)))
      \<or> (Suc k \<le> l \<and> l < n \<and> (\<forall>i\<in>{Suc k..l}. level_has_slack cfg c s i)
         \<and> (Suc l < n \<longrightarrow> \<not> level_has_slack cfg c s (Suc l)))" by simp
    moreover have "{k..l} = insert k {Suc k..l}" if "k \<le> l" using that by auto
    moreover have "k < n" using Suc.hyps(2) by simp
    ultimately show ?thesis using True h by auto
  qed
qed

lemma min_slack_returns:
  assumes "calm cfg c (now s) None s D" and "\<not> rq_lock (cstate s c)"
  shows "\<exists>m. min_slack_levels cfg c f ls b s = Some (m, s)"
proof (induction ls arbitrary: b)
  case (Cons l ls)
  then show ?case using find_slack_returns [OF assms, of l f] by auto
qed simp

lemma dvfs_search_returns:
  assumes "calm cfg c (now s) None s D" and "\<not> rq_lock (cstate s c)"
  shows "\<exists>l. dvfs_search cfg c is b s = Some (l, s)"
proof (induction "is" arbitrary: b)
  case (Cons i "is")
  obtain m where "min_slack_levels cfg c (scaling_factor (dvfs_levels ! i))
      [local_criticality_level (cstate s c)..<MAX_CRITICALITY_LEVELS cfg] FLT_MAX s = Some (m, s)"
    using min_slack_returns [OF assms] by blast
  then show ?case using Cons.IH by (auto split: if_splits)
qed simp

text \<open>C29: functional. While the clock is far from its end the choice of a frequency returns, changes
  nothing and yields a row of the table. With a job running it is the slowest level in the unbroken
  run of levels, from the fastest on, at which the slack of every criticality level reaches the
  margin (the fastest when there is no such run); without one it is the slowest of all.\<close>

theorem dvfs_level_is_slowest_safe:
  assumes "\<not> rq_lock (cstate s c)" and "calm cfg c (now s) None s D"
  shows "\<exists>l<NUM_DVFS_LEVELS. calc_required_dvfs_level cfg c s = Some (l, s) \<and>
    (if is_idle (cstate s c) \<or> running_job (cstate s c) = None then l = NUM_DVFS_LEVELS - 1
     else (if level_has_slack cfg c s 0 then (\<forall>i\<le>l. level_has_slack cfg c s i) else l = 0)
        \<and> (level_has_slack cfg c s 0 \<and> Suc l < NUM_DVFS_LEVELS \<longrightarrow> \<not> level_has_slack cfg c s (Suc l)))"
proof (cases "is_idle (cstate s c) \<or> running_job (cstate s c) = None")
  case True
  then show ?thesis by (auto simp: calc_required_dvfs_level_def NUM_DVFS_LEVELS_def)
next
  case False
  obtain l where l: "dvfs_search cfg c [0..<NUM_DVFS_LEVELS] 0 s = Some (l, s)"
    using dvfs_search_returns [OF assms(2,1)] by blast
  then have "calc_required_dvfs_level cfg c s = Some (l, s)"
    using False by (auto simp: calc_required_dvfs_level_def)
  moreover have "l < NUM_DVFS_LEVELS"
    using dvfs_search_spec [OF assms(1) l] by (auto simp: NUM_DVFS_LEVELS_def)
  ultimately show ?thesis using dvfs_search_spec [OF assms(1) l] False
    by (auto simp: NUM_DVFS_LEVELS_def intro!: exI [of _ l])
qed

section \<open>Sleep\<close>

text \<open>C32: bounds. An idle core that is awake goes to sleep when at least six ticks are left until the
  next arrival, and wakes up at that arrival, if it is at most \<open>2 ^ 24\<close> ticks away; beyond that the
  detour through a float rounds the time, and at \<open>2 ^ 24 + 3\<close> ticks the core wakes up one tick late.\<close>

theorem sleep_until_next_arrival:
  assumes "is_idle (cstate s c)" and "\<not> in_low_power_state (dpm_block (cstate s c))"
    and "now s < n" and "n \<noteq> UINT32_MAX"
  shows "(unat (n - now s) \<le> 2 ^ 24 \<longrightarrow> power_management_set_dpm_interval c n s
            = Some (if 6 \<le> unat (n - now s) then enter_low_power c (now s) n s else s))
    \<and> (unat (n - now s) = 2 ^ 24 + 3 \<longrightarrow>
         power_management_set_dpm_interval c n s = Some (enter_low_power c (now s) (n + 1) s))"
proof -
  have six: "DPM_IDLE_THRESHOLD_TICKS + DPM_ENTRY_LATENCY_TICKS + DPM_EXIT_LATENCY_TICKS = 6"
    by (simp add: DPM_IDLE_THRESHOLD_TICKS_def DPM_ENTRY_LATENCY_TICKS_def DPM_EXIT_LATENCY_TICKS_def)
  have thr: "f_of_int 6 = Fin (6 * one_units)" by (simp add: f_of_int_small)
  have form: "power_management_set_dpm_interval c n s
    = (if f_le (Fin (6 * one_units)) (of_u32 (n - now s))
       then map_option (\<lambda>k. enter_low_power c (now s) (now s + k) s)
              (f_to_u32 (floorf (of_u32 (n - now s))))
       else Some s)"
    using assms unfolding power_management_set_dpm_interval_def Let_def six thr
    by (auto simp: not_le [symmetric] map_option_case split: option.splits)
  have small: "power_management_set_dpm_interval c n s
      = Some (if 6 \<le> unat (n - now s) then enter_low_power c (now s) n s else s)"
    if k: "unat (n - now s) \<le> 2 ^ 24"
  proof -
    obtain k where K: "unat (n - now s) = k" "k \<le> 2 ^ 24" using k by blast
    have u: "uint (n - now s) = int k" using K(1) by (metis uint_nat)
    have w: "word_of_int (int k) = n - now s" using u by (metis word_of_int_uint)
    have i: "int k \<le> 2 ^ 24" using K(2) by simp
    have v: "of_u32 (n - now s) = Fin (int k * one_units)"
      unfolding of_u32_def u using i by (intro f_of_int_small) simp
    have "f_to_u32 (Fin (int k * one_units)) = Some (word_of_int (int k))"
      using i by (intro f_to_u32_int) simp_all
    then have f: "f_to_u32 (floorf (Fin (int k * one_units))) = Some (n - now s)"
      unfolding floorf_int w .
    have "6 * one_units \<le> int k * one_units \<longleftrightarrow> 6 \<le> k"
      by (subst mult_le_cancel_right_pos) simp_all
    then show ?thesis unfolding form v f f_le.simps K(1) by simp
  qed
  have "power_management_set_dpm_interval c n s = Some (enter_low_power c (now s) (n + 1) s)"
    if k: "unat (n - now s) = 2 ^ 24 + 3"
  proof -
    have u: "uint (n - now s) = 2 ^ 24 + 3" unfolding uint_nat k by simp
    have "f_of_int (2 ^ 24 + 3) = Fin ((2 ^ 24 + 4) * one_units)" by code_simp
    then have v: "of_u32 (n - now s) = Fin ((2 ^ 24 + 4) * one_units)" by (simp only: of_u32_def u)
    have "f_to_u32 (Fin ((2 ^ 24 + 4) * one_units)) = Some (word_of_int (2 ^ 24 + 4))"
      by (intro f_to_u32_int) simp_all
    moreover have "word_of_int (2 ^ 24 + 4) = n - now s + (1 :: u32)"
      using arg_cong [OF u, of "\<lambda>x. word_of_int (x + 1) :: u32"] by simp
    ultimately have "f_to_u32 (floorf (of_u32 (n - now s))) = Some (n - now s + 1)"
      unfolding v floorf_int by simp
    moreover have "f_le (Fin (6 * one_units)) (of_u32 (n - now s))" unfolding v by simp
    ultimately show ?thesis unfolding form by simp
  qed
  with small show ?thesis by blast
qed

section \<open>The next arrival\<close>

lemma next_pending_future:
  assumes "now s \<noteq> UINT32_MAX"
  shows "now s < next_pending_arrival c s"
proof -
  have "now s < fold (\<lambda>p m. if now s < arrival_time (jobs s p) \<and> arrival_time (jobs s p) < m
                 then arrival_time (jobs s p) else m) ps m" if "now s < m" for ps m
    using that by (induction ps arbitrary: m) auto
  moreover have "now s < UINT32_MAX" using assms by (simp add: word_order.not_eq_extremum)
  ultimately show ?thesis by (simp add: next_pending_arrival_def)
qed

text \<open>Periods are positive and neither the clock nor a delegated arrival is within one of its end.\<close>

definition arrivals_fit :: "nat \<Rightarrow> sys \<Rightarrow> task_struct \<Rightarrow> bool" where
  "arrivals_fit c s task \<longleftrightarrow> unat (now s) + unat (t_period task) < 2 ^ 32
     \<and> (\<forall>d\<in>set (delegated_job_queue (cstate s c)).
          unat (dj_arrival_tick (delegated_jobs_pool s d)) + unat (t_period task) < 2 ^ 32)"

lemma task_next_arrival_future:
  assumes F: "arrivals_fit c s task" and p: "t_period task \<noteq> 0"
  shows "now s < task_next_arrival c s task"
proof -
  let ?p = "t_period task"
  let ?step = "\<lambda>d next_arrival. let dj = delegated_jobs_pool s d in
      if dj_arrival_tick dj = next_arrival \<and> dj_task_id dj = t_id task \<and> dj_owned_by_remote dj
      then next_arrival + ?p else next_arrival"
  have r: "now s mod ?p < ?p" using p by (simp add: word_mod_less_divisor word_neq_0_conv)
  then have d: "unat (?p - now s mod ?p) = unat ?p - unat (now s mod ?p)"
    by (intro unat_minus_if_le) simp
  have "unat (now s + (?p - now s mod ?p)) = unat (now s) + (unat ?p - unat (now s mod ?p))"
    unfolding d [symmetric]
  proof (rule unat_plus_if_small)
    show "unat (now s) + unat (?p - now s mod ?p) < 2 ^ LENGTH(32)" unfolding d
      by (rule le_less_trans [of _ "unat (now s) + unat ?p"]) (use F in \<open>simp_all add: arrivals_fit_def\<close>)
  qed
  then have start: "now s < now s + (?p - now s mod ?p)"
    using r by (simp add: word_less_nat_alt)
  have "now s < fold ?step ds n"
    if "now s < n" and "set ds \<subseteq> set (delegated_job_queue (cstate s c))" for ds n
    using that
  proof (induction ds arbitrary: n)
    case Nil
    then show ?case by simp
  next
    case (Cons d ds)
    have "now s < n + ?p" if "dj_arrival_tick (delegated_jobs_pool s d) = n"
    proof -
      have "unat n + unat ?p < 2 ^ 32" using F Cons.prems(2) that by (auto simp: arrivals_fit_def)
      then have "unat (n + ?p) = unat n + unat ?p" by (intro unat_plus_if_small) simp
      then show ?thesis using Cons.prems(1) by (simp add: word_less_nat_alt)
    qed
    then have "now s < ?step d n" using Cons.prems(1) by (auto simp: Let_def)
    then show ?case using Cons.IH [of "?step d n"] Cons.prems(2) by simp
  qed
  from this [OF start] show ?thesis by (simp add: task_next_arrival_def Let_def)
qed

lemma next_arrival_future:
  assumes "now s \<noteq> UINT32_MAX"
    and "\<And>m task. m \<in> set (allocation_map cfg) \<Longrightarrow> on_core s c m \<Longrightarrow>
           find_task_by_id cfg (m_task_id m) s = Some task \<Longrightarrow> arrivals_fit c s task"
  shows "now s < find_next_effective_arrival_time cfg c s"
proof -
  have "now s < fold (\<lambda>m min_arrival_time.
         if \<not> on_core s c m then min_arrival_time
         else case find_task_by_id cfg (m_task_id m) s of
                None \<Rightarrow> min_arrival_time
              | Some task \<Rightarrow>
                  if t_period task = 0
                     \<or> t_crit_level task < local_criticality_level (cstate s c)
                  then min_arrival_time
                  else let next_arrival = task_next_arrival c s task in
                       if next_arrival < min_arrival_time then next_arrival else min_arrival_time)
       ms n" if "now s < n" and "set ms \<subseteq> set (allocation_map cfg)" for ms n
    using that
  proof (induction ms arbitrary: n)
    case Nil
    then show ?case by simp
  next
    case (Cons m ms)
    have "now s < task_next_arrival c s task"
      if "on_core s c m" "find_task_by_id cfg (m_task_id m) s = Some task" "t_period task \<noteq> 0" for task
      using task_next_arrival_future [OF assms(2) [OF _ that(1,2)] that(3)] Cons.prems(2) by simp
    then show ?case using Cons.IH Cons.prems
      by (auto simp: Let_def split: option.splits)
  qed
  from this [OF next_pending_future [OF assms(1)]] show ?thesis
    by (simp add: find_next_effective_arrival_time_def)
qed

text \<open>While the clock and the delegated arrivals are more than a period away from the end
  of the 32-bit clock, the next arrival a core computes is in the future. So a core that goes to
  sleep without a wake-up time, which \<^verbatim>\<open>power_management_set_dpm_interval\<close> also does for an arrival
  that is not, does so only when nothing is expected at all.\<close>

theorem next_arrival_is_future:
  assumes "now s \<noteq> UINT32_MAX"
    and "\<And>m task. m \<in> set (allocation_map cfg) \<Longrightarrow> on_core s c m \<Longrightarrow>
           find_task_by_id cfg (m_task_id m) s = Some task \<Longrightarrow> arrivals_fit c s task"
  shows "now s < find_next_effective_arrival_time cfg c s
    \<and> (find_next_effective_arrival_time cfg c s \<noteq> UINT32_MAX \<longrightarrow>
         is_idle (cstate s c) \<longrightarrow> \<not> in_low_power_state (dpm_block (cstate s c)) \<longrightarrow>
         (\<forall>t. power_management_set_dpm_interval c (find_next_effective_arrival_time cfg c s) s = Some t \<longrightarrow>
            t = s \<or> (\<exists>k. t = enter_low_power c (now s) (now s + k) s)))"
  using next_arrival_future [OF assms]
  by (auto simp: power_management_set_dpm_interval_def Let_def bind_Some_iff not_le [symmetric]
      split: if_splits)

end
