(* ===== verification/Frames.thy ===== *)
theory Frames
  imports TickInv PowerInv Processor
begin

text \<open>
  What most handlers of the scheduler leave alone. A projection of the state is framed when it does not
  depend on the queues, the counts, the locks, the free lists and the bookkeeping fields of jobs and
  cores; every handler that changes only those keeps it. The facts are proved once in the locale and
  interpreted for the times of a processor and for its levels.
\<close>

definition job_times :: "job_struct \<Rightarrow> task_struct option \<times> u32 \<times> u32 list" where
  "job_times j = (parent_task j, arrival_time j, relative_tuned_deadlines j)"

named_theorems frame_ops "handlers that keep every framed projection"

locale frame =
  fixes kept :: "sys \<Rightarrow> 'a"
  assumes kept_core:
    "kept (upd_core c (rq_lock_update f1) s) = kept s"
    "kept (upd_core c (is_idle_update f2) s) = kept s"
    "kept (upd_core c (decision_point_update f3) s) = kept s"
    "kept (upd_core c (dpm_block_update f4) s) = kept s"
    "kept (upd_core c (delegated_job_queue_update f5) s) = kept s"
    "kept (upd_core c (running_job_update f6) s) = kept s"
    "kept (upd_core c (core_next_migration_eligible_tick_update f7) s) = kept s"
    and kept_jobs: "(\<And>p. job_times (js p) = job_times (jobs s p)) \<Longrightarrow> kept (s\<lparr>jobs := js\<rparr>) = kept s"
    and kept_frame:
    "kept (s\<lparr>queues := qs\<rparr>) = kept s" "kept (s\<lparr>free_list := fl\<rparr>) = kept s"
    "kept (s\<lparr>remote_free_list := fl\<rparr>) = kept s"
    "kept (s\<lparr>delegated_jobs_free_list := dl\<rparr>) = kept s"
    "kept (s\<lparr>core_summaries := cs\<rparr>) = kept s" "kept (s\<lparr>sent_packets := sp\<rparr>) = kept s"
    "kept (s\<lparr>rand_count := n\<rparr>) = kept s"
    "kept (s\<lparr>core_fatal_shutdown_requested := b\<rparr>) = kept s"
    "kept (upd_dj d (dj_owned_by_remote_update g) s) = kept s"
    and kept_proc:
    "kept (upd_proc (discard_queue_lock_update g1) s) = kept s"
    "kept (upd_proc (outgoing_completion_msg_queue_update g2) s) = kept s"
    "kept (upd_proc (incoming_completion_msg_queue_update g3) s) = kept s"
    "kept (upd_proc (system_criticality_level_update g4) s) = kept s"
begin

lemmas kept_simps [simp] = kept_core kept_frame kept_proc

lemma kept_requeue [simp]: "kept (upd_core c (running_job_update f \<circ> is_idle_update g) s) = kept s"
proof -
  have "upd_core c (running_job_update f \<circ> is_idle_update g) s
      = upd_core c (running_job_update f) (upd_core c (is_idle_update g) s)" by (simp add: upd_core_def)
  then show ?thesis by (simp only: kept_simps)
qed

lemma kept_job:
  assumes "job_times (f (jobs s p)) = job_times (jobs s p)"
  shows "kept (upd_job p f s) = kept s"
  using kept_jobs [of "(jobs s)(p := f (jobs s p))" s] assms by (simp add: upd_job_def)

lemma job_fields [simp]:
  "kept (upd_job p (state_update f1) s) = kept s"
  "kept (upd_job p (refcount_update f2) s) = kept s"
  "kept (upd_job p (executed_time_update f3) s) = kept s"
  "kept (upd_job p (is_being_offered_update f4) s) = kept s"
  "kept (upd_job p (job_link_update f5) s) = kept s"
  "kept (upd_job p (next_free_update f6) s) = kept s"
  "kept (upd_job p (next_migration_eligible_tick_update f7) s) = kept s"
  "kept (upd_job p (virtual_deadline_update f8) s) = kept s"
  by (simp_all add: kept_job job_times_def)

section \<open>Queues, references and locks\<close>

lemma locks [simp]:
  "kept (UNLOCK_RQ c s) = kept s" "kept (unlock_discard_queue s) = kept s"
  "kept (set_decision_point c s) = kept s"
  by (simp_all add: UNLOCK_RQ_def unlock_discard_queue_def set_decision_point_def)

lemma refs [simp]:
  "kept (push_free c p s) = kept s" "kept (push_remote_free c p s) = kept s"
  "kept (put_job_ref r c s) = kept s"
  by (simp_all add: put_job_ref_def release_job_to_pool_def push_free_def push_remote_free_def Let_def
      split: option.split)

lemma queue_ops [frame_ops]:
  fixes s t :: sys
  shows "LOCK_RQ c s = Some t \<Longrightarrow> kept t = kept s"
    and "lock_discard_queue s = Some t \<Longrightarrow> kept t = kept s"
    and "list_del_job p s = Some t \<Longrightarrow> kept t = kept s"
    and "add_to_queue_sorted q r s = Some t \<Longrightarrow> kept t = kept s"
    and "add_to_queue_sorted_by_arrival q r s = Some t \<Longrightarrow> kept t = kept s"
    and "add_ready_or_replica c p s = Some t \<Longrightarrow> kept t = kept s"
    and "pop_next_job i s = Some (r', t) \<Longrightarrow> kept t = kept s"
  by (auto simp: LOCK_RQ_def lock_discard_queue_def list_del_job_def add_to_queue_sorted_def
      add_to_queue_sorted_by_arrival_def add_ready_or_replica_def add_sorted_by_def link_at_def
      pop_next_job_def bind_Some_iff Let_def
      split: if_splits option.splits link_state.splits list.splits)

lemma foldM:
  assumes "foldM f xs s = Some t" and "\<And>x s t. f x s = Some t \<Longrightarrow> kept t = kept s"
  shows "kept t = kept s"
  using assms(1) by (induction xs arbitrary: s) (auto simp: bind_Some_iff dest: assms(2))

section \<open>The handlers\<close>

lemma completion [frame_ops]:
  assumes "handle_job_completion c s = Some t"
  shows "kept t = kept s"
  using assms by (auto simp: handle_job_completion_def put_outgoing_def bind_Some_iff Let_def
      split: option.splits dest!: frame_ops)

lemma remove_matching [frame_ops]:
  "remove_matching_job c m p s = Some t \<Longrightarrow> kept t = kept s"
  by (auto simp: remove_matching_job_def bind_Some_iff split: if_splits dest!: frame_ops)

lemma remove_running [simp]: "kept (remove_running_if_completed c m s) = kept s"
  by (simp add: remove_running_if_completed_def Let_def split: option.split)

lemma remove_for [frame_ops]:
  "remove_completed_for c m s = Some t \<Longrightarrow> kept t = kept s"
  by (auto simp: remove_completed_for_def bind_Some_iff dest!: frame_ops
      dest!: foldM [where f = "remove_matching_job c m"])

lemma remove_completed [frame_ops]:
  "remove_completed_jobs c s = Some t \<Longrightarrow> kept t = kept s"
  by (auto simp: remove_completed_jobs_def bind_Some_iff
      dest!: foldM [where f = "remove_completed_for c"] dest: frame_ops)

lemma retune [simp]:
  "kept (upd_job p (\<lambda>j. j\<lparr>virtual_deadline := f j, wcet := g j\<rparr>) s) = kept s"
  "kept (upd_job p (\<lambda>j. j\<lparr>virtual_deadline := f j\<rparr>) s) = kept s"
  by (simp_all add: kept_job job_times_def)

text \<open>A mode change sets the level of its core, and keeps the rest.\<close>

lemma splice [simp]: "kept (splice_jobs l h s) = kept s"
proof -
  have "kept (s\<lparr>queues := qs, jobs := js\<rparr>) = kept s"
    if "\<And>p. job_times (js p) = job_times (jobs s p)" for js qs
    using kept_jobs [of js "s\<lparr>queues := qs\<rparr>"] that by simp
  then show ?thesis by (simp add: splice_jobs_def job_times_def)
qed

lemma filter_job [frame_ops]:
  "filter_job_for_mode_change c q p s = Some t \<Longrightarrow> kept t = kept s"
  by (auto simp: filter_job_for_mode_change_def Let_def split: if_splits dest!: frame_ops)

lemma filter_queue [frame_ops]:
  "filter_queue_for_mode_change q r c s = Some t \<Longrightarrow> kept t = kept s"
proof (erule filter_queue_for_mode_change.raw_induct [rotated, where P = "\<lambda>_ _ _ s t. kept t = kept s"])
  fix f :: "qid \<Rightarrow> qid \<Rightarrow> nat \<Rightarrow> sys \<Rightarrow> sys option" and q r c s t
  assume IH: "\<And>q r c s t. f q r c s = Some t \<Longrightarrow> kept t = kept s"
    and e: "(if queues s q = [] then Some s
      else Option.bind (pop_next_job q s) (\<lambda>(p, s).
           Option.bind (filter_job_for_mode_change c r (the p) s) (f q r c))) = Some t"
  from e show "kept t = kept s"
    by (auto simp: bind_Some_iff split: if_splits dest!: frame_ops IH)
qed

lemma mode_change:
  "handle_mode_change c l s = Some t \<Longrightarrow>
   kept t = kept (upd_core c (local_criticality_level_update (\<lambda>_. l))
     (upd_proc (system_criticality_level_update (\<lambda>_. l)) (set_decision_point c s)))"
  by (auto simp: handle_mode_change_def bind_Some_iff Let_def split: option.splits dest!: frame_ops)

lemma enqueue_arrival [frame_ops]:
  "enqueue_arrival c p s = Some t \<Longrightarrow> kept t = kept s"
  by (auto simp: enqueue_arrival_def bind_Some_iff split: if_splits dest!: frame_ops)

text \<open>A pending job is released at the time it waited for, so its arrival time does not change.\<close>

lemma pending_arrivals [frame_ops]:
  "pending_arrivals c ps s = Some t \<Longrightarrow> kept t = kept s"
proof (induction ps arbitrary: s)
  case (Cons p ps)
  have r: "kept (upd_job p (\<lambda>j. j\<lparr>state := x, virtual_deadline := f j, wcet := g j,
      arrival_time := now u\<rparr>) u) = kept s"
    if u: "list_del_job p s = Some u" and a: "arrival_time (jobs s p) = now s" for x f g u
  proof -
    have "arrival_time (jobs u p) = arrival_time (jobs s p)" "now u = now s"
      using u by (auto simp: list_del_job_def Let_def split: link_state.splits)
    then show ?thesis using queue_ops(3) [OF u] a by (simp add: kept_job job_times_def)
  qed
  have "arrival_time (jobs s p) = now s" if "\<not> arrival_time (jobs s p) < now s"
    "\<not> now s < arrival_time (jobs s p)" using that by simp
  then show ?case using Cons.prems
    by (auto simp: bind_Some_iff Let_def r split: if_splits
        dest!: Cons.IH enqueue_arrival dest: queue_ops)
qed simp

lemma check_delegated [frame_ops]:
  "check_delegated c tid ds s = (b, t) \<Longrightarrow> kept t = kept s"
  by (induction c tid ds s rule: check_delegated.induct)
    (auto simp: release_delegation_def unlink_delegation_def Let_def split: if_splits)

lemma select [frame_ops]:
  assumes "select_next_job c s = Some (n, t)"
  shows "kept t = kept s"
proof -
  from assms obtain u where l: "LOCK_RQ c s = Some u" by (auto simp: select_next_job_def bind_Some_iff)
  have "t = UNLOCK_RQ c u \<or> (\<exists>q v. pop_next_job q u = Some (n, v) \<and> t = UNLOCK_RQ c v)"
  proof (cases "select_candidate c u")
    case None
    then show ?thesis using assms l by (simp add: select_next_job_def)
  next
    case (Some p)
    then show ?thesis using assms l
      by (auto simp: select_next_job_def bind_Some_iff split: if_split_asm)
  qed
  then show ?thesis by (auto simp: queue_ops(1) [OF l] dest: frame_ops)
qed

lemma dispatch [frame_ops]:
  "dispatch_job c p s = Some t \<Longrightarrow> kept t = kept s"
  by (auto simp: dispatch_job_def bind_Some_iff split: option.splits dest!: frame_ops)

lemma dispatch_phase [frame_ops]:
  "dispatch_phase c s = Some t \<Longrightarrow> kept t = kept s"
  by (auto simp: dispatch_phase_def bind_Some_iff split: option.splits dest!: frame_ops)

lemma reclaim_own [frame_ops]:
  "reclaim_own cfg c p s = Some t \<Longrightarrow> kept t = kept s"
  by (auto simp: reclaim_own_def bind_Some_iff Let_def split: if_splits dest!: frame_ops)

lemma reclaim_own_list [frame_ops]:
  "reclaim_own_list cfg c s = Some t \<Longrightarrow> kept t = kept s"
proof (erule reclaim_own_list.raw_induct [rotated, where P = "\<lambda>_ _ s t. kept t = kept s"])
  fix f :: "config \<Rightarrow> nat \<Rightarrow> sys \<Rightarrow> sys option" and cfg c s t
  assume IH: "\<And>cfg c s t. f cfg c s = Some t \<Longrightarrow> kept t = kept s"
    and e: "(if queues s (DiscardL c) = [] then Some s
      else Option.bind (pop_next_job (DiscardL c) s) (\<lambda>(p, s).
           Option.bind (reclaim_own cfg c (the p) s) (f cfg c))) = Some t"
  from e show "kept t = kept s"
    by (auto simp: bind_Some_iff split: if_splits dest!: frame_ops IH)
qed

lemma reclaim_shared [frame_ops]:
  "reclaim_shared cfg c p s = Some t \<Longrightarrow> kept t = kept s"
  by (auto simp: reclaim_shared_def bind_Some_iff split: if_splits dest!: frame_ops)

lemma reclaim [frame_ops]:
  "reclaim_discarded_jobs cfg c s = Some t \<Longrightarrow> kept t = kept s"
  by (auto simp: reclaim_discarded_jobs_def bind_Some_iff dest!: frame_ops
      dest!: foldM [where f = "reclaim_shared cfg c"])

lemma slack [frame_ops]:
  "find_slack cfg c l a f x s = Some (r, t) \<Longrightarrow> kept t = kept s"
  by (auto simp: find_slack_def bind_Some_iff dest!: frame_ops)

lemma min_slack [frame_ops]:
  "min_slack_levels cfg c f ls m s = Some (r, t) \<Longrightarrow> kept t = kept s"
  by (induction ls arbitrary: m s) (auto simp: bind_Some_iff dest!: slack split: if_splits)

lemma dpm [frame_ops]:
  "power_management_set_dpm_interval c n s = Some t \<Longrightarrow> kept t = kept s"
  using set_dpm_interval_form [of c n s t] by auto

lemma procrastination [frame_ops]:
  "power_management_try_procrastination cfg c s = Some (b, t) \<Longrightarrow> kept t = kept s"
  by (auto simp: power_management_try_procrastination_def requeue_running_def bind_Some_iff Let_def
      split: if_splits option.splits dest!: frame_ops)

section \<open>Migration, the end of a tick and the timer\<close>

lemma apply_ack [simp]: "kept (apply_ack c a s) = kept s"
  by (simp add: apply_ack_def split: option.split)

lemma create_delegation:
  "create_delegation c s = (r, t) \<Longrightarrow> kept t = kept s"
  by (auto simp: create_delegation_def split: list.splits)

lemma unlock_both [simp]:
  "kept (double_rq_unlock c d s) = kept s"
  by (simp add: double_rq_unlock_def)

lemma double_rq_lock [frame_ops]:
  "double_rq_lock c d s = Some t \<Longrightarrow> kept t = kept s"
  by (auto simp: double_rq_lock_def bind_Some_iff split: if_splits dest!: frame_ops)

lemma retune_job [simp]: "kept (upd_job p (retune l) s) = kept s"
  by (simp add: kept_job job_times_def retune_def)

lemma drop [simp]: "kept (drop_request c f p s) = kept s"
  by (simp add: drop_request_def)

lemma accept_queued [frame_ops]:
  "accept_queued c f p s = Some t \<Longrightarrow> kept t = kept s"
  by (auto simp: accept_queued_def bind_Some_iff Let_def split: if_splits dest!: frame_ops)

lemma end_of_tick:
  assumes T: "tick_inv N B s" and c: "c < N" and e: "end_of_tick cfg c s = Some t"
  shows "kept t = kept s"
proof -
  note ul = tick_invD(2) [OF T c]
  obtain x where x: "get_util c s = Some (x, s)" using get_util_same [OF ul] by blast
  obtain u msgs v where u: "update_core_summary cfg c s = Some u" and v: "log_core_state c u = Some (msgs, v)"
    and t: "t = v"
    using e by (auto simp: end_of_tick_def bind_Some_iff)
  have "kept u = kept s"
    using u x by (auto simp: update_core_summary_def bind_Some_iff Let_def dest: slack)
  moreover have "kept v = kept u"
    using v by (auto simp: log_core_state_def bind_Some_iff Let_def dest: queue_ops(1))
  ultimately show ?thesis using t by simp
qed

lemma release_expired:
  "release_expired_jobs cfg s = Some t \<Longrightarrow> kept t = kept s"
proof -
  assume e: "release_expired_jobs cfg s = Some t"
  have "kept u = kept v" if "release_expired cfg p v = Some u" for p u v
    using that by (auto simp: release_expired_def bind_Some_iff split: if_splits dest: queue_ops(3))
  note loop = foldM [OF _ this]
  show ?thesis using e
    by (auto simp: release_expired_jobs_def bind_Some_iff dest!: loop queue_ops(2))
qed

end

text \<open>
  A framed projection that does not depend on the jobs and the mailboxes at all is kept by the arrival
  of jobs and by migration too.
\<close>

locale job_frame = frame +
  assumes kept_mail [simp]:
    "kept (upd_job p f s) = kept s" "kept (upd_dj d g s) = kept s"
    "kept (upd_core c (migration_request_queue_update q1) s) = kept s"
    "kept (upd_core c (delegation_ack_queue_update q2) s) = kept s"
begin

lemma create_job:
  assumes "create_job task c s = (r, t)"
  shows "kept t = kept s"
proof -
  let ?s = "if free_list s c = None
    then s\<lparr>free_list := (free_list s)(c := remote_free_list s c),
           remote_free_list := (remote_free_list s)(c := None)\<rparr> else s"
  have k: "kept ?s = kept s" by simp
  have "t = ?s \<or> (\<exists>p f fl. t = upd_job p f (?s\<lparr>free_list := fl\<rparr>))"
    using assms unfolding create_job_def Let_def by (auto split: option.splits if_splits)
  then show ?thesis using k by auto
qed

lemma generate_acet:
  "generate_acet cfg p s = Some (a, t) \<Longrightarrow> kept t = kept s"
  by (auto simp: generate_acet_def draw_def bind_Some_iff Let_def split: if_splits prod.splits)

lemma task_arrival [frame_ops]:
  "task_arrival cfg c m s = Some t \<Longrightarrow> kept t = kept s"
  by (auto simp: task_arrival_def init_arrived_job_def bind_Some_iff Let_def
      split: if_splits option.splits prod.splits bool.splits
      dest!: create_job generate_acet frame_ops)

lemma arrivals [frame_ops]:
  "handle_job_arrivals cfg c s = Some t \<Longrightarrow> kept t = kept s"
  by (auto simp: handle_job_arrivals_def bind_Some_iff dest!: frame_ops
      dest!: foldM [where f = "task_arrival cfg c"])

lemma update_delegations [frame_ops]:
  "update_delegations c s = Some t \<Longrightarrow> kept t = kept s"
proof (erule update_delegations.raw_induct [rotated, where P = "\<lambda>_ s t. kept t = kept s"])
  fix f :: "nat \<Rightarrow> sys \<Rightarrow> sys option" and c s t
  assume IH: "\<And>c s t. f c s = Some t \<Longrightarrow> kept t = kept s"
    and e: "Option.bind (ring_buffer_try_dequeue (Some undef_ack) (delegation_ack_queue (cstate s c)))
      (\<lambda>(r, ack, q). if r = 0
         then f c (apply_ack c (the ack) (upd_core c (delegation_ack_queue_update (\<lambda>_. q)) s))
         else Some s) = Some t"
  from e show "kept t = kept s" by (auto simp: bind_Some_iff split: if_splits dest!: IH)
qed

lemma send_request [frame_ops]:
  "send_request d r s = Some t \<Longrightarrow> kept t = kept s"
  by (auto simp: send_request_def bind_Some_iff)

lemma offload [frame_ops]:
  "try_offload_job cfg c p s = Some t \<Longrightarrow> kept t = kept s"
  by (auto simp: try_offload_job_def get_job_ref_def Let_def split: if_splits dest!: frame_ops)

lemma offload_queue [frame_ops]:
  "try_offload_jobs_from_queue cfg q c s = Some t \<Longrightarrow> kept t = kept s"
  by (auto simp: try_offload_jobs_from_queue_def dest!: foldM [where f = "try_offload_job cfg c"]
      dest: frame_ops)

lemma rq_shedding [frame_ops]:
  "attempt_rq_load_shedding cfg c s = Some t \<Longrightarrow> kept t = kept s"
  by (auto simp: attempt_rq_load_shedding_def bind_Some_iff dest!: frame_ops)

lemma offer_future [frame_ops]:
  "offer_future_job cfg c m task a s = Some t \<Longrightarrow> kept t = kept s"
  by (auto simp: offer_future_job_def init_future_job_def add_delegation_sorted_def bind_Some_iff Let_def
      split: if_splits option.splits prod.splits
      dest!: create_job generate_acet create_delegation frame_ops)

lemma shed_future [frame_ops]:
  "shed_future_step cfg c m s = Some t \<Longrightarrow> kept t = kept s"
  by (auto simp: shed_future_step_def Let_def split: if_splits option.splits dest!: frame_ops)

lemma util [frame_ops]:
  "get_util c s = Some (u, t) \<Longrightarrow> kept t = kept s"
  by (auto simp: get_util_def bind_Some_iff Let_def split: option.splits dest!: queue_ops(1))

lemma push [frame_ops]:
  "attempt_migration_push cfg c s = Some t \<Longrightarrow> kept t = kept s"
  by (auto simp: attempt_migration_push_def attempt_future_load_shedding_def bind_Some_iff Let_def
      split: if_splits dest!: frame_ops dest!: foldM [where f = "shed_future_step cfg c"])

lemma accept_future [frame_ops]:
  "accept_future c f p s = Some t \<Longrightarrow> kept t = kept s"
  by (auto simp: accept_future_def bind_Some_iff Let_def dest!: frame_ops)

lemma process_request [frame_ops]:
  "process_request cfg c r s = Some t \<Longrightarrow> kept t = kept s"
  by (auto simp: process_request_def bind_Some_iff Let_def split: if_splits dest!: frame_ops)

lemma process_requests [frame_ops]:
  "process_migration_requests cfg c s = Some t \<Longrightarrow> kept t = kept s"
proof (erule process_migration_requests.raw_induct [rotated, where P = "\<lambda>_ _ s t. kept t = kept s"])
  fix f :: "config \<Rightarrow> nat \<Rightarrow> sys \<Rightarrow> sys option" and cfg c s t
  assume IH: "\<And>cfg c s t. f cfg c s = Some t \<Longrightarrow> kept t = kept s"
    and e: "do {
     (r, req, q) \<leftarrow> ring_buffer_try_dequeue (Some undef_request) (migration_request_queue (cstate s c));
     if r = 0
     then do {
       s \<leftarrow> process_request cfg c (the req) (upd_core c (migration_request_queue_update (\<lambda>_. q)) s);
       f cfg c s }
     else Some s } = Some t"
  from e show "kept t = kept s"
    by (auto simp: bind_Some_iff split: if_splits dest!: frame_ops IH)
qed

end

end
