(* ===== verification/Timing.thy ===== *)
theory Timing
  imports Frames
begin

text \<open>
  What the slack analysis depends on besides the queues: the table of tasks, the clock, the identity
  and the cached horizon of each core, the times of every job, the arrival ticks of the delegations, and
  the two mailboxes of each core. Most handlers of a tick leave all of it alone, so the conditions
  under which the analysis returns have to be checked once per tick.
\<close>

section \<open>The projection\<close>

definition core_statics :: "core_state \<Rightarrow> u32 \<times> nat \<times> nat" where
  "core_statics cs = (cached_slack_horizon cs, proc_id cs, core_id cs)"

definition mailboxes :: "core_state \<Rightarrow> migration_request ring_buffer \<times> delegation_ack ring_buffer" where
  "mailboxes cs = (migration_request_queue cs, delegation_ack_queue cs)"

definition calendar :: "sys \<Rightarrow> (nat \<Rightarrow> task_struct option) \<times> u32 \<times> (nat \<Rightarrow> u32 \<times> nat \<times> nat)
    \<times> (jptr \<Rightarrow> task_struct option \<times> u32 \<times> u32 list) \<times> (djptr \<Rightarrow> u32)" where
  "calendar s = (task_lookup s, now s, core_statics \<circ> core_states s, job_times \<circ> jobs s,
     dj_arrival_tick \<circ> delegated_jobs_pool s)"

definition timing where "timing s = (calendar s, mailboxes \<circ> core_states s)"

interpretation clocked: frame timing
  by unfold_locales (auto simp: timing_def calendar_def core_statics_def mailboxes_def fun_eq_iff)

lemma timing_levels [simp]:
  "timing (upd_core c (local_criticality_level_update f) s) = timing s"
  "timing (upd_core c (current_dvfs_level_update g) s) = timing s"
  by (auto simp: timing_def calendar_def core_statics_def mailboxes_def fun_eq_iff)

section \<open>The handlers that change levels\<close>

lemma timing_mode_change [frame_ops]:
  "handle_mode_change c l s = Some t \<Longrightarrow> timing t = timing s"
  by (drule clocked.mode_change) simp

lemma timing_running [frame_ops]:
  "handle_running_job cfg c s = Some t \<Longrightarrow> timing t = timing s"
  by (auto simp: handle_running_job_def ipc_broadcast_criticality_change_def sendto_def bind_Some_iff Let_def
      split: option.splits if_splits dest!: frame_ops)

section \<open>The calendar of a state\<close>

text \<open>
  \<open>timed cfg P s\<close>: every period and every tuned deadline is at most \<open>P\<close>, every allocated task is
  known, and no job or delegation is for an arrival more than \<open>P\<close> ticks ahead.
\<close>

definition tables_ok :: "config \<Rightarrow> nat \<Rightarrow> bool" where
  "tables_ok cfg P \<longleftrightarrow> (\<forall>m\<in>set (allocation_map cfg). \<forall>l<MAX_CRITICALITY_LEVELS cfg.
     unat (m_tuned_deadlines m ! l) \<le> P)"

definition timed_job :: "config \<Rightarrow> nat \<Rightarrow> nat \<Rightarrow> task_struct option \<times> u32 \<times> u32 list \<Rightarrow> bool" where
  "timed_job cfg P n = (\<lambda>(task, a, ds). task \<noteq> None \<longrightarrow>
     unat (t_period (the task)) \<le> P \<and> unat a \<le> n + P
     \<and> (\<forall>l<MAX_CRITICALITY_LEVELS cfg. unat (ds ! l) \<le> P))"

definition timed :: "config \<Rightarrow> nat \<Rightarrow> sys \<Rightarrow> bool" where
  "timed cfg P s \<longleftrightarrow> tables_ok cfg P \<and> unat (now s) + 3 * P + 5000 < 2 ^ 32
     \<and> (\<forall>i task. task_lookup s i = Some task \<longrightarrow> t_period task \<noteq> 0 \<and> unat (t_period task) \<le> P)
     \<and> (\<forall>m\<in>set (allocation_map cfg). find_task_by_id cfg (m_task_id m) s \<noteq> None)
     \<and> (\<forall>d. unat (cached_slack_horizon (cstate s d)) \<le> 5000)
     \<and> (\<forall>p. timed_job cfg P (unat (now s)) (job_times (jobs s p)))
     \<and> (\<forall>d. unat (dj_arrival_tick (delegated_jobs_pool s d)) \<le> unat (now s) + P)"

lemma timed_calendar:
  assumes "calendar t = calendar s"
  shows "timed cfg P t \<longleftrightarrow> timed cfg P s"
  using assms unfolding timed_def calendar_def
  by (simp add: fun_eq_iff core_statics_def find_task_by_id_def)

lemma timed_cong: "timing t = timing s \<Longrightarrow> timed cfg P t \<longleftrightarrow> timed cfg P s"
  by (intro timed_calendar) (simp add: timing_def)

lemma timing_mail:
  assumes "timing t = timing s"
  shows "migration_request_queue (cstate t d) = migration_request_queue (cstate s d)"
    and "delegation_ack_queue (cstate t d) = delegation_ack_queue (cstate s d)"
    and "now t = now s" and "calendar t = calendar s" and "task_lookup t = task_lookup s"
  using assms by (simp_all add: timing_def calendar_def mailboxes_def fun_eq_iff)

lemma calendar_mail [simp]:
  "calendar (upd_core c (delegation_ack_queue_update f) s) = calendar s"
  "calendar (upd_core c (migration_request_queue_update g) s) = calendar s"
  by (auto simp: calendar_def core_statics_def fun_eq_iff)

text \<open>Changing the times of some jobs and delegations within the bounds keeps the calendar sound.\<close>

lemma timed_step:
  assumes T: "timed cfg P s" and "task_lookup t = task_lookup s" and n: "now t = now s"
    and "\<And>d. core_statics (cstate t d) = core_statics (cstate s d)"
    and j: "\<And>p. job_times (jobs t p) = job_times (jobs s p)
      \<or> timed_job cfg P (unat (now s)) (job_times (jobs t p))"
    and d: "\<And>d. dj_arrival_tick (delegated_jobs_pool t d) = dj_arrival_tick (delegated_jobs_pool s d)
      \<or> unat (dj_arrival_tick (delegated_jobs_pool t d)) \<le> unat (now s) + P"
  shows "timed cfg P t"
proof -
  have "timed_job cfg P (unat (now s)) (job_times (jobs t p))" for p
    using T j [of p] by (auto simp: timed_def)
  moreover have "unat (dj_arrival_tick (delegated_jobs_pool t x)) \<le> unat (now s) + P" for x
    using T d [of x] by (auto simp: timed_def)
  moreover have "find_task_by_id cfg k t = find_task_by_id cfg k s" for k
    using assms(2) by (simp add: find_task_by_id_def)
  ultimately show ?thesis
    using T assms(2,4) n unfolding timed_def by (simp add: core_statics_def)
qed

lemma timedD:
  assumes "timed cfg P s"
  shows "task_lookup s i = Some task \<Longrightarrow> t_period task \<noteq> 0 \<and> unat (t_period task) \<le> P"
    and "find_task_by_id cfg k s = Some task \<Longrightarrow> t_period task \<noteq> 0 \<and> unat (t_period task) \<le> P"
    and "m \<in> set (allocation_map cfg) \<Longrightarrow> \<exists>task. find_task_by_id cfg (m_task_id m) s = Some task"
    and "m \<in> set (allocation_map cfg) \<Longrightarrow> l < MAX_CRITICALITY_LEVELS cfg
      \<Longrightarrow> unat (m_tuned_deadlines m ! l) \<le> P"
    and "parent_task (jobs s p) \<noteq> None \<Longrightarrow> unat (t_period (ptask (jobs s p))) \<le> P"
    and "parent_task (jobs s p) \<noteq> None \<Longrightarrow> unat (arrival_time (jobs s p)) \<le> unat (now s) + P"
    and "parent_task (jobs s p) \<noteq> None \<Longrightarrow> l < MAX_CRITICALITY_LEVELS cfg
      \<Longrightarrow> unat (relative_tuned_deadlines (jobs s p) ! l) \<le> P"
    and "unat (dj_arrival_tick (delegated_jobs_pool s d)) \<le> unat (now s) + P"
    and "unat (cached_slack_horizon (cstate s c)) \<le> 5000"
    and "unat (now s) + 3 * P + 5000 < 2 ^ 32"
proof -
  have j: "timed_job cfg P (unat (now s)) (job_times (jobs s p))" for p
    using assms by (simp add: timed_def)
  then show "parent_task (jobs s p) \<noteq> None \<Longrightarrow> unat (t_period (ptask (jobs s p))) \<le> P"
    and "parent_task (jobs s p) \<noteq> None \<Longrightarrow> unat (arrival_time (jobs s p)) \<le> unat (now s) + P"
    and "parent_task (jobs s p) \<noteq> None \<Longrightarrow> l < MAX_CRITICALITY_LEVELS cfg
      \<Longrightarrow> unat (relative_tuned_deadlines (jobs s p) ! l) \<le> P"
    by (simp_all add: timed_job_def job_times_def)
qed (use assms in \<open>auto simp: timed_def tables_ok_def find_task_by_id_def split: if_splits\<close>)

section \<open>New jobs\<close>

text \<open>\<open>given_times cfg m a p s t\<close>: \<open>t\<close> differs from \<open>s\<close>, as far as times go, in those of the new job \<open>p\<close>.\<close>

definition given_times :: "config \<Rightarrow> task_alloc_map \<Rightarrow> u32 \<Rightarrow> jptr \<Rightarrow> sys \<Rightarrow> sys \<Rightarrow> bool" where
  "given_times cfg m a p s t \<longleftrightarrow> task_lookup t = task_lookup s \<and> proc_state t = proc_state s
     \<and> core_states t = core_states s \<and> delegated_jobs_pool t = delegated_jobs_pool s
     \<and> (\<forall>x. x \<noteq> p \<longrightarrow> job_times (jobs t x) = job_times (jobs s x))
     \<and> job_times (jobs t p) = (parent_task (jobs s p), a,
          map (\<lambda>l. m_tuned_deadlines m ! l) [0..<MAX_CRITICALITY_LEVELS cfg])"

lemma init_future_times:
  assumes "init_future_job cfg c m a p s = Some t"
  shows "given_times cfg m a p s t"
  using assms by (auto simp: init_future_job_def given_times_def job_times_def copy_deadlines_def Let_def
      bind_Some_iff dest!: generate_acet_frame)

lemma init_arrived_times:
  assumes "init_arrived_job cfg c m p s = Some t"
  shows "given_times cfg m (now s) p s t"
  using assms by (auto simp: init_arrived_job_def given_times_def job_times_def copy_deadlines_def Let_def
      bind_Some_iff dest!: generate_acet_frame)

lemma timing_no_job:
  assumes "create_job task c s = (None, t)"
  shows "timing t = timing s"
  using create_job_sys_fields [OF assms] by (simp add: timing_def calendar_def)

lemma new_job_timed:
  assumes e: "create_job task c s = (Some p, u)" and g: "given_times cfg m a p u t"
    and T: "timed cfg P s" and k: "unat (t_period task) \<le> P" and m: "m \<in> set (allocation_map cfg)"
    and a: "unat a \<le> unat (now s) + P"
  shows "timed cfg P t" and "core_states t = core_states s" and "proc_state t = proc_state s"
proof -
  note E = create_job_sys_fields [OF e]
  have j: "jobs u = (jobs s)(p := new_job_fields task c (jobs s p))" using E(13) by simp
  have p: "timed_job cfg P (unat (now s)) (job_times (jobs t p))"
    using g k a timedD(4) [OF T m] by (simp add: given_times_def timed_job_def j new_job_fields_def)
  show "timed cfg P t"
  proof (rule timed_step [OF T])
    fix x show "job_times (jobs t x) = job_times (jobs s x)
        \<or> timed_job cfg P (unat (now s)) (job_times (jobs t x))"
      using p g by (cases "x = p") (simp_all add: given_times_def j)
  qed (use g E in \<open>simp_all add: given_times_def\<close>)
qed (use g create_job_sys_fields [OF e] in \<open>simp_all add: given_times_def\<close>)

text \<open>Arrivals keep the calendar sound and the mailboxes as they are.\<close>

lemma task_arrival_timed:
  assumes e: "task_arrival cfg c m s = Some t" and T: "timed cfg P s" and m: "m \<in> set (allocation_map cfg)"
  shows "timed cfg P t" and "mailboxes (cstate t d) = mailboxes (cstate s d)"
proof -
  have same: "timed cfg P u \<and> mailboxes (cstate u d) = mailboxes (cstate s d)"
    if "timing u = timing s" for u
    using timed_cong [OF that] T timing_mail(1,2) [OF that] by (simp add: mailboxes_def)
  have "timed cfg P t \<and> mailboxes (cstate t d) = mailboxes (cstate s d)"
  proof (cases "\<exists>task. arrives cfg c m s task")
    case False
    then have "timing t = timing s" using e
      by (auto simp: task_arrival_def arrives_def dest: clocked.check_delegated
          split: option.splits if_splits prod.splits bool.splits del: mod_0_imp_dvd)
    then show ?thesis by (rule same)
  next
    case True
    then obtain task where A: "arrives cfg c m s task" by blast
    obtain u where u: "check_delegated c (t_id task) (delegated_job_queue (cstate s c)) s = (False, u)"
      using A by (auto simp: arrives_def) (metis prod.collapse)
    have tu: "timing u = timing s" by (rule clocked.check_delegated [OF u])
    obtain r v where v: "create_job task c u = (r, v)" by (cases "create_job task c u")
    have f: "task_arrival cfg c m s = (case r of None \<Rightarrow> Some v
        | Some p \<Rightarrow> Option.bind (init_arrived_job cfg c m p v) (enqueue_arrival c p))"
      using A u v by (auto simp: task_arrival_def arrives_def split: option.splits)
    show ?thesis
    proof (cases r)
      case None
      then have "timing t = timing s" using f e v timing_no_job [of task c u v] tu by simp
      then show ?thesis by (rule same)
    next
      case (Some p)
      then obtain w where w: "init_arrived_job cfg c m p v = Some w" "enqueue_arrival c p w = Some t"
        using f e by (cases "init_arrived_job cfg c m p v") auto
      have "unat (t_period task) \<le> P" using A timedD(2) [OF T] by (auto simp: arrives_def)
      moreover have "now v = now u" using create_job_sys_fields(2) [OF v] by simp
      ultimately have "timed cfg P w \<and> core_states w = core_states u"
        using new_job_timed [OF v [unfolded Some] init_arrived_times [OF w(1)] _ _ m, of P]
          timed_cong [OF tu] T by simp
      moreover note k = clocked.enqueue_arrival [OF w(2)]
      ultimately show ?thesis using timed_cong [OF k] timing_mail(1,2) [OF k, of d] same [OF tu]
        by (simp add: mailboxes_def)
    qed
  qed
  then show "timed cfg P t" and "mailboxes (cstate t d) = mailboxes (cstate s d)" by simp_all
qed

lemma arrivals_timed:
  assumes e: "handle_job_arrivals cfg c s = Some t" and T: "timed cfg P s"
  shows "timed cfg P t" and "mailboxes (cstate t d) = mailboxes (cstate s d)"
proof -
  obtain u where u: "pending_arrivals c (queues s (PendingQ c)) s = Some u"
    and f: "foldM (task_arrival cfg c) (allocation_map cfg) u = Some t"
    using e by (auto simp: handle_job_arrivals_def bind_Some_iff)
  note tu = clocked.pending_arrivals [OF u]
  have "timed cfg P t \<and> mailboxes (cstate t d) = mailboxes (cstate u d)"
  proof -
    have "wlp (foldM (task_arrival cfg c) (allocation_map cfg) u)
        (\<lambda>t. timed cfg P t \<and> mailboxes (cstate t d) = mailboxes (cstate u d))"
      by (rule partial.loop_inv)
        (use T timed_cong [OF tu] in \<open>auto simp: wlp_iff task_arrival_timed\<close>)
    then show ?thesis using f by (simp add: wlp_iff)
  qed
  then show "timed cfg P t" and "mailboxes (cstate t d) = mailboxes (cstate s d)"
    using timing_mail(1,2) [OF tu] by (simp_all add: mailboxes_def)
qed

section \<open>The analysis returns\<close>

lemma queue_horizon_le:
  assumes "\<And>p. p \<in> set ps \<Longrightarrow> unat (t_period (ptask (jobs s p))) \<le> K" and "unat h \<le> K" and "5000 \<le> K"
  shows "unat (calculate_queue_horizon s ps h) \<le> K"
  using assms(1,2)
proof (induction ps arbitrary: h)
  case (Cons p ps)
  have "unat (safe_lcm h (t_period (ptask (jobs s p))) SLACK_CALC_HORIZON_TICKS_CAP) \<le> K"
    using assms(3) by (auto simp: safe_lcm_correct SLACK_CALC_HORIZON_TICKS_CAP_def)
  then show ?case using Cons assms(3)
    by (simp add: Let_def SLACK_CALC_HORIZON_TICKS_CAP_def)
qed simp

lemma horizon_le:
  assumes T: "timed cfg P s" and L: "\<And>p. p \<in> analysed_jobs c x s \<Longrightarrow> parent_task (jobs s p) \<noteq> None"
  shows "unat (calculate_horizon c s) \<le> 5000 + P"
proof -
  let ?r = "case running_job (cstate s c) of None \<Rightarrow> cached_slack_horizon (cstate s c)
    | Some p \<Rightarrow> safe_lcm (cached_slack_horizon (cstate s c)) (t_period (ptask (jobs s p)))
        SLACK_CALC_HORIZON_TICKS_CAP"
  have q: "unat (t_period (ptask (jobs s p))) \<le> 5000 + P"
    if "p \<in> set (queues s (ReadyQ c)) \<union> set (queues s (ReplicaQ c)) \<union> set (queues s (PendingQ c))" for p
    using timedD(5) [OF T L [of p]] that by (auto simp: analysed_jobs_def)
  have "unat ?r \<le> 5000 + P" using timedD(9) [OF T, of c]
    by (auto simp: safe_lcm_correct SLACK_CALC_HORIZON_TICKS_CAP_def split: option.split)
  then show ?thesis unfolding calculate_horizon_def Let_def
    by (intro queue_horizon_le) (use q in auto)
qed

text \<open>The conditions of the analysis hold for every core, with any known job as the extra one.\<close>

lemma timed_calm:
  assumes T: "timed cfg P s" and L: "\<And>p. p \<in> analysed_jobs c x s \<Longrightarrow> parent_task (jobs s p) \<noteq> None"
    and a: "unat a \<le> unat (now s) + P"
  shows "calm cfg c a x s (unat (now s) + 2 * P + 5000)"
proof -
  note D = timedD [OF T]
  let ?t = "if now s < a then a else now s"
  have t: "unat ?t \<le> unat (now s) + P" using a by simp
  have "calendar_ok cfg c s l ?t (unat (now s) + 2 * P + 5000)"
    if l: "l < MAX_CRITICALITY_LEVELS cfg" for l
    unfolding calendar_ok_def
  proof (intro conjI ballI impI)
    show "unat ?t + unat (calculate_horizon c s) \<le> unat (now s) + 2 * P + 5000"
      using t horizon_le [OF T L, of c x] by simp
    show "unat (now s) + 2 * P + 5000 < 2 ^ 32" using D(10) by linarith
    fix m assume m: "m \<in> set (allocation_map cfg)"
    obtain task where task: "find_task_by_id cfg (m_task_id m) s = Some task" using D(3) [OF m] by blast
    show "\<exists>task. find_task_by_id cfg (m_task_id m) s = Some task
        \<and> (t_crit_level task < l \<or> t_period task \<noteq> 0
           \<and> unat (now s) + 2 * P + 5000 + unat (t_period task) < 2 ^ 32
           \<and> unat ?t + unat (t_period task) + unat (m_tuned_deadlines m ! l) < 2 ^ 32)"
      using task D(2) [OF task] D(4) [OF m l] D(10) t by (intro exI [of _ task]) linarith
  qed
  moreover have "jobs_due_by l (analysed_jobs c x s) s (unat (now s) + 2 * P + 5000)"
    if l: "l < MAX_CRITICALITY_LEVELS cfg" for l
    unfolding jobs_due_by_def
  proof
    fix p assume p: "p \<in> analysed_jobs c x s"
    have "unat (get_job_deadline (jobs s p) l)
        \<le> unat (arrival_time (jobs s p)) + unat (relative_tuned_deadlines (jobs s p) ! l)"
      unfolding get_job_deadline_def unat_word_ariths by (rule mod_less_eq_dividend)
    then show "unat (get_job_deadline (jobs s p) l) \<le> unat (now s) + 2 * P + 5000"
      using D(6) [OF L [OF p]] D(7) [OF L [OF p] l] by linarith
  qed
  ultimately show ?thesis by (simp add: calm_def)
qed

text \<open>In a well-formed state the jobs of a core are live.\<close>

lemma counted_parent:
  assumes "sys_inv N B H s" and "0 < refs N s p + count H p"
  shows "parent_task (jobs s p) \<noteq> None"
  using counted_live [OF sys_invD(2) [OF assms(1)] assms(2)] by (simp add: live_job_def)

lemma running_refs:
  assumes "c < N" and "running_job (cstate s c) = Some p"
  shows "0 < refs N s p"
proof -
  have "0 < core_refs (cstate s c) p" using assms(2) by (simp add: core_refs_def)
  also have "core_refs (cstate s c) p \<le> (\<Sum>c<N. core_refs (cstate s c) p)"
    using assms(1) by (intro member_le_sum) auto
  finally show ?thesis by (simp add: refs_def)
qed

lemma analysed_live:
  assumes I: "sys_inv N B H s" and c: "c < N" and p: "p \<in> analysed_jobs c x s"
    and x: "\<And>q. x = Some q \<Longrightarrow> parent_task (jobs s q) \<noteq> None"
  shows "parent_task (jobs s p) \<noteq> None"
proof -
  consider "x = Some p" | "running_job (cstate s c) = Some p" | q where "p \<in> set (queues s q)"
    using p by (auto simp: analysed_jobs_def opt_list_def split: option.splits)
  then show ?thesis
  proof cases
    case 2
    then show ?thesis using running_refs [OF c] by (intro counted_parent [OF I]) simp
  next
    case 3
    then show ?thesis using queues_entry [OF I] linked_live(2) [OF I] by blast
  qed (use x in simp)
qed

end
