(* ===== verification/ExecTime.thy ===== *)
theory ExecTime
  imports ArrivalInv
begin

text \<open>
  The simulated execution time of a job. Whatever \<^verbatim>\<open>rand\<close> returns, the conversion to \<^verbatim>\<open>uint8_t\<close> in
  \<^verbatim>\<open>generate_acet\<close> is in range, the level it picks exists, and the time stays within the budget of that
  level.
\<close>

section \<open>Assumptions on the C library\<close>

definition rand_ok :: "config \<Rightarrow> bool" where
  "rand_ok cfg \<longleftrightarrow> 0 < RAND_MAX cfg \<and> RAND_MAX cfg < 2 ^ 31
     \<and> (\<forall>i. 0 \<le> rand_value cfg i \<and> rand_value cfg i \<le> RAND_MAX cfg)"

text \<open>\<^verbatim>\<open>powf\<close> maps the unit interval into itself at exponent 2.\<close>

definition powf_unit :: "config \<Rightarrow> bool" where
  "powf_unit cfg \<longleftrightarrow> (\<forall>k. 0 \<le> k \<and> k \<le> one_units \<longrightarrow>
     (\<exists>m. powf cfg (Fin k) (lit 2 1) = Fin m \<and> 0 \<le> m \<and> m \<le> one_units))"

section \<open>Ranges\<close>

lemma f_between:
  assumes "f_le (Fin a) x" and "f_le x (Fin b)"
  shows "\<exists>k. x = Fin k \<and> a \<le> k \<and> k \<le> b"
  using assms by (cases x) simp_all

lemma draw_unit:
  assumes "rand_ok cfg"
  shows "\<exists>k. fst (draw cfg (lit 0 1) (lit 1 1) s) = Fin k \<and> 0 \<le> k \<and> k \<le> one_units"
proof -
  have v: "lit 0 1 = Fin 0" "f_sub (lit 1 1) (lit 0 1) = Fin one_units"
    "f_add (lit 0 1) (Fin one_units) = Fin one_units" by code_simp+
  have r: "0 \<le> rand_value cfg i" "rand_value cfg i \<le> RAND_MAX cfg" "0 < RAND_MAX cfg"
    "RAND_MAX cfg \<le> 2 ^ 32" for i using assms by (auto simp: rand_ok_def)
  show ?thesis
    using rand_between_range [OF r(1-4) v(1,2)] one_units_range max_units_def v(1,3)
    by (auto simp: draw_def intro!: f_between)
qed

lemma draw_fraction:
  assumes "rand_ok cfg"
  shows "\<exists>k. fst (draw cfg (lit 1 10) (lit 1 1) s) = Fin k \<and> 0 \<le> k \<and> k \<le> one_units"
proof -
  have v: "lit 1 10 = Fin (13421773 * 2 ^ 122)" "f_sub (lit 1 1) (lit 1 10) = Fin (15099494 * 2 ^ 125)"
    "f_add (lit 1 10) (Fin (15099494 * 2 ^ 125)) = Fin one_units" by code_simp+
  have r: "0 \<le> rand_value cfg i" "rand_value cfg i \<le> RAND_MAX cfg" "0 < RAND_MAX cfg"
    "RAND_MAX cfg \<le> 2 ^ 32" for i using assms by (auto simp: rand_ok_def)
  have m: "(13421773 * 2 ^ 122 :: int) \<le> max_units" "(15099494 * 2 ^ 125 :: int) \<le> max_units"
    by (simp_all add: max_units_def)
  have "f_le (Fin 0) x" if "f_le (lit 1 10) x" for x using that by (cases x) (simp_all add: v(1))
  then show ?thesis
    using rand_between_range [OF r(1-4) v(1,2)] m v(3) repr32_small [of 13421773 122]
      repr32_small [of 15099494 125]
    by (auto simp: draw_def intro!: f_between)
qed

text \<open>A product with a factor between 0 and 1 is between 0 and the other factor.\<close>

lemma f_mul_unit:
  assumes "0 \<le> k" and "k \<le> one_units" and "0 \<le> b" and "b \<le> max_units" and "repr32 b"
  shows "\<exists>m. f_mul (Fin k) (Fin b) = Fin m \<and> 0 \<le> m \<and> m \<le> b"
    and "\<exists>m. f_mul (Fin b) (Fin k) = Fin m \<and> 0 \<le> m \<and> m \<le> b"
proof -
  have "0 \<le> max_units" by (rule one_units_range(3))
  moreover have "k * b \<le> b * one_units" using mult_right_mono [OF assms(2,3)] by (simp add: mult.commute)
  ultimately have "\<exists>m. mk_f32 (k * b) one_units = Fin m \<and> 0 \<le> m \<and> m \<le> b"
    using assms by (intro mk_f32_between) simp_all
  then show "\<exists>m. f_mul (Fin k) (Fin b) = Fin m \<and> 0 \<le> m \<and> m \<le> b"
    and "\<exists>m. f_mul (Fin b) (Fin k) = Fin m \<and> 0 \<le> m \<and> m \<le> b" by (simp_all add: mult.commute)
qed

lemma f_to_uint_below:
  assumes "0 \<le> k" and "k \<le> int n * one_units" and "n < 2 ^ w"
  shows "\<exists>m. f_to_uint w (Fin k) = Some (int m) \<and> m \<le> n"
proof -
  have "0 \<le> k div one_units" using assms(1) by (simp add: pos_imp_zdiv_nonneg_iff)
  moreover have "k div one_units \<le> int n"
    using zdiv_mono1 [OF assms(2) one_units_pos] by (simp add: less_imp_neq [symmetric])
  moreover from calculation(2) have "k div one_units < 2 ^ w"
  proof (rule order.strict_trans1)
    show "int n < 2 ^ w" using assms(3) by (metis of_nat_less_iff of_nat_numeral of_nat_power)
  qed
  ultimately show ?thesis using assms(1)
    by (auto simp: f_to_uint_def intro!: exI [of _ "nat (k div one_units)"])
qed

lemma of_u32_finite: "\<exists>b. of_u32 w = Fin b \<and> 0 \<le> b \<and> b \<le> max_units \<and> repr32 b"
proof -
  have "of_u32 w = Fin (round32 (uint w * one_units) 1) \<and> 0 \<le> round32 (uint w * one_units) 1"
    unfolding of_u32_def using u31_finite [of "uint w"] uint_lt2p [of w] by simp
  moreover have "repr32 (round32 (uint w * one_units) 1)" by (rule repr32_round32) simp
  moreover have "round32 (uint w * one_units) 1 \<le> max_units"
    using calculation(1) by (auto simp: of_u32_def f_of_int_def mk_f32_def Let_def split: if_splits)
  ultimately show ?thesis by blast
qed

lemma generate_acet_form:
  assumes R: "rand_ok cfg" and P: "powf_unit cfg"
    and L: "0 < MAX_CRITICALITY_LEVELS cfg" "MAX_CRITICALITY_LEVELS cfg \<le> 256"
  shows "\<exists>a m. generate_acet cfg p s = Some (a, s\<lparr>rand_count := rand_count s + 2\<rparr>)
           \<and> m \<le> MAX_CRITICALITY_LEVELS cfg - 1 \<and> f_le (Fin 0) a
           \<and> f_le a (of_u32 (t_wcet (ptask (jobs s p)) ! max m (system_criticality_level (proc_state s))))"
proof -
  let ?n = "MAX_CRITICALITY_LEVELS cfg - 1"
  obtain x where x: "fst (draw cfg (lit 0 1) (lit 1 1) s) = Fin x" "0 \<le> x" "x \<le> one_units"
    using draw_unit [OF R] by blast
  obtain y where y: "powf cfg (Fin x) (lit 2 1) = Fin y" "0 \<le> y" "y \<le> one_units"
    using P x by (auto simp: powf_unit_def)
  have n: "int ?n \<le> 255" using L by simp
  have r: "repr32 (int ?n * one_units)" using n by (intro repr32_int) simp
  moreover have b: "int ?n * one_units \<le> max_units" "0 \<le> int ?n * one_units"
    using mult_right_mono [OF n, of one_units] by (simp_all add: max_units_def one_units_def)
  ultimately have "f_of_int (int ?n) = Fin (int ?n * one_units)" by (simp add: f_of_int_def mk_f32_repr)
  then obtain k where k: "f_mul (f_of_int (int ?n)) (Fin y) = Fin k" "0 \<le> k" "k \<le> int ?n * one_units"
    using f_mul_unit(2) [OF y(2,3) b(2,1) r] by auto
  obtain m where m: "f_to_uint 8 (Fin k) = Some (int m)" "m \<le> ?n"
    using f_to_uint_below [OF k(2,3), of 8] n by fastforce
  define level where "level = (if m < system_criticality_level (proc_state s)
    then system_criticality_level (proc_state s) else m)"
  let ?s = "snd (draw cfg (lit 0 1) (lit 1 1) s)"
  obtain f where f: "fst (draw cfg (lit 1 10) (lit 1 1) ?s) = Fin f" "0 \<le> f" "f \<le> one_units"
    using draw_fraction [OF R] by blast
  obtain w where w: "of_u32 (t_wcet (ptask (jobs s p)) ! level) = Fin w" "0 \<le> w" "w \<le> max_units" "repr32 w"
    using of_u32_finite by blast
  obtain a where a: "f_mul (Fin f) (Fin w) = Fin a" "0 \<le> a" "a \<le> w"
    using f_mul_unit(1) [OF f(2,3) w(2,3,4)] by blast
  have "generate_acet cfg p s = Some (Fin a, s\<lparr>rand_count := rand_count s + 2\<rparr>)"
    using x(1) y(1) k(1) m(1) f(1) w(1) a(1)
    by (cases "m < system_criticality_level (proc_state s)")
      (simp_all add: generate_acet_def Let_def draw_def split_def level_def del: f_mul.simps)
  moreover have "level = max m (system_criticality_level (proc_state s))" by (simp add: level_def)
  ultimately show ?thesis using a w(1) m(2) by (auto intro!: exI [of _ m])
qed

lemma acet_returnsI:
  assumes "rand_ok cfg" and "powf_unit cfg"
    and "0 < MAX_CRITICALITY_LEVELS cfg" and "MAX_CRITICALITY_LEVELS cfg \<le> 256"
  shows "acet_returns cfg"
  using generate_acet_form [OF assms] unfolding acet_returns_def by blast

text \<open>C35: bounds. \<^verbatim>\<open>generate_acet\<close> always returns; it advances nothing but the random numbers, the
  level it picks lies between the criticality of the system and the highest level, and the time is
  between zero and the execution budget of the task at that level.\<close>

theorem generate_acet_bounds:
  assumes R: "rand_ok cfg" and P: "powf_unit cfg"
    and L: "0 < MAX_CRITICALITY_LEVELS cfg" "MAX_CRITICALITY_LEVELS cfg \<le> 256"
    and S: "system_criticality_level (proc_state s) < MAX_CRITICALITY_LEVELS cfg"
  shows "\<exists>a level. generate_acet cfg p s = Some (a, s\<lparr>rand_count := rand_count s + 2\<rparr>)
           \<and> system_criticality_level (proc_state s) \<le> level \<and> level < MAX_CRITICALITY_LEVELS cfg
           \<and> f_le (Fin 0) a \<and> f_le a (of_u32 (t_wcet (ptask (jobs s p)) ! level))"
proof -
  obtain a m where "generate_acet cfg p s = Some (a, s\<lparr>rand_count := rand_count s + 2\<rparr>)"
    and "m \<le> MAX_CRITICALITY_LEVELS cfg - 1" and "f_le (Fin 0) a"
    and "f_le a (of_u32 (t_wcet (ptask (jobs s p)) ! max m (system_criticality_level (proc_state s))))"
    using generate_acet_form [OF R P L] by blast
  then show ?thesis using L S
    by (intro exI [of _ a] exI [of _ "max m (system_criticality_level (proc_state s))"]) auto
qed

text \<open>Hence the assumption of the other theories, for a configuration with enough levels.\<close>

definition demo_powf :: "f32 \<Rightarrow> f32 \<Rightarrow> f32" where
  "demo_powf x y = f_mul x x"

lemma demo_powf_unit:
  assumes "powf cfg = demo_powf"
  shows "powf_unit cfg"
proof (unfold powf_unit_def, intro allI impI)
  fix k assume k: "0 \<le> k \<and> k \<le> one_units"
  have "k * k \<le> one_units * one_units" using k by (intro mult_mono) simp_all
  then have "\<exists>m. mk_f32 (k * k) one_units = Fin m \<and> 0 \<le> m \<and> m \<le> one_units"
    using k one_units_range by (intro mk_f32_between) simp_all
  then show "\<exists>m. powf cfg (Fin k) (lit 2 1) = Fin m \<and> 0 \<le> m \<and> m \<le> one_units"
    by (simp add: assms demo_powf_def)
qed

end
