(* ===== verification/Returns.thy ===== *)
theory Returns
  imports Timing ExecTime
begin

text \<open>
  The phases of a tick return: away from the end of the clock, with room in the mailboxes, no analysis
  traps, no loop spins and no lock is waited for. With the partial-correctness lemmas of the other
  theories this makes the tick totally correct.
\<close>

section \<open>Admission and reclaiming\<close>

lemma admission_returns:
  assumes T: "timed cfg P s" and I: "sys_inv N B H s" and c: "c < N"
    and p: "parent_task (jobs s p) \<noteq> None"
  shows "\<exists>ok. is_admissible_locked cfg c p m s = Some ok"
proof -
  have "calm cfg c (arrival_time (jobs s p)) (Some p) s (unat (now s) + 2 * P + 5000)"
    using analysed_live [OF I c, of _ "Some p"] p timedD(6) [OF T p]
    by (intro timed_calm [OF T]) auto
  then show ?thesis
    unfolding is_admissible_locked_def is_admissible_core_def by (rule is_admissible_returns)
qed

lemma slack_calm:
  assumes "timed cfg P s" and "sys_inv N B H s" and "c < N"
  shows "calm cfg c (now s) None s (unat (now s) + 2 * P + 5000)"
  using analysed_live [OF assms(2,3), of _ None] by (intro timed_calm [OF assms(1)]) auto

lemma reclaim_own_list_returns:
  assumes "locked_inv N B c s" and "timed cfg P s" and c: "c < N"
  shows "reclaim_own_list cfg c s \<noteq> None"
  using assms(1,2)
proof (induction "length (queues s (DiscardL c))" arbitrary: s)
  case 0
  then show ?case by (subst reclaim_own_list.simps) simp
next
  case (Suc n)
  then obtain p ps where q: "queues s (DiscardL c) = p # ps" and n: "length ps = n"
    by (metis length_Suc_conv)
  note D = locked_heldD [OF Suc.prems(1)]
  let ?u = "unlinked_state (DiscardL c) p s"
  note turn = reclaim_own_turn [OF Suc.prems(1) q]
  have link: "job_link (jobs s p) = LinkIn (DiscardL c)"
    using queues_entry [OF D(1), of p "DiscardL c"] q by simp
  have e: "state (jobs s p) = JOB_STATE_READY" "\<not> is_being_offered (jobs s p)"
    using linked_entry_ok [OF sys_invD(1) [OF D(1)] link] by simp_all
  have U: "locked_held N B {#p#} c ?u"
    by (rule locked_held_step [OF Suc.prems(1) sys_inv_del(1) [OF D(1) link]]) (use D(3) in simp_all)
  have tm: "timed cfg P ?u" using timed_cong [OF clocked.queue_ops(7) [OF turn(1)]] Suc.prems(2) by simp
  obtain ok where ok: "is_admissible_locked cfg c p (lit 0 1) ?u = Some ok"
    using admission_returns [OF tm locked_heldD(1) [OF U] c, of p] linked_live(2) [OF D(1) link]
    by auto
  have r: "reclaim_own cfg c p ?u = Some (if ok then taken_back c p ?u else given_up p ?u)"
    using e by (intro reclaim_own_eq [OF U _ _ ok]) (simp_all add: unlinked_def)
  then obtain t where t: "reclaim_own cfg c p ?u = Some t" by simp
  have "timed cfg P t" using timed_cong [OF clocked.reclaim_own [OF t]] tm by simp
  moreover have "locked_inv N B c t" "length (queues t (DiscardL c)) = n"
    using turn(2) [of cfg] t n by (simp_all add: wlp_iff)
  ultimately have "reclaim_own_list cfg c t \<noteq> None" by (intro Suc.hyps(1)) simp_all
  then show ?case using q turn(1) t by (subst reclaim_own_list.simps) simp
qed

lemma reclaim_shared_returns:
  assumes L: "both_held N B {#} c s" and T: "timed cfg P s" and c: "c < N"
  shows "foldM (reclaim_shared cfg c) (queues s ProcDiscardQ) s \<noteq> None"
proof -
  have "wp (foldM (reclaim_shared cfg c) (queues s ProcDiscardQ) s) (\<lambda>_. True)"
  proof (rule total.loop [where I = "\<lambda>ys t. shared_todo N B {#} c s ys t \<and> timed cfg P t"])
    show "shared_todo N B {#} c s (queues s ProcDiscardQ) s \<and> timed cfg P s"
      using shared_todo_start [OF L] T by simp
    fix p ys t assume A: "shared_todo N B {#} c s (p # ys) t \<and> timed cfg P t"
    then have I: "sys_inv N B {#} t" and l: "job_link (jobs t p) = LinkIn ProcDiscardQ"
      using both_heldD(1) by (auto simp: shared_todo_def)
    obtain ok where ok: "is_admissible_locked cfg c p MIGRATION_PENALTY_TICKS t = Some ok"
      using admission_returns [OF _ I c linked_live(2) [OF I l]] A by blast
    obtain u where u: "reclaim_shared cfg c p t = Some u" "shared_todo N B {#} c s ys u"
      using reclaim_shared_turn [OF conjunct1 [OF A] ok] by (auto simp: wp_iff)
    then show "wp (reclaim_shared cfg c p t) (\<lambda>u. shared_todo N B {#} c s ys u \<and> timed cfg P u)"
      using A timed_cong [OF clocked.reclaim_shared [OF u(1)]] by simp
  qed simp
  then show ?thesis by (auto simp: wp_iff)
qed

lemma reclaim_returns:
  assumes T: "tick_inv N B s" and tm: "timed cfg P s" and c: "c < N"
  shows "reclaim_discarded_jobs cfg c s \<noteq> None"
proof -
  note L = lock_rq [OF T c]
  let ?s = "upd_core c (rq_lock_update (\<lambda>_. True)) s"
  have "timed cfg P ?s" using timed_cong [OF clocked.queue_ops(1) [OF L(1)]] tm by simp
  from reclaim_own_list_returns [OF L(2) this c]
  obtain t where t: "reclaim_own_list cfg c ?s = Some t" by blast
  then have K: "locked_inv N B c t" using reclaim_own_list_ok [OF L(2), of cfg] by (simp add: wlp_iff)
  note G = lock_discard [OF K]
  have "timing (upd_proc (discard_queue_lock_update (\<lambda>_. True)) t) = timing s"
    using clocked.reclaim_own_list [OF t] clocked.queue_ops(1) [OF L(1)] by simp
  then have "timed cfg P (upd_proc (discard_queue_lock_update (\<lambda>_. True)) t)"
    using timed_cong tm by blast
  from reclaim_shared_returns [OF G(2) this c] show ?thesis
    using L(1) t G(1) by (auto simp: reclaim_discarded_jobs_def)
qed

section \<open>The end of a tick\<close>

lemma end_of_tick_returns:
  assumes T: "tick_inv N B s" and tm: "timed cfg P s" and c: "c < N"
  shows "end_of_tick cfg c s \<noteq> None"
proof -
  note ul = tick_invD(2) [OF T c]
  obtain u where u: "get_util c s = Some (u, s)" using get_util_same [OF ul] by blast
  obtain r where r: "find_slack cfg c (local_criticality_level (cstate s c)) (now s)
      (power_get_current_scaling_factor c s) None s = Some (r, s)"
    using find_slack_returns [OF slack_calm [OF tm tick_invD(1) [OF T] c] ul] by blast
  from u r obtain t where t: "update_core_summary cfg c s = Some t"
    by (simp add: update_core_summary_def)
  then have "\<not> rq_lock (cstate t c)" using update_core_summary_ok [OF T c, of cfg] c
    by (auto simp: wlp_iff tick_held_def)
  then obtain ms where "log_core_state c t = Some (ms, t)" using log_core_state_same by blast
  with t show ?thesis by (simp add: end_of_tick_def)
qed

section \<open>Sleep\<close>

text \<open>A conversion of a float to an unsigned integer is defined up to \<open>2 ^ 32 - 256\<close>.\<close>

lemma of_u32_range:
  assumes "unat w \<le> 2 ^ 32 - 256"
  shows "\<exists>k. of_u32 w = Fin k \<and> 0 \<le> k \<and> k \<le> (2 ^ 32 - 256) * one_units"
proof -
  have "int (unat w) \<le> int (2 ^ 32 - 256)" using assms by (simp only: of_nat_le_iff)
  then have "uint w \<le> int (2 ^ 32 - 256)" by (simp only: uint_nat)
  then have "f_le (of_u32 w) (f_of_int (int (2 ^ 32 - 256)))" unfolding of_u32_def by (rule f_of_int_mono)
  moreover have "f_of_int (int (2 ^ 32 - 256)) = Fin ((2 ^ 32 - 256) * one_units)"
  proof -
    have e: "(2 ^ 32 - 256) * one_units = (2 ^ 24 - 1) * 2 ^ 157"
      unfolding one_units_def by simp
    have "repr32 ((2 ^ 32 - 256) * one_units)" unfolding e by (rule repr32_small) simp
    moreover have "\<bar>(2 ^ 32 - 256) * one_units\<bar> \<le> max_units" unfolding e max_units_def
      by (simp add: abs_mult)
    ultimately show ?thesis unfolding f_of_int_def using mk_f32_repr by simp
  qed
  moreover obtain k where "of_u32 w = Fin k" "0 \<le> k" using of_u32_finite [of w] by blast
  ultimately show ?thesis by simp
qed

lemma floor_converts:
  assumes "0 \<le> k" and "k \<le> (2 ^ 32 - 256) * one_units"
  shows "\<exists>w. f_to_u32 (floorf (Fin k)) = Some w \<and> unat w \<le> 2 ^ 32 - 256"
proof -
  let ?n = "k div one_units"
  have n: "0 \<le> ?n" using assms(1) by (simp add: pos_imp_zdiv_nonneg_iff)
  have "?n \<le> (2 ^ 32 - 256) * one_units div one_units"
    using assms(2) by (intro zdiv_mono1) simp_all
  then have m: "?n \<le> 2 ^ 32 - 256" using one_units_pos by (auto split: if_splits)
  then have "f_to_u32 (floorf (Fin k)) = Some (word_of_int ?n)"
    unfolding floorf.simps by (intro f_to_u32_int) (use n in simp_all)
  moreover have "unat (word_of_int ?n :: u32) = nat ?n"
    using n m by (simp add: unat_eq_nat_uint uint_word_of_int)
  ultimately show ?thesis using m by simp
qed

lemma set_dpm_returns:
  assumes "n \<noteq> UINT32_MAX \<Longrightarrow> now s < n \<Longrightarrow> unat (n - now s) \<le> 2 ^ 32 - 256"
  shows "power_management_set_dpm_interval c n s \<noteq> None"
proof (cases "n = UINT32_MAX \<or> n \<le> now s")
  case True
  then show ?thesis by (simp add: power_management_set_dpm_interval_def Let_def)
next
  case False
  then obtain k where k: "of_u32 (n - now s) = Fin k" "0 \<le> k" "k \<le> (2 ^ 32 - 256) * one_units"
    using of_u32_range [of "n - now s"] assms by auto
  obtain w where "f_to_u32 (floorf (Fin k)) = Some w" using floor_converts [OF k(2,3)] by blast
  then show ?thesis by (simp add: power_management_set_dpm_interval_def Let_def k(1))
qed

lemma unat_plus_le: "unat (a + b :: u32) \<le> unat a + unat b"
  by (simp add: unat_word_ariths)

lemma task_next_arrival_le:
  assumes T: "timed cfg P s" and p: "t_period task \<noteq> 0 \<and> unat (t_period task) \<le> P"
  shows "unat (task_next_arrival c s task) \<le> unat (now s) + 2 * P"
proof -
  let ?step = "\<lambda>d n. let dj = delegated_jobs_pool s d in
      if dj_arrival_tick dj = n \<and> dj_task_id dj = t_id task \<and> dj_owned_by_remote dj
      then n + t_period task else n"
  have f: "unat (fold ?step ds n) \<le> unat (now s) + 2 * P" if "unat n \<le> unat (now s) + 2 * P" for ds n
    using that
  proof (induction ds arbitrary: n)
    case (Cons d ds)
    have "unat (?step d n) \<le> unat (now s) + 2 * P"
      using Cons.prems timedD(8) [OF T, of d] p unat_plus_le [of n "t_period task"] by (auto simp: Let_def)
    then show ?case using Cons.IH by simp
  qed simp
  have "unat (t_period task - now s mod t_period task) \<le> unat (t_period task)"
  proof -
    have "now s mod t_period task \<le> t_period task"
      using p by (simp add: word_le_nat_alt unat_mod less_imp_le unat_gt_0)
    then show ?thesis by (simp add: unat_sub)
  qed
  then have "unat (now s + (t_period task - now s mod t_period task)) \<le> unat (now s) + 2 * P"
    using unat_plus_le [of "now s" "t_period task - now s mod t_period task"] p by linarith
  then show ?thesis unfolding task_next_arrival_def Let_def by (rule f [unfolded Let_def])
qed

lemma next_arrival_le:
  assumes T: "timed cfg P s" and I: "sys_inv N B H s"
  shows "find_next_effective_arrival_time cfg c s = UINT32_MAX
    \<or> unat (find_next_effective_arrival_time cfg c s) \<le> unat (now s) + 2 * P"
proof -
  let ?ok = "\<lambda>n :: u32. n = UINT32_MAX \<or> unat n \<le> unat (now s) + 2 * P"
  have "?ok (fold (\<lambda>p m. if now s < arrival_time (jobs s p) \<and> arrival_time (jobs s p) < m
      then arrival_time (jobs s p) else m) ps m)"
    if "?ok m" "\<And>p. p \<in> set ps \<Longrightarrow> unat (arrival_time (jobs s p)) \<le> unat (now s) + 2 * P" for ps m
    using that by (induction ps arbitrary: m) auto
  moreover have "unat (arrival_time (jobs s p)) \<le> unat (now s) + 2 * P"
    if "p \<in> set (queues s (PendingQ c))" for p
    using timedD(6) [OF T, of p] linked_live(2) [OF I, of p] queues_entry [OF I] that by fastforce
  ultimately have start: "?ok (next_pending_arrival c s)" by (simp add: next_pending_arrival_def)
  have "?ok (fold (\<lambda>m k. if \<not> on_core s c m then k
      else case find_task_by_id cfg (m_task_id m) s of None \<Rightarrow> k
        | Some task \<Rightarrow>
            if t_period task = 0 \<or> t_crit_level task < local_criticality_level (cstate s c) then k
            else let a = task_next_arrival c s task in if a < k then a else k) ms k)"
    if "?ok k" for ms k
    using that
    by (induction ms arbitrary: k)
      (auto simp: Let_def split: option.split dest: timedD(2) [OF T] intro: task_next_arrival_le [OF T])
  from this [OF start] show ?thesis by (simp add: find_next_effective_arrival_time_def)
qed

lemma next_arrival_soon:
  assumes T: "timed cfg P s" and I: "sys_inv N B H s"
    and n: "find_next_effective_arrival_time cfg c s \<noteq> UINT32_MAX"
  shows "unat (find_next_effective_arrival_time cfg c s - now s) \<le> 2 ^ 32 - 256"
proof -
  let ?n = "find_next_effective_arrival_time cfg c s"
  note D = timedD [OF T]
  have "now s \<noteq> UINT32_MAX" using D(10) by (auto simp: unsigned_minus_1_eq_mask mask_eq_exp_minus_1)
  moreover have "arrivals_fit c s task" if "find_task_by_id cfg k s = Some task" for k task
    unfolding arrivals_fit_def
  proof (intro conjI ballI)
    show "unat (now s) + unat (t_period task) < 2 ^ 32" using D(2) [OF that] D(10) by simp
    show "unat (dj_arrival_tick (delegated_jobs_pool s d)) + unat (t_period task) < 2 ^ 32" for d
      using D(2) [OF that] D(8) [of d] D(10) by simp
  qed
  ultimately have "now s < ?n" by (intro next_arrival_future)
  then have "unat (?n - now s) = unat ?n - unat (now s)" by (simp add: unat_sub)
  then show ?thesis using next_arrival_le [OF T I, of c] n D(10) by simp
qed

lemma min_slack_ok:
  assumes T: "tick_inv N B s" and tm: "timed cfg P s" and c: "c < N"
  shows "\<exists>m. min_slack_levels cfg c f ls b s = Some (m, s)"
  by (rule min_slack_returns [OF slack_calm [OF tm tick_invD(1) [OF T] c] tick_invD(2) [OF T c]])

lemma defer_converts:
  assumes "f_le (Fin 0) thr" and "\<not> f_lt m thr" and "unat w \<le> 2 ^ 32 - 256"
  shows "\<exists>k. f_to_u32 (floorf (fminf m (of_u32 w))) = Some k \<and> unat k \<le> 2 ^ 32 - 256"
proof -
  obtain t where t: "of_u32 w = Fin t" "0 \<le> t" "t \<le> (2 ^ 32 - 256) * one_units"
    using of_u32_range [OF assms(3)] by blast
  have "\<exists>j. fminf m (Fin t) = Fin j \<and> 0 \<le> j \<and> j \<le> t"
    using assms(1,2) t(2) by (cases m; cases thr) (auto simp: fminf_def)
  then obtain j where j: "fminf m (Fin t) = Fin j" "0 \<le> j" "j \<le> t" by blast
  show ?thesis unfolding t(1) j(1) by (rule floor_converts) (use j t in simp_all)
qed

lemma procrastination_returns:
  assumes T: "tick_inv N B s" and tm: "timed cfg P s" and c: "c < N"
  shows "power_management_try_procrastination cfg c s \<noteq> None"
proof -
  note D = tick_invD [OF T]
  note ul = D(2) [OF c]
  let ?n = "find_next_effective_arrival_time cfg c s"
  let ?thr = "f_of_int (DPM_ENTRY_LATENCY_TICKS + DPM_IDLE_THRESHOLD_TICKS + DPM_EXIT_LATENCY_TICKS)"
  have thr: "f_le (Fin 0) ?thr"
    by (simp add: DPM_IDLE_THRESHOLD_TICKS_def DPM_ENTRY_LATENCY_TICKS_def
        DPM_EXIT_LATENCY_TICKS_def f_of_int_small)
  obtain m where m: "min_slack_levels cfg c (scaling_factor (dvfs_levels ! (NUM_DVFS_LEVELS - 1)))
      [local_criticality_level (cstate s c)..<MAX_CRITICALITY_LEVELS cfg] FLT_MAX s = Some (m, s)"
    using min_slack_ok [OF T tm c] by blast
  show ?thesis
  proof (cases "?n = UINT32_MAX \<or> f_lt (of_u32 (?n - now s)) ?thr \<or> f_lt m ?thr")
    case True
    then show ?thesis using m by (auto simp: power_management_try_procrastination_def Let_def)
  next
    case no: False
    note lk = lock_rq(1) [OF T c]
    show ?thesis
    proof (cases "running_job (cstate s c)")
      case None
      then show ?thesis using no m lk by (simp add: power_management_try_procrastination_def Let_def)
    next
      case p: (Some p)
      obtain u where u: "requeue_running c p (upd_core c (rq_lock_update (\<lambda>_. True)) s) = Some u"
        "UNLOCK_RQ c (upd_core c (running_job_update (\<lambda>_. None) \<circ> is_idle_update (\<lambda>_. True)) u)
         = put_off c p s"
        using requeue_unlock [OF ul running_link(2) [OF D(1) c p]] by blast
      obtain k where k: "f_to_u32 (floorf (fminf m (of_u32 (?n - now s)))) = Some k"
        "unat k \<le> 2 ^ 32 - 256"
        using defer_converts [OF thr _ next_arrival_soon [OF tm D(1)], of m] no by blast
      have "power_management_set_dpm_interval c (now (put_off c p s) + k) (put_off c p s) \<noteq> None"
        using k(2) by (intro set_dpm_returns) simp
      then show ?thesis using no m lk p u k(1) put_off_held(5) [OF T c p]
        by (auto simp: power_management_try_procrastination_def Let_def)
    qed
  qed
qed

lemma power_phase_returns:
  assumes T: "tick_inv N B s" and tm: "timed cfg P s" and c: "c < N"
  shows "power_phase cfg c s \<noteq> None"
proof -
  note ul = tick_invD(2) [OF T c]
  have dpm: "power_management_set_dpm_interval c (find_next_effective_arrival_time cfg c t) t \<noteq> None"
    if "tick_inv N B t" "timed cfg P t" for t
    using next_arrival_soon [OF that(2) tick_invD(1) [OF that(1)], of c] by (intro set_dpm_returns) simp
  obtain l where l: "calc_required_dvfs_level cfg c s = Some (l, s)"
  proof (cases "is_idle (cstate s c) \<or> running_job (cstate s c) = None")
    case False
    obtain k where "dvfs_search cfg c [0..<NUM_DVFS_LEVELS] 0 s = Some (k, s)"
      using dvfs_search_returns [OF slack_calm [OF tm tick_invD(1) [OF T] c] ul] by blast
    then show ?thesis using that False by (simp add: calc_required_dvfs_level_def)
  qed (use that in \<open>auto simp: calc_required_dvfs_level_def\<close>)
  let ?l = "power_set_dvfs_level c l s"
  have "tick_inv N B ?l" "timed cfg P ?l"
    using T tm timed_cong [of ?l s] by (simp_all add: power_set_dvfs_level_def)
  then have rest: "(do {
       s \<leftarrow> (if ENABLE_DVFS cfg \<and> decision_point (cstate s c)
            then do { (l, s) \<leftarrow> calc_required_dvfs_level cfg c s;
                      Some (power_set_dvfs_level c l s) }
            else Some s);
       if ENABLE_DPM cfg \<and> is_idle (cstate s c)
       then power_management_set_dpm_interval c (find_next_effective_arrival_time cfg c s) s
       else Some s }) \<noteq> None"
    using l dpm [of ?l] dpm [OF T tm] by auto
  let ?e = "if ENABLE_PROCRASTINATION cfg
      then power_management_try_procrastination cfg c s else Some (False, s)"
  have "?e \<noteq> None" using procrastination_returns [OF T tm c] by auto
  then obtain b t where b: "?e = Some (b, t)" by (metis not_None_eq surj_pair)
  have "b \<or> t = s" using b try_procrastination_ok [OF T c, of cfg] by (auto simp: wlp_iff split: if_splits)
  then show ?thesis using b rest by (cases b) (auto simp: power_phase_def)
qed

end
