(* ===== verification/MailReturns.thy ===== *)
theory MailReturns
  imports Returns
begin

text \<open>
  The migration phase returns when the mailboxes have room: the acknowledgements of the core are
  drained, each job of the core is offered at most once, and each request is answered with at most one
  acknowledgement.
\<close>

section \<open>Room in the mailboxes\<close>

definition requests_room :: "nat \<Rightarrow> nat \<Rightarrow> nat \<Rightarrow> sys \<Rightarrow> bool" where
  "requests_room k N c s \<longleftrightarrow>
     (\<forall>d<N. d \<noteq> c \<longrightarrow> k \<le> rb_room (migration_request_queue (cstate s d)))"

definition acks_live :: "(nat \<Rightarrow> nat) \<Rightarrow> nat \<Rightarrow> sys \<Rightarrow> bool" where
  "acks_live A N s \<longleftrightarrow> (\<forall>d<N. rb_live 200 (A d) (delegation_ack_queue (cstate s d)))"

definition acks_room :: "nat \<Rightarrow> nat \<Rightarrow> nat \<Rightarrow> sys \<Rightarrow> bool" where
  "acks_room k N c s \<longleftrightarrow> (\<forall>d<N. d \<noteq> c \<longrightarrow> k \<le> rb_room (delegation_ack_queue (cstate s d)))"

text \<open>What the migration phase leaves of the mailboxes of others: only more requests, only more answers.\<close>

lemma mail_cong:
  assumes "timing t = timing s"
  shows "requests_room k N c t \<longleftrightarrow> requests_room k N c s" and "acks_live A N t \<longleftrightarrow> acks_live A N s"
    and "acks_room k N c t \<longleftrightarrow> acks_room k N c s" and "requests (cstate t d) = requests (cstate s d)"
  using timing_mail [OF assms]
  by (simp_all add: requests_room_def acks_live_def acks_room_def requests_def)

section \<open>Acknowledgements\<close>

lemma update_delegations_returns:
  assumes "acks_live A N s" and c: "c < N" and "200 + length (rb_contents (delegation_ack_queue (cstate s c))) \<le> A c"
  shows "wp (update_delegations c s) (\<lambda>t. calendar t = calendar s
     \<and> acks_live (A(c := A c - length (rb_contents (delegation_ack_queue (cstate s c))))) N t
     \<and> rb_contents (delegation_ack_queue (cstate t c)) = []
     \<and> (\<forall>d. d \<noteq> c \<longrightarrow> delegation_ack_queue (cstate t d) = delegation_ack_queue (cstate s d))
     \<and> (\<forall>d. migration_request_queue (cstate t d) = migration_request_queue (cstate s d)))"
  using assms(1,3)
proof (induction "rb_contents (delegation_ack_queue (cstate s c))" arbitrary: s A)
  case Nil
  let ?q = "delegation_ack_queue (cstate s c)"
  have "ring_buffer_try_dequeue (Some undef_ack) ?q = Some (- EAGAIN, Some undef_ack, ?q)"
    using rb_live_take(1) [of 200 "A c" ?q undef_ack] Nil c by (simp add: acks_live_def)
  then show ?case using Nil by (subst update_delegations.simps) (simp add: EAGAIN_def)
next
  case (Cons a as)
  let ?q = "delegation_ack_queue (cstate s c)"
  let ?u = "upd_core c (delegation_ack_queue_update (\<lambda>_. rb_pop ?q)) s"
  let ?t = "apply_ack c a ?u"
  have live: "rb_live 200 (A c) ?q" using Cons.prems(1) c by (simp add: acks_live_def)
  have ne: "rb_contents ?q = a # as" using Cons.hyps(2) by simp
  note take = rb_live_take [OF live]
  have deq: "ring_buffer_try_dequeue (Some undef_ack) ?q = Some (0, Some a, rb_pop ?q)"
    using take(1) [of undef_ack] ne by simp
  note m = timing_mail [OF clocked.apply_ack [of c a ?u]]
  have as: "rb_contents (delegation_ack_queue (cstate ?t c)) = as" using take(3) ne by (simp add: m)
  have L: "acks_live (A(c := A c - 1)) N ?t"
    using Cons.prems ne take(2) by (auto simp: acks_live_def m)
  have "wp (update_delegations c ?t) (\<lambda>t. calendar t = calendar ?t
     \<and> acks_live ((A(c := A c - 1))(c := (A(c := A c - 1)) c
         - length (rb_contents (delegation_ack_queue (cstate ?t c))))) N t
     \<and> rb_contents (delegation_ack_queue (cstate t c)) = []
     \<and> (\<forall>d. d \<noteq> c \<longrightarrow> delegation_ack_queue (cstate t d) = delegation_ack_queue (cstate ?t d))
     \<and> (\<forall>d. migration_request_queue (cstate t d) = migration_request_queue (cstate ?t d)))"
    using L Cons.prems(2) ne as by (intro Cons.hyps(1)) simp_all
  then have "wp (update_delegations c ?t) (\<lambda>t. calendar t = calendar s
     \<and> acks_live (A(c := A c - length (rb_contents ?q))) N t
     \<and> rb_contents (delegation_ack_queue (cstate t c)) = []
     \<and> (\<forall>d. d \<noteq> c \<longrightarrow> delegation_ack_queue (cstate t d) = delegation_ack_queue (cstate s d))
     \<and> (\<forall>d. migration_request_queue (cstate t d) = migration_request_queue (cstate s d)))"
    unfolding as by (rule wp_mono) (simp add: ne m)
  then show ?case using deq by (subst update_delegations.simps) simp
qed

section \<open>Offers of queued jobs\<close>

lemma rb_room_push:
  assumes "rb_live n b q" and "0 < rb_room q"
  shows "rb_room q = Suc (rb_room (rb_push e q))"
  using rb_live_length [OF assms(1)] rb_live_length [OF rb_live_put(2) [OF assms, of e]]
    rb_live_put(3) [OF assms, of e] by simp

text \<open>A request to another core.\<close>

lemma send_request_returns:
  assumes live: "rb_live 32 b (migration_request_queue (cstate s d))"
    and R: "requests_room (Suc k) N c s" and d: "d < N" "d \<noteq> c"
  shows "\<exists>q. send_request d r s = Some (upd_core d (migration_request_queue_update (\<lambda>_. q)) s)
     \<and> requests_room k N c (upd_core d (migration_request_queue_update (\<lambda>_. q)) s)"
proof -
  let ?q = "migration_request_queue (cstate s d)"
  have room: "Suc k \<le> rb_room ?q" using R d by (simp add: requests_room_def)
  have "send_request d r s = Some (upd_core d (migration_request_queue_update (\<lambda>_. rb_push r ?q)) s)"
    using rb_live_put(1) [OF live, of r] room by (simp add: send_request_def)
  moreover have "requests_room k N c (upd_core d (migration_request_queue_update (\<lambda>_. rb_push r ?q)) s)"
    using R room rb_room_push [OF live, of r] by (auto simp: requests_room_def)
  ultimately show ?thesis by blast
qed

text \<open>What offers leave alone.\<close>

definition offered :: "sys \<Rightarrow> sys \<Rightarrow> bool" where
  "offered s t \<longleftrightarrow> calendar t = calendar s
     \<and> (\<forall>d. delegation_ack_queue (cstate t d) = delegation_ack_queue (cstate s d))"

lemma offered_refl [simp]: "offered s s"
  by (simp add: offered_def)

lemma offered_trans: "offered s t \<Longrightarrow> offered t u \<Longrightarrow> offered s u"
  by (simp add: offered_def)

lemma offered_timing: "timing t = timing s \<Longrightarrow> offered s t"
  using timing_mail [of t s] by (simp add: offered_def)

lemma offered_mail: "offered s t \<Longrightarrow> acks_live A N t \<longleftrightarrow> acks_live A N s"
  "offered s t \<Longrightarrow> acks_room k N c t \<longleftrightarrow> acks_room k N c s"
  "offered s t \<Longrightarrow> timed cfg P t \<longleftrightarrow> timed cfg P s"
  by (simp_all add: offered_def acks_live_def acks_room_def timed_calendar [of t s])

lemma requests_room_mono: "requests_room k N c s \<Longrightarrow> j \<le> k \<Longrightarrow> requests_room j N c s"
  by (auto simp: requests_room_def intro: le_trans)

lemma offered_send [simp]:
  "offered s (upd_core d (migration_request_queue_update g) t) \<longleftrightarrow> offered s t"
  by (auto simp: offered_def)

lemma try_offload_job_returns:
  assumes I: "sys_inv N B H s" and R: "requests_room (Suc k) N c s"
    and c: "c < N" and N: "N = NUM_CORES_PER_PROC cfg"
  shows "wp (try_offload_job cfg c p s) (\<lambda>t. offered s t \<and> requests_room k N c t)"
proof -
  let ?s = "upd_job p (is_being_offered_update (\<lambda>_. True)) s"
  let ?g = "upd_job p (refcount_update (\<lambda>r. r + 1)) ?s"
  let ?d = "find_best_core_for_migration cfg p c ?s"
  have d: "?d < N" using find_best_core_range [of c cfg p ?s] c N by simp
  have room: "requests_room k N c t" if "timing t = timing s" for t
    using mail_cong(1) [OF that, of k N c] requests_room_mono [OF R, of k] by simp
  have "\<exists>q. send_request ?d \<lparr>req_job = p, from_core = c\<rparr> ?g
        = Some (upd_core ?d (migration_request_queue_update (\<lambda>_. q)) ?g)
      \<and> requests_room k N c (upd_core ?d (migration_request_queue_update (\<lambda>_. q)) ?g)"
    if "?d \<noteq> c"
  proof (rule send_request_returns)
    show "rb_live 32 (B ?d) (migration_request_queue (cstate ?g ?d))" using sys_invD(4) [OF I d] by simp
    show "requests_room (Suc k) N c ?g" using mail_cong(1) [of ?g s] R by simp
  qed (use d that in simp_all)
  then show ?thesis using room
    by (auto simp: try_offload_job_def get_job_ref_def Let_def wp_iff offered_timing)
qed

lemma try_offload_jobs_returns:
  assumes L: "locked_inv N B c s" and R: "requests_room (k + length (queues s q)) N c s"
    and c: "c < N" and N: "N = NUM_CORES_PER_PROC cfg" and q: "q = ReadyQ c \<or> q = ReplicaQ c"
  shows "wp (try_offload_jobs_from_queue cfg q c s) (\<lambda>t. offered s t \<and> requests_room k N c t
     \<and> locked_inv N B c t \<and> queues t = queues s)"
  unfolding try_offload_jobs_from_queue_def
proof (rule total.loop [where I = "\<lambda>ys t. offered s t \<and> requests_room (k + length ys) N c t
    \<and> offload_todo N B {#} c s ys t"])
  show "offered s s \<and> requests_room (k + length (queues s q)) N c s
      \<and> offload_todo N B {#} c s (queues s q) s"
    using R offload_todo_start [OF L q] by simp
  fix p ys t
  assume A: "offered s t \<and> requests_room (k + length (p # ys)) N c t \<and> offload_todo N B {#} c s (p # ys) t"
  then have I: "sys_inv N B {#} t" using locked_heldD(1) by (auto simp: offload_todo_def)
  have "wp (try_offload_job cfg c p t) (\<lambda>u. offered t u \<and> requests_room (k + length ys) N c u)"
    using A by (intro try_offload_job_returns [OF I _ c N]) simp
  then show "wp (try_offload_job cfg c p t) (\<lambda>u. offered s u \<and> requests_room (k + length ys) N c u
      \<and> offload_todo N B {#} c s ys u)"
    using try_offload_job_turn [OF _ c N] A by (auto simp: wp_iff wlp_iff intro: offered_trans)
qed (simp add: offload_todo_def)

lemma rq_shedding_returns:
  assumes T: "tick_inv N B s"
    and R: "requests_room (k + length (queues s (ReadyQ c)) + length (queues s (ReplicaQ c))) N c s"
    and c: "c < N" and N: "N = NUM_CORES_PER_PROC cfg"
  shows "wp (attempt_rq_load_shedding cfg c s) (\<lambda>t. offered s t \<and> requests_room k N c t)"
proof -
  let ?s = "upd_core c (rq_lock_update (\<lambda>_. True)) s"
  note L = lock_rq [OF T c]
  have "wp (try_offload_jobs_from_queue cfg (ReadyQ c) c ?s) (\<lambda>t. offered ?s t
      \<and> requests_room (k + length (queues s (ReplicaQ c))) N c t \<and> locked_inv N B c t \<and> queues t = queues ?s)"
    using R mail_cong(1) [of ?s s] by (intro try_offload_jobs_returns [OF L(2) _ c N]) (simp_all add: ac_simps)
  then obtain t where t: "try_offload_jobs_from_queue cfg (ReadyQ c) c ?s = Some t" "offered ?s t"
    "requests_room (k + length (queues t (ReplicaQ c))) N c t" "locked_inv N B c t"
    by (auto simp: wp_iff)
  have "wp (try_offload_jobs_from_queue cfg (ReplicaQ c) c t) (\<lambda>u. offered t u
      \<and> requests_room k N c u \<and> locked_inv N B c u \<and> queues u = queues t)"
    by (intro try_offload_jobs_returns [OF t(4,3) c N]) simp
  then obtain u where u: "try_offload_jobs_from_queue cfg (ReplicaQ c) c t = Some u" "offered t u"
    "requests_room k N c u" by (auto simp: wp_iff)
  have "offered s u"
    using offered_trans [OF offered_timing [of ?s s] offered_trans [OF t(2) u(2)]] by simp
  then have "offered s (UNLOCK_RQ c u)"
    using offered_trans offered_timing [of "UNLOCK_RQ c u" u] by simp
  moreover have "requests_room k N c (UNLOCK_RQ c u)" using u(3) mail_cong(1) [of "UNLOCK_RQ c u" u] by simp
  ultimately show ?thesis using L(1) t(1) u(1) by (simp add: attempt_rq_load_shedding_def)
qed

section \<open>Offers of future jobs\<close>

text \<open>\<open>mail_kept k N c P cfg s t\<close>: the calendar is sound, \<open>k\<close> more requests fit, and no answer was sent.\<close>

definition mail_kept :: "nat \<Rightarrow> nat \<Rightarrow> nat \<Rightarrow> nat \<Rightarrow> config \<Rightarrow> sys \<Rightarrow> sys \<Rightarrow> bool" where
  "mail_kept k N c P cfg s t \<longleftrightarrow> timed cfg P t \<and> requests_room k N c t
     \<and> (\<forall>d. delegation_ack_queue (cstate t d) = delegation_ack_queue (cstate s d))"

lemma mail_kept_timing:
  assumes "timing u = timing t"
  shows "mail_kept k N c P cfg s u \<longleftrightarrow> mail_kept k N c P cfg s t"
  using timed_cong [OF assms] mail_cong(1) [OF assms] timing_mail(2) [OF assms]
  by (simp add: mail_kept_def)

lemma timed_delegation:
  assumes "timed cfg P s" and "unat (dj_arrival_tick x) \<le> unat (now s) + P"
  shows "timed cfg P (upd_dj d (\<lambda>_. x) s)"
  by (rule timed_step [OF assms(1)]) (use assms(2) in auto)

lemma init_future_job_returns:
  assumes "acet_returns cfg"
  shows "init_future_job cfg c m a p s \<noteq> None"
proof -
  have "generate_acet cfg p u \<noteq> None" for u using assms unfolding acet_returns_def by (metis option.distinct(1))
  then show ?thesis
    unfolding init_future_job_def Let_def bind_eq_None_conv by (simp split: prod.split)
qed

lemma offer_future_job_returns:
  assumes T: "tick_inv N B s" and tm: "timed cfg P s" and R: "requests_room (Suc k) N c s"
    and c: "c < N" and N: "N = NUM_CORES_PER_PROC cfg" and G: "acet_returns cfg"
    and m: "m \<in> set (allocation_map cfg)" and tk: "unat (t_period task) \<le> P"
    and a: "unat a \<le> unat (now s) + P"
  shows "wp (offer_future_job cfg c m task a s) (mail_kept k N c P cfg s)"
proof -
  have R': "requests_room k N c s" by (rule requests_room_mono [OF R]) simp
  obtain r s1 where e: "create_job task c s = (r, s1)" by (cases "create_job task c s")
  note E = create_job_sys_fields [OF e]
  show ?thesis
  proof (cases r)
    case None
    have "mail_kept k N c P cfg s s1"
      using mail_kept_timing [OF timing_no_job [OF e [unfolded None]]] tm R' by (simp add: mail_kept_def)
    then show ?thesis using e None by (simp add: offer_future_job_def)
  next
    case (Some p)
    have "init_future_job cfg c m a p s1 \<noteq> None" by (rule init_future_job_returns [OF G])
    then obtain s2 where s2: "init_future_job cfg c m a p s1 = Some s2" by blast
    note J = new_job_timed [OF e [unfolded Some] init_future_times [OF s2] tm tk m a]
    have R2: "requests_room j N c s2 \<longleftrightarrow> requests_room j N c s" for j
      using J(2) by (simp add: requests_room_def)
    have K2: "mail_kept k N c P cfg s s2" using J R' R2 by (simp add: mail_kept_def)
    let ?d = "find_best_core_for_migration cfg p c s2"
    have d: "?d < N" using find_best_core_range [of c cfg p s2] c N by simp
    obtain dr s3 where s3: "create_delegation c s2 = (dr, s3)" by (cases "create_delegation c s2")
    note t3 = clocked.create_delegation [OF s3]
    show ?thesis
    proof (cases "?d = c \<or> dr = None")
      case True
      then show ?thesis using e Some s2 s3 K2 mail_kept_timing [of "put_job_ref (Some p) c s2" s2]
          mail_kept_timing [of "put_job_ref (Some p) c s3" s2] t3
        by (auto simp: offer_future_job_def Let_def)
    next
      case False
      then obtain k' where k': "dr = Some k'" by blast
      let ?x = "\<lparr>dj_arrival_tick = a, dj_task_id = t_id task, dj_owned_by_remote = False\<rparr>"
      let ?s4 = "upd_dj k' (\<lambda>_. ?x) s3"
      let ?s5 = "add_delegation_sorted k' c ?s4"
      have n3: "now s3 = now s" using timing_mail(3) [OF t3] J(3) by simp
      have "timed cfg P ?s4"
        using timed_cong [OF t3] J(1) a n3 by (intro timed_delegation) simp_all
      then have t5: "timed cfg P ?s5" using timed_cong [of ?s5 ?s4] by simp
      have m5: "migration_request_queue (cstate ?s5 x) = migration_request_queue (cstate s x)"
        "delegation_ack_queue (cstate ?s5 x) = delegation_ack_queue (cstate s x)" for x
        using timing_mail(1,2) [OF t3, of x] J(2) by (cases "x = c"; simp)+
      have "\<exists>q. send_request ?d \<lparr>req_job = p, from_core = c\<rparr> ?s5
            = Some (upd_core ?d (migration_request_queue_update (\<lambda>_. q)) ?s5)
          \<and> requests_room k N c (upd_core ?d (migration_request_queue_update (\<lambda>_. q)) ?s5)"
      proof (rule send_request_returns)
        show "rb_live 32 (B ?d) (migration_request_queue (cstate ?s5 ?d))"
          unfolding m5 using sys_invD(4) [OF tick_invD(1) [OF T] d] .
        show "requests_room (Suc k) N c ?s5" using R by (simp add: requests_room_def m5 del: delegation_fields)
      qed (use d False in simp_all)
      then obtain q where q: "send_request ?d \<lparr>req_job = p, from_core = c\<rparr> ?s5
            = Some (upd_core ?d (migration_request_queue_update (\<lambda>_. q)) ?s5)"
        "requests_room k N c (upd_core ?d (migration_request_queue_update (\<lambda>_. q)) ?s5)" by blast
      let ?s6 = "upd_core ?d (migration_request_queue_update (\<lambda>_. q)) ?s5"
      have "mail_kept k N c P cfg s ?s6"
        using q(2) timed_calendar [of ?s6 ?s5] t5 m5(2)
        by (auto simp: mail_kept_def simp del: delegation_fields)
      then have K: "mail_kept k N c P cfg s (upd_core c (core_next_migration_eligible_tick_update f) ?s6)" for f
        by (subst mail_kept_timing [OF clocked.kept_core(7)])
      show ?thesis using e Some s2 s3 k' False q(1) K
        by (simp add: offer_future_job_def Let_def del: delegation_fields)
    qed
  qed
qed

text \<open>The next arrival of a task is at most a period away.\<close>

lemma next_period_le: "unat ((n div p + 1) * p :: u32) \<le> unat n + unat p"
proof -
  have "unat ((n div p + 1) * p) \<le> unat (n div p + 1) * unat p" by (simp add: unat_word_ariths)
  also have "\<dots> \<le> (unat n div unat p + 1) * unat p"
    using unat_plus_le [of "n div p" 1] by (intro mult_le_mono1) (simp add: unat_div)
  also have "\<dots> \<le> unat n + unat p" by (simp add: div_times_less_eq_dividend)
  finally show ?thesis .
qed

lemma future_shedding_returns:
  assumes T: "tick_inv N B s" and tm: "timed cfg P s" and c: "c < N"
    and R: "requests_room (k + length (allocation_map cfg)) N c s"
    and N: "N = NUM_CORES_PER_PROC cfg" and G: "acet_returns cfg"
  shows "wp (attempt_future_load_shedding cfg c s) (mail_kept k N c P cfg s)"
  unfolding attempt_future_load_shedding_def
proof (rule total.loop [where I = "\<lambda>ms t. mail_kept (k + length ms) N c P cfg s t \<and> tick_inv N B t
    \<and> now t = now s \<and> set ms \<subseteq> set (allocation_map cfg)"])
  show "mail_kept (k + length (allocation_map cfg)) N c P cfg s s \<and> tick_inv N B s \<and> now s = now s
      \<and> set (allocation_map cfg) \<subseteq> set (allocation_map cfg)"
    using T tm R by (simp add: mail_kept_def)
  fix m ms t
  assume A: "mail_kept (k + length (m # ms)) N c P cfg s t \<and> tick_inv N B t \<and> now t = now s
      \<and> set (m # ms) \<subseteq> set (allocation_map cfg)"
  then have tmt: "timed cfg P t" and Tt: "tick_inv N B t" and Rt: "requests_room (Suc (k + length ms)) N c t"
    and m: "m \<in> set (allocation_map cfg)" by (simp_all add: mail_kept_def)
  let ?Q = "\<lambda>u. mail_kept (k + length ms) N c P cfg s u \<and> tick_inv N B u \<and> now u = now s
      \<and> set ms \<subseteq> set (allocation_map cfg)"
  have stay: "?Q t" using A requests_room_mono [OF Rt] by (simp add: mail_kept_def)
  have offer: "wp (offer_future_job cfg c m task ((now t div t_period task + 1) * t_period task) t) ?Q"
    if f: "find_task_by_id cfg (m_task_id m) t = Some task" for task
  proof -
    have "wp (offer_future_job cfg c m task ((now t div t_period task + 1) * t_period task) t)
        (mail_kept (k + length ms) N c P cfg t)"
      using timedD(2) [OF tmt f] next_period_le [of "now t" "t_period task"]
      by (intro offer_future_job_returns [OF Tt tmt Rt c N G m]) linarith+
    moreover have "wlp (offer_future_job cfg c m task ((now t div t_period task + 1) * t_period task) t)
        (\<lambda>u. tick_inv N B u \<and> proc_state u = proc_state t)"
      by (rule offer_future_job_ok [OF Tt c N])
    ultimately show ?thesis using A by (auto simp: wp_iff wlp_iff mail_kept_def)
  qed
  show "wp (shed_future_step cfg c m t) ?Q"
    using stay offer timedD(2) [OF tmt]
    by (auto simp: shed_future_step_def Let_def split: option.split)
qed (simp add: mail_kept_def)

lemma migration_push_returns:
  assumes T: "tick_inv N B s" and tm: "timed cfg P s" and c: "c < N"
    and R: "requests_room (k + length (queues s (ReadyQ c)) + length (queues s (ReplicaQ c))
      + length (allocation_map cfg)) N c s"
    and N: "N = NUM_CORES_PER_PROC cfg" and G: "acet_returns cfg"
  shows "wp (attempt_migration_push cfg c s) (mail_kept k N c P cfg s)"
proof -
  note ul = tick_invD(2) [OF T c]
  obtain u where u: "get_util c s = Some (u, s)" using get_util_same [OF ul] by blast
  have rq: "wp (attempt_rq_load_shedding cfg c s) (mail_kept k N c P cfg s)"
  proof (rule wp_mono [OF rq_shedding_returns [OF T _ c N]])
    show "requests_room (k + length (queues s (ReadyQ c)) + length (queues s (ReplicaQ c))) N c s"
      by (rule requests_room_mono [OF R]) simp
    fix t assume "offered s t \<and> requests_room k N c t"
    then show "mail_kept k N c P cfg s t"
      using offered_mail(3) [of s t] tm by (simp add: mail_kept_def offered_def)
  qed
  have fut: "wp (attempt_future_load_shedding cfg c s) (mail_kept k N c P cfg s)"
    by (intro future_shedding_returns [OF T tm c _ N G] requests_room_mono [OF R]) simp
  have "mail_kept k N c P cfg s s"
    using tm requests_room_mono [OF R, of k] by (simp add: mail_kept_def)
  then show ?thesis using u rq fut lock_rq(1) [OF T c] unlock_lock [OF ul]
    by (simp add: attempt_migration_push_def Let_def)
qed

section \<open>Answers\<close>

definition answers_room :: "nat \<Rightarrow> (nat \<Rightarrow> nat) \<Rightarrow> nat \<Rightarrow> sys \<Rightarrow> bool" where
  "answers_room k A N s \<longleftrightarrow> (\<forall>d<N. rb_live 200 (A d) (delegation_ack_queue (cstate s d))
     \<and> k \<le> rb_room (delegation_ack_queue (cstate s d)))"

text \<open>Accepting a future job adds one acknowledgement to the queue of the core it came from.\<close>

lemma accept_future_mail:
  assumes "accept_future c f p s = Some t"
  shows "\<exists>a r. ring_buffer_enqueue a (delegation_ack_queue (cstate s f))
        = Some (r, delegation_ack_queue (cstate t f))
      \<and> (\<forall>d. d \<noteq> f \<longrightarrow> delegation_ack_queue (cstate t d) = delegation_ack_queue (cstate s d))"
    and "calendar t = calendar s"
proof -
  obtain u a r q where u: "add_to_queue_sorted_by_arrival (Some (PendingQ c)) (Some p) s = Some u"
    and e: "ring_buffer_enqueue a (delegation_ack_queue (cstate (upd_job p (retune (local_criticality_level (cstate u c))) u) f)) = Some (r, q)"
    and t: "t = double_rq_unlock c f (upd_job p (next_migration_eligible_tick_update
        (\<lambda>_. now s + JOB_MIGRATION_COOLDOWN_TICKS)) (upd_job p (is_being_offered_update (\<lambda>_. False))
        (upd_core f (delegation_ack_queue_update (\<lambda>_. q)) (upd_job p (retune (local_criticality_level (cstate u c))) u))))"
    using assms timing_mail(3) [OF clocked.queue_ops(5)]
    by (auto simp: accept_future_def bind_Some_iff Let_def)
  let ?v = "upd_core f (delegation_ack_queue_update (\<lambda>_. q)) (upd_job p (retune (local_criticality_level (cstate u c))) u)"
  have tv: "timing t = timing ?v" unfolding t by simp
  note tu = clocked.queue_ops(5) [OF u]
  note m = timing_mail [OF tv] and mu = timing_mail [OF tu]
  show "\<exists>a r. ring_buffer_enqueue a (delegation_ack_queue (cstate s f))
        = Some (r, delegation_ack_queue (cstate t f))
      \<and> (\<forall>d. d \<noteq> f \<longrightarrow> delegation_ack_queue (cstate t d) = delegation_ack_queue (cstate s d))"
    using e by (auto simp: m mu)
  show "calendar t = calendar s"
    using m(4) mu(4) timing_mail(4) [OF clocked.retune_job] by simp
qed

lemma answers_room_mono: "answers_room k A N s \<Longrightarrow> j \<le> k \<Longrightarrow> answers_room j A N s"
  by (auto simp: answers_room_def intro: le_trans)

lemma answers_room_cong:
  assumes "timing t = timing s"
  shows "answers_room k A N t \<longleftrightarrow> answers_room k A N s"
  using timing_mail(2) [OF assms] by (simp add: answers_room_def)

lemma answer_request_mail:
  assumes e: "answer_request c f p ok s = Some t" and R: "answers_room (Suc k) A N s" and f: "f < N"
  shows "calendar t = calendar s" and "answers_room k A N t"
proof -
  have R': "answers_room k A N s" by (rule answers_room_mono [OF R]) simp
  consider "timing t = timing s" | "accept_future c f p s = Some t"
    using e by (auto simp: answer_request_def split: if_splits dest: frame_ops)
  then have "calendar t = calendar s \<and> answers_room k A N t"
  proof cases
    case 1
    then show ?thesis using answers_room_cong [OF 1] timing_mail(4) [OF 1] R' by simp
  next
    case 2
    note F = accept_future_mail [OF 2]
    let ?q = "delegation_ack_queue (cstate s f)"
    obtain a r where a: "ring_buffer_enqueue a ?q = Some (r, delegation_ack_queue (cstate t f))"
      and o: "\<And>d. d \<noteq> f \<Longrightarrow> delegation_ack_queue (cstate t d) = delegation_ack_queue (cstate s d)"
      using F(1) by blast
    have L: "rb_live 200 (A f) ?q" and room: "0 < rb_room ?q" "Suc k \<le> rb_room ?q"
      using R f by (auto simp: answers_room_def dest: spec [of _ f])
    have q: "delegation_ack_queue (cstate t f) = rb_push a ?q"
      using a rb_live_put(1) [OF L, of a] room by simp
    have new: "rb_live 200 (A f) (delegation_ack_queue (cstate t f))
        \<and> k \<le> rb_room (delegation_ack_queue (cstate t f))"
      using rb_live_put(2) [OF L room(1), of a] rb_room_push [OF L room(1), of a] room(2) q by simp
    have "rb_live 200 (A d) (delegation_ack_queue (cstate t d))
        \<and> k \<le> rb_room (delegation_ack_queue (cstate t d))" if "d < N" for d
      using new o [of d] R' that by (cases "d = f") (simp_all add: answers_room_def)
    then show ?thesis using F(2) by (simp add: answers_room_def)
  qed
  then show "calendar t = calendar s" and "answers_room k A N t" by simp_all
qed

lemma process_request_mail:
  assumes e: "process_request cfg c r s = Some t" and R: "answers_room (Suc k) A N s" and f: "from_core r < N"
  shows "calendar t = calendar s" and "answers_room k A N t"
proof -
  obtain u ok where u: "double_rq_lock c (from_core r) s = Some u"
    and a: "answer_request c (from_core r) (req_job r) ok u = Some t"
    using e by (auto simp: process_request_alt bind_Some_iff)
  note tu = clocked.double_rq_lock [OF u]
  note M = answer_request_mail [OF a _ f, of k A]
  show "calendar t = calendar s" and "answers_room k A N t"
    using M answers_room_cong [OF tu] R timing_mail(4) [OF tu] by simp_all
qed

lemma process_requests_returns:
  assumes "tick_inv N B s" and "timed cfg P s" and c: "c < N"
    and "32 + length (requests (cstate s c)) \<le> B c"
    and "answers_room (k + length (requests (cstate s c))) A N s"
  shows "wp (process_migration_requests cfg c s) (\<lambda>t. calendar t = calendar s)"
  using assms(1,2,4,5)
proof (induction "requests (cstate s c)" arbitrary: s B)
  case Nil
  have "ring_buffer_try_dequeue (Some undef_request) (migration_request_queue (cstate s c))
      = Some (- EAGAIN, Some undef_request, migration_request_queue (cstate s c))"
    using rb_live_take(1) [OF sys_invD(4) [OF tick_invD(1) [OF Nil.prems(1)] c], of undef_request]
      Nil.hyps by (simp add: requests_def)
  then show ?case by (subst process_migration_requests.simps) (simp add: EAGAIN_def)
next
  case (Cons r rs)
  let ?s = "upd_core c (migration_request_queue_update
      (\<lambda>_. rb_pop (migration_request_queue (cstate s c)))) s"
  let ?B = "B(c := B c - 1)"
  have hd: "requests (cstate s c) = r # rs" using Cons.hyps(2) by simp
  have b: "32 < B c" using Cons.prems(3) hd by simp
  note R = receive_request [OF Cons.prems(1) c b]
  have deq: "ring_buffer_try_dequeue (Some undef_request) (migration_request_queue (cstate s c))
      = Some (0, Some r, rb_pop (migration_request_queue (cstate s c)))" using R(1) hd by simp
  have o: "from_core r < N" "offer_ok (jobs ?s (req_job r))" using R(3) [OF hd] by simp_all
  have tm: "timed cfg P ?s" using timed_calendar [of ?s s] Cons.prems(2) by simp
  have room: "answers_room (Suc (k + length rs)) A N ?s"
    using Cons.prems(4) hd by (auto simp: answers_room_def)
  have "wp (process_request cfg c r ?s) (\<lambda>t. tick_inv N ?B t \<and> proc_state t = proc_state ?s
       \<and> (\<forall>d. requests (cstate t d) = requests (cstate ?s d)))"
  proof (rule process_request_returns [OF R(2) [OF hd] c o])
    fix t assume S: "same_but_locks ?s t"
    have "is_admissible_locked cfg c (req_job r) MIGRATION_PENALTY_TICKS t
        = is_admissible_locked cfg c (req_job r) MIGRATION_PENALTY_TICKS ?s"
      using analysis_locks(5) [OF S] same_but_locksD(5) [OF S]
      by (simp add: is_admissible_locked_def is_admissible_core_def)
    moreover have "parent_task (jobs ?s (req_job r)) \<noteq> None"
      using held_live(3) [OF tick_invD(1) [OF R(2) [OF hd]], of "req_job r"] by simp
    ultimately show "is_admissible_locked cfg c (req_job r) MIGRATION_PENALTY_TICKS t \<noteq> None"
      using admission_returns [OF tm tick_invD(1) [OF R(2) [OF hd]] c] by fastforce
  next
    show "rb_live 200 (A (from_core r)) (delegation_ack_queue (cstate ?s (from_core r)))"
      and "0 < rb_room (delegation_ack_queue (cstate ?s (from_core r)))"
      using room o(1) unfolding answers_room_def by (force dest: spec [of _ "from_core r"])+
  qed
  then obtain u where u: "process_request cfg c r ?s = Some u" "tick_inv N ?B u"
    "\<forall>d. requests (cstate u d) = requests (cstate ?s d)" by (auto simp: wp_iff)
  note M = process_request_mail [OF u(1) room o(1)]
  have rs: "rs = requests (cstate u c)" using u(3) R(4) [OF hd] by simp
  have "wp (process_migration_requests cfg c u) (\<lambda>t. calendar t = calendar u)"
  proof (rule Cons.hyps(1) [OF rs u(2)])
    show "timed cfg P u" using timed_calendar [OF M(1)] tm by simp
    show "32 + length (requests (cstate u c)) \<le> ?B c" using Cons.prems(3) hd rs by simp
    show "answers_room (k + length (requests (cstate u c))) A N u" using M(2) rs by simp
  qed
  then show ?case using deq u(1) M(1) by (subst process_migration_requests.simps) simp
qed

end
