(* ===== verification/Load.thy ===== *)
theory Load
  imports MailReturns
begin

text \<open>
  How many jobs a core can offer in a tick: no more than it holds at the start, in its queues, pending,
  discarded or running, and one for each arrival.
\<close>

definition waiting :: "nat \<Rightarrow> sys \<Rightarrow> nat" where
  "waiting c s = length (queues s (PendingQ c)) + length (queues s ProcDiscardQ)"

definition load :: "nat \<Rightarrow> sys \<Rightarrow> nat" where
  "load c s = length (queues s (ReadyQ c)) + length (queues s (ReplicaQ c))
     + length (queues s (DiscardL c)) + waiting c s + length (opt_list (running_job (cstate s c)))"

lemma wpD: "wp m Q \<Longrightarrow> m = Some t \<Longrightarrow> Q t"
  by simp

lemma length_insert_first [simp]: "length (insert_first r x xs) = Suc (length xs)"
  by (induction xs) auto

lemma length_remove1_le [simp]: "length (remove1 x xs) \<le> length xs"
  by (simp add: length_remove1)

section \<open>Deletion\<close>

text \<open>\<open>shrinks s t\<close>: no queue grows, and no job starts to run.\<close>

definition shrinks :: "sys \<Rightarrow> sys \<Rightarrow> bool" where
  "shrinks s t \<longleftrightarrow> (\<forall>q. length (queues t q) \<le> length (queues s q))
     \<and> (\<forall>c. running_job (cstate t c) = running_job (cstate s c) \<or> running_job (cstate t c) = None)"

lemma shrinks_refl [simp]: "shrinks s s"
  by (simp add: shrinks_def)

lemma shrinks_trans: "shrinks s t \<Longrightarrow> shrinks t u \<Longrightarrow> shrinks s u"
  unfolding shrinks_def by (metis order_trans)

lemma shrinks_load: "shrinks s t \<Longrightarrow> load c t \<le> load c s"
  unfolding shrinks_def load_def waiting_def
  by (intro add_mono) (auto simp: opt_list_def split: option.split dest: spec [of _ c])

lemma shrinks_simps [simp]:
  "shrinks s (upd_job p f t) \<longleftrightarrow> shrinks s t"
  "shrinks s (put_job_ref r c t) \<longleftrightarrow> shrinks s t"
  "shrinks s (UNLOCK_RQ c t) \<longleftrightarrow> shrinks s t"
  by (auto simp: shrinks_def UNLOCK_RQ_def)

lemma shrinks_LOCK: "LOCK_RQ c s = Some t \<Longrightarrow> shrinks s t"
  by (auto simp: LOCK_RQ_def shrinks_def split: if_splits)

lemma shrinks_del: "list_del_job p s = Some t \<Longrightarrow> shrinks s t"
  by (auto simp: list_del_job_def shrinks_def Let_def split: link_state.splits)

lemma shrinks_remove_matching: "remove_matching_job c m p s = Some t \<Longrightarrow> shrinks s t"
  by (auto simp: remove_matching_job_def bind_Some_iff split: if_splits dest!: shrinks_del)
    (simp add: shrinks_def)

lemma shrinks_foldM:
  assumes "foldM f xs s = Some t" and "\<And>x s t. f x s = Some t \<Longrightarrow> shrinks s t"
  shows "shrinks s t"
  using assms(1)
  by (induction xs arbitrary: s) (auto simp: bind_Some_iff intro: shrinks_trans dest: assms(2))

lemma shrinks_remove_running: "shrinks s (remove_running_if_completed c m s)"
  by (simp add: remove_running_if_completed_def shrinks_def Let_def split: option.split)

lemma shrinks_remove_for:
  assumes "remove_completed_for c m s = Some t"
  shows "shrinks s t"
proof -
  obtain s1 s2 s3 where s1: "LOCK_RQ c s = Some s1"
    and s2: "foldM (remove_matching_job c m) (queues s1 (ReplicaQ c)) s1 = Some s2"
    and s3: "foldM (remove_matching_job c m) (queues s2 (ReadyQ c)) s2 = Some s3"
    and t: "t = UNLOCK_RQ c (remove_running_if_completed c m s3)"
    using assms by (auto simp: remove_completed_for_def bind_Some_iff)
  have "shrinks s s3"
    by (rule shrinks_trans [OF shrinks_LOCK [OF s1] shrinks_trans [OF
          shrinks_foldM [OF s2 shrinks_remove_matching] shrinks_foldM [OF s3 shrinks_remove_matching]]])
  then show ?thesis using shrinks_remove_running t by (auto intro: shrinks_trans)
qed

lemma remove_completed_load:
  assumes "remove_completed_jobs c s = Some t"
  shows "load c t \<le> load c s"
  using assms shrinks_load [OF shrinks_foldM [OF _ shrinks_remove_for]]
  by (auto simp: remove_completed_jobs_def bind_Some_iff)

section \<open>Mode changes and the running job\<close>

text \<open>Neither touches the pending and the shared discarded jobs.\<close>

named_theorems waiting_ops "handlers that leave the waiting jobs alone"

lemma waiting_simps [simp]:
  "waiting d (upd_job p f s) = waiting d s" "waiting d (upd_core c g s) = waiting d s"
  "waiting d (upd_proc h s) = waiting d s" "waiting d (put_job_ref r c s) = waiting d s"
  "waiting d (UNLOCK_RQ c s) = waiting d s" "waiting d (set_decision_point c s) = waiting d s"
  "waiting d (s\<lparr>core_fatal_shutdown_requested := b\<rparr>) = waiting d s"
  "waiting d (s\<lparr>sent_packets := sp\<rparr>) = waiting d s"
  "waiting d (s\<lparr>queues := (queues s)(NewReadyQ c := xs, NewReplicaQ c := ys)\<rparr>) = waiting d s"
  "waiting d (splice_jobs (NewReadyQ c) (ReadyQ c) s) = waiting d s"
  "waiting d (splice_jobs (NewReplicaQ c) (ReplicaQ c) s) = waiting d s"
  by (simp_all add: waiting_def UNLOCK_RQ_def set_decision_point_def splice_jobs_def)

lemma waiting_queue_ops [waiting_ops]:
  fixes s t :: sys
  shows "LOCK_RQ c s = Some t \<Longrightarrow> waiting d t \<le> waiting d s"
    and "put_outgoing m s = Some t \<Longrightarrow> waiting d t \<le> waiting d s"
    and "list_del_job p s = Some t \<Longrightarrow> waiting d t \<le> waiting d s"
    and "pop_next_job q s = Some (r, t) \<Longrightarrow> waiting d t \<le> waiting d s"
    and "add_ready_or_replica c p s = Some t \<Longrightarrow> waiting d t \<le> waiting d s"
    and "add_to_queue_sorted (Some (DiscardL c)) (Some p) s = Some t \<Longrightarrow> waiting d t \<le> waiting d s"
    and "q \<in> {NewReadyQ c, NewReplicaQ c} \<Longrightarrow>
         add_to_queue_sorted (Some q) (Some p) s = Some t \<Longrightarrow> waiting d t \<le> waiting d s"
  by (auto simp: LOCK_RQ_def put_outgoing_def list_del_job_def add_to_queue_sorted_def
      add_ready_or_replica_def add_sorted_by_def link_at_def pop_next_job_def waiting_def
      bind_Some_iff Let_def length_remove1 split: if_splits option.splits link_state.splits list.splits
      intro!: add_mono)

lemma waiting_filter_job:
  assumes "filter_job_for_mode_change c q p s = Some t" and "q \<in> {NewReadyQ c, NewReplicaQ c}"
  shows "waiting d t \<le> waiting d s"
proof -
  let ?f = "\<lambda>j. j\<lparr>virtual_deadline := arrival_time j
      + relative_tuned_deadlines j ! local_criticality_level (cstate s c),
      wcet := of_u32 (t_wcet (ptask j) ! local_criticality_level (cstate s c))\<rparr>"
  obtain r where "r = DiscardL c \<or> r \<in> {NewReadyQ c, NewReplicaQ c}"
    and "add_to_queue_sorted (Some r) (Some p) (upd_job p ?f s) = Some t"
    using assms by (auto simp: filter_job_for_mode_change_def Let_def split: if_splits)
  then have "waiting d t \<le> waiting d (upd_job p ?f s)" using waiting_queue_ops(6,7) by blast
  then show ?thesis by simp
qed

lemma waiting_filter_queue:
  assumes "filter_queue_for_mode_change q r c s = Some t" and "r \<in> {NewReadyQ c, NewReplicaQ c}"
  shows "waiting d t \<le> waiting d s"
proof -
  have "r \<in> {NewReadyQ c, NewReplicaQ c} \<longrightarrow> waiting d t \<le> waiting d s"
  proof (rule filter_queue_for_mode_change.raw_induct [OF _ assms(1),
        where P = "\<lambda>_ r c s t. r \<in> {NewReadyQ c, NewReplicaQ c} \<longrightarrow> waiting d t \<le> waiting d s"], intro impI)
    fix f :: "qid \<Rightarrow> qid \<Rightarrow> nat \<Rightarrow> sys \<Rightarrow> sys option" and q r c s t
    assume IH: "\<And>q r c s t. f q r c s = Some t \<Longrightarrow>
        r \<in> {NewReadyQ c, NewReplicaQ c} \<longrightarrow> waiting d t \<le> waiting d s"
      and e: "(if queues s q = [] then Some s
        else Option.bind (pop_next_job q s) (\<lambda>(p, s).
             Option.bind (filter_job_for_mode_change c r (the p) s) (f q r c))) = Some t"
      and r: "r \<in> {NewReadyQ c, NewReplicaQ c}"
    show "waiting d t \<le> waiting d s"
    proof (cases "queues s q = []")
      case False
      then obtain p u v where "pop_next_job q s = Some (p, u)"
        and "filter_job_for_mode_change c r (the p) u = Some v" and "f q r c v = Some t"
        using e by (auto simp: bind_Some_iff)
      then show ?thesis using IH r waiting_queue_ops(4) waiting_filter_job by (meson order_trans)
    qed (use e in simp)
  qed
  then show ?thesis using assms(2) by blast
qed

lemma waiting_mode_change [waiting_ops]:
  assumes "handle_mode_change c l s = Some t"
  shows "waiting d t \<le> waiting d s"
proof -
  let ?s = "upd_core c (local_criticality_level_update (\<lambda>_. l))
      (upd_proc (system_criticality_level_update (\<lambda>_. l)) (set_decision_point c s))"
  let ?new = "\<lambda>s. s\<lparr>queues := (queues s)(NewReadyQ c := [], NewReplicaQ c := [])\<rparr>"
  obtain s1 s2 s3 s4 where s1: "LOCK_RQ c ?s = Some s1"
    and s2: "(case running_job (cstate s1 c) of None \<Rightarrow> Some s1
        | Some p \<Rightarrow> add_ready_or_replica c p (upd_core c (is_idle_update (\<lambda>_. True))
            (upd_job p (state_update (\<lambda>_. JOB_STATE_READY)) (upd_core c (running_job_update (\<lambda>_. None)) s1))))
        = Some s2"
    and s3: "filter_queue_for_mode_change (ReadyQ c) (NewReadyQ c) c (?new s2) = Some s3"
    and s4: "filter_queue_for_mode_change (ReplicaQ c) (NewReplicaQ c) c s3 = Some s4"
    and t: "t = UNLOCK_RQ c (splice_jobs (NewReplicaQ c) (ReplicaQ c) (splice_jobs (NewReadyQ c) (ReadyQ c) s4))"
    using assms unfolding handle_mode_change_def Let_def bind_Some_iff by blast
  have "waiting d s4 \<le> waiting d s3" using waiting_filter_queue [OF s4] by simp
  moreover have "waiting d s3 \<le> waiting d s2" using waiting_filter_queue [OF s3, of d] by simp
  moreover have "waiting d s2 \<le> waiting d s1" using s2
    by (auto split: option.splits dest: waiting_queue_ops(5) [where d = d])
  moreover have "waiting d s1 \<le> waiting d s" using waiting_queue_ops(1) [OF s1, of d] by simp
  ultimately show ?thesis using t by simp
qed

lemma waiting_running:
  assumes "handle_running_job cfg c s = Some t"
  shows "waiting d t \<le> waiting d s"
proof -
  have c: "waiting d t \<le> waiting d u" if "handle_job_completion c u = Some t" for u t
    using that by (auto simp: handle_job_completion_def bind_Some_iff Let_def split: option.splits
        dest!: waiting_queue_ops(1,2) [where d = d])
  show ?thesis using assms
    by (auto simp: handle_running_job_def ipc_broadcast_criticality_change_def sendto_def bind_Some_iff Let_def
        split: option.splits if_splits
        dest!: c waiting_queue_ops(1) [where d = d] waiting_mode_change [where d = d])
qed

lemma mode_changed_load:
  assumes M: "mode_changed c l s t" and w: "waiting c t \<le> waiting c s"
  shows "load c t \<le> load c s"
proof -
  let ?J = "mode_jobs c s" and ?D = "\<lambda>p. mode_drop l (jobs s p)"
  have "size (mset (queues t (ReadyQ c)) + mset (queues t (ReplicaQ c)))
      = size (filter_mset (\<lambda>p. \<not> ?D p) ?J)"
    and "size (mset (queues t (DiscardL c))) = size (mset (queues s (DiscardL c)) + filter_mset ?D ?J)"
    using M by (simp_all only: mode_changed_def)
  moreover have "size (filter_mset (\<lambda>p. \<not> ?D p) ?J) + size (filter_mset ?D ?J) = size ?J"
    using multiset_partition [of ?J ?D] by (metis size_union add.commute)
  moreover have "running_job (cstate t c) = None" using M by (simp add: mode_changed_def)
  ultimately show ?thesis using w by (simp add: load_def mode_jobs_def opt_list_def)
qed

lemma mode_check_load:
  assumes T: "tick_inv N B s" and c: "c < N" and e: "mode_check c s = Some t"
  shows "load c t \<le> load c s"
proof (cases "local_criticality_level (cstate s c) = system_criticality_level (proc_state s)")
  case True
  then show ?thesis using e by (simp add: mode_check_def)
next
  case False
  then have h: "handle_mode_change c (system_criticality_level (proc_state s)) s = Some t"
    using e by (simp add: mode_check_def Let_def)
  have "mode_changed c (system_criticality_level (proc_state s)) s t"
    using wpD [OF handle_mode_change_ok [OF T c] h] by simp
  then show ?thesis using waiting_mode_change [OF h] by (rule mode_changed_load)
qed

lemma running_load:
  assumes W: "wp (handle_running_job cfg c s) (\<lambda>t. case running_job (cstate s c) of
       None \<Rightarrow> t = s | Some p \<Rightarrow> run_effect cfg c p s t)"
    and e: "handle_running_job cfg c s = Some t"
  shows "load c t \<le> load c s"
proof (cases "running_job (cstate s c)")
  case None
  then show ?thesis using wpD [OF W e] by simp
next
  case (Some p)
  have w: "waiting c t \<le> waiting c s" by (rule waiting_running [OF e])
  let ?s = "upd_job p (charged c s) s"
  let ?b = "ipc_broadcast_criticality_change (next_criticality cfg (local_criticality_level (cstate s c)) (jobs ?s p)) ?s"
  have b: "load c ?b = load c s" "waiting c ?b = waiting c s"
    by (simp_all add: load_def waiting_def ipc_broadcast_criticality_change_def sendto_def)
  have q: "load c t \<le> load c s" if "queues t = queues s" "running_job (cstate t c) = None"
    using that by (simp add: load_def waiting_def opt_list_def)
  have "run_effect cfg c p s t" using wpD [OF W e] Some by simp
  then consider "queues t = queues s" "running_job (cstate t c) = None"
    | l where "mode_changed c l ?b t" | "t = ?s"
    by (auto simp: run_effect_def Let_def split: if_splits)
  then show ?thesis
  proof cases
    case 2
    then show ?thesis using mode_changed_load [of c l ?b t] w b by simp
  qed (use q in \<open>simp_all add: load_def waiting_def\<close>)
qed

section \<open>Arrivals\<close>

text \<open>A pending job that is released only changes its queue; a task that arrives adds one job.\<close>

lemma load_simps [simp]:
  "load d (upd_job p f s) = load d s" "load d (put_job_ref r c s) = load d s"
  "load d (UNLOCK_RQ c s) = load d s" "load d (set_decision_point c s) = load d s"
  "load d (s\<lparr>rand_count := n\<rparr>) = load d s"
  by (simp_all add: load_def waiting_def UNLOCK_RQ_def set_decision_point_def)

lemma load_cong:
  assumes "queues t = queues s" and "\<And>d. running_job (cstate t d) = running_job (cstate s d)"
  shows "load c t = load c s"
  using assms by (simp add: load_def waiting_def)

lemma load_enqueued: "load c (enqueued c p s) = load c s + 1"
proof -
  have "q \<in> {DiscardL c, ReadyQ c, ReplicaQ c} \<Longrightarrow>
      load c (linked_state virtual_deadline q p u) = load c u + 1" for q u
    by (auto simp: load_def waiting_def linked_state_def)
  then show ?thesis by (simp add: enqueued_def arrival_queue_def kind_queue_def Let_def)
qed

lemma load_unlinked:
  assumes T: "tick_inv N B s" and link: "job_link (jobs s p) = LinkIn (PendingQ c)"
  shows "load c (unlinked_state (PendingQ c) p s) + 1 = load c s"
proof -
  have "p \<in> set (queues s (PendingQ c))"
    using queue_okD(2) [OF sys_invD(1) [OF tick_invD(1) [OF T]]] link by blast
  then have "0 < length (queues s (PendingQ c))" by auto
  then show ?thesis using \<open>p \<in> set (queues s (PendingQ c))\<close>
    by (simp add: load_def waiting_def unlinked_state_def length_remove1)
qed

lemma pending_arrivals_load:
  assumes "tick_inv N B s" and c: "c < N" and "distinct ps"
    and "\<And>p. p \<in> set ps \<Longrightarrow> job_link (jobs s p) = LinkIn (PendingQ c)"
    and "pending_arrivals c ps s = Some t"
  shows "load c t \<le> load c s"
  using assms(1,3-)
proof (induction ps arbitrary: s)
  case (Cons p ps)
  have link: "job_link (jobs s p) = LinkIn (PendingQ c)" using Cons.prems(3) by simp
  note C = pending_arrivals_Cons [OF Cons.prems(1) c link, of ps]
  note P = pending_step_fields(3,4) [where c = c and p = p and s = s]
  have step: "load c t \<le> load c u"
    if "tick_inv N B u" "pending_arrivals c ps u = Some t" "\<And>x. x \<noteq> p \<Longrightarrow> jobs u x = jobs s x" for u
  proof (rule Cons.IH [OF that(1) _ _ that(2)])
    fix x assume x: "x \<in> set ps"
    then have "x \<noteq> p" using Cons.prems(2) by auto
    then show "job_link (jobs u x) = LinkIn (PendingQ c)" using that(3) Cons.prems(3) x by simp
  qed (use Cons.prems(2) in simp)
  have l: "load c (release_pending c p s) = load c s" "load c (expire_pending c p s) \<le> load c s"
    using load_unlinked [OF Cons.prems(1) link]
    by (simp_all add: release_pending_def expire_pending_def load_enqueued)
  show ?case
    using Cons.prems(4) C step [of s] step [of "expire_pending c p s"] step [of "release_pending c p s"]
      release_pending_ok [OF Cons.prems(1) link] Cons.prems(1) P l
    by (auto split: if_splits)
qed simp

lemma load_LOCK: "LOCK_RQ c s = Some t \<Longrightarrow> load d t = load d s"
  by (auto simp: LOCK_RQ_def split: if_splits intro!: load_cong)

lemma enqueue_load:
  assumes e: "enqueue_arrival c p s = Some t"
  shows "load c t \<le> load c s + 1"
proof -
  have l: "load c v = load c u + 1"
    if "add_to_queue_sorted (Some q) (Some p) u = Some v" "q \<in> {DiscardL c, ReadyQ c, ReplicaQ c}" for q u v
    using that by (auto simp: add_to_queue_sorted_def add_sorted_by_def link_at_def load_def waiting_def
        split: if_splits link_state.splits)
  show ?thesis using e
    by (auto simp: enqueue_arrival_def add_ready_or_replica_def bind_Some_iff load_LOCK [where d = c]
        split: if_splits dest!: l)
qed

lemma load_check_delegated:
  assumes "check_delegated c i ds s = (b, u)"
  shows "load d u = load d s"
proof -
  have S: "queues u = queues s" "\<exists>dq. cstate u d = (cstate s d)\<lparr>delegated_job_queue := dq\<rparr>" for d
    using check_delegated_same [OF assms] by (simp_all add: same_but_delegations_def)
  have "running_job (cstate u d) = running_job (cstate s d)" for d using S(2) [of d] by auto
  then show ?thesis using S(1) by (rule load_cong [rotated])
qed

lemma load_create_job:
  fixes s u :: sys
  shows "create_job task c s = (r, u) \<Longrightarrow> load d u = load d s"
  by (auto simp: create_job_def Let_def split: option.splits if_splits intro!: load_cong)

lemma load_acet:
  "acet_returns cfg \<Longrightarrow> generate_acet cfg p s = Some (a, u) \<Longrightarrow> load d u = load d s"
  unfolding acet_returns_def by (metis load_simps(5) option.inject prod.inject)

lemma load_init_arrived:
  assumes "acet_returns cfg" and "init_arrived_job cfg c m p s = Some u"
  shows "load d u = load d s"
  using assms(2) load_acet [OF assms(1), where d = d]
  by (auto simp: init_arrived_job_def Let_def bind_Some_iff)

lemma task_arrival_load:
  assumes G: "acet_returns cfg" and e: "task_arrival cfg c m s = Some t"
  shows "load c t \<le> load c s + 1"
proof (cases "t = s")
  case False
  then obtain task where e': "(case check_delegated c (t_id task) (delegated_job_queue (cstate s c)) s of
        (True, s) \<Rightarrow> Some s
      | (False, s) \<Rightarrow> (case create_job task c s of
           (None, s) \<Rightarrow> Some s
         | (Some p, s) \<Rightarrow> do { s \<leftarrow> init_arrived_job cfg c m p s; enqueue_arrival c p s })) = Some t"
    using e by (cases "find_task_by_id cfg (m_task_id m) s")
      (simp_all add: task_arrival_def split: if_split_asm)
  obtain b u where k: "check_delegated c (t_id task) (delegated_job_queue (cstate s c)) s = (b, u)"
    by (metis surj_pair)
  obtain r v where r: "create_job task c u = (r, v)" by (metis surj_pair)
  consider "t = u" | "t = v" | p w where "init_arrived_job cfg c m p v = Some w" "enqueue_arrival c p w = Some t"
    using e' k r by (cases b; cases r) (auto simp: bind_Some_iff)
  then show ?thesis
    using load_check_delegated [OF k, of c] load_create_job [OF r, of c]
    by cases (use load_init_arrived [OF G, of c m _ v _ c] enqueue_load in \<open>fastforce+\<close>)
qed simp

lemma arrivals_load:
  assumes G: "acet_returns cfg" and T: "tick_inv N B s" and c: "c < N"
    and e: "handle_job_arrivals cfg c s = Some t"
  shows "load c t \<le> load c s + length (allocation_map cfg)"
proof -
  have Q: "queues_ok s" using sys_invD(1) [OF tick_invD(1) [OF T]] .
  obtain u where u: "pending_arrivals c (queues s (PendingQ c)) s = Some u"
    and f: "foldM (task_arrival cfg c) (allocation_map cfg) u = Some t"
    using e by (auto simp: handle_job_arrivals_def bind_Some_iff)
  have "load c t \<le> load c u + length ms" if "foldM (task_arrival cfg c) ms u = Some t" for ms u t
    using that
  proof (induction ms arbitrary: u)
    case (Cons m ms)
    then obtain v where "task_arrival cfg c m u = Some v" "foldM (task_arrival cfg c) ms v = Some t"
      by (auto simp: bind_Some_iff)
    then show ?case using task_arrival_load [OF G, of c m u v] Cons.IH [of v] by simp
  qed simp
  note this [OF f]
  also have "load c u \<le> load c s"
    using queue_okD(1) [OF Q] queue_okD(2) [OF Q, of _ "PendingQ c"] by (intro pending_arrivals_load [OF T c _ _ u]) auto
  finally show ?thesis by simp
qed

section \<open>What is left to offer\<close>

lemma reclaim_jobs_load:
  assumes "reclaim_jobs c t = reclaim_jobs c s"
  shows "length (queues t (ReadyQ c)) + length (queues t (ReplicaQ c)) \<le> load c s"
  using arg_cong [OF assms, of size] by (simp add: reclaim_jobs_def load_def waiting_def)

end
