(* ===== verification/TickReturns.thy ===== *)
theory TickReturns
  imports Load
begin

text \<open>
  A tick returns. The calendar of the state is sound, so the analysis is defined; the mailboxes have
  room, so no core waits for another to drain one.
\<close>

lemma wpE: "wp m Q \<Longrightarrow> (\<And>t. m = Some t \<Longrightarrow> Q t \<Longrightarrow> R) \<Longrightarrow> R"
  by (auto simp: wp_iff)

section \<open>Room for a tick\<close>

text \<open>
  \<open>mail_ready k N c s\<close>: \<open>k\<close> requests to any other core fit into its mailbox, one answer for each request
  core \<open>c\<close> may have to serve does too, and the counters of the acknowledgements are not exhausted.
\<close>

definition mail_ready :: "nat \<Rightarrow> nat \<Rightarrow> nat \<Rightarrow> sys \<Rightarrow> bool" where
  "mail_ready k N c s \<longleftrightarrow> requests_room k N c s \<and> acks_room 32 N c s
     \<and> (\<exists>A. acks_live A N s \<and> 400 \<le> A c)"

lemma mail_ready_cong:
  assumes "\<And>d. mailboxes (cstate t d) = mailboxes (cstate s d)" and "mail_ready k N c s" and "j \<le> k"
  shows "mail_ready j N c t"
  using assms(1,2) order_trans [OF assms(3)]
  unfolding mail_ready_def mailboxes_def requests_room_def acks_room_def acks_live_def by simp

lemma mail_ready_timing:
  assumes "timing t = timing s"
  shows "mail_ready k N c t \<longleftrightarrow> mail_ready k N c s"
  by (simp add: mail_ready_def mail_cong [OF assms])

section \<open>The last phases keep the calendar\<close>

lemma timing_power_phase:
  assumes T: "tick_inv N B s" and c: "c < N" and e: "power_phase cfg c s = Some t"
  shows "timing t = timing s"
proof -
  note ul = tick_invD(2) [OF T c]
  have dvfs: "timing v = timing s"
    if "calc_required_dvfs_level cfg c s = Some (l, u)" "v = power_set_dvfs_level c l u" for l u v
    using calc_required_dvfs_level_same(1) [OF ul that(1)] that(2) by (simp add: power_set_dvfs_level_def)
  obtain b u where b: "(if ENABLE_PROCRASTINATION cfg
      then power_management_try_procrastination cfg c s else Some (False, s)) = Some (b, u)"
    using e by (auto simp: power_phase_def bind_Some_iff)
  have u: "timing u = timing s" "b \<or> u = s"
    using b clocked.procrastination try_procrastination_ok [OF T c, of cfg]
    by (auto simp: wlp_iff split: if_splits)
  show ?thesis
  proof (cases b)
    case True
    then show ?thesis using e b u(1) by (simp add: power_phase_def)
  next
    case False
    then have "u = s" using u(2) by simp
    with e b False obtain v where v: "(if ENABLE_DVFS cfg \<and> decision_point (cstate s c)
        then do { (l, s) \<leftarrow> calc_required_dvfs_level cfg c s; Some (power_set_dvfs_level c l s) }
        else Some s) = Some v"
      and t: "(if ENABLE_DPM cfg \<and> is_idle (cstate v c)
        then power_management_set_dpm_interval c (find_next_effective_arrival_time cfg c v) v
        else Some v) = Some t"
      by (auto simp: power_phase_def bind_Some_iff)
    have "timing v = timing s" using v dvfs by (auto simp: bind_Some_iff split: if_splits)
    moreover have "timing t = timing v" using t clocked.dpm by (auto split: if_splits)
    ultimately show ?thesis by simp
  qed
qed

lemma last_phases_returns:
  assumes T: "tick_inv N B s" and c: "c < N" and tm: "timed cfg P s"
  shows "wp (do { s \<leftarrow> dispatch_phase c s; s \<leftarrow> power_phase cfg c s; end_of_tick cfg c s })
     (\<lambda>t. timing t = timing s)"
proof -
  obtain t where t: "dispatch_phase c s = Some t" "tick_inv N B t"
    using dispatch_phase_ok [OF T c] by (auto simp: wp_iff)
  have tt: "timing t = timing s" by (rule clocked.dispatch_phase [OF t(1)])
  have tmt: "timed cfg P t" using timed_cong [OF tt] tm by simp
  obtain u where u: "power_phase cfg c t = Some u" using power_phase_returns [OF t(2) tmt c] by auto
  have "tick_inv N B u" using power_phase_ok [OF t(2) c, of cfg] u by (simp add: wlp_iff)
  moreover have uu: "timing u = timing t" by (rule timing_power_phase [OF t(2) c u])
  moreover have "timed cfg P u" using timed_cong [OF uu] tmt by simp
  ultimately obtain v where v: "end_of_tick cfg c u = Some v" "timing v = timing u"
    using end_of_tick_returns [of N B u cfg P c] clocked.end_of_tick [of N B u c cfg] c by blast
  show ?thesis using t(1) u v tt uu by simp
qed

section \<open>The migration phase\<close>

lemma migration_phase_returns:
  assumes T: "tick_inv N B s" and c: "c < N" and N: "N = NUM_CORES_PER_PROC cfg" and b: "64 \<le> B c"
    and tm: "timed cfg P s" and G: "acet_returns cfg"
    and M: "mail_ready (length (queues s (ReadyQ c)) + length (queues s (ReplicaQ c))
      + length (allocation_map cfg)) N c s"
  shows "wp (do {
      s \<leftarrow> update_delegations c s;
      s \<leftarrow> attempt_migration_push cfg c s;
      process_migration_requests cfg c s }) (timed cfg P)"
proof -
  let ?n = "length (rb_contents (delegation_ack_queue (cstate s c)))"
  let ?k = "length (queues s (ReadyQ c)) + length (queues s (ReplicaQ c)) + length (allocation_map cfg)"
  obtain A where A: "acks_live A N s" "400 \<le> A c" and R: "requests_room ?k N c s" "acks_room 32 N c s"
    using M by (auto simp: mail_ready_def)
  let ?A = "A(c := A c - ?n)"
  have "rb_live 200 (A c) (delegation_ack_queue (cstate s c))" using A(1) c by (simp add: acks_live_def)
  then have n: "200 + ?n \<le> A c" using rb_live_length A(2) by fastforce
  note W = update_delegations_returns [OF A(1) c n]
  then obtain t where t: "update_delegations c s = Some t" and D: "calendar t = calendar s
     \<and> acks_live ?A N t \<and> rb_contents (delegation_ack_queue (cstate t c)) = []
     \<and> (\<forall>d. d \<noteq> c \<longrightarrow> delegation_ack_queue (cstate t d) = delegation_ack_queue (cstate s d))
     \<and> (\<forall>d. migration_request_queue (cstate t d) = migration_request_queue (cstate s d))"
    by (rule wpE)
  note cal = D [THEN conjunct1] and live = D [THEN conjunct2, THEN conjunct1]
    and own = D [THEN conjunct2, THEN conjunct2, THEN conjunct1]
  have other: "d \<noteq> c \<Longrightarrow> delegation_ack_queue (cstate t d) = delegation_ack_queue (cstate s d)"
    and req: "migration_request_queue (cstate t d) = migration_request_queue (cstate s d)" for d
    using D [THEN conjunct2, THEN conjunct2, THEN conjunct2] by simp_all
  have Tt: "tick_inv N B t" using update_delegations_ok [OF T] t by (simp add: wlp_iff)
  have q: "queues t = queues s" using update_delegations_same [OF t] by (simp add: same_but_acks_def)
  have tt: "timed cfg P t" using timed_calendar [OF cal] tm by simp
  have "requests_room ?k N c t" using R(1) req by (simp add: requests_room_def)
  then obtain u where u: "attempt_migration_push cfg c t = Some u" and K: "mail_kept 0 N c P cfg t u"
    using migration_push_returns [OF Tt tt c _ N G, of 0] by (auto simp: wp_iff q)
  have U: "tick_inv N B u" using attempt_migration_push_ok [OF Tt c N] u by (simp add: wlp_iff)
  have tu: "timed cfg P u"
    and acks: "delegation_ack_queue (cstate u d) = delegation_ack_queue (cstate t d)" for d
    using K by (simp_all add: mail_kept_def)
  have rq: "length (requests (cstate u c)) \<le> 32"
    using rb_live_length [OF sys_invD(4) [OF tick_invD(1) [OF U] c]] by (simp add: requests_def)
  have "answers_room 32 ?A N u"
    unfolding answers_room_def
  proof (intro allI impI conjI)
    fix d assume d: "d < N"
    show l: "rb_live 200 (?A d) (delegation_ack_queue (cstate u d))"
      unfolding acks [of d] using live d unfolding acks_live_def by blast
    show "32 \<le> rb_room (delegation_ack_queue (cstate u d))"
    proof (cases "d = c")
      case True
      then show ?thesis using rb_live_length [OF l] own acks [of c] by simp
    next
      case False
      then show ?thesis unfolding acks [of d] other [OF False] using R(2) d unfolding acks_room_def by blast
    qed
  qed
  then have room: "answers_room (0 + length (requests (cstate u c))) ?A N u"
    by (rule answers_room_mono) (use rq in simp)
  have "32 + length (requests (cstate u c)) \<le> B c" using rq b by simp
  from process_requests_returns [OF U tu c this room]
  have "wp (process_migration_requests cfg c u) (timed cfg P)"
    by (rule wp_mono) (use timed_calendar tu in blast)
  then show ?thesis by (simp add: t u)
qed

section \<open>The tick\<close>

lemma later_phases_returns:
  assumes G: "acet_returns cfg" and T: "tick_inv N B s" and c: "c < N"
    and N: "N = NUM_CORES_PER_PROC cfg" and b: "64 \<le> B c" and tm: "timed cfg P s"
    and M: "ENABLE_MIGRATION cfg \<Longrightarrow> mail_ready (load c s + 2 * length (allocation_map cfg)) N c s"
  shows "wp (later_phases cfg c s) (timed cfg P)"
proof -
  obtain t where t: "handle_job_arrivals cfg c s = Some t" "tick_inv N B t"
    using handle_job_arrivals_ok [OF G T c] by (auto simp: wp_iff)
  note ta = arrivals_timed [OF t(1) tm]
  obtain u where u: "reclaim_discarded_jobs cfg c t = Some u"
    using reclaim_returns [OF t(2) ta(1) c] by auto
  have U: "tick_inv N B u" and rj: "reclaim_jobs c u = reclaim_jobs c t"
    using reclaim_discarded_jobs_ok [OF t(2) c, of cfg] u by (simp_all add: wlp_iff)
  have uu: "timing u = timing t" by (rule clocked.reclaim [OF u])
  have tu: "timed cfg P u" using timed_cong [OF uu] ta(1) by simp
  let ?mig = "if ENABLE_MIGRATION cfg
          then do {
            s \<leftarrow> update_delegations c u;
            s \<leftarrow> attempt_migration_push cfg c s;
            process_migration_requests cfg c s }
          else Some u"
  have "wp ?mig (\<lambda>v. timed cfg P v \<and> (\<exists>B'. spent c B B' \<and> tick_inv N B' v))"
  proof (cases "ENABLE_MIGRATION cfg")
    case True
    have "length (queues u (ReadyQ c)) + length (queues u (ReplicaQ c)) \<le> load c t"
      by (rule reclaim_jobs_load [OF rj])
    then have "length (queues u (ReadyQ c)) + length (queues u (ReplicaQ c)) + length (allocation_map cfg)
        \<le> load c s + 2 * length (allocation_map cfg)"
      using arrivals_load [OF G T c t(1)] by simp
    then have "mail_ready (length (queues u (ReadyQ c)) + length (queues u (ReplicaQ c))
        + length (allocation_map cfg)) N c u"
      using mail_ready_cong [OF ta(2) M [OF True]] mail_ready_timing [OF uu] by simp
    note wp_conj_wlp [OF migration_phase_returns [OF U c N b tu G this] migration_phase_ok [OF U c N b]]
    then have "wp ?mig (\<lambda>v. timed cfg P v \<and> (\<exists>B'. spent c B B' \<and> tick_inv N B' v) \<and> proc_state v = proc_state u)"
      using True by (simp only: if_True)
    then show ?thesis by (rule wp_mono) simp
  qed (use tu U in \<open>auto simp: spent_def\<close>)
  then obtain v B' where v: "?mig = Some v" "timed cfg P v" "tick_inv N B' v" by (auto simp: wp_iff)
  have "wp (do { s \<leftarrow> dispatch_phase c v; s \<leftarrow> power_phase cfg c s; end_of_tick cfg c s }) (timed cfg P)"
    using last_phases_returns [OF v(3) c v(2)] by (rule wp_mono) (use timed_cong v(2) in blast)
  then show ?thesis using t(1) u v(1) by (simp add: later_phases_def)
qed

lemma active_tick_returns:
  assumes G: "acet_returns cfg" and T: "tick_ready N B b s" and c: "c < N"
    and N: "N = NUM_CORES_PER_PROC cfg" and B: "64 \<le> B c"
    and room: "0 < rb_room (outgoing_completion_msg_queue (proc_state s))"
    and tm: "timed cfg P s"
    and M: "ENABLE_MIGRATION cfg \<Longrightarrow> mail_ready (load c s + 2 * length (allocation_map cfg)) N c s"
  shows "wp (active_tick cfg c s) (timed cfg P)"
proof -
  have T': "tick_inv N B s" "rb_live 64 b (outgoing_completion_msg_queue (proc_state s))"
    using T by (simp_all add: tick_ready_def)
  have W: "wp (handle_running_job cfg c s) (\<lambda>t. tick_inv N B t \<and> load c t \<le> load c s)"
  proof (rule wp_mono [OF wp_conj_wlp [OF handle_running_job_ok [OF T'(1) c T'(2) room, of cfg]]])
    show "wlp (handle_running_job cfg c s) (\<lambda>t. load c t \<le> load c s)"
      unfolding wlp_iff using handle_running_job_ok [OF T'(1) c T'(2) room, of cfg]
      by (intro allI impI running_load [of cfg]) (auto elim: wp_mono)
  qed simp
  then obtain t where t: "handle_running_job cfg c s = Some t" "tick_inv N B t" "load c t \<le> load c s"
    by (auto simp: wp_iff)
  have tt: "timing t = timing s" by (rule timing_running [OF t(1)])
  have "timed cfg P t" using timed_cong [OF tt] tm by simp
  moreover have "mail_ready (load c t + 2 * length (allocation_map cfg)) N c t" if "ENABLE_MIGRATION cfg"
    by (rule mail_ready_cong [OF _ M [OF that]]) (use tt t(3) in \<open>simp_all add: timing_def fun_eq_iff\<close>)
  ultimately show ?thesis
    using later_phases_returns [OF G t(2) c N B] t(1) by (simp add: active_tick_alt)
qed

lemma scheduler_tick_returns:
  assumes G: "acet_returns cfg" and T: "tick_ready N B b s" and c: "c < N"
    and N: "N = NUM_CORES_PER_PROC cfg" and B: "64 \<le> B c"
    and room: "0 < rb_room (outgoing_completion_msg_queue (proc_state s))"
    and inc: "rb_inv a (incoming_completion_msg_queue (proc_state s))"
    and tm: "timed cfg P s"
    and M: "ENABLE_MIGRATION cfg \<Longrightarrow> mail_ready (load c s + 2 * length (allocation_map cfg)) N c s"
  shows "wp (scheduler_tick cfg c s) (timed cfg P)"
proof -
  let ?wake = "upd_core c (dpm_block_update (in_low_power_state_update (\<lambda>_. False)))"
  let ?R = "\<lambda>t. tick_inv N B t \<and> proc_state t = proc_state s \<and> timing t = timing s \<and> load c t \<le> load c s"
  have T': "tick_inv N B s" using T by (simp add: tick_ready_def)
  have "wp (if ENABLE_ECC cfg then remove_completed_jobs c s else Some s) ?R"
    using remove_completed_jobs_ok [OF T' c inc] T'
    by (auto simp: wp_iff dest: clocked.remove_completed remove_completed_load)
  then obtain t where t: "(if ENABLE_ECC cfg then remove_completed_jobs c s else Some s) = Some t"
    "?R t" by (auto simp: wp_iff)
  obtain u where u: "mode_check c t = Some u" "tick_inv N B u" "proc_state u = proc_state t"
    using mode_check_ok [of N B t c] t(2) c by (auto simp: wp_iff)
  have "load c u \<le> load c t" using mode_check_load [OF _ c u(1)] t(2) by blast
  moreover have "timing u = timing t"
    using u(1) by (auto simp: mode_check_def Let_def split: if_splits dest: timing_mode_change)
  ultimately have R: "?R u" using t(2) u by simp
  have step: "timed cfg P v \<and> wp (active_tick cfg c v) (timed cfg P)" if "?R v" for v
  proof -
    have tv: "timed cfg P v" using timed_cong [of v s] that tm by blast
    have "mail_ready (load c v + 2 * length (allocation_map cfg)) N c v" if "ENABLE_MIGRATION cfg"
      by (rule mail_ready_cong [OF _ M [OF that]]) (use \<open>?R v\<close> in \<open>simp_all add: timing_def fun_eq_iff\<close>)
    moreover have "tick_ready N B b v" "0 < rb_room (outgoing_completion_msg_queue (proc_state v))"
      using that T room by (simp_all add: tick_ready_def)
    ultimately show ?thesis using active_tick_returns [where b = b and s = v] G c N B tv by blast
  qed
  have w: "?R (?wake u)" using R by (auto simp: load_def waiting_def)
  show ?thesis
    using t(1) u(1) step [OF R] step [OF w] by (simp add: scheduler_tick_def)
qed

end
