(* ===== verification/IpcInv.thy ===== *)
theory IpcInv
  imports Ipc SysInv
begin

text \<open>
  The packets: a completion packet decodes to the messages it was built from, sending empties the
  outgoing queue into one packet, and receiving can only raise the criticality level, never beyond the
  last level of the configuration.
\<close>

section \<open>Bytes\<close>

lemma u32_bytes_length [simp]: "length (u32_bytes w) = 4"
  by (simp add: u32_bytes_def)

lemma completion_bytes_length [simp]: "length (completion_bytes m) = 12"
  by (simp add: completion_bytes_def)

lemma bytes_u32_u32_bytes: "bytes_u32 (u32_bytes w @ bs) = w"
proof -
  have "bit (ucast (ucast w :: u8) + push_bit 8 (ucast (ucast (drop_bit 8 w) :: u8))
      + push_bit 16 (ucast (ucast (drop_bit 16 w) :: u8))
      + push_bit 24 (ucast (ucast (drop_bit 24 w) :: u8)) :: u32) n = bit w n" if "n < 32" for n
  proof -
    have d: "ucast (ucast w :: u8) + push_bit 8 (ucast (ucast (drop_bit 8 w) :: u8))
      + push_bit 16 (ucast (ucast (drop_bit 16 w) :: u8))
      + push_bit 24 (ucast (ucast (drop_bit 24 w) :: u8))
      = or (or (or (ucast (ucast w :: u8)) (push_bit 8 (ucast (ucast (drop_bit 8 w) :: u8))))
         (push_bit 16 (ucast (ucast (drop_bit 16 w) :: u8))))
         (push_bit 24 (ucast (ucast (drop_bit 24 w) :: u8))) " (is "?a + ?b + ?c + ?d = _")
    proof -
      have "?a + ?b = or ?a ?b"
        by (rule disjunctive_add) (auto simp: bit_simps)
      moreover have "or ?a ?b + ?c = or (or ?a ?b) ?c"
        by (rule disjunctive_add) (auto simp: bit_simps)
      moreover have "or (or ?a ?b) ?c + ?d = or (or (or ?a ?b) ?c) ?d"
        by (rule disjunctive_add) (auto simp: bit_simps)
      ultimately show ?thesis by simp
    qed
    show ?thesis unfolding d using that by (cases "n < 16"; cases "n < 24") (auto simp: bit_simps not_less)
  qed
  then show ?thesis unfolding bytes_u32_def u32_bytes_def
    by (intro bit_word_eqI) simp
qed

lemma bytes_completion_bytes: "bytes_completion (completion_bytes m @ bs) = m"
proof -
  let ?a = "u32_bytes (completed_task_id m)" and ?b = "u32_bytes (job_arrival_time m)"
    and ?c = "u32_bytes (msg_system_time m)"
  have d: "drop 4 (?a @ ?b @ ?c @ bs) = ?b @ ?c @ bs" "drop 8 (?a @ ?b @ ?c @ bs) = ?c @ bs"
    by simp_all
  have "bytes_completion (?a @ ?b @ ?c @ bs) = m"
    unfolding bytes_completion_def d by (simp add: bytes_u32_u32_bytes)
  then show ?thesis by (simp add: completion_bytes_def)
qed

section \<open>Sending\<close>

definition payload :: "completion_message list \<Rightarrow> u8 list" where
  "payload ms = concat (map completion_bytes ms)"

lemma payload_length: "length (payload ms) = 12 * length ms"
  by (induction ms) (simp_all add: payload_def)

lemma payload_simps [simp]:
  "payload [] = []" "payload (m # ms) = completion_bytes m @ payload ms"
  "payload (ms @ ns) = payload ms @ payload ns"
  by (simp_all add: payload_def)

lemma payload_Nil_iff: "payload ms = [] \<longleftrightarrow> ms = []"
  using payload_length [of ms] by (metis length_0_conv mult_eq_0_iff zero_neq_numeral)

text \<open>Collecting drains the queue into the bytes of its messages, in their order.\<close>

lemma collect_outgoing_ok:
  assumes "rb_live 64 b q" and "length (rb_contents q) \<le> room"
    and "64 + length (rb_contents q) \<le> b"
  shows "\<exists>q'. collect_outgoing room q bs = Some (bs @ payload (rb_contents q), q')
     \<and> rb_live 64 (b - length (rb_contents q)) q' \<and> rb_contents q' = []"
  using assms
proof (induction room arbitrary: b q bs)
  case 0
  then show ?case by (intro exI [of _ q]) simp
next
  case (Suc room)
  note T = rb_live_take [OF Suc.prems(1)]
  show ?case
  proof (cases "rb_contents q")
    case Nil
    then show ?thesis using T(1) [of zero_msg] Suc.prems(1)
      by (intro exI [of _ q]) (simp add: EAGAIN_def)
  next
    case (Cons m ms)
    have P: "rb_live 64 (b - 1) (rb_pop q)" "rb_contents (rb_pop q) = ms"
      using T(2,3) Cons Suc.prems by simp_all
    have "\<exists>q'. collect_outgoing room (rb_pop q) (bs @ completion_bytes m)
          = Some ((bs @ completion_bytes m) @ payload (rb_contents (rb_pop q)), q')
        \<and> rb_live 64 (b - 1 - length (rb_contents (rb_pop q))) q' \<and> rb_contents q' = []"
      using Suc.prems Cons P by (intro Suc.IH) simp_all
    then show ?thesis using T(1) [of zero_msg] Cons P(2) by simp
  qed
qed

text \<open>The packet that a set of messages makes.\<close>

definition completion_packet :: "completion_message list \<Rightarrow> u8 list" where
  "completion_packet ms = PACKET_TYPE_COMPLETION # payload ms"

lemma ipc_send_ok:
  assumes Q: "rb_live 64 b (outgoing_completion_msg_queue (proc_state s))" and b: "128 \<le> b"
  shows "\<exists>q. rb_live 64 (b - length (rb_contents (outgoing_completion_msg_queue (proc_state s)))) q
     \<and> rb_contents q = []
     \<and> ipc_send_completion_messages s = Some
         ((upd_proc (outgoing_completion_msg_queue_update (\<lambda>_. q)) s)
           \<lparr>sent_packets := sent_packets s
              @ (let ms = rb_contents (outgoing_completion_msg_queue (proc_state s))
                 in if ms = [] then [] else [completion_packet ms])\<rparr>)"
proof -
  let ?q = "outgoing_completion_msg_queue (proc_state s)"
  have n: "length (rb_contents ?q) \<le> 64" using rb_live_length [OF Q] by simp
  obtain q' where q': "collect_outgoing MESSAGE_QUEUE_SIZE ?q [] = Some (payload (rb_contents ?q), q')"
    "rb_live 64 (b - length (rb_contents ?q)) q'" "rb_contents q' = []"
    using collect_outgoing_ok [OF Q, of 64 "[]"] n b by (auto simp: MESSAGE_QUEUE_SIZE_def)
  show ?thesis
    using q' by (intro exI [of _ q'])
      (simp add: ipc_send_completion_messages_def payload_Nil_iff sendto_def completion_packet_def Let_def
        upd_proc_def)
qed

section \<open>Receiving\<close>

lemma read_buf_drop:
  assumes "off + length xs \<le> length buf" and "take (length xs) (drop off buf) = xs"
  shows "read_buf buf off (length xs) = Some xs"
  using assms by (simp add: read_buf_def)

text \<open>The loop over the messages of a packet puts them into the incoming queue in their order.\<close>

lemma read_completions:
  assumes "buf = PACKET_TYPE_COMPLETION # payload ms @ rest"
  shows "foldM (read_completion buf) [0..<length ms] s = foldM put_incoming ms s"
  using assms
proof (induction ms arbitrary: rest rule: rev_induct)
  case Nil
  then show ?case by simp
next
  case (snoc m ms)
  have buf: "buf = PACKET_TYPE_COMPLETION # payload ms @ (completion_bytes m @ rest)"
    using snoc.prems by simp
  have IH: "foldM (read_completion buf) [0..<length ms] s = foldM put_incoming ms s"
    by (rule snoc.IH [OF buf])
  have "drop (1 + length ms * 12) buf = completion_bytes m @ rest"
    using payload_length [of ms] by (simp add: buf)
  moreover have "1 + length ms * 12 + 12 \<le> length buf" using payload_length [of ms] by (simp add: buf)
  ultimately have "read_buf buf (1 + length ms * 12) 12 = Some (completion_bytes m)"
    by (simp add: read_buf_def)
  moreover have "bytes_completion (completion_bytes m) = m" using bytes_completion_bytes [of m "[]"] by simp
  ultimately have "read_completion buf (length ms) = put_incoming m"
    by (simp add: read_completion_def [abs_def] sizeof_completion_message_def)
  then have "foldM (read_completion buf) [length ms] t = foldM put_incoming [m] t" for t
    by (cases "put_incoming m t") simp_all
  then show ?case using IH
    by (cases "foldM put_incoming ms s") (simp_all only: foldM_append length_append list.size
        upt_Suc_append le0 add_Suc_right add_0_right bind.bind_lunit bind.bind_lzero)
qed

lemma payload_len_word:
  assumes "length (payload ms) < 2 ^ 60"
  shows "unat ((of_nat (1 + length (payload ms)) :: u64) - 1) = length (payload ms)"
    and "unat (((of_nat (1 + length (payload ms)) :: u64) - 1) div of_nat sizeof_completion_message)
           = length ms"
proof -
  have e: "(of_nat (1 + length (payload ms)) :: u64) - 1 = of_nat (length (payload ms))" by simp
  have u: "unat (of_nat (length (payload ms)) :: u64) = length (payload ms)"
    using assms by (simp add: unat_of_nat_u64)
  show "unat ((of_nat (1 + length (payload ms)) :: u64) - 1) = length (payload ms)" unfolding e u ..
  show "unat (((of_nat (1 + length (payload ms)) :: u64) - 1) div of_nat sizeof_completion_message)
           = length ms"
    unfolding e unat_div u by (simp add: sizeof_completion_message_def payload_length)
qed

lemma handle_completion_packet:
  assumes "length (payload ms) < 2 ^ 60" and "buf = completion_packet ms @ rest"
  shows "handle_packet cfg (length (completion_packet ms)) buf s = foldM put_incoming ms s"
proof -
  have "handle_packet cfg (1 + length (payload ms)) buf s
      = foldM (read_completion buf)
          [0..<unat (((of_nat (1 + length (payload ms)) :: u64) - 1) div of_nat sizeof_completion_message)] s"
    using assms(2) unfolding handle_packet_def Let_def
    by (simp add: completion_packet_def PACKET_TYPE_COMPLETION_def PACKET_TYPE_CRITICALITY_CHANGE_def)
  also have "\<dots> = foldM put_incoming ms s"
    unfolding payload_len_word(2) [OF assms(1)]
    by (rule read_completions) (use assms(2) in \<open>simp add: completion_packet_def\<close>)
  finally show ?thesis by (simp add: completion_packet_def)
qed

text \<open>Up to 64 messages fit the buffer: what one processor sends is what another one receives.\<close>

lemma receive_completion_packet:
  assumes n: "length ms \<le> MESSAGE_QUEUE_SIZE" and "packet_buf_size \<le> length buf"
  shows "ipc_receive_completion_messages cfg [completion_packet ms] buf s = foldM put_incoming ms s"
proof -
  let ?p = "completion_packet ms"
  have l: "length ?p \<le> packet_buf_size" "length (payload ms) < 2 ^ 60"
    using n payload_length [of ms]
    by (simp_all add: completion_packet_def packet_buf_size_def MESSAGE_QUEUE_SIZE_def
        sizeof_completion_message_def)
  have "handle_packet cfg (length ?p) (?p @ drop (length ?p) buf) s = foldM put_incoming ms s"
    by (rule handle_completion_packet [OF l(2)]) simp
  then show ?thesis using l(1)
    by (cases "foldM put_incoming ms s") (simp_all add: ipc_receive_completion_messages_def)
qed

section \<open>Criticality changes\<close>

text \<open>No datagram lowers the level or sets one that the configuration does not have.\<close>

definition level_ok :: "config \<Rightarrow> sys \<Rightarrow> sys \<Rightarrow> bool" where
  "level_ok cfg s t \<longleftrightarrow>
     system_criticality_level (proc_state s) \<le> system_criticality_level (proc_state t)
     \<and> (system_criticality_level (proc_state s) < MAX_CRITICALITY_LEVELS cfg \<longrightarrow>
          system_criticality_level (proc_state t) < MAX_CRITICALITY_LEVELS cfg)
     \<and> (\<exists>q l. t = upd_proc (incoming_completion_msg_queue_update (\<lambda>_. q)
                   \<circ> system_criticality_level_update (\<lambda>_. l)) s)"

lemma level_ok_refl: "level_ok cfg s s"
proof -
  have "s = upd_proc (incoming_completion_msg_queue_update (\<lambda>_. incoming_completion_msg_queue (proc_state s))
      \<circ> system_criticality_level_update (\<lambda>_. system_criticality_level (proc_state s))) s"
    by (simp add: upd_proc_def)
  then show ?thesis unfolding level_ok_def by blast
qed

lemma upd_proc_upd_proc: "upd_proc f (upd_proc g s) = upd_proc (f \<circ> g) s"
  by (simp add: upd_proc_def)

lemma level_ok_trans:
  assumes "level_ok cfg s t" and "level_ok cfg t u"
  shows "level_ok cfg s u"
proof -
  obtain q l where t: "t = upd_proc (incoming_completion_msg_queue_update (\<lambda>_. q)
      \<circ> system_criticality_level_update (\<lambda>_. l)) s" using assms(1) unfolding level_ok_def by blast
  obtain q' l' where u: "u = upd_proc (incoming_completion_msg_queue_update (\<lambda>_. q')
      \<circ> system_criticality_level_update (\<lambda>_. l')) t" using assms(2) unfolding level_ok_def by blast
  have "(incoming_completion_msg_queue_update (\<lambda>_. q') \<circ> system_criticality_level_update (\<lambda>_. l'))
      \<circ> (incoming_completion_msg_queue_update (\<lambda>_. q) \<circ> system_criticality_level_update (\<lambda>_. l))
    = incoming_completion_msg_queue_update (\<lambda>_. q') \<circ>
      (system_criticality_level_update (\<lambda>_. l') :: processor_state \<Rightarrow> _)"
    by (rule ext, rule processor_state.equality) simp_all
  then have "u = upd_proc (incoming_completion_msg_queue_update (\<lambda>_. q')
      \<circ> system_criticality_level_update (\<lambda>_. l')) s" unfolding u t upd_proc_upd_proc by simp
  then show ?thesis using assms unfolding level_ok_def by auto
qed

text \<open>A change of one of the two fields is a change of both.\<close>

lemma level_forms:
  "upd_proc (incoming_completion_msg_queue_update (\<lambda>_. q)) s
     = upd_proc (incoming_completion_msg_queue_update (\<lambda>_. q)
         \<circ> system_criticality_level_update (\<lambda>_. system_criticality_level (proc_state s))) s"
  "upd_proc (system_criticality_level_update (\<lambda>_. l)) s
     = upd_proc (incoming_completion_msg_queue_update (\<lambda>_. incoming_completion_msg_queue (proc_state s))
         \<circ> system_criticality_level_update (\<lambda>_. l)) s"
  by (simp_all add: upd_proc_def)

lemma put_incoming_level: "put_incoming m s = Some t \<Longrightarrow> level_ok cfg s t"
proof -
  assume "put_incoming m s = Some t"
  then obtain q where t: "t = upd_proc (incoming_completion_msg_queue_update (\<lambda>_. q)) s"
    by (auto simp: put_incoming_def bind_Some_iff)
  show ?thesis unfolding level_ok_def
  proof (intro conjI)
    show "\<exists>q l. t = upd_proc (incoming_completion_msg_queue_update (\<lambda>_. q)
        \<circ> system_criticality_level_update (\<lambda>_. l)) s"
      unfolding t by (intro exI) (rule level_forms(1))
  qed (simp_all add: t)
qed

lemma handle_packet_level:
  assumes "handle_packet cfg n buf s = Some t"
  shows "level_ok cfg s t"
proof -
  have fold: "foldM (read_completion buf) is s = Some t \<Longrightarrow> level_ok cfg s t" for "is"
    by (rule foldM_keeps [where I = "level_ok cfg s"])
      (auto simp: read_completion_def bind_Some_iff level_ok_refl
        intro: level_ok_trans [OF _ put_incoming_level])
  have raise: "level_ok cfg s (upd_proc (system_criticality_level_update (\<lambda>_. l)) s)"
    if "system_criticality_level (proc_state s) < l" "l < MAX_CRITICALITY_LEVELS cfg" for l
    unfolding level_ok_def
  proof (intro conjI)
    show "\<exists>q k. upd_proc (system_criticality_level_update (\<lambda>_. l)) s
        = upd_proc (incoming_completion_msg_queue_update (\<lambda>_. q)
            \<circ> system_criticality_level_update (\<lambda>_. k)) s"
      by (intro exI) (rule level_forms(2))
  qed (use that in simp_all)
  show ?thesis using assms fold raise
    by (auto simp: handle_packet_def Let_def bind_Some_iff level_ok_refl split: if_splits)
qed

lemma ipc_receive_level:
  "ipc_receive_completion_messages cfg ds buf s = Some t \<Longrightarrow> level_ok cfg s t"
  unfolding ipc_receive_completion_messages_def
proof (induction ds arbitrary: buf s)
  case Nil
  then show ?case by (simp add: level_ok_refl)
next
  case (Cons d ds)
  then obtain u where "handle_packet cfg (length (take packet_buf_size d))
      (take packet_buf_size d @ drop (length (take packet_buf_size d)) buf) s = Some u"
    "receive_loop cfg ds (take packet_buf_size d @ drop (length (take packet_buf_size d)) buf) u = Some t"
    by (auto simp: Let_def bind_Some_iff)
  then show ?case using handle_packet_level Cons.IH level_ok_trans by blast
qed

text \<open>The broadcast of a level is understood by the receiver.\<close>

lemma receive_criticality_packet:
  assumes l: "l < 2 ^ 32" and b: "packet_buf_size \<le> length buf"
  shows "ipc_receive_completion_messages cfg
       [PACKET_TYPE_CRITICALITY_CHANGE # u32_bytes (of_nat l)] buf s
     = Some (if system_criticality_level (proc_state s) < l \<and> l < MAX_CRITICALITY_LEVELS cfg
             then upd_proc (system_criticality_level_update (\<lambda>_. l)) s else s)"
proof -
  let ?d = "PACKET_TYPE_CRITICALITY_CHANGE # u32_bytes (of_nat l)"
  have t: "take packet_buf_size ?d = ?d"
    by (simp add: packet_buf_size_def MESSAGE_QUEUE_SIZE_def sizeof_completion_message_def)
  have "read_buf (?d @ drop 5 buf) 1 4 = Some (u32_bytes (of_nat l))"
    by (simp add: read_buf_def)
  moreover have "unat (bytes_u32 (u32_bytes (of_nat l))) = l"
    using bytes_u32_u32_bytes [of "of_nat l" "[]"] l
    by (simp add: unsigned_of_nat take_bit_nat_eq_self)
  ultimately show ?thesis
    by (simp add: ipc_receive_completion_messages_def t handle_packet_def Let_def
        sizeof_criticality_change_message_def del: take_Cons_numeral)
qed

end
