(* ===== verification/TimerInv.thy ===== *)
theory TimerInv
  imports TickInv IpcInv Processor
begin

text \<open>
  The body of the timer thread: it forgets the messages of the last tick, receives those of other
  processors, expires discarded jobs, advances the clock, and sends what the cores completed.
\<close>

section \<open>Incoming messages\<close>

lemma rb_live_inv: "rb_live n b q \<Longrightarrow> \<exists>a. rb_inv a q"
  by (auto simp: rb_live_def)

lemma rb_live_clear:
  assumes "rb_live n b q" and "n + length (rb_contents q) \<le> b"
  shows "\<exists>q'. ring_buffer_clear q = Some q' \<and> rb_live n (b - length (rb_contents q)) q'
           \<and> rb_contents q' = []"
proof -
  from assms obtain a where a: "rb_inv a q" "b \<le> a + length (rb_contents q)"
    and n: "unat (rb_buf_size q) = n" by (auto simp: rb_live_def)
  obtain q' where "ring_buffer_clear q = Some q'" "rb_inv a q'" "rb_contents q' = []"
    "rb_buf_size q' = rb_buf_size q"
    using ring_buffer_clear_eq [OF a(1)] by auto
  then show ?thesis using a n assms(2) by (intro exI [of _ q']) (auto simp: rb_live_def)
qed

lemma put_incoming_live:
  assumes "put_incoming m s = Some t" and "rb_live 64 a (incoming_completion_msg_queue (proc_state s))"
  shows "rb_live 64 a (incoming_completion_msg_queue (proc_state t))"
proof (cases "rb_room (incoming_completion_msg_queue (proc_state s)) = 0")
  case True
  then show ?thesis using assms(1) rb_live_put(1) [OF assms(2)] by (simp add: put_incoming_def)
next
  case False
  then show ?thesis using assms(1) rb_live_put(1,2) [OF assms(2), of m]
    by (auto simp: put_incoming_def)
qed

lemma handle_packet_live:
  assumes "handle_packet cfg n buf s = Some t"
    and L: "rb_live 64 a (incoming_completion_msg_queue (proc_state s))"
  shows "rb_live 64 a (incoming_completion_msg_queue (proc_state t))"
proof -
  have "foldM (read_completion buf) is s = Some t \<Longrightarrow>
      rb_live 64 a (incoming_completion_msg_queue (proc_state t))" for "is"
    by (rule foldM_keeps [where I = "\<lambda>s. rb_live 64 a (incoming_completion_msg_queue (proc_state s))"])
      (use L put_incoming_live in \<open>auto simp: read_completion_def bind_Some_iff\<close>)
  then show ?thesis using assms
    by (auto simp: handle_packet_def Let_def bind_Some_iff split: if_splits)
qed

lemma ipc_receive_live:
  assumes "ipc_receive_completion_messages cfg ds buf s = Some t"
    and "rb_live 64 a (incoming_completion_msg_queue (proc_state s))"
  shows "rb_live 64 a (incoming_completion_msg_queue (proc_state t))"
  using assms unfolding ipc_receive_completion_messages_def
proof (induction ds arbitrary: buf s)
  case (Cons d ds)
  then obtain u where "handle_packet cfg (length (take packet_buf_size d))
      (take packet_buf_size d @ drop (length (take packet_buf_size d)) buf) s = Some u"
    "receive_loop cfg ds (take packet_buf_size d @ drop (length (take packet_buf_size d)) buf) u = Some t"
    by (auto simp: Let_def bind_Some_iff)
  then show ?case using handle_packet_live Cons by blast
qed simp

text \<open>Well-formed packets fill the queue with all their messages, or block when they are too many.\<close>

lemma put_incoming_fold:
  assumes "rb_live 64 a (incoming_completion_msg_queue (proc_state s))"
    and "length ms \<le> rb_room (incoming_completion_msg_queue (proc_state s))"
  shows "\<exists>q. foldM put_incoming ms s = Some (upd_proc (incoming_completion_msg_queue_update (\<lambda>_. q)) s)
     \<and> rb_live 64 a q \<and> rb_contents q = rb_contents (incoming_completion_msg_queue (proc_state s)) @ ms"
  using assms
proof (induction ms arbitrary: s)
  case Nil
  then show ?case
    by (intro exI [of _ "incoming_completion_msg_queue (proc_state s)"]) (simp add: upd_proc_def)
next
  case (Cons m ms)
  let ?q = "incoming_completion_msg_queue (proc_state s)"
  let ?s = "upd_proc (incoming_completion_msg_queue_update (\<lambda>_. rb_push m ?q)) s"
  have r: "0 < rb_room ?q" using Cons.prems(2) by simp
  note P = rb_live_put [OF Cons.prems(1), of m]
  have "rb_room (rb_push m ?q) = rb_room ?q - 1"
    using rb_live_length [OF Cons.prems(1)] rb_live_length [OF P(2) [OF r]] P(3) [OF r] by simp
  then have "length ms \<le> rb_room (rb_push m ?q)" using Cons.prems(2) by simp
  then obtain q where q: "foldM put_incoming ms ?s
      = Some (upd_proc (incoming_completion_msg_queue_update (\<lambda>_. q)) ?s)"
    "rb_live 64 a q" "rb_contents q = (rb_contents ?q @ [m]) @ ms"
    using Cons.IH [of ?s] P(2,3) [OF r] by auto
  moreover have "upd_proc (incoming_completion_msg_queue_update (\<lambda>_. q)) ?s
      = upd_proc (incoming_completion_msg_queue_update (\<lambda>_. q)) s" by (simp add: upd_proc_def)
  moreover have "put_incoming m s = Some ?s" using P(1) r by (simp add: put_incoming_def)
  ultimately show ?case by (intro exI [of _ q]) simp
qed

lemma put_incoming_blocks:
  assumes "rb_live 64 a (incoming_completion_msg_queue (proc_state s))"
    and "rb_room (incoming_completion_msg_queue (proc_state s)) < length ms"
  shows "foldM put_incoming ms s = None"
  using assms
proof (induction ms arbitrary: s)
  case (Cons m ms)
  let ?q = "incoming_completion_msg_queue (proc_state s)"
  note P = rb_live_put [OF Cons.prems(1), of m]
  show ?case
  proof (cases "rb_room ?q = 0")
    case True
    then show ?thesis using P(1) by (simp add: put_incoming_def)
  next
    case False
    let ?s = "upd_proc (incoming_completion_msg_queue_update (\<lambda>_. rb_push m ?q)) s"
    have r: "0 < rb_room ?q" using False by simp
    have "rb_room (rb_push m ?q) = rb_room ?q - 1"
      using rb_live_length [OF Cons.prems(1)] rb_live_length [OF P(2) [OF r]] P(3) [OF r] by simp
    then have "foldM put_incoming ms ?s = None"
      using Cons.IH [of ?s] Cons.prems(2) P(2) [OF r] r by simp
    moreover have "put_incoming m s = Some ?s" using P(1) r by (simp add: put_incoming_def)
    ultimately show ?thesis by simp
  qed
qed simp

section \<open>Expired jobs\<close>

lemma release_expired_loop:
  assumes I: "sys_inv N B H s" and nc: "c = NUM_CORES_PER_PROC cfg"
  shows "wp (foldM (release_expired cfg) (queues s ProcDiscardQ) s) (\<lambda>t. sys_inv N B H t \<and> same_rest s t
     \<and> queues t = (queues s)(ProcDiscardQ :=
          filter (\<lambda>p. \<not> actual_deadline (jobs s p) \<le> now s) (queues s ProcDiscardQ)))"
proof -
  let ?P = "\<lambda>j. actual_deadline j \<le> now s"
  have e: "release_expired cfg p t = remove_body c ?P (\<lambda>j. j) p t"
    if "proc_state t = proc_state s" for p t
    using that nc by (simp add: release_expired_def remove_body_def upd_job_def)
  have "wp (foldM (release_expired cfg) (queues s ProcDiscardQ) s)
      (\<lambda>t. sys_inv N B H t \<and> removed_from ?P ProcDiscardQ [] s t)"
  proof (rule total.loop [where I = "\<lambda>ys t. sys_inv N B H t \<and> removed_from ?P ProcDiscardQ ys s t"])
    show "sys_inv N B H s \<and> removed_from ?P ProcDiscardQ (queues s ProcDiscardQ) s s"
      using I by (auto simp: removed_from_def)
    fix p ys t assume t: "sys_inv N B H t \<and> removed_from ?P ProcDiscardQ (p # ys) s t"
    then have "proc_state t = proc_state s" by (simp add: removed_from_def same_rest_def)
    from e [OF this] show "wp (release_expired cfg p t)
        (\<lambda>u. sys_inv N B H u \<and> removed_from ?P ProcDiscardQ ys s u)"
      using remove_body_ok [of N B H t ?P ProcDiscardQ p ys s "\<lambda>j. j" c] t I
      by (simp add: same_count_def)
  qed simp
  then show ?thesis by (rule wp_mono) (auto simp: removed_from_def)
qed

lemma release_expired_jobs_ok:
  assumes T: "tick_inv N B s"
  shows "wp (release_expired_jobs cfg s) (\<lambda>t. tick_inv N B t \<and> proc_state t = proc_state s
     \<and> sent_packets t = sent_packets s
     \<and> core_fatal_shutdown_requested t = core_fatal_shutdown_requested s
     \<and> proc_shutdown_requested t = proc_shutdown_requested s
     \<and> queues t = (queues s)(ProcDiscardQ :=
          filter (\<lambda>p. \<not> actual_deadline (jobs s p) \<le> now s) (queues s ProcDiscardQ)))"
proof -
  note D = tick_invD [OF T]
  let ?s = "upd_proc (discard_queue_lock_update (\<lambda>_. True)) s"
  have I: "sys_inv N B {#} ?s" using D(1) by simp
  have ps: "(proc_state s)\<lparr>discard_queue_lock := False\<rparr> = proc_state s" using D(3) by simp
  have "wp (foldM (release_expired cfg) (queues ?s ProcDiscardQ) ?s) (\<lambda>t.
      tick_inv N B (unlock_discard_queue t) \<and> proc_state (unlock_discard_queue t) = proc_state s
      \<and> sent_packets (unlock_discard_queue t) = sent_packets s
      \<and> core_fatal_shutdown_requested (unlock_discard_queue t) = core_fatal_shutdown_requested s
     \<and> proc_shutdown_requested (unlock_discard_queue t) = proc_shutdown_requested s
      \<and> queues (unlock_discard_queue t) = (queues s)(ProcDiscardQ :=
          filter (\<lambda>p. \<not> actual_deadline (jobs s p) \<le> now s) (queues s ProcDiscardQ)))"
  proof (rule wp_mono [OF release_expired_loop [OF I refl]])
    fix t assume t: "sys_inv N B {#} t \<and> same_rest ?s t \<and> queues t = (queues ?s)(ProcDiscardQ :=
          filter (\<lambda>p. \<not> actual_deadline (jobs ?s p) \<le> now ?s) (queues ?s ProcDiscardQ))"
    have "tick_inv N B (unlock_discard_queue t)"
      by (rule tick_held_step [OF T])
        (use t D(3,5) in \<open>auto simp: same_rest_def locals_empty_def\<close>)
    then show "tick_inv N B (unlock_discard_queue t) \<and> proc_state (unlock_discard_queue t) = proc_state s
      \<and> sent_packets (unlock_discard_queue t) = sent_packets s
      \<and> core_fatal_shutdown_requested (unlock_discard_queue t) = core_fatal_shutdown_requested s
     \<and> proc_shutdown_requested (unlock_discard_queue t) = proc_shutdown_requested s
      \<and> queues (unlock_discard_queue t) = (queues s)(ProcDiscardQ :=
          filter (\<lambda>p. \<not> actual_deadline (jobs s p) \<le> now s) (queues s ProcDiscardQ))"
      using t ps by (simp add: same_rest_def unlock_discard_queue_def)
  qed
  moreover have "lock_discard_queue s = Some ?s" using D(3) by (simp add: lock_discard_queue_def)
  ultimately show ?thesis by (simp add: release_expired_jobs_def)
qed

section \<open>The timer body\<close>

lemma timer_frames:
  "tick_held N B H (upd_proc (incoming_completion_msg_queue_update f) s) \<longleftrightarrow> tick_held N B H s"
  "tick_held N B H (upd_proc (outgoing_completion_msg_queue_update g) s) \<longleftrightarrow> tick_held N B H s"
  "tick_held N B H (upd_proc (system_time_update h) s) \<longleftrightarrow> tick_held N B H s"
  "tick_held N B H (upd_proc (incoming_completion_msg_queue_update f
     \<circ> system_criticality_level_update k) s) \<longleftrightarrow> tick_held N B H s"
  by (auto simp: tick_held_def locals_empty_def)

lemma advance_time_ok:
  shows "tick_held N B H (advance_time cfg s) \<longleftrightarrow> tick_held N B H s"
    and "proc_state (advance_time cfg s) = (proc_state s)\<lparr>system_time := now s + 1\<rparr>"
    and "queues (advance_time cfg s) = queues s" "sent_packets (advance_time cfg s) = sent_packets s"
    and "proc_shutdown_requested (advance_time cfg s) \<longleftrightarrow> proc_shutdown_requested s
      \<or> core_fatal_shutdown_requested s \<or> 0 < TOTAL_TICKS cfg \<and> TOTAL_TICKS cfg \<le> now s + 1"
  by (auto simp: advance_time_def Let_def timer_frames)

text \<open>The state after the messages of the last tick are gone and those of this tick are in.\<close>

lemma receive_phase_ok:
  assumes T: "tick_inv N B s" and L: "rb_live 64 a (incoming_completion_msg_queue (proc_state s))"
    and a: "128 \<le> a"
  shows "wlp (do { s \<leftarrow> clear_incoming s; ipc_receive_completion_messages cfg ds buf s }) (\<lambda>t.
     tick_inv N B t \<and> rb_live 64 (a - 64) (incoming_completion_msg_queue (proc_state t))
     \<and> level_ok cfg s t)"
proof -
  let ?q = "incoming_completion_msg_queue (proc_state s)"
  have n: "length (rb_contents ?q) \<le> 64" using rb_live_length [OF L] by simp
  obtain q where q: "ring_buffer_clear ?q = Some q" "rb_live 64 (a - length (rb_contents ?q)) q"
    using rb_live_clear [OF L] n a by auto
  let ?s = "upd_proc (incoming_completion_msg_queue_update (\<lambda>_. q)) s"
  have L': "rb_live 64 (a - 64) (incoming_completion_msg_queue (proc_state ?s))"
    using rb_live_mono [OF q(2), of "a - 64"] n a by simp
  have lv: "level_ok cfg s ?s"
    unfolding level_ok_def
  proof (intro conjI)
    show "\<exists>q' l. ?s = upd_proc (incoming_completion_msg_queue_update (\<lambda>_. q')
        \<circ> system_criticality_level_update (\<lambda>_. l)) s" by (intro exI) (rule level_forms(1))
  qed simp_all
  have "clear_incoming s = Some ?s" using q(1) by (simp add: clear_incoming_def)
  moreover have "wlp (ipc_receive_completion_messages cfg ds buf ?s) (\<lambda>t.
     tick_inv N B t \<and> rb_live 64 (a - 64) (incoming_completion_msg_queue (proc_state t))
     \<and> level_ok cfg s t)"
    unfolding wlp_iff
  proof (intro allI impI)
    fix t assume t: "ipc_receive_completion_messages cfg ds buf ?s = Some t"
    have lt: "level_ok cfg ?s t" using t by (rule ipc_receive_level)
    then obtain q' l where "t = upd_proc (incoming_completion_msg_queue_update (\<lambda>_. q')
        \<circ> system_criticality_level_update (\<lambda>_. l)) ?s" unfolding level_ok_def by blast
    then have "tick_inv N B t" using T by (simp only: timer_frames)
    then show "tick_inv N B t \<and> rb_live 64 (a - 64) (incoming_completion_msg_queue (proc_state t))
        \<and> level_ok cfg s t"
      using ipc_receive_live [OF t L'] level_ok_trans [OF lv lt] by blast
  qed
  ultimately show ?thesis by simp
qed

definition ticked :: "config \<Rightarrow> sys \<Rightarrow> sys \<Rightarrow> bool" where
  "ticked cfg s t \<longleftrightarrow> now t = now s + 1 \<and> processor_id (proc_state t) = processor_id (proc_state s)
     \<and> system_criticality_level (proc_state s) \<le> system_criticality_level (proc_state t)
     \<and> (system_criticality_level (proc_state s) < MAX_CRITICALITY_LEVELS cfg \<longrightarrow>
          system_criticality_level (proc_state t) < MAX_CRITICALITY_LEVELS cfg)
     \<and> sent_packets t = sent_packets s
         @ (if outgoing s = [] then [] else [completion_packet (outgoing s)])
     \<and> queues t = (queues s)(ProcDiscardQ :=
          filter (\<lambda>p. \<not> actual_deadline (jobs s p) \<le> now s) (queues s ProcDiscardQ))
     \<and> (proc_shutdown_requested t \<longleftrightarrow> proc_shutdown_requested s
         \<or> core_fatal_shutdown_requested s \<or> 0 < TOTAL_TICKS cfg \<and> TOTAL_TICKS cfg \<le> now t)"

lemma timer_body_ok:
  assumes T: "tick_ready N B b s" and L: "rb_live 64 a (incoming_completion_msg_queue (proc_state s))"
    and a: "128 \<le> a" and b: "128 \<le> b"
  shows "wlp (timer_body cfg ds buf s) (\<lambda>t. tick_ready N B (b - 64) t
     \<and> rb_live 64 (a - 64) (incoming_completion_msg_queue (proc_state t))
     \<and> outgoing t = [] \<and> ticked cfg s t)"
proof -
  have T': "tick_inv N B s" and Q: "rb_live 64 b (outgoing_completion_msg_queue (proc_state s))"
    using T by (simp_all add: tick_ready_def)
  let ?Q = "\<lambda>t. tick_ready N B (b - 64) t
     \<and> rb_live 64 (a - 64) (incoming_completion_msg_queue (proc_state t))
     \<and> outgoing t = [] \<and> ticked cfg s t"
  have rest: "wlp (release_expired_jobs cfg u) (\<lambda>v. wlp (ipc_send_completion_messages (advance_time cfg v)) ?Q)"
    if u: "tick_inv N B u" "rb_live 64 (a - 64) (incoming_completion_msg_queue (proc_state u))"
      "level_ok cfg s u" for u
  proof (rule wp_wlp, rule wp_mono [OF release_expired_jobs_ok [OF u(1)]])
    from u(3) obtain q l where e: "u = upd_proc (incoming_completion_msg_queue_update (\<lambda>_. q)
        \<circ> system_criticality_level_update (\<lambda>_. l)) s" unfolding level_ok_def by blast
    have lv: "system_criticality_level (proc_state s) \<le> l"
      "system_criticality_level (proc_state s) < MAX_CRITICALITY_LEVELS cfg \<longrightarrow> l < MAX_CRITICALITY_LEVELS cfg"
      using u(3) unfolding level_ok_def e by simp_all
    fix v
    assume v: "tick_inv N B v \<and> proc_state v = proc_state u \<and> sent_packets v = sent_packets u
     \<and> core_fatal_shutdown_requested v = core_fatal_shutdown_requested u
     \<and> proc_shutdown_requested v = proc_shutdown_requested u
     \<and> queues v = (queues u)(ProcDiscardQ :=
          filter (\<lambda>p. \<not> actual_deadline (jobs u p) \<le> now u) (queues u ProcDiscardQ))"
    let ?w = "advance_time cfg v"
    note A = advance_time_ok
    let ?o = "outgoing_completion_msg_queue (proc_state s)"
    have ow: "outgoing_completion_msg_queue (proc_state ?w) = ?o"
      using v by (simp add: A(2) e)
    obtain q' where q': "rb_live 64 (b - length (rb_contents ?o)) q'" "rb_contents q' = []"
      and snd: "ipc_send_completion_messages ?w = Some
         ((upd_proc (outgoing_completion_msg_queue_update (\<lambda>_. q')) ?w)
           \<lparr>sent_packets := sent_packets ?w
              @ (let ms = rb_contents ?o in if ms = [] then [] else [completion_packet ms])\<rparr>)"
      using ipc_send_ok [of b ?w] Q b unfolding ow by auto
    have "length (rb_contents ?o) \<le> 64" using rb_live_length [OF Q] by simp
    then have "rb_live 64 (b - 64) q'" using rb_live_mono [OF q'(1)] b by simp
    then show "wlp (ipc_send_completion_messages ?w) ?Q"
      unfolding snd using v lv u(2) q'(2)
      by (simp add: tick_ready_def timer_frames A ticked_def e Let_def)
  qed
  have "timer_body cfg ds buf s = Option.bind
      (do { s \<leftarrow> clear_incoming s; ipc_receive_completion_messages cfg ds buf s })
      (\<lambda>s. Option.bind (release_expired_jobs cfg s) (\<lambda>s. ipc_send_completion_messages (advance_time cfg s)))"
    by (simp add: timer_body_def)
  then show ?thesis
    using wlp_mono [OF receive_phase_ok [OF T' L a], of _ "\<lambda>u. wlp (release_expired_jobs cfg u)
        (\<lambda>v. wlp (ipc_send_completion_messages (advance_time cfg v)) ?Q)"] rest
    by simp
qed

end
