(* ===== verification/ThreadInv.thy ===== *)
theory ThreadInv
  imports TimerInv InitInv
begin

text \<open>
  The timer and the core threads together. The two barriers keep the body of the timer apart from the
  ticks, so the invariant of the shared state holds along every execution, for the first \<open>2 ^ 50\<close> steps
  (by then the 64-bit counters of the ring buffers would be worn out by at most \<open>2 ^ 56\<close>).
\<close>

section \<open>Phases\<close>

inductive_cases pstepE: "pstep cfg shared t u"

definition before_completion :: "core_pc \<Rightarrow> bool" where
  "before_completion k \<longleftrightarrow> k \<noteq> CSync"

definition phases_ok :: "config \<Rightarrow> threads \<Rightarrow> bool" where
  "phases_ok cfg t \<longleftrightarrow>
     (th_timer t \<in> {TProc, TTop, TCompletion} \<longrightarrow> (\<forall>c<NUM_CORES_PER_PROC cfg. th_core t c \<noteq> CSync))
     \<and> (th_timer t \<in> {TCheck, TBody, TSync} \<longrightarrow> (\<forall>c<NUM_CORES_PER_PROC cfg. th_core t c = CSync))"

interpretation phases: inductive_invariant "threads_init cfg" "pstep cfg shared" "phases_ok cfg" for cfg shared
proof unfold_locales
  show "threads_init cfg t \<Longrightarrow> phases_ok cfg t" for t
    by (simp add: threads_init_def phases_ok_def)
  show "phases_ok cfg u" if "phases_ok cfg t" and "pstep cfg shared t u" for t u
    using that(2,1) by cases (auto simp: phases_ok_def)
qed

text \<open>While the timer runs its body every core waits: the two never overlap.\<close>

lemma timer_alone:
  assumes "reachable (threads_init cfg) (pstep cfg shared) t" and "th_timer t = TBody"
    and "c < NUM_CORES_PER_PROC cfg"
  shows "th_core t c = CSync"
  using phases.inv_reachable [OF assms(1)] assms(2,3) by (simp add: phases_ok_def)

section \<open>The shared state\<close>

abbreviation lifetime :: nat where "lifetime \<equiv> 2 ^ 62"

definition past_tick :: "config \<Rightarrow> threads \<Rightarrow> nat set" where
  "past_tick cfg t = {c. c < NUM_CORES_PER_PROC cfg \<and> th_core t c \<notin> {CTop, CTick}}"

definition state_ok :: "config \<Rightarrow> nat \<Rightarrow> threads \<Rightarrow> bool" where
  "state_ok cfg n t \<longleftrightarrow>
     (\<exists>B a b. (\<forall>c. lifetime - 64 * n \<le> B c) \<and> lifetime - 64 * n \<le> a \<and> lifetime - 64 * n \<le> b
        \<and> tick_ready (NUM_CORES_PER_PROC cfg) B b (th_sys t)
        \<and> rb_live 64 a (incoming_completion_msg_queue (proc_state (th_sys t))))
     \<and> (th_timer t = TSync \<longrightarrow> outgoing (th_sys t) = [])
     \<and> length (outgoing (th_sys t)) \<le> card (past_tick cfg t)"

lemma past_tick_finite: "finite (past_tick cfg t)"
  by (simp add: past_tick_def)

lemma past_tick_room:
  assumes "c < NUM_CORES_PER_PROC cfg" and "th_core t c = CTick" and "NUM_CORES_PER_PROC cfg \<le> 64"
  shows "card (past_tick cfg t) < 64"
proof -
  have "past_tick cfg t \<subseteq> {..<NUM_CORES_PER_PROC cfg} - {c}"
    using assms(2) by (auto simp: past_tick_def)
  then have "card (past_tick cfg t) \<le> card ({..<NUM_CORES_PER_PROC cfg} - {c})"
    by (intro card_mono) simp_all
  also have "\<dots> < 64" using assms(1,3) by simp
  finally show ?thesis .
qed

lemma past_tick_done:
  assumes "c < NUM_CORES_PER_PROC cfg" and "th_core t c = CTick"
  shows "card (past_tick cfg (t\<lparr>th_sys := s, th_core := (th_core t)(c := CCompletion)\<rparr>))
         = Suc (card (past_tick cfg t))"
proof -
  have "past_tick cfg (t\<lparr>th_sys := s, th_core := (th_core t)(c := CCompletion)\<rparr>)
      = insert c (past_tick cfg t)" using assms by (auto simp: past_tick_def)
  moreover have "c \<notin> past_tick cfg t" using assms(2) by (simp add: past_tick_def)
  ultimately show ?thesis by (simp add: past_tick_finite)
qed

lemma past_tick_mono:
  assumes "\<And>c. c < NUM_CORES_PER_PROC cfg \<Longrightarrow> th_core t c \<notin> {CTop, CTick} \<Longrightarrow> th_core u c \<notin> {CTop, CTick}"
  shows "card (past_tick cfg t) \<le> card (past_tick cfg u)"
  by (rule card_mono) (use assms in \<open>auto simp: past_tick_def\<close>)

text \<open>A step that leaves the shared state alone.\<close>

definition alive :: "config \<Rightarrow> nat \<Rightarrow> sys \<Rightarrow> bool" where
  "alive cfg k s \<longleftrightarrow> (\<exists>B a b. (\<forall>c. k \<le> B c) \<and> k \<le> a \<and> k \<le> b
     \<and> tick_ready (NUM_CORES_PER_PROC cfg) B b s
     \<and> rb_live 64 a (incoming_completion_msg_queue (proc_state s)))"

lemma alive_mono: "alive cfg k s \<Longrightarrow> l \<le> k \<Longrightarrow> alive cfg l s"
  unfolding alive_def by (meson le_trans)

lemma state_ok_alive:
  "state_ok cfg n t \<longleftrightarrow> alive cfg (lifetime - 64 * n) (th_sys t)
     \<and> (th_timer t = TSync \<longrightarrow> outgoing (th_sys t) = [])
     \<and> length (outgoing (th_sys t)) \<le> card (past_tick cfg t)"
  by (simp add: state_ok_def alive_def)

lemma state_ok_move:
  assumes "state_ok cfg n t" and "th_sys u = th_sys t"
    and "th_timer u = TSync \<longrightarrow> th_timer t = TSync"
    and "\<And>c. c < NUM_CORES_PER_PROC cfg \<Longrightarrow> th_core t c \<notin> {CTop, CTick} \<Longrightarrow> th_core u c \<notin> {CTop, CTick}"
  shows "state_ok cfg (Suc n) u"
proof -
  have "card (past_tick cfg t) \<le> card (past_tick cfg u)" using assms(4) by (rule past_tick_mono)
  moreover have "alive cfg (lifetime - 64 * Suc n) (th_sys u)"
    using assms(1,2) alive_mono [of cfg "lifetime - 64 * n" "th_sys t"] by (simp add: state_ok_alive)
  ultimately show ?thesis using assms(1-3) by (simp add: state_ok_alive)
qed

lemma alive_tick:
  assumes A: "alive cfg k s" and G: "acet_returns cfg" and c: "c < NUM_CORES_PER_PROC cfg"
    and e: "scheduler_tick cfg c s = Some t" and room: "length (outgoing s) < 64" and k: "128 \<le> k"
  shows "alive cfg (k - 64) t" and "length (outgoing t) \<le> Suc (length (outgoing s))"
    and "now t = now s"
proof -
  obtain B a b where B: "\<forall>c. k \<le> B c" "k \<le> a" "k \<le> b"
    and T: "tick_ready (NUM_CORES_PER_PROC cfg) B b s"
    and L: "rb_live 64 a (incoming_completion_msg_queue (proc_state s))"
    using A unfolding alive_def by blast
  have "rb_live 64 b (outgoing_completion_msg_queue (proc_state s))" using T by (simp add: tick_ready_def)
  then have r: "0 < rb_room (outgoing_completion_msg_queue (proc_state s))"
    using rb_live_length [of 64 b] room by fastforce
  obtain i where i: "rb_inv i (incoming_completion_msg_queue (proc_state s))"
    using rb_live_inv [OF L] by blast
  have "64 \<le> B c" using B(1) k order_trans [of 64 k "B c"] by simp
  from scheduler_tick_ok [OF G T c refl this r i] e
  obtain B' where B': "spent c B B'" "tick_ready (NUM_CORES_PER_PROC cfg) B' b t"
    and P: "proc_step (proc_state s) (proc_state t)" by (auto simp: wlp_iff)
  have "k - 64 \<le> B' d" for d
    using B'(1) spec [OF B(1), of d] by (cases "d = c") (auto simp: spent_def)
  moreover have "rb_live 64 a (incoming_completion_msg_queue (proc_state t))"
    using L P by (simp add: proc_step_def)
  moreover have "k - 64 \<le> a" "k - 64 \<le> b" using B(2,3) by simp_all
  ultimately show "alive cfg (k - 64) t" unfolding alive_def using B'(2) by blast
  show "length (outgoing t) \<le> Suc (length (outgoing s))" "now t = now s"
    using P by (simp_all add: proc_step_def)
qed

lemma alive_timer:
  assumes A: "alive cfg k s" and e: "timer_body cfg ds buf s = Some t" and k: "128 \<le> k"
  shows "alive cfg (k - 64) t" and "outgoing t = []" and "ticked cfg s t"
proof -
  obtain B a b where B: "\<forall>c. k \<le> B c" "k \<le> a" "k \<le> b"
    and T: "tick_ready (NUM_CORES_PER_PROC cfg) B b s"
    and L: "rb_live 64 a (incoming_completion_msg_queue (proc_state s))"
    using A unfolding alive_def by blast
  have k': "128 \<le> a" "128 \<le> b" using B k by simp_all
  have R: "tick_ready (NUM_CORES_PER_PROC cfg) B (b - 64) t"
    "rb_live 64 (a - 64) (incoming_completion_msg_queue (proc_state t))"
    "outgoing t = []" "ticked cfg s t"
    using timer_body_ok [OF T L k', of cfg ds buf] e by (simp_all add: wlp_iff)
  have "k - 64 \<le> B d" for d using spec [OF B(1), of d] by simp
  moreover have "k - 64 \<le> a - 64" "k - 64 \<le> b - 64" using B(2,3) by simp_all
  ultimately show "alive cfg (k - 64) t" unfolding alive_def using R(1,2) by blast
  show "outgoing t = []" and "ticked cfg s t" by (rule R)+
qed

lemma alive_signal:
  "alive cfg k (s\<lparr>proc_shutdown_requested := r\<rparr>) \<longleftrightarrow> alive cfg k s"
  by (simp add: alive_def tick_ready_def)

text \<open>One step of the threads.\<close>

lemma state_ok_step:
  assumes S: "state_ok cfg n t" and P: "phases_ok cfg t" and st: "pstep cfg shared t u"
    and G: "acet_returns cfg" and N: "NUM_CORES_PER_PROC cfg \<le> 64" and n: "n < 2 ^ 50"
  shows "state_ok cfg (Suc n) u"
proof -
  have k: "128 \<le> lifetime - 64 * n" "lifetime - 64 * n - 64 = lifetime - 64 * Suc n" using n by simp_all
  note A = S [unfolded state_ok_alive]
  show ?thesis using st
  proof cases
    case (core_tick c s)
    have room: "length (outgoing (th_sys t)) < 64"
      using A past_tick_room [OF core_tick(2,3) N] by simp
    note T = alive_tick [OF conjunct1 [OF A] G core_tick(2,4) room k(1)]
    have "th_timer t \<noteq> TSync" using P core_tick(2,3) by (auto simp: phases_ok_def)
    then show ?thesis using A T(1,2) past_tick_done [OF core_tick(2,3), of s]
      unfolding state_ok_alive core_tick(1) k(2) by simp
  next
    case (timer_run ds buf s)
    note T = alive_timer [OF conjunct1 [OF A] timer_run(3) k(1)]
    show ?thesis using T(1,2) unfolding state_ok_alive timer_run(1) k(2) by simp
  next
    case sync_barrier
    then have "outgoing (th_sys u) = []" "alive cfg (lifetime - 64 * n) (th_sys u)" using A by simp_all
    then show ?thesis using alive_mono [of cfg "lifetime - 64 * n" "th_sys u" "lifetime - 64 * Suc n"]
      unfolding state_ok_alive by simp
  next
    case sigusr1
    then have "outgoing (th_sys u) = outgoing (th_sys t)" "past_tick cfg u = past_tick cfg t"
      "th_timer u = th_timer t" "alive cfg (lifetime - 64 * n) (th_sys u)"
      using A by (simp_all add: past_tick_def alive_signal)
    then show ?thesis using A alive_mono [of cfg "lifetime - 64 * n" "th_sys u" "lifetime - 64 * Suc n"]
      unfolding state_ok_alive by simp
  qed (auto intro!: state_ok_move [OF S] split: if_splits)
qed

lemma state_ok_init:
  assumes "threads_init cfg t"
  shows "state_ok cfg 0 t"
proof -
  from assms obtain pid s where b: "boot s" and e: "processor_init cfg pid s = Some (th_sys t)"
    and tt: "th_timer t = TTop" by (auto simp: threads_init_def)
  have I: "tick_inv (NUM_CORES_PER_PROC cfg) (\<lambda>_. lifetime) (th_sys t)"
    "messages_empty (proc_state (th_sys t))"
    using processor_init_inv [OF b, of lifetime cfg pid] e by (simp_all add: wp_iff)
  have "rb_live 64 lifetime (incoming_completion_msg_queue (proc_state (th_sys t)))"
    "rb_live 64 lifetime (outgoing_completion_msg_queue (proc_state (th_sys t)))"
    "outgoing (th_sys t) = []"
    using I(2) by (simp_all add: messages_empty_def)
  then show ?thesis unfolding state_ok_alive alive_def tick_ready_def
    using I(1) tt by (intro conjI exI [of _ "\<lambda>_. lifetime"] exI [of _ lifetime]) simp_all
qed

text \<open>The invariant along an execution, counted in steps.\<close>

interpretation run: inductive_invariant
  "\<lambda>(n, t). n = 0 \<and> threads_init cfg t \<and> acet_returns cfg \<and> NUM_CORES_PER_PROC cfg \<le> 64"
  "\<lambda>(n, t) (m, u). m = Suc n \<and> n < 2 ^ 50 \<and> pstep cfg shared t u"
  "\<lambda>(n, t). state_ok cfg n t \<and> phases_ok cfg t \<and> acet_returns cfg \<and> NUM_CORES_PER_PROC cfg \<le> 64"
  for cfg shared
proof unfold_locales
  show "(\<lambda>(n, t). state_ok cfg n t \<and> phases_ok cfg t \<and> acet_returns cfg
      \<and> NUM_CORES_PER_PROC cfg \<le> 64) x"
    if "(\<lambda>(n, t). n = 0 \<and> threads_init cfg t \<and> acet_returns cfg \<and> NUM_CORES_PER_PROC cfg \<le> 64) x"
    for x :: "nat \<times> threads"
    using that state_ok_init [of cfg] phases.inv_init [of cfg] by (cases x) simp
  show "(\<lambda>(n, t). state_ok cfg n t \<and> phases_ok cfg t \<and> acet_returns cfg
      \<and> NUM_CORES_PER_PROC cfg \<le> 64) y"
    if "(\<lambda>(n, t). state_ok cfg n t \<and> phases_ok cfg t \<and> acet_returns cfg
      \<and> NUM_CORES_PER_PROC cfg \<le> 64) x"
      "(\<lambda>(n, t) (m, u). m = Suc n \<and> n < 2 ^ 50 \<and> pstep cfg shared t u) x y" for x y :: "nat \<times> threads"
    using that state_ok_step [of cfg] phases.inv_step [of cfg] by (cases x; cases y) auto
qed

end
