(* ===== verification/TimedStart.thy ===== *)
theory TimedStart
  imports TickReturns ThreadInv
begin

text \<open>
  A processor starts with a sound calendar, which a tick of the clock keeps until the clock comes
  within three periods of its end.
\<close>

section \<open>The start\<close>

text \<open>The static tables fit: \<open>P\<close> bounds the periods and deadlines, and every allocated task exists.\<close>

definition tables_fit :: "config \<Rightarrow> nat \<Rightarrow> bool" where
  "tables_fit cfg P \<longleftrightarrow> tables_ok cfg P \<and> 3 * P + 5000 < 2 ^ 32
     \<and> (\<forall>t\<in>set (system_tasks cfg). t_period t \<noteq> 0 \<and> unat (t_period t) \<le> P)
     \<and> (\<forall>m\<in>set (allocation_map cfg). unat (m_task_id m) \<le> MAX_TASKS cfg
          \<and> (\<exists>t\<in>set (system_tasks cfg). t_id t = m_task_id m))"

text \<open>What the C language makes of the static memory beyond \<open>boot\<close>: all of it is zero.\<close>

definition static_zero :: "sys \<Rightarrow> bool" where
  "static_zero s \<longleftrightarrow> boot s \<and> task_lookup s = (\<lambda>_. None) \<and> (\<forall>p. parent_task (jobs s p) = None)
     \<and> (\<forall>d. dj_arrival_tick (delegated_jobs_pool s d) = 0)
     \<and> (\<forall>c. cached_slack_horizon (cstate s c) = 0)"

lemma lookup_fold:
  "fold (\<lambda>t l. l(unat (t_id t) := Some t)) ts l0 i = Some task \<Longrightarrow> task \<in> set ts \<or> l0 i = Some task"
proof (induction ts arbitrary: l0)
  case (Cons t ts)
  show ?case using Cons.IH [of "l0(unat (t_id t) := Some t)"] Cons.prems by (auto split: if_splits)
qed simp

lemma lookup_fold_mono:
  "l0 i \<noteq> None \<Longrightarrow> fold (\<lambda>t l. l(unat (t_id t) := Some t)) ts l0 i \<noteq> None"
proof (induction ts arbitrary: l0)
  case (Cons t ts)
  show ?case using Cons.IH [of "l0(unat (t_id t) := Some t)"] Cons.prems by simp
qed simp

lemma lookup_fold_known:
  "t \<in> set ts \<Longrightarrow> fold (\<lambda>t l. l(unat (t_id t) := Some t)) ts l0 (unat (t_id t)) \<noteq> None"
proof (induction ts arbitrary: l0)
  case (Cons u ts)
  note mono = lookup_fold_mono [of "l0(unat (t_id u) := Some u)" "unat (t_id u)" ts, simplified fun_upd_same]
  show ?case
  proof (cases "u = t")
    case True
    then show ?thesis using mono by (simp del: fun_upd_apply)
  next
    case False
    then show ?thesis using Cons by (simp del: fun_upd_apply not_None_eq)
  qed
qed simp

text \<open>The start neither gives a job a task nor touches the pool of delegations.\<close>

definition same_start :: "sys \<Rightarrow> sys \<Rightarrow> bool" where
  "same_start s t \<longleftrightarrow> (\<forall>p. parent_task (jobs t p) = parent_task (jobs s p))
     \<and> delegated_jobs_pool t = delegated_jobs_pool s"

lemma same_start_push: "same_start s t \<Longrightarrow> same_start s (push_free c p t)"
  by (simp add: same_start_def push_free_def)

lemma same_start_pools:
  assumes "same_start s t"
  shows "same_start s (task_management_init n t)"
proof -
  have pool: "same_start s (fold (\<lambda>j. push_free i (JobPtr i j)) js u)" if "same_start s u" for i js u
    using that by (induction js arbitrary: u) (simp_all add: same_start_push)
  have "same_start s (fold (\<lambda>i u. fold (\<lambda>j. push_free i (JobPtr i j)) [0..<JOBS_PER_CORE]
      (u\<lparr>free_list := (free_list u)(i := None), remote_free_list := (remote_free_list u)(i := None)\<rparr>)) is u)"
    if "same_start s u" for "is" u
    using that
  proof (induction "is" arbitrary: u)
    case (Cons i "is")
    have "same_start s (u\<lparr>free_list := (free_list u)(i := None), remote_free_list := (remote_free_list u)(i := None)\<rparr>)"
      using Cons.prems by (simp add: same_start_def)
    then show ?case using Cons.IH pool by (simp del: fun_upd_apply)
  qed simp
  then show ?thesis using assms by (simp add: task_management_init_def)
qed

lemma same_start_init:
  assumes "processor_init cfg pid s = Some t"
  shows "same_start s t"
    and "NUM_CORES_PER_PROC cfg \<le> i \<Longrightarrow> cstate t i = cstate s i"
    and "task_lookup t = fold (\<lambda>t l. l(unat (t_id t) := Some t)) (system_tasks cfg) (task_lookup s)"
proof -
  let ?n = "NUM_CORES_PER_PROC cfg"
  let ?s1 = "(upd_proc (\<lambda>p. p\<lparr>system_time := 0, processor_id := pid,
       discard_queue_lock := False, system_criticality_level := 0\<rparr>) s)
       \<lparr>queues := (queues s)(ProcDiscardQ := [])\<rparr>"
  obtain s2 where s2: "ipc_thread_init ?s1 = Some s2" and sc: "scheduler_init cfg s2 = Some t"
    using assms by (auto simp: processor_init_def bind_Some_iff)
  let ?m = "fill_task_lookup cfg (task_management_init ?n s2)"
  obtain u where u: "foldM (init_core cfg) [0..<?n] ?m = Some u" and t: "t = init_migration cfg u"
    using sc by (auto simp: scheduler_init_def power_management_init_def bind_Some_iff)
  have one: "jobs w = jobs v \<and> delegated_jobs_pool w = delegated_jobs_pool v"
    if "init_core cfg i v = Some w" for i v w
    using that by (auto simp: init_core_def Let_def bind_Some_iff)
  have cores: "jobs w = jobs v \<and> delegated_jobs_pool w = delegated_jobs_pool v"
    if "foldM (init_core cfg) is v = Some w" for "is" v w
    using that by (induction "is" arbitrary: v) (auto simp: bind_Some_iff dest: one)
  have "delegated_jobs_pool (fold (\<lambda>i s. s\<lparr>delegated_jobs_free_list := (delegated_jobs_free_list s)(i := ds i)\<rparr>) is v)
      = delegated_jobs_pool v" for ds "is" v
    by (induction "is" arbitrary: v) simp_all
  then have mig: "delegated_jobs_pool (init_migration cfg v) = delegated_jobs_pool v" for v
    by (simp add: init_migration_def)
  have s12: "jobs s2 = jobs s" "delegated_jobs_pool s2 = delegated_jobs_pool s" "core_states s2 = core_states s"
    "task_lookup s2 = task_lookup s"
    using s2 by (auto simp: ipc_thread_init_def Let_def bind_Some_iff)
  then have "same_start s (task_management_init ?n s2)"
    by (intro same_start_pools) (simp add: same_start_def)
  then show "same_start s t" using cores [OF u]
    by (simp add: t same_start_def mig init_migration_fields fill_task_lookup_eq)
  show "task_lookup t = fold (\<lambda>t l. l(unat (t_id t) := Some t)) (system_tasks cfg) (task_lookup s)"
    using init_cores_ids [OF u] s12
    by (simp add: t init_migration_fields fill_task_lookup_eq task_management_init_sys_fields)
  show "cstate t i = cstate s i" if "?n \<le> i"
    using init_cores_ids [OF u] that s12
    by (simp add: t init_migration_fields fill_task_lookup_eq task_management_init_sys_fields)
qed

lemma processor_init_timed:
  assumes Z: "static_zero s" and e: "processor_init cfg pid s = Some t" and F: "tables_fit cfg P"
    and n: "now t = 0"
  shows "timed cfg P t"
proof -
  note S = same_start_init [OF e]
  note Z' = Z [unfolded static_zero_def] and F' = F [unfolded tables_fit_def]
  have lk: "task_lookup t = fold (\<lambda>t l. l(unat (t_id t) := Some t)) (system_tasks cfg) (\<lambda>_. None)"
    using S(3) Z' by simp
  have tasks: "t_period task \<noteq> 0 \<and> unat (t_period task) \<le> P" if "task \<in> set (system_tasks cfg)" for task
    using F' that by blast
  have "t_period task \<noteq> 0 \<and> unat (t_period task) \<le> P" if l: "task_lookup t i = Some task" for i task
  proof (rule tasks)
    show "task \<in> set (system_tasks cfg)"
      using lookup_fold [of "system_tasks cfg" "\<lambda>_. None" i task] l unfolding lk by simp
  qed
  moreover have "find_task_by_id cfg (m_task_id m) t \<noteq> None" if m: "m \<in> set (allocation_map cfg)" for m
  proof -
    obtain k where k: "k \<in> set (system_tasks cfg)" "t_id k = m_task_id m" "unat (m_task_id m) \<le> MAX_TASKS cfg"
      using F' m by blast
    have "task_lookup t (unat (m_task_id m)) \<noteq> None"
      using lookup_fold_known [OF k(1), of "\<lambda>_. None"] unfolding lk k(2) .
    then show ?thesis using k(3) by (simp add: find_task_by_id_def del: not_None_eq)
  qed
  moreover have "unat (cached_slack_horizon (cstate t d)) \<le> 5000" for d
  proof (cases "d < NUM_CORES_PER_PROC cfg")
    case True
    then show ?thesis using processor_init_ids(5) [OF e True]
      by (simp add: SLACK_CALC_HORIZON_TICKS_CAP_def word_le_nat_alt)
  qed (use S(2) [of d] Z' in simp)
  moreover have "timed_job cfg P 0 (job_times (jobs t p))" for p
    using S(1) Z' by (simp add: timed_job_def job_times_def same_start_def)
  moreover have "unat (dj_arrival_tick (delegated_jobs_pool t d)) \<le> unat (now t) + P" for d
    using S(1) Z' by (simp add: same_start_def)
  ultimately show ?thesis using n F' unfolding timed_def by simp
qed

section \<open>The clock\<close>

lemma timed_later:
  assumes T: "timed cfg P s" and n: "now t = now s + 1" and room: "unat (now s) + 3 * P + 5001 < 2 ^ 32"
    and "task_lookup t = task_lookup s"
    and "\<And>d. core_statics (cstate t d) = core_statics (cstate s d)"
    and j: "\<And>p. job_times (jobs t p) = job_times (jobs s p)"
    and d: "\<And>d. dj_arrival_tick (delegated_jobs_pool t d) = dj_arrival_tick (delegated_jobs_pool s d)"
  shows "timed cfg P t"
proof -
  have u: "unat (now t) = Suc (unat (now s))"
    using room n by (simp add: unat_word_ariths)
  have "cached_slack_horizon (cstate t c) = cached_slack_horizon (cstate s c)" for c
    using assms(5) [of c] by (simp add: core_statics_def)
  moreover have "timed_job cfg P (unat (now t)) (job_times (jobs t p))" for p
    using T j u by (auto simp: timed_def timed_job_def split: prod.splits dest: spec [of _ p])
  moreover have "unat (dj_arrival_tick (delegated_jobs_pool t k)) \<le> unat (now t) + P" for k
    using T d [of k] u by (auto simp: timed_def dest: spec [of _ k] intro: le_SucI)
  moreover have "find_task_by_id cfg i t = find_task_by_id cfg i s" for i
    using assms(4) by (simp add: find_task_by_id_def)
  ultimately show ?thesis using T assms(4) room u by (simp add: timed_def)
qed

end
