(* ===== verification/Demo.thy ===== *)
theory Demo
  imports TimedStart ExecTime PoolInv PowerInv
begin

text \<open>
  A small system on which the properties are applied: two cores, two levels, two tasks. The static
  memory is zero before \<^verbatim>\<open>main\<close>.
\<close>

section \<open>Configuration\<close>

definition demo_task :: task_struct where
  "demo_task = \<lparr>t_id = 1, t_period = 10, t_deadline = 10, t_wcet = [2, 4], t_crit_level = 1,
     t_num_replicas = 0\<rparr>"

definition demo_low :: task_struct where
  "demo_low = \<lparr>t_id = 2, t_period = 20, t_deadline = 20, t_wcet = [3, 3], t_crit_level = 0,
     t_num_replicas = 0\<rparr>"

definition demo_map :: task_alloc_map where
  "demo_map = \<lparr>m_task_id = 1, m_task_type = Primary, m_proc_id = 0, m_core_id = 0,
     m_tuned_deadlines = [6, 10]\<rparr>"

definition demo_cfg :: config where
  "demo_cfg = \<lparr>MAX_CRITICALITY_LEVELS = 2, NUM_CORES_PER_PROC = 2, MAX_TASKS = 2,
     system_tasks = [demo_task, demo_low], allocation_map = [demo_map], ENABLE_ECC = True,
     ENABLE_MIGRATION = True, ENABLE_PROCRASTINATION = True, ENABLE_DVFS = True, ENABLE_DPM = True,
     TOTAL_TICKS = 1000, RAND_MAX = 2147483647, rand_value = (\<lambda>_. 1000000000), powf = demo_powf\<rparr>"

lemma demo_cfg_simps [simp]:
  "NUM_CORES_PER_PROC demo_cfg = 2" "MAX_CRITICALITY_LEVELS demo_cfg = 2" "MAX_TASKS demo_cfg = 2"
  "allocation_map demo_cfg = [demo_map]" "system_tasks demo_cfg = [demo_task, demo_low]"
  "TOTAL_TICKS demo_cfg = 1000"
  by (simp_all add: demo_cfg_def)

lemma demo_acet: "acet_returns demo_cfg"
proof (rule acet_returnsI)
  show "rand_ok demo_cfg" by (simp add: rand_ok_def demo_cfg_def)
  show "powf_unit demo_cfg" by (rule demo_powf_unit) (simp add: demo_cfg_def)
qed simp_all

section \<open>Before \<^verbatim>\<open>main\<close>\<close>

definition zero_requests :: "migration_request ring_buffer" where
  "zero_requests = \<lparr>rb_head = 0, rb_tail = 0, rb_seq = [], rb_buf_size = 0,
     rb_buf_elem_size = 0, rb_buffer = []\<rparr>"

definition zero_acks :: "delegation_ack ring_buffer" where
  "zero_acks = \<lparr>rb_head = 0, rb_tail = 0, rb_seq = [], rb_buf_size = 0,
     rb_buf_elem_size = 0, rb_buffer = []\<rparr>"

definition zero_messages :: "completion_message ring_buffer" where
  "zero_messages = \<lparr>rb_head = 0, rb_tail = 0, rb_seq = [], rb_buf_size = 0,
     rb_buf_elem_size = 0, rb_buffer = []\<rparr>"

definition zero_core :: core_state where
  "zero_core = \<lparr>delegated_job_queue = [], migration_request_queue = zero_requests,
     delegation_ack_queue = zero_acks, rq_lock = False, running_job = None,
     core_next_migration_eligible_tick = 0, cached_slack_horizon = 0,
     dpm_block = \<lparr>dpm_start_time = 0, dpm_end_time = 0, in_low_power_state = False\<rparr>,
     is_idle = False, current_dvfs_level = 0, proc_id = 0, core_id = 0, local_criticality_level = 0,
     decision_point = False\<rparr>"

definition demo_boot :: sys where
  "demo_boot = \<lparr>jobs = (\<lambda>_. zero_job), free_list = (\<lambda>_. None), remote_free_list = (\<lambda>_. None),
     queues = (\<lambda>_. []), core_states = (\<lambda>_. zero_core),
     core_summaries = (\<lambda>_. \<lparr>sum_util = Fin 0, sum_slack = Fin 0, sum_next_arrival = 0,
                          sum_is_idle = False, sum_dvfs_level = 0\<rparr>),
     task_lookup = (\<lambda>_. None),
     proc_state = \<lparr>system_criticality_level = 0, system_time = 0, discard_queue_lock = False,
       incoming_completion_msg_queue = zero_messages, outgoing_completion_msg_queue = zero_messages,
       processor_id = 0\<rparr>,
     delegated_jobs_pool = (\<lambda>_. \<lparr>dj_arrival_tick = 0, dj_task_id = 0, dj_owned_by_remote = False\<rparr>),
     delegated_jobs_free_list = (\<lambda>_. []), core_fatal_shutdown_requested = False,
     proc_shutdown_requested = False, sent_packets = [], rand_count = 0\<rparr>"

lemma demo_boot: "boot demo_boot"
  by (simp add: boot_def demo_boot_def zero_job_def)

definition demo0 :: sys where
  "demo0 = the (processor_init demo_cfg 0 demo_boot)"

definition demo_budget :: nat where "demo_budget = 2 ^ 62"

lemma demo_budget: "128 \<le> demo_budget" "64 \<le> demo_budget" "32 \<le> demo_budget"
  "demo_budget + 64 < 2 ^ 64" "demo_budget + 32 < 2 ^ 64"
  by (simp_all add: demo_budget_def)

lemma demo0:
  shows "processor_init demo_cfg 0 demo_boot = Some demo0" and "tick_inv 2 (\<lambda>_. demo_budget) demo0"
    and "i < 2 \<Longrightarrow> core_fresh (demo_budget) (cstate demo0 i)" and "queues demo0 q = []"
    and "messages_empty (proc_state demo0)" and "now demo0 = 0"
    and "system_criticality_level (proc_state demo0) = 0"
    and "\<not> core_fatal_shutdown_requested demo0" and "\<not> proc_shutdown_requested demo0"
proof -
  from processor_init_inv [OF demo_boot demo_budget(3,5), of demo_cfg 0] obtain t where
    t: "processor_init demo_cfg 0 demo_boot = Some t"
    and R: "tick_inv 2 (\<lambda>_. demo_budget) t \<and> (\<forall>i<2. core_fresh (demo_budget) (cstate t i)) \<and> (\<forall>q. queues t q = [])
      \<and> messages_empty (proc_state t) \<and> now t = 0 \<and> system_criticality_level (proc_state t) = 0
      \<and> processor_id (proc_state t) = 0
      \<and> core_fatal_shutdown_requested t = core_fatal_shutdown_requested demo_boot
      \<and> proc_shutdown_requested t = proc_shutdown_requested demo_boot"
    by (auto simp: wp_iff)
  have "demo0 = t" using t by (simp add: demo0_def)
  then show "processor_init demo_cfg 0 demo_boot = Some demo0" "tick_inv 2 (\<lambda>_. demo_budget) demo0"
    "i < 2 \<Longrightarrow> core_fresh (demo_budget) (cstate demo0 i)" "queues demo0 q = []"
    "messages_empty (proc_state demo0)" "now demo0 = 0"
    "system_criticality_level (proc_state demo0) = 0"
    "\<not> core_fatal_shutdown_requested demo0" "\<not> proc_shutdown_requested demo0"
    using t R by (auto simp: demo_boot_def)
qed

lemma demo0_core:
  assumes "i < 2"
  shows "running_job (cstate demo0 i) = None" and "requests (cstate demo0 i) = []"
    and "local_criticality_level (cstate demo0 i) = 0"
  using demo0(3) [OF assms] by (simp_all add: core_fresh_def)

lemma demo0_messages:
  shows "rb_live 64 (demo_budget) (incoming_completion_msg_queue (proc_state demo0))"
    and "rb_live 64 (demo_budget) (outgoing_completion_msg_queue (proc_state demo0))"
    and "outgoing demo0 = []" and "rb_contents (incoming_completion_msg_queue (proc_state demo0)) = []"
  using demo0(5) demo_budget(2,4) by (auto simp: messages_empty_def)

lemma demo0_ids:
  assumes "i < 2"
  shows "proc_id (cstate demo0 i) = 0" and "core_id (cstate demo0 i) = i"
    and "\<not> in_low_power_state (dpm_block (cstate demo0 i))"
    and "delegated_job_queue (cstate demo0 i) = []"
    and "cached_slack_horizon (cstate demo0 i) \<le> 5000"
    and "current_dvfs_level (cstate demo0 i) = 0"
    and "acks_fresh (delegation_ack_queue (cstate demo0 i))"
  using processor_init_ids [OF demo0(1), of i] assms
  by (simp_all add: demo_boot_def zero_core_def SLACK_CALC_HORIZON_TICKS_CAP_def)

lemma demo0_tasks: "find_task_by_id demo_cfg 1 demo0 = Some demo_task"
  using processor_init_ids(8) [OF demo0(1), of 0]
  by (simp add: find_task_by_id_def demo_task_def demo_low_def)

lemma demo_map_simps [simp]:
  "m_task_id demo_map = 1" "m_proc_id demo_map = 0" "m_core_id demo_map = 0"
  "m_tuned_deadlines demo_map = [6, 10]" "m_task_type demo_map = Primary"
  by (simp_all add: demo_map_def)

lemma demo_task_simps [simp]:
  "t_id demo_task = 1" "t_period demo_task = 10" "t_deadline demo_task = 10"
  "t_wcet demo_task = [2, 4]" "t_crit_level demo_task = 1"
  by (simp_all add: demo_task_def)

lemma demo0_on_core: "on_core demo0 0 demo_map" "\<not> on_core demo0 1 demo_map"
  using demo0_ids [of 0] demo0_ids [of 1] by (simp_all add: on_core_def)

section \<open>A new job\<close>

definition demo_p :: jptr where "demo_p = the (fst (create_job demo_task 0 demo0))"

definition demo_new :: sys where "demo_new = snd (create_job demo_task 0 demo0)"

lemma demo_refs: "refs 2 demo0 p = 0"
proof -
  have S: "sys_inv 2 (\<lambda>_. demo_budget) {#} demo0" using demo0(2) by (rule tick_invD)
  have "unlinked (jobs demo0 p)"
    using queue_okD(2) [OF sys_invD(1) [OF S], of p] demo0(4) by (simp add: unlinked_def)
  moreover have "core_refs (cstate demo0 c) p = 0" if "c < 2" for c
    using demo0_core [OF that] by (simp add: core_refs_def)
  ultimately show ?thesis by (simp add: refs_def)
qed

lemma demo_create: "create_job demo_task 0 demo0 = (Some demo_p, demo_new)"
proof -
  have S: "sys_inv 2 (\<lambda>_. demo_budget) {#} demo0" using demo0(2) by (rule tick_invD)
  have C: "counted 2 (\<lambda>_. 0) demo0" using sys_invD(2) [OF S] by (simp add: demo_refs)
  obtain r s where e: "create_job demo_task 0 demo0 = (r, s)" by fastforce
  have "r \<noteq> None"
    using create_job_None [OF C, of 0 demo_task s "JobPtr 0 0"] e by (auto simp: JOBS_PER_CORE_def)
  then show ?thesis using e by (auto simp: demo_p_def demo_new_def)
qed

lemma demo_new_held:
  shows "tick_held 2 (\<lambda>_. demo_budget) {#demo_p#} demo_new" and "not_running 2 demo_new demo_p"
    and "jobs demo_new demo_p = new_job_fields demo_task 0 (jobs demo0 demo_p)"
    and "core_states demo_new = core_states demo0" and "proc_state demo_new = proc_state demo0"
    and "queues demo_new = queues demo0"
  using new_job_held(2) [OF demo0(2) _ demo_create refl] create_job_sys_fields [OF demo_create]
  by simp_all

text \<open>Its parameters, as an arrival at time 0 sets them.\<close>

definition demo_fields :: "job_struct \<Rightarrow> job_struct" where
  "demo_fields j = j\<lparr>state := JOB_STATE_READY, arrival_time := 0, actual_deadline := 10,
     virtual_deadline := 6, relative_tuned_deadlines := [6, 10], wcet := lit 2 1, acet := lit 1 1,
     executed_time := lit 0 1, is_replica := False, job_link := LinkNull\<rparr>"

definition demo_held :: sys where
  "demo_held = upd_job demo_p demo_fields demo_new"

lemma demo_job:
  "jobs demo_held demo_p = demo_fields (new_job_fields demo_task 0 (jobs demo0 demo_p))"
  by (simp add: demo_held_def demo_new_held)

lemma demo_held:
  shows "tick_held 2 (\<lambda>_. demo_budget) {#demo_p#} demo_held" and "not_running 2 demo_held demo_p"
    and "core_states demo_held = core_states demo0" and "proc_state demo_held = proc_state demo0"
    and "queues demo_held = queues demo0"
proof -
  show "tick_held 2 (\<lambda>_. demo_budget) {#demo_p#} demo_held" unfolding demo_held_def
    by (rule upd_private_held [OF demo_new_held(1)])
      (simp_all add: demo_new_held(3) new_job_fields_def demo_fields_def unlinked_def same_pool_def)
  show "not_running 2 demo_held demo_p"
    using demo_new_held(2) by (simp add: not_running_def demo_held_def)
qed (simp_all add: demo_held_def demo_new_held)

section \<open>The job in the ready queue, and running\<close>

definition demo_queued :: sys where "demo_queued = enqueued 0 demo_p demo_held"

definition demo_running :: sys where "demo_running = start_job 0 demo_p demo_held"

lemma demo_queued:
  shows "tick_inv 2 (\<lambda>_. demo_budget) demo_queued" and "proc_state demo_queued = proc_state demo0"
    and "queues demo_queued (ReadyQ 0) = [demo_p]"
    and "running_job (cstate demo_queued 0) = None"
    and "requests (cstate demo_queued c) = requests (cstate demo0 c)"
proof -
  have j: "unlinked (jobs demo_held demo_p)" "state (jobs demo_held demo_p) = JOB_STATE_READY"
    "\<not> is_being_offered (jobs demo_held demo_p)" "\<not> is_replica (jobs demo_held demo_p)"
    "\<not> t_crit_level (ptask (jobs demo_held demo_p)) < 0"
    by (simp_all add: demo_job demo_fields_def new_job_fields_def unlinked_def)
  show "tick_inv 2 (\<lambda>_. demo_budget) demo_queued" unfolding demo_queued_def
    by (rule enqueued_ok [OF demo_held(1) j(1,2) demo_held(2) j(3)])
  have l: "local_criticality_level (cstate demo_held 0) = 0" using demo0_core by (simp add: demo_held)
  show "queues demo_queued (ReadyQ 0) = [demo_p]"
    using j l demo0(4) by (simp add: demo_queued_def enqueued_def Let_def linked_state_def
        arrival_queue_def kind_queue_def demo_held(5))
  show "running_job (cstate demo_queued 0) = None"
    using demo0_core by (simp add: demo_queued_def enqueued_def Let_def linked_state_def demo_held(3))
  show "requests (cstate demo_queued c) = requests (cstate demo0 c)"
    by (simp add: demo_queued_def enqueued_def Let_def linked_state_def demo_held(3) requests_def)
qed (simp add: demo_queued_def enqueued_fields demo_held)

lemma demo_running:
  shows "tick_inv 2 (\<lambda>_. demo_budget) demo_running" and "proc_state demo_running = proc_state demo0"
    and "running_job (cstate demo_running 0) = Some demo_p"
    and "jobs demo_running demo_p = (jobs demo_held demo_p)\<lparr>state := JOB_STATE_RUNNING\<rparr>"
    and "local_criticality_level (cstate demo_running 0) = 0"
    and "queues demo_running q = []"
proof -
  have "sys_inv 2 (\<lambda>_. demo_budget) {#} demo_running" unfolding demo_running_def
  proof (rule start_job_ok)
    show "sys_inv 2 (\<lambda>_. demo_budget) {#demo_p#} demo_held" using demo_held(1) by (rule tick_invD)
    show "running_job (cstate demo_held 0) = None" using demo0_core by (simp add: demo_held)
    show "job_link (jobs demo_held demo_p) = LinkNull" by (simp add: demo_job demo_fields_def)
  qed (simp_all add: demo_held)
  moreover have "is_idle (cstate demo0 1) \<and> running_job (cstate demo0 1) = None"
    using demo0(3) [of 1] by (simp add: core_fresh_def)
  moreover have "c = 0 \<or> c = 1" if "c < 2" for c :: nat using that by auto
  ultimately show "tick_inv 2 (\<lambda>_. demo_budget) demo_running"
    using demo_held(1) by (auto simp: tick_held_def demo_running_def start_job_def demo_held(3))
qed (simp_all add: demo_running_def start_job_def demo_held demo0 demo0_core)

text \<open>The running job has used up its budget of the lower level, but has not finished.\<close>

definition demo_overrun :: sys where
  "demo_overrun = upd_job demo_p (\<lambda>j. j\<lparr>acet := lit 3 1, executed_time := lit 1 1\<rparr>) demo_running"

lemma demo_overrun:
  shows "tick_inv 2 (\<lambda>_. demo_budget) demo_overrun" and "core_states demo_overrun = core_states demo_running"
    and "proc_state demo_overrun = proc_state demo0"
    and "jobs demo_overrun demo_p = (jobs demo_running demo_p)\<lparr>acet := lit 3 1, executed_time := lit 1 1\<rparr>"
proof -
  have "sys_inv 2 (\<lambda>_. demo_budget) {#} demo_overrun" unfolding demo_overrun_def
    using tick_invD(1) [OF demo_running(1)] by (rule sys_inv_upd_same) (simp_all add: same_count_def same_entry_def)
  then show "tick_inv 2 (\<lambda>_. demo_budget) demo_overrun" using tick_invD(5) [OF demo_running(1)]
    by (intro tick_held_step [OF demo_running(1)]) (simp_all add: demo_overrun_def)
qed (simp_all add: demo_overrun_def demo_running(2))

section \<open>A job of the future\<close>

text \<open>The new job waits for its arrival at time \<open>a\<close>: in hand, offered to another core or not, and
  pending on core 0.\<close>

definition demo_idle :: "u32 \<Rightarrow> bool \<Rightarrow> sys" where
  "demo_idle a b = upd_job demo_p (\<lambda>j. j\<lparr>state := JOB_STATE_IDLE, arrival_time := a,
     is_being_offered := b\<rparr>) demo_held"

definition demo_pending :: "u32 \<Rightarrow> sys" where
  "demo_pending a = linked_state arrival_time (PendingQ 0) demo_p (demo_idle a False)"

lemma demo_idle:
  shows "tick_held 2 (\<lambda>_. demo_budget) {#demo_p#} (demo_idle a b)" and "not_running 2 (demo_idle a b) demo_p"
    and "core_states (demo_idle a b) = core_states demo0" and "proc_state (demo_idle a b) = proc_state demo0"
    and "queues (demo_idle a b) = queues demo0"
    and "jobs (demo_idle a b) demo_p = (jobs demo_held demo_p)\<lparr>state := JOB_STATE_IDLE, arrival_time := a,
      is_being_offered := b\<rparr>"
proof -
  show "tick_held 2 (\<lambda>_. demo_budget) {#demo_p#} (demo_idle a b)" unfolding demo_idle_def
    by (rule upd_private_held [OF demo_held(1)])
      (simp_all add: demo_job new_job_fields_def demo_fields_def unlinked_def same_pool_def)
  show "not_running 2 (demo_idle a b) demo_p"
    using demo_held(2) by (simp add: not_running_def demo_idle_def)
qed (simp_all add: demo_idle_def demo_held)

lemma demo_pending:
  shows "tick_inv 2 (\<lambda>_. demo_budget) (demo_pending a)" and "proc_state (demo_pending a) = proc_state demo0"
    and "queues (demo_pending a) q = (if q = PendingQ 0 then [demo_p] else [])"
    and "jobs (demo_pending a) demo_p = (jobs (demo_idle a False) demo_p)\<lparr>job_link := LinkIn (PendingQ 0)\<rparr>"
    and "core_states (demo_pending a) = core_states demo0"
proof -
  have "unlinked (jobs (demo_idle a False) demo_p)"
    by (simp add: demo_idle(6) demo_job demo_fields_def unlinked_def)
  then have "sys_inv 2 (\<lambda>_. demo_budget) {#} (demo_pending a)" unfolding demo_pending_def
    by (intro sys_inv_add [OF tick_invD(1) [OF demo_idle(1)]]) (simp_all add: demo_idle(2,6))
  moreover have "locals_empty (demo_pending a)"
    using tick_invD(5) [OF demo_idle(1)] by (simp add: demo_pending_def locals_empty_linked)
  ultimately show "tick_inv 2 (\<lambda>_. demo_budget) (demo_pending a)"
    by (intro tick_held_step [OF demo_idle(1)]) (simp_all add: demo_pending_def)
qed (simp_all add: demo_pending_def linked_state_def demo_idle demo0)

section \<open>The calendar and the mailboxes\<close>

lemma demo_static: "static_zero demo_boot"
  using demo_boot by (simp add: static_zero_def demo_boot_def zero_job_def zero_core_def)

lemma demo_tables: "tables_fit demo_cfg 20"
proof -
  have "unat ([6, 10 :: u32] ! l) \<le> 20" if "l < 2" for l :: nat
  proof -
    have "l = 0 \<or> l = 1" using that by auto
    then show ?thesis by auto
  qed
  then show ?thesis by (auto simp: tables_fit_def tables_ok_def demo_low_def)
qed

lemma demo0_timed: "timed demo_cfg 20 demo0"
  by (rule processor_init_timed [OF demo_static demo0(1) demo_tables demo0(6)])

lemma demo_held_timed: "timed demo_cfg 20 demo_held"
proof (rule new_job_timed(1) [OF demo_create _ demo0_timed])
  have "[0..<2] = [0, 1 :: nat]" by (simp add: upt_rec)
  then show "given_times demo_cfg demo_map 0 demo_p demo_new demo_held"
    by (simp add: given_times_def demo_held_def job_times_def demo_fields_def demo_new_held)
qed simp_all

lemma demo_running_timed: "timed demo_cfg 20 demo_running"
proof -
  have t: "timing demo_running = timing demo_held" by (simp add: demo_running_def start_job_def)
  show ?thesis using timed_cong [OF t] demo_held_timed by simp
qed

text \<open>The mailboxes are empty.\<close>

lemma demo_mail: "mail_ready 32 2 0 demo_running"
proof -
  have q: "migration_request_queue (cstate demo_running d) = migration_request_queue (cstate demo0 d)"
    "delegation_ack_queue (cstate demo_running d) = delegation_ack_queue (cstate demo0 d)" for d
    by (simp_all add: demo_running_def start_job_def demo_held(3))
  have r: "rb_room (migration_request_queue (cstate demo0 d)) = 32" if "d < 2" for d
    using demo0(3) [OF that] rb_live_length [of 32] by (force simp: core_fresh_def requests_def)
  have a: "rb_live 200 demo_budget (delegation_ack_queue (cstate demo0 d))"
    "rb_room (delegation_ack_queue (cstate demo0 d)) = 200" if "d < 2" for d
  proof -
    have f: "acks_fresh (delegation_ack_queue (cstate demo0 d))" by (rule demo0_ids(7) [OF that])
    then show l: "rb_live 200 demo_budget (delegation_ack_queue (cstate demo0 d))"
      by (simp add: acks_fresh_def demo_budget_def)
    show "rb_room (delegation_ack_queue (cstate demo0 d)) = 200"
      using rb_live_length [OF l] f by (simp add: acks_fresh_def)
  qed
  have "(400 :: nat) \<le> demo_budget" by (simp add: demo_budget_def)
  then show ?thesis using r a
    by (auto simp: mail_ready_def requests_room_def acks_room_def acks_live_def q intro: exI [of _ "\<lambda>_. demo_budget"])
qed

lemma demo_load: "load 0 demo_running = 1"
  by (simp add: load_def waiting_def demo_running opt_list_def)

end
