(* ===== verification/SchedProps.thy ===== *)
theory SchedProps
  imports Demo
begin

text \<open>
  The properties of the scheduler of one processor, over the lemmas of the component theories, each
  applied to the small system of theory \<^theory_text>\<open>Demo\<close>.
\<close>

section \<open>The tick\<close>

text \<open>C2: invariant. A tick of any core, taken in a state that satisfies the invariant, leaves one
  that does: every queue is sorted by its key, its entries are linked into it alone and are of the
  kind it holds; the reference count of every job in use is the number of queues, cores and requests
  that refer to it, and the other jobs are on the free lists; no job runs on two cores; all locks are
  released again. The tick sends at most one completion message and does not touch the clock. And the
  tick returns, with the calendar kept, when the times of all jobs lie within \<open>P\<close> of a clock that is
  more than three such periods from its end and, if jobs can migrate, the mailboxes of the other cores
  have room for one request per job of the core and two per allocated task and for 32 answers.\<close>

theorem tick_keeps_invariant:
  assumes "acet_returns cfg" and "tick_ready (NUM_CORES_PER_PROC cfg) B b s"
    and "c < NUM_CORES_PER_PROC cfg" and "64 \<le> B c"
    and "0 < rb_room (outgoing_completion_msg_queue (proc_state s))"
    and "rb_inv a (incoming_completion_msg_queue (proc_state s))"
  shows "wlp (scheduler_tick cfg c s) (\<lambda>t.
     (\<exists>B'. (\<forall>d. d \<noteq> c \<longrightarrow> B' d = B d) \<and> B c \<le> B' c + 32 \<and> tick_ready (NUM_CORES_PER_PROC cfg) B' b t)
     \<and> proc_step (proc_state s) (proc_state t))
    \<and> (timed cfg P s \<and> (ENABLE_MIGRATION cfg \<longrightarrow>
          mail_ready (load c s + 2 * length (allocation_map cfg)) (NUM_CORES_PER_PROC cfg) c s)
        \<longrightarrow> (\<exists>t. scheduler_tick cfg c s = Some t \<and> timed cfg P t))"
proof
  show "wlp (scheduler_tick cfg c s) (\<lambda>t.
     (\<exists>B'. (\<forall>d. d \<noteq> c \<longrightarrow> B' d = B d) \<and> B c \<le> B' c + 32 \<and> tick_ready (NUM_CORES_PER_PROC cfg) B' b t)
     \<and> proc_step (proc_state s) (proc_state t))"
    using scheduler_tick_ok [OF assms(1-3) refl assms(4-6)]
    by (rule wlp_mono) (auto simp: spent_def)
qed (use scheduler_tick_returns [OF assms(1-3) refl assms(4-6)] in \<open>simp add: wp_iff\<close>)

lemma demo_ready:
  assumes "tick_inv 2 (\<lambda>_. demo_budget) s" and "proc_state s = proc_state demo0"
  shows "tick_ready 2 (\<lambda>_. demo_budget) (demo_budget) s"
    and "0 < rb_room (outgoing_completion_msg_queue (proc_state s))"
    and "\<exists>a. rb_inv a (incoming_completion_msg_queue (proc_state s))"
proof -
  show "tick_ready 2 (\<lambda>_. demo_budget) (demo_budget) s"
    using assms demo0_messages(2) by (simp add: tick_ready_def)
  show "0 < rb_room (outgoing_completion_msg_queue (proc_state s))"
    using rb_live_length [OF demo0_messages(2)] demo0_messages(3) assms(2) by simp
  show "\<exists>a. rb_inv a (incoming_completion_msg_queue (proc_state s))"
    using rb_live_inv [OF demo0_messages(1)] assms(2) by simp
qed

theorem tick_keeps_invariant_witness:
  "wp (scheduler_tick demo_cfg 0 demo_running) (\<lambda>t.
     (\<exists>B'. tick_ready 2 B' (demo_budget) t) \<and> now t = 0 \<and> length (outgoing t) \<le> 1)"
proof -
  obtain a where a: "rb_inv a (incoming_completion_msg_queue (proc_state demo_running))"
    using demo_ready(3) [OF demo_running(1,2)] by blast
  have K: "wlp (scheduler_tick demo_cfg 0 demo_running) (\<lambda>t.
     (\<exists>B'. (\<forall>d. d \<noteq> 0 \<longrightarrow> B' d = demo_budget) \<and> demo_budget \<le> B' 0 + 32
         \<and> tick_ready (NUM_CORES_PER_PROC demo_cfg) B' (demo_budget) t)
     \<and> proc_step (proc_state demo_running) (proc_state t))
    \<and> (timed demo_cfg 20 demo_running \<and> (ENABLE_MIGRATION demo_cfg \<longrightarrow>
          mail_ready (load 0 demo_running + 2 * length (allocation_map demo_cfg))
            (NUM_CORES_PER_PROC demo_cfg) 0 demo_running)
        \<longrightarrow> (\<exists>t. scheduler_tick demo_cfg 0 demo_running = Some t \<and> timed demo_cfg 20 t))"
    by (rule tick_keeps_invariant [OF demo_acet _ _ _ _ a])
      (simp_all add: demo_ready [OF demo_running(1,2)] demo_budget)
  have "mail_ready (load 0 demo_running + 2 * length (allocation_map demo_cfg)) 2 0 demo_running"
    by (rule mail_ready_cong [OF refl demo_mail]) (simp add: demo_load)
  then obtain t where "scheduler_tick demo_cfg 0 demo_running = Some t"
    using K demo_running_timed unfolding demo_cfg_simps(1) by blast
  with K show ?thesis
    by (intro wp_of_wlp wlp_mono [OF conjunct1 [OF K]])
      (use demo0 demo0_messages demo_running(2) in \<open>auto simp: proc_step_def\<close>)
qed

section \<open>The running job\<close>

text \<open>C21: functional. A job that has run for its execution time leaves the core: the core is idle and
  will decide anew, the one message that tells the other processors is queued behind the earlier
  ones, the queues of jobs are as they were, and the handler returns.\<close>

theorem completion_frees_core:
  assumes "tick_inv N B s" and "c < N" and "running_job (cstate s c) = Some p"
    and "rb_live 64 b (outgoing_completion_msg_queue (proc_state s))"
    and "0 < rb_room (outgoing_completion_msg_queue (proc_state s))"
  shows "wp (handle_job_completion c s) (\<lambda>t. tick_inv N B t
     \<and> running_job (cstate t c) = None \<and> is_idle (cstate t c) \<and> decision_point (cstate t c)
     \<and> queues t = queues s
     \<and> outgoing t = outgoing s @ [\<lparr>completed_task_id = t_id (ptask (jobs s p)),
          job_arrival_time = arrival_time (jobs s p), msg_system_time = now s\<rparr>])"
  by (rule wp_mono [OF handle_job_completion_ok [OF assms]])
    (use assms(2) in \<open>auto dest: tick_invD(4)\<close>)

theorem completion_frees_core_witness:
  "wp (handle_job_completion 0 demo_running) (\<lambda>t. running_job (cstate t 0) = None
     \<and> outgoing t = [\<lparr>completed_task_id = 1, job_arrival_time = 0, msg_system_time = 0\<rparr>])"
proof -
  have t: "t_id (ptask (jobs demo_running demo_p)) = 1" "arrival_time (jobs demo_running demo_p) = 0"
    by (simp_all add: demo_running(4) demo_job demo_fields_def new_job_fields_def)
  have "outgoing demo_running = []" "now demo_running = 0"
    by (simp_all add: demo_running(2) demo0_messages demo0)
  moreover have "rb_live 64 demo_budget (outgoing_completion_msg_queue (proc_state demo_running))"
    using demo0_messages(2) by (simp add: demo_running(2))
  ultimately show ?thesis
    by (intro wp_mono [OF completion_frees_core [OF demo_running(1) _ demo_running(3)]])
      (simp_all add: t demo_ready(2) [OF demo_running(1,2)])
qed

text \<open>Called on an idle core, the completion handler returns with the run-queue lock of the
  core taken, and the next handler that asks for this lock never returns.\<close>

theorem completion_without_job_keeps_lock:
  assumes "\<not> rq_lock (cstate s c)" and "running_job (cstate s c) = None"
  shows "\<exists>t. handle_job_completion c s = Some t \<and> rq_lock (cstate t c)
           \<and> handle_running_job cfg c t = None \<and> select_next_job c t = None"
  using assms by (simp add: handle_job_completion_def Let_def LOCK_RQ_def handle_running_job_def
      select_next_job_def)

theorem completion_without_job_keeps_lock_witness:
  "\<exists>t. handle_job_completion 1 demo0 = Some t \<and> rq_lock (cstate t 1) \<and> select_next_job 1 t = None"
proof -
  have "\<not> rq_lock (cstate demo0 1)" using tick_invD(2) [OF demo0(2), of 1] by simp
  then show ?thesis
    using completion_without_job_keeps_lock [of demo0 1 demo_cfg] demo0_core(1) [of 1] by auto
qed

text \<open>C7: functional. One tick of the running job adds the scaling factor of the core to its executed
  time and then takes the first of the branches of the code that applies: a missed deadline asks for
  the fatal shutdown; a job that is done completes; one that has used up its budget raises the
  criticality level to the least level above the current one whose budget it is still within (it
  stays if there is none), sends exactly one packet with that level to the other processors and
  changes the mode of the core and of the processor to it; any other job just goes on. Only the
  overrun sends a packet.\<close>

theorem running_job_branches:
  fixes cfg :: config
  assumes "tick_inv N B s" and "c < N" and "running_job (cstate s c) = Some p"
    and "rb_live 64 b (outgoing_completion_msg_queue (proc_state s))"
    and "0 < rb_room (outgoing_completion_msg_queue (proc_state s))"
  defines "s' \<equiv> upd_job p (executed_time_update
      (\<lambda>e. f_add e (power_get_current_scaling_factor c s))) s"
  defines "j \<equiv> jobs s' p"
  defines "packet \<equiv> \<lambda>l :: nat. PACKET_TYPE_CRITICALITY_CHANGE # u32_bytes (of_nat l)"
  shows "wp (handle_running_job cfg c s) (\<lambda>t. tick_inv N B t
     \<and> (if state j = JOB_STATE_RUNNING \<and> actual_deadline j < now s
        then running_job (cstate t c) = None \<and> core_fatal_shutdown_requested t
             \<and> proc_state t = proc_state s \<and> queues t = queues s \<and> sent_packets t = sent_packets s
        else if f_le (acet j) (executed_time j)
        then running_job (cstate t c) = None \<and> outgoing t = outgoing s @ [out_msg s p]
             \<and> queues t = queues s \<and> sent_packets t = sent_packets s
        else if f_le (wcet j) (executed_time j)
        then (\<exists>l. next_level cfg (local_criticality_level (cstate s c)) j l
             \<and> sent_packets t = sent_packets s @ [packet l]
             \<and> local_criticality_level (cstate t c) = l \<and> system_criticality_level (proc_state t) = l
             \<and> mode_changed c l (s'\<lparr>sent_packets := sent_packets s @ [packet l]\<rparr>) t)
        else t = s'))"
proof -
  have s': "upd_job p (charged c s) s = s'" by (simp add: s'_def charged_def)
  let ?l = "next_criticality cfg (local_criticality_level (cstate s c)) j"
  have b: "ipc_broadcast_criticality_change ?l s' = s'\<lparr>sent_packets := sent_packets s @ [packet ?l]\<rparr>"
    by (simp add: ipc_broadcast_criticality_change_def sendto_def packet_def s'_def)
  have m: "mode_changed c ?l (ipc_broadcast_criticality_change ?l s') t \<Longrightarrow>
      \<exists>l. next_level cfg (local_criticality_level (cstate s c)) j l
             \<and> sent_packets t = sent_packets s @ [packet l]
             \<and> local_criticality_level (cstate t c) = l \<and> system_criticality_level (proc_state t) = l
             \<and> mode_changed c l (s'\<lparr>sent_packets := sent_packets s @ [packet l]\<rparr>) t" for t
    using next_criticality_next_level [of cfg "local_criticality_level (cstate s c)" j]
    unfolding b by (intro exI [of _ ?l]) (simp add: mode_changed_def)
  show ?thesis
    by (rule wp_mono [OF handle_running_job_ok [OF assms(1,2,4,5), of cfg]])
      (auto simp: assms(3) run_effect_def s' Let_def missed_def finished_def over_budget_def
        j_def [symmetric] dest: m split: if_splits)
qed

text \<open>A job that is done, and one over its budget: the level becomes 1.\<close>

theorem running_job_branches_witness:
  "wp (handle_running_job demo_cfg 0 demo_running) (\<lambda>t. tick_inv 2 (\<lambda>_. demo_budget) t
     \<and> running_job (cstate t 0) = None
     \<and> outgoing t = [\<lparr>completed_task_id = 1, job_arrival_time = 0, msg_system_time = 0\<rparr>])
   \<and> wp (handle_running_job demo_cfg 0 demo_overrun) (\<lambda>t. local_criticality_level (cstate t 0) = 1
     \<and> sent_packets t = sent_packets demo_overrun @ [[2, 1, 0, 0, 0]])"
proof
  have L: "rb_live 64 demo_budget (outgoing_completion_msg_queue (proc_state demo_running))"
    "rb_live 64 demo_budget (outgoing_completion_msg_queue (proc_state demo_overrun))"
    using demo0_messages(2) by (simp_all add: demo_running(2) demo_overrun(3))
  have d: "current_dvfs_level (cstate demo_running 0) = 0"
    using demo0_ids(6) [of 0] by (simp add: demo_running_def start_job_def demo_held(3))
  have f: "f_add (lit 0 1) (lit 1 1) = lit 1 1" "f_le (lit 1 1) (lit 1 1)" by code_simp+
  have v: "now demo_running = 0" "outgoing demo_running = []" by (simp_all add: demo_running(2) demo0 demo0_messages)
  show "wp (handle_running_job demo_cfg 0 demo_running) (\<lambda>t. tick_inv 2 (\<lambda>_. demo_budget) t
     \<and> running_job (cstate t 0) = None
     \<and> outgoing t = [\<lparr>completed_task_id = 1, job_arrival_time = 0, msg_system_time = 0\<rparr>])"
    by (rule wp_mono [OF running_job_branches [OF demo_running(1) _ demo_running(3) L(1)
            demo_ready(2) [OF demo_running(1,2)], of demo_cfg]])
      (simp_all add: demo_running(4) demo_job demo_fields_def new_job_fields_def v f d
        power_get_current_scaling_factor_def dvfs_levels_def out_msg_def)
  have r: "running_job (cstate demo_overrun 0) = Some demo_p" by (simp add: demo_overrun(2) demo_running(3))
  have g: "f_add (lit 1 1) (lit 1 1) = lit 2 1" "\<not> f_le (lit 3 1) (lit 2 1)" "f_le (lit 2 1) (lit 2 1)"
    "f_lt (lit 2 1) (of_u32 4)" by code_simp+
  have n: "l = 1" if "next_level demo_cfg 0 j l" "f_lt (executed_time j) (of_u32 4)" "t_wcet (ptask j) = [2, 4]"
    for j l
    using that by (auto simp: next_level_def numeral_2_eq_2 less_Suc_eq)
  have p: "PACKET_TYPE_CRITICALITY_CHANGE = 2" "u32_bytes 1 = [1, 0, 0, 0]" by code_simp+
  show "wp (handle_running_job demo_cfg 0 demo_overrun) (\<lambda>t. local_criticality_level (cstate t 0) = 1
     \<and> sent_packets t = sent_packets demo_overrun @ [[2, 1, 0, 0, 0]])"
    by (rule wp_mono [OF running_job_branches [OF demo_overrun(1) _ r L(2)
            demo_ready(2) [OF demo_overrun(1,3)], of demo_cfg]])
      (auto simp: demo_overrun demo_running(4,5) demo_job demo_fields_def new_job_fields_def v g d p demo0
        power_get_current_scaling_factor_def dvfs_levels_def dest!: n)
qed

text \<open>C8: functional. A mode change leaves the core without a running job and redistributes the jobs it
  had, ready, replica or running: each is given the deadline and the budget of the new level, the
  jobs of a lower criticality that are not being offered elsewhere go to the discard list, all the
  others stay, and none is lost or duplicated.\<close>

theorem mode_change_conserves_jobs:
  assumes "tick_inv N B s" and "c < N"
  shows "wp (handle_mode_change c l s) (\<lambda>t. tick_inv N B t
     \<and> mset (queues t (ReadyQ c)) + mset (queues t (ReplicaQ c)) + mset (queues t (DiscardL c))
        = mset (queues s (ReadyQ c)) + mset (queues s (ReplicaQ c)) + mset (queues s (DiscardL c))
          + mset (opt_list (running_job (cstate s c)))
     \<and> mset (queues t (DiscardL c)) = mset (queues s (DiscardL c))
        + filter_mset (\<lambda>p. t_crit_level (ptask (jobs s p)) < l \<and> \<not> is_being_offered (jobs s p))
            (mode_jobs c s)
     \<and> (\<forall>p\<in>#mode_jobs c s.
          virtual_deadline (jobs t p) = arrival_time (jobs s p) + relative_tuned_deadlines (jobs s p) ! l
          \<and> wcet (jobs t p) = of_u32 (t_wcet (ptask (jobs s p)) ! l))
     \<and> running_job (cstate t c) = None \<and> local_criticality_level (cstate t c) = l
     \<and> system_criticality_level (proc_state t) = l)"
proof (rule wp_mono [OF handle_mode_change_ok [OF assms, of l]])
  fix t
  assume "tick_inv N B t \<and> mode_changed c l s t"
  moreover have "filter_mset P M + filter_mset (\<lambda>x. \<not> P x) M = M" for P and M :: "jptr multiset"
    by (rule multiset_partition [symmetric])
  ultimately show "tick_inv N B t
     \<and> mset (queues t (ReadyQ c)) + mset (queues t (ReplicaQ c)) + mset (queues t (DiscardL c))
        = mset (queues s (ReadyQ c)) + mset (queues s (ReplicaQ c)) + mset (queues s (DiscardL c))
          + mset (opt_list (running_job (cstate s c)))
     \<and> mset (queues t (DiscardL c)) = mset (queues s (DiscardL c))
        + filter_mset (\<lambda>p. t_crit_level (ptask (jobs s p)) < l \<and> \<not> is_being_offered (jobs s p))
            (mode_jobs c s)
     \<and> (\<forall>p\<in>#mode_jobs c s.
          virtual_deadline (jobs t p) = arrival_time (jobs s p) + relative_tuned_deadlines (jobs s p) ! l
          \<and> wcet (jobs t p) = of_u32 (t_wcet (ptask (jobs s p)) ! l))
     \<and> running_job (cstate t c) = None \<and> local_criticality_level (cstate t c) = l
     \<and> system_criticality_level (proc_state t) = l"
    unfolding mode_changed_def mode_drop_def
    by (simp add: mode_jobs_def add_ac)
qed

theorem mode_change_conserves_jobs_witness:
  "wp (handle_mode_change 0 1 demo_running) (\<lambda>t. tick_inv 2 (\<lambda>_. demo_budget) t
     \<and> mset (queues t (ReadyQ 0)) + mset (queues t (ReplicaQ 0)) = {#demo_p#}
     \<and> virtual_deadline (jobs t demo_p) = 10 \<and> running_job (cstate t 0) = None)"
proof -
  have "t_crit_level (ptask (jobs demo_running demo_p)) = 1"
    "relative_tuned_deadlines (jobs demo_running demo_p) = [6, 10]"
    "arrival_time (jobs demo_running demo_p) = 0"
    by (simp_all add: demo_running(4) demo_job demo_fields_def new_job_fields_def)
  then show ?thesis
    by (intro wp_mono [OF mode_change_conserves_jobs [OF demo_running(1), of 0 1]])
      (auto simp: mode_jobs_def demo_running opt_list_def)
qed

section \<open>Arrivals\<close>

text \<open>C19: functional. When a task of the core arrives, the clock being a multiple of its period and no
  other core having taken the arrival, and the pool has a free job, one job with the deadlines, the
  budget and the kind of the allocation map is queued: with the discarded jobs if its task is less
  critical than the core, else ready or as a replica.\<close>

theorem arrival_creates_job:
  assumes "acet_returns cfg" and "tick_inv N B s" and "c < N"
    and "arrives cfg c m s task" and "free_list s c \<noteq> None \<or> remote_free_list s c \<noteq> None"
  shows "wp (task_arrival cfg c m s) (\<lambda>t. tick_inv N B t \<and> proc_state t = proc_state s
     \<and> (\<exists>p. arrived_job cfg m task (now s) (local_criticality_level (cstate s c)) (jobs t p)
          \<and> p \<in> set (queues t (if t_crit_level task < local_criticality_level (cstate s c)
                 then DiscardL c else if m_task_type m = Replica then ReplicaQ c else ReadyQ c))))"
proof (rule wp_mono [OF task_arrival_ok [OF assms(1-3), of m]])
  let ?l = "local_criticality_level (cstate s c)"
  fix t
  assume t: "tick_inv N B t \<and> proc_state t = proc_state s
     \<and> (\<forall>task. arrives cfg c m s task \<and> (free_list s c \<noteq> None \<or> remote_free_list s c \<noteq> None) \<longrightarrow>
          (\<exists>p. arrived_job cfg m task (now s) ?l (jobs t p)
             \<and> job_link (jobs t p) = LinkIn (arrival_queue c ?l (jobs t p))))"
  then obtain p where p: "arrived_job cfg m task (now s) ?l (jobs t p)"
    "job_link (jobs t p) = LinkIn (arrival_queue c ?l (jobs t p))" using assms(4,5) by blast
  have "p \<in> set (queues t (arrival_queue c ?l (jobs t p)))"
    using queues_entry [OF tick_invD(1)] t p(2) by blast
  then show "tick_inv N B t \<and> proc_state t = proc_state s
     \<and> (\<exists>p. arrived_job cfg m task (now s) ?l (jobs t p)
          \<and> p \<in> set (queues t (if t_crit_level task < ?l
                 then DiscardL c else if m_task_type m = Replica then ReplicaQ c else ReadyQ c)))"
    using t p(1) by (auto simp: arrived_job_def arrival_queue_def kind_queue_def intro!: exI [of _ p])
qed

theorem arrival_creates_job_witness:
  "wp (task_arrival demo_cfg 0 demo_map demo0) (\<lambda>t. tick_inv 2 (\<lambda>_. demo_budget) t
     \<and> (\<exists>p. arrived_job demo_cfg demo_map demo_task 0 0 (jobs t p) \<and> p \<in> set (queues t (ReadyQ 0))))"
proof -
  have A: "arrives demo_cfg 0 demo_map demo0 demo_task"
    using demo0_on_core(1) demo0_tasks demo0_ids(4) [of 0] by (simp add: arrives_def demo0)
  have F: "free_list demo0 0 \<noteq> None \<or> remote_free_list demo0 0 \<noteq> None"
    using demo_create by (auto simp: create_job_def Let_def split: if_splits option.splits)
  show ?thesis
    by (rule wp_mono [OF arrival_creates_job [OF demo_acet demo0(2) _ A F]])
      (use demo0_core(3) [of 0] in \<open>auto simp: demo0\<close>)
qed

text \<open>C27: functional. The walk over the pending jobs that other cores gave to this one ends and releases
  exactly those that are due now, each into the queue for its kind, or into the discard list if it is
  less critical than the core, with the deadline and the budget of the level of the core; the core
  will decide anew if one of them can run. The jobs of the future stay pending, unchanged, as do those
  whose arrival was missed although the core would still have to run them; the other missed jobs leave
  all queues. No other queue changes.\<close>

theorem pending_walk_releases_due:
  assumes "tick_inv N B s" and "c < N"
  defines "ps \<equiv> queues s (PendingQ c)" and "l \<equiv> local_criticality_level (cstate s c)"
  shows "wp (pending_arrivals c ps s) (\<lambda>t. tick_inv N B t \<and> proc_state t = proc_state s
     \<and> queues t (PendingQ c) = filter (\<lambda>p. now s < arrival_time (jobs s p)
          \<or> arrival_time (jobs s p) < now s \<and> l \<le> t_crit_level (ptask (jobs s p))) ps
     \<and> (\<forall>p\<in>set (queues t (PendingQ c)). jobs t p = jobs s p)
     \<and> (\<forall>q. q \<noteq> PendingQ c \<longrightarrow> mset (queues t q) = mset (queues s q)
          + mset (filter (\<lambda>p. arrival_time (jobs s p) = now s \<and> arrival_queue c l (jobs s p) = q) ps))
     \<and> (\<forall>p\<in>set ps. arrival_time (jobs s p) = now s \<longrightarrow> state (jobs t p) = JOB_STATE_READY
          \<and> virtual_deadline (jobs t p) = now s + relative_tuned_deadlines (jobs s p) ! l
          \<and> wcet (jobs t p) = of_u32 (t_wcet (ptask (jobs s p)) ! l))
     \<and> (decision_point (cstate t c) \<longleftrightarrow> decision_point (cstate s c)
          \<or> (\<exists>p\<in>set ps. arrival_time (jobs s p) = now s \<and> l \<le> t_crit_level (ptask (jobs s p)))))"
proof -
  have Q: "queues_ok s" using sys_invD(1) [OF tick_invD(1) [OF assms(1)]] .
  have "wp (pending_arrivals c ps s) (\<lambda>t. tick_inv N B t \<and> pending_walked c ps s t)"
    unfolding ps_def
    by (rule pending_arrivals_ok [OF assms(1,2) queue_okD(1) [OF Q]])
      (use queue_okD(2) [OF Q, of _ "PendingQ c"] queue_okD(3) [OF Q, of "PendingQ c"] in simp_all)
  then show ?thesis
  proof (rule wp_mono)
    fix t
    assume W: "tick_inv N B t \<and> pending_walked c ps s t"
    have f: "filter (\<lambda>p. p \<in> set ps \<longrightarrow> stays_pending c s p) ps
        = filter (\<lambda>p. now s < arrival_time (jobs s p)
          \<or> arrival_time (jobs s p) < now s \<and> l \<le> t_crit_level (ptask (jobs s p))) ps"
      by (intro filter_cong) (auto simp: stays_pending_def overdue_def l_def)
    show "tick_inv N B t \<and> proc_state t = proc_state s
     \<and> queues t (PendingQ c) = filter (\<lambda>p. now s < arrival_time (jobs s p)
          \<or> arrival_time (jobs s p) < now s \<and> l \<le> t_crit_level (ptask (jobs s p))) ps
     \<and> (\<forall>p\<in>set (queues t (PendingQ c)). jobs t p = jobs s p)
     \<and> (\<forall>q. q \<noteq> PendingQ c \<longrightarrow> mset (queues t q) = mset (queues s q)
          + mset (filter (\<lambda>p. arrival_time (jobs s p) = now s \<and> arrival_queue c l (jobs s p) = q) ps))
     \<and> (\<forall>p\<in>set ps. arrival_time (jobs s p) = now s \<longrightarrow> state (jobs t p) = JOB_STATE_READY
          \<and> virtual_deadline (jobs t p) = now s + relative_tuned_deadlines (jobs s p) ! l
          \<and> wcet (jobs t p) = of_u32 (t_wcet (ptask (jobs s p)) ! l))
     \<and> (decision_point (cstate t c) \<longleftrightarrow> decision_point (cstate s c)
          \<or> (\<exists>p\<in>set ps. arrival_time (jobs s p) = now s \<and> l \<le> t_crit_level (ptask (jobs s p))))"
      using W unfolding pending_walked_def Let_def ps_def [symmetric] l_def [symmetric] f
      by (auto simp: is_due_def due_job_def stays_pending_def overdue_def l_def not_less)
  qed
qed

text \<open>A job that is due now moves to the ready queue; one that arrives at tick 5 stays.\<close>

theorem pending_walk_releases_due_witness:
  "wp (pending_arrivals 0 [demo_p] (demo_pending 0)) (\<lambda>t. queues t (PendingQ 0) = []
     \<and> mset (queues t (ReadyQ 0)) = {#demo_p#} \<and> virtual_deadline (jobs t demo_p) = 6)
   \<and> wp (pending_arrivals 0 [demo_p] (demo_pending 5)) (\<lambda>t. queues t (PendingQ 0) = [demo_p]
     \<and> queues t (ReadyQ 0) = [] \<and> jobs t demo_p = jobs (demo_pending 5) demo_p)"
proof
  have l: "local_criticality_level (cstate (demo_pending a) 0) = 0" for a by (simp add: demo_pending(5) demo0_core)
  have j: "arrival_time (jobs (demo_pending a) demo_p) = a" "t_crit_level (ptask (jobs (demo_pending a) demo_p)) = 1"
    "relative_tuned_deadlines (jobs (demo_pending a) demo_p) = [6, 10]" "\<not> is_replica (jobs (demo_pending a) demo_p)" for a
    by (simp_all add: demo_pending(4) demo_idle(6) demo_job demo_fields_def new_job_fields_def)
  note S = demo_pending(2,3) demo0(6) l j arrival_queue_def kind_queue_def
  show "wp (pending_arrivals 0 [demo_p] (demo_pending 0)) (\<lambda>t. queues t (PendingQ 0) = []
     \<and> mset (queues t (ReadyQ 0)) = {#demo_p#} \<and> virtual_deadline (jobs t demo_p) = 6)"
    using pending_walk_releases_due [OF demo_pending(1) [of 0], of 0]
    by (auto elim!: wp_mono simp: S dest: spec [where x = "ReadyQ 0"])
  show "wp (pending_arrivals 0 [demo_p] (demo_pending 5)) (\<lambda>t. queues t (PendingQ 0) = [demo_p]
     \<and> queues t (ReadyQ 0) = [] \<and> jobs t demo_p = jobs (demo_pending 5) demo_p)"
    using pending_walk_releases_due [OF demo_pending(1) [of 5], of 0]
    by (auto elim!: wp_mono simp: S dest: spec [where x = "ReadyQ 0"])
qed

section \<open>Completions elsewhere\<close>

text \<open>C26: functional. A completion message from another processor removes exactly the copies of that
  job from the two queues of the core, by task and arrival time. The running job is dropped if only
  its task is the same, whatever its arrival time is.\<close>

theorem completed_copies_removed:
  assumes "tick_inv N B s" and "c < N"
  shows "wp (remove_completed_for c m s) (\<lambda>t. tick_inv N B t \<and> proc_state t = proc_state s
     \<and> queues t (ReadyQ c) = filter (\<lambda>p. \<not> (t_id (ptask (jobs s p)) = completed_task_id m
          \<and> arrival_time (jobs s p) = job_arrival_time m)) (queues s (ReadyQ c))
     \<and> queues t (ReplicaQ c) = filter (\<lambda>p. \<not> (t_id (ptask (jobs s p)) = completed_task_id m
          \<and> arrival_time (jobs s p) = job_arrival_time m)) (queues s (ReplicaQ c))
     \<and> running_job (cstate t c)
       = (case running_job (cstate s c) of None \<Rightarrow> None
          | Some p \<Rightarrow> if t_id (ptask (jobs s p)) = completed_task_id m then None else Some p))"
  using remove_completed_for_ok [OF assms, of m] unfolding matches_msg_def .

theorem completed_copies_removed_witness:
  "wp (remove_completed_for 0 \<lparr>completed_task_id = 1, job_arrival_time = 7, msg_system_time = 9\<rparr> demo_running)
     (\<lambda>t. tick_inv 2 (\<lambda>_. demo_budget) t \<and> running_job (cstate t 0) = None
        \<and> arrival_time (jobs demo_running demo_p) = 0)"
  by (rule wp_mono [OF completed_copies_removed [OF demo_running(1), of 0
          "\<lparr>completed_task_id = 1, job_arrival_time = 7, msg_system_time = 9\<rparr>"]])
    (simp_all add: demo_running(3,4) demo_job demo_fields_def new_job_fields_def)

section \<open>Dispatch\<close>

text \<open>C6: functional. Selection and dispatch return and leave the job with the earliest virtual
  deadline running: no ready job or replica of the core has an earlier one, a core with work is never
  idle, and the jobs of the core are the same as before.\<close>

theorem dispatch_is_edf:
  assumes "tick_inv N B s" and "c < N"
  shows "wp (dispatch_phase c s) (\<lambda>t. tick_inv N B t
     \<and> (\<forall>p\<in>set (queues t (ReadyQ c)) \<union> set (queues t (ReplicaQ c)).
          \<exists>r. running_job (cstate t c) = Some r \<and> virtual_deadline (jobs t r) \<le> virtual_deadline (jobs t p))
     \<and> mset (queues t (ReadyQ c)) + mset (queues t (ReplicaQ c)) + mset (opt_list (running_job (cstate t c)))
        = mset (queues s (ReadyQ c)) + mset (queues s (ReplicaQ c)) + mset (opt_list (running_job (cstate s c))))"
  by (rule wp_mono [OF dispatch_phase_ok [OF assms]]) (auto simp: edf_ok_def mode_jobs_def)

theorem dispatch_is_edf_witness:
  "wp (dispatch_phase 0 demo_queued) (\<lambda>t. tick_inv 2 (\<lambda>_. demo_budget) t
     \<and> demo_p \<in># mset (queues t (ReadyQ 0)) + mset (queues t (ReplicaQ 0)) + mset (opt_list (running_job (cstate t 0))))"
  by (rule wp_mono [OF dispatch_is_edf [OF demo_queued(1), of 0]])
    (auto simp: demo_queued(3) dest: arg_cong [where f = "\<lambda>M. demo_p \<in># M"])

section \<open>Discarded jobs\<close>

text \<open>C24: invariant. Reclaiming empties the discard list of the core; every job of it is either taken
  back into a queue of the core or handed to the discard queue of the processor, the jobs of that
  queue may be taken over, and none is lost or duplicated. And it returns, with all its analyses of
  slack, when the times of the jobs lie within \<open>P\<close> of a clock that is far from its end.\<close>

theorem reclaim_conserves_jobs:
  assumes "tick_inv N B s" and "c < N"
  shows "wlp (reclaim_discarded_jobs cfg c s) (\<lambda>t. tick_inv N B t \<and> queues t (DiscardL c) = []
     \<and> mset (queues t (ReadyQ c)) + mset (queues t (ReplicaQ c)) + mset (queues t ProcDiscardQ)
        = mset (queues s (ReadyQ c)) + mset (queues s (ReplicaQ c)) + mset (queues s (DiscardL c))
          + mset (queues s ProcDiscardQ))
    \<and> (timed cfg P s \<longrightarrow> (\<exists>t. reclaim_discarded_jobs cfg c s = Some t \<and> timed cfg P t))"
proof
  show "wlp (reclaim_discarded_jobs cfg c s) (\<lambda>t. tick_inv N B t \<and> queues t (DiscardL c) = []
     \<and> mset (queues t (ReadyQ c)) + mset (queues t (ReplicaQ c)) + mset (queues t ProcDiscardQ)
        = mset (queues s (ReadyQ c)) + mset (queues s (ReplicaQ c)) + mset (queues s (DiscardL c))
          + mset (queues s ProcDiscardQ))"
    by (rule wlp_mono [OF reclaim_discarded_jobs_ok [OF assms]]) (auto simp: reclaim_jobs_def)
  show "timed cfg P s \<longrightarrow> (\<exists>t. reclaim_discarded_jobs cfg c s = Some t \<and> timed cfg P t)"
    using reclaim_returns [OF assms(1) _ assms(2)] timed_cong [OF clocked.reclaim] by blast
qed

text \<open>A core to which the level of the discarded job is too low.\<close>

lemma demo_discarded:
  "\<exists>t. tick_inv 2 (\<lambda>_. demo_budget) t \<and> timed demo_cfg 20 t \<and> queues t (DiscardL 0) = [demo_p]"
proof -
  have d: "t_crit_level (ptask (jobs demo_running demo_p)) = 1"
    "\<not> is_being_offered (jobs demo_running demo_p)"
    by (simp_all add: demo_running(4) demo_job demo_fields_def new_job_fields_def)
  obtain t where t: "handle_mode_change 0 2 demo_running = Some t" "tick_inv 2 (\<lambda>_. demo_budget) t"
    "mode_changed 0 2 demo_running t"
    by (rule wpE [OF handle_mode_change_ok [OF demo_running(1), of 0 2]]) auto
  have "timed demo_cfg 20 t"
    using timed_cong [OF timing_mode_change [OF t(1)]] demo_running_timed by simp
  moreover have "queues t (DiscardL 0) = [demo_p]"
    using t(3) d by (simp add: mode_changed_def mode_jobs_def demo_running opt_list_def mode_drop_def)
  ultimately show ?thesis using t(2) by blast
qed

theorem reclaim_conserves_jobs_witness:
  "\<exists>s. queues s (DiscardL 0) = [demo_p] \<and> wp (reclaim_discarded_jobs demo_cfg 0 s) (\<lambda>t.
     tick_inv 2 (\<lambda>_. demo_budget) t \<and> queues t (DiscardL 0) = []
     \<and> demo_p \<in> set (queues t (ReadyQ 0)) \<union> set (queues t (ReplicaQ 0)) \<union> set (queues t ProcDiscardQ))"
proof -
  obtain s where s: "tick_inv 2 (\<lambda>_. demo_budget) s" "timed demo_cfg 20 s" "queues s (DiscardL 0) = [demo_p]"
    using demo_discarded by blast
  note R = reclaim_conserves_jobs [OF s(1), of 0 demo_cfg 20]
  have "reclaim_discarded_jobs demo_cfg 0 s \<noteq> None" using R s(2) by auto
  then have "wp (reclaim_discarded_jobs demo_cfg 0 s) (\<lambda>t.
     tick_inv 2 (\<lambda>_. demo_budget) t \<and> queues t (DiscardL 0) = []
     \<and> demo_p \<in> set (queues t (ReadyQ 0)) \<union> set (queues t (ReplicaQ 0)) \<union> set (queues t ProcDiscardQ))"
    by (rule wp_of_wlp, intro wlp_mono [OF conjunct1 [OF R]])
      (auto simp: s(3) dest!: arg_cong [where f = "\<lambda>M. demo_p \<in># M"])
  then show ?thesis using s(3) by blast
qed

end
