(* ===== verification/Supervisor.thy ===== *)
theory Supervisor
  imports Processor
begin

text \<open>
  \<^verbatim>\<open>src/src/main.c\<close>: the parent process that makes the barrier of the processors, forks one child per
  processor, waits for the children, and tells the others to stop when one fails or the user
  interrupts it.

  The system calls are inputs: the results of the calls before the loop, and the returns of
  \<^verbatim>\<open>waitpid\<close> in their order, each with whether SIGINT came in before. SIGTERM is ignored.
\<close>

section \<open>A child\<close>

text \<open>The exit status of the child of a processor: \<^verbatim>\<open>processor_run\<close> exits itself or returns.\<close>

definition child_status :: "config \<Rightarrow> (sock_call \<Rightarrow> int) \<Rightarrow> (thread_id \<Rightarrow> bool) \<Rightarrow> bool \<Rightarrow> int" where
  "child_status cfg res created fatal =
     (if \<not> snd (snd (ipc_open_socket res)) then EXIT_FAILURE
      else case snd (processor_run cfg created fatal) of
             Some code \<Rightarrow> code
           | None \<Rightarrow> if fatal then EXIT_FAILURE else EXIT_SUCCESS)"

section \<open>The parent\<close>

datatype wait_return =
  WExited int | WSignaled | WEintr | WEchild | WError

record start_calls =
  shmget_result :: int
  shmat_ok :: bool
  barrier_result :: int
  fork_result :: "nat \<Rightarrow> int"

text \<open>The children forked before the first failure.\<close>

definition forked :: "start_calls \<Rightarrow> nat \<Rightarrow> nat list" where
  "forked sc num_proc = takeWhile (\<lambda>i. 0 \<le> fork_result sc i) [0..<num_proc]"

text \<open>
  The loop that waits for the children: the two flags \<^verbatim>\<open>shutdown_requested\<close> and \<^verbatim>\<open>fatal_error\<close>, and the
  returns left. \<open>None\<close> when it still waits after all of them.
\<close>

fun wait_children ::
  "nat \<Rightarrow> bool \<Rightarrow> bool \<Rightarrow> (bool \<times> wait_return) list \<Rightarrow> (bool \<times> bool \<times> (bool \<times> wait_return) list) option"
where
  "wait_children children_left shutdown_requested fatal_error events =
     (if children_left = 0 then Some (shutdown_requested, fatal_error, events)
      else case events of
             [] \<Rightarrow> None
           | (sigint, r) # events \<Rightarrow>
               let shutdown_requested = (shutdown_requested \<or> sigint) in
               (case r of
                  WExited code \<Rightarrow>
                    let fatal_error = (fatal_error \<or> code \<noteq> EXIT_SUCCESS) in
                    if fatal_error then Some (True, fatal_error, events)
                    else wait_children (children_left - 1) shutdown_requested fatal_error events
                | WSignaled \<Rightarrow> Some (True, True, events)
                | WEintr \<Rightarrow>
                    if shutdown_requested then Some (shutdown_requested, fatal_error, events)
                    else wait_children children_left shutdown_requested fatal_error events
                | WEchild \<Rightarrow> wait_children children_left shutdown_requested fatal_error events
                | WError \<Rightarrow> wait_children children_left shutdown_requested fatal_error events))"

declare wait_children.simps [simp del]

text \<open>The loop that reaps the rest: it goes on until there is no child or an error.\<close>

fun reap_children :: "bool \<Rightarrow> (bool \<times> wait_return) list \<Rightarrow> bool option" where
  "reap_children shutdown_requested [] = None"
| "reap_children shutdown_requested ((sigint, r) # events) =
     (case r of
        WExited _ \<Rightarrow> reap_children (shutdown_requested \<or> sigint) events
      | WSignaled \<Rightarrow> reap_children (shutdown_requested \<or> sigint) events
      | WEintr \<Rightarrow> reap_children (shutdown_requested \<or> sigint) events
      | WEchild \<Rightarrow> Some (shutdown_requested \<or> sigint)
      | WError \<Rightarrow> Some (shutdown_requested \<or> sigint))"

text \<open>The children that are sent SIGUSR1: those that \<^verbatim>\<open>kill(pid, 0)\<close> finds.\<close>

definition stop_children :: "(nat \<Rightarrow> bool) \<Rightarrow> start_calls \<Rightarrow> nat \<Rightarrow> nat list" where
  "stop_children found sc num_proc =
     filter (\<lambda>i. 0 < fork_result sc i \<and> found i) [0..<num_proc]"

text \<open>The children that are told to stop, and the exit status of the parent.\<close>

definition main_process ::
  "nat \<Rightarrow> start_calls \<Rightarrow> (nat \<Rightarrow> bool) \<Rightarrow> (bool \<times> wait_return) list \<Rightarrow> (nat list \<times> int) option"
where
  "main_process num_proc sc found events =
     (if shmget_result sc < 0 then Some ([], 1)
      else if \<not> shmat_ok sc then Some ([], 1)
      else if barrier_result sc \<noteq> 0 then Some ([], 1)
      else if forked sc num_proc \<noteq> [0..<num_proc] then Some ([], 1)
      else do {
        (shutdown_requested, fatal_error, events) \<leftarrow> wait_children num_proc False False events;
        if shutdown_requested \<or> fatal_error
        then do {
          shutdown_requested \<leftarrow> reap_children shutdown_requested events;
          Some (stop_children found sc num_proc,
                if shutdown_requested \<or> fatal_error then EXIT_FAILURE else EXIT_SUCCESS) }
        else Some ([], EXIT_SUCCESS) })"

section \<open>Properties\<close>

lemma wait_children_step:
  "wait_children n s f [] = (if n = 0 then Some (s, f, []) else None)"
  "wait_children n s f ((sigint, r) # es) =
     (if n = 0 then Some (s, f, (sigint, r) # es)
      else case r of
             WExited code \<Rightarrow>
               if f \<or> code \<noteq> EXIT_SUCCESS then Some (True, True, es)
               else wait_children (n - 1) (s \<or> sigint) False es
           | WSignaled \<Rightarrow> Some (True, True, es)
           | WEintr \<Rightarrow> if s \<or> sigint then Some (True, f, es) else wait_children n False f es
           | _ \<Rightarrow> wait_children n (s \<or> sigint) f es)"
  by (subst wait_children.simps, auto simp: Let_def split: wait_return.split)+

lemma wait_children_shutdown:
  "wait_children n True f es = Some (a, b, c) \<Longrightarrow> a"
proof (induction es arbitrary: n f)
  case Nil
  then show ?case by (simp add: wait_children_step split: if_splits)
next
  case (Cons e es)
  then show ?case
    by (cases e; cases "snd e")
      (auto simp: wait_children_step split: if_splits)
qed

text \<open>Returns of \<^verbatim>\<open>waitpid\<close> that report \<open>n\<close> children, all of them successful, and no interrupt.\<close>

definition all_well :: "nat \<Rightarrow> (bool \<times> wait_return) list \<Rightarrow> bool" where
  "all_well n es \<longleftrightarrow> (\<forall>(sigint, r)\<in>set es. \<not> sigint \<and> r \<noteq> WSignaled \<and> (\<forall>c. r = WExited c \<longrightarrow> c = EXIT_SUCCESS))
     \<and> length (filter (\<lambda>e. snd e = WExited EXIT_SUCCESS) es) = n"

lemma all_well_Cons:
  "all_well n ((sigint, r) # es) \<longleftrightarrow> \<not> sigint \<and>
     (case r of WExited c \<Rightarrow> c = EXIT_SUCCESS \<and> 0 < n \<and> all_well (n - 1) es
      | WSignaled \<Rightarrow> False | _ \<Rightarrow> all_well n es)"
  by (cases r) (auto simp: all_well_def)

lemma ex_take_Cons:
  "\<not> P [] \<Longrightarrow> (\<exists>k\<le>length (e # es). P (take k (e # es))) \<longleftrightarrow> (\<exists>k\<le>length es. P (e # take k es))"
  by (metis Suc_le_mono length_Cons not0_implies_Suc take_0 take_Suc_Cons)

lemma wait_children_well:
  "(\<exists>rest. wait_children n False False es = Some (False, False, rest))
   \<longleftrightarrow> (\<exists>k\<le>length es. all_well n (take k es))"
proof (induction es arbitrary: n)
  case Nil
  then show ?case by (auto simp: wait_children_step all_well_def)
next
  case (Cons e es)
  obtain sigint r where e: "e = (sigint, r)" by fastforce
  show ?case
  proof (cases "n = 0")
    case True
    then show ?thesis unfolding e by (auto simp: wait_children_step all_well_def intro!: exI [of _ 0])
  next
    case False
    then have "\<not> all_well n []" by (simp add: all_well_def)
    note R = ex_take_Cons [of "all_well n", OF this, of e es]
    show ?thesis unfolding R unfolding e all_well_Cons
      using False Cons.IH [of n] Cons.IH [of "n - 1"]
      by (cases r; cases sigint)
        (auto simp: wait_children_step dest: wait_children_shutdown)
  qed
qed

lemma wait_children_flags: "wait_children n s f es = Some (a, True, c) \<Longrightarrow> \<not> f \<Longrightarrow> a"
proof (induction es arbitrary: n s)
  case Nil
  then show ?case by (auto simp: wait_children_step split: if_splits)
next
  case (Cons e es)
  then show ?case
    by (cases e; cases "snd e")
      (auto simp: wait_children_step split: if_splits)
qed

definition started :: "start_calls \<Rightarrow> nat \<Rightarrow> bool" where
  "started sc num_proc \<longleftrightarrow> 0 \<le> shmget_result sc \<and> shmat_ok sc \<and> barrier_result sc = 0
     \<and> (\<forall>i<num_proc. 0 < fork_result sc i)"

lemma reap_shutdown: "reap_children True es = Some b \<Longrightarrow> b"
  by (induction es) (auto split: wait_return.splits)

text \<open>C30: functional. Once all children run, the parent exits with success if and only if each of them
  exited with success and no interrupt came in before the last did; if it exits otherwise, it does so
  with the failure status and has sent the signal to stop to every child that still exists.\<close>

theorem parent_exit_status:
  assumes "started sc num_proc"
  shows "((\<exists>l. main_process num_proc sc found events = Some (l, EXIT_SUCCESS))
            \<longleftrightarrow> (\<exists>k\<le>length events. all_well num_proc (take k events)))
    \<and> (\<forall>l code. main_process num_proc sc found events = Some (l, code) \<longrightarrow> code \<noteq> EXIT_SUCCESS \<longrightarrow>
          code = EXIT_FAILURE \<and> set l = {i. i < num_proc \<and> found i})"
proof -
  have all: "\<forall>x\<in>set [0..<num_proc]. 0 \<le> fork_result sc x" using assms by (auto simp: started_def)
  then have "forked sc num_proc = [0..<num_proc]" unfolding forked_def by (simp only: takeWhile_eq_all_conv)
  then have m: "main_process num_proc sc found events = do {
        (shutdown_requested, fatal_error, events) \<leftarrow> wait_children num_proc False False events;
        if shutdown_requested \<or> fatal_error
        then do {
          shutdown_requested \<leftarrow> reap_children shutdown_requested events;
          Some (stop_children found sc num_proc,
                if shutdown_requested \<or> fatal_error then EXIT_FAILURE else EXIT_SUCCESS) }
        else Some ([], EXIT_SUCCESS) }"
    using assms by (simp add: main_process_def started_def not_less)
  have stop: "set (stop_children found sc num_proc) = {i. i < num_proc \<and> found i}"
    using assms by (auto simp: stop_children_def started_def)
  have codes: "EXIT_SUCCESS \<noteq> EXIT_FAILURE" by (simp add: EXIT_SUCCESS_def EXIT_FAILURE_def)
  show ?thesis
  proof (cases "wait_children num_proc False False events")
    case None
    then show ?thesis using wait_children_well [of num_proc events] by (simp add: m)
  next
    case (Some x)
    obtain a b rest where x: "x = (a, b, rest)" by (cases x) auto
    have b: "b \<Longrightarrow> a" using wait_children_flags [of num_proc False False events a rest] Some x by auto
    show ?thesis
    proof (cases a)
      case True
      then have "main_process num_proc sc found events
          = map_option (\<lambda>_. (stop_children found sc num_proc, EXIT_FAILURE)) (reap_children True rest)"
        using Some x reap_shutdown [of rest] by (cases "reap_children True rest") (auto simp: m)
      moreover have "\<not> (\<exists>k\<le>length events. all_well num_proc (take k events))"
        using wait_children_well [of num_proc events] Some x True by auto
      ultimately show ?thesis using codes stop by auto
    next
      case False
      with b have "\<not> b" by blast
      with False have "main_process num_proc sc found events = Some ([], EXIT_SUCCESS)"
        using Some x by (simp add: m)
      moreover have "\<exists>k\<le>length events. all_well num_proc (take k events)"
        using wait_children_well [of num_proc events] Some x False b by auto
      ultimately show ?thesis by simp
    qed
  qed
qed

theorem parent_exit_status_witness:
  "\<exists>l. main_process 2 \<lparr>shmget_result = 5, shmat_ok = True, barrier_result = 0, fork_result = (\<lambda>i. 100 + int i)\<rparr>
     (\<lambda>_. True) [(False, WExited 0), (False, WEintr), (False, WExited 0)] = Some (l, EXIT_SUCCESS)"
  using parent_exit_status [of "\<lparr>shmget_result = 5, shmat_ok = True, barrier_result = 0,
      fork_result = (\<lambda>i. 100 + int i)\<rparr>" 2 "\<lambda>_. True" "[(False, WExited 0), (False, WEintr), (False, WExited 0)]"]
  by (auto simp: started_def all_well_def EXIT_SUCCESS_def intro!: exI [of _ 3])

text \<open>A processor that cannot create one of its threads reports success: \<^verbatim>\<open>processor_run\<close>
  returns without joining the threads that run and without cleaning up, and the child exits with
  status 0, which the parent takes for a normal end.\<close>

theorem thread_failure_reported_as_success:
  assumes "\<not> created TimerThread \<or> (\<exists>i<NUM_CORES_PER_PROC cfg. \<not> created (CoreThread i))"
    and "snd (snd (ipc_open_socket res))"
  shows "child_status cfg res created False = EXIT_SUCCESS
     \<and> (\<forall>t. Join t \<notin> set (fst (processor_run cfg created False)))
     \<and> StopLog \<notin> set (fst (processor_run cfg created False))"
proof -
  have cores: "snd (start_cores created is) \<longleftrightarrow> (\<forall>i\<in>set is. created (CoreThread i))"
    and acts: "set (fst (start_cores created is)) \<subseteq> range Create" for "is"
    by (induction "is") (auto split: prod.splits)
  have "snd (processor_run cfg created False) = None
     \<and> set (fst (processor_run cfg created False)) \<subseteq> range Create"
    using assms(1) cores [of "[0..<NUM_CORES_PER_PROC cfg]"] acts [of "[0..<NUM_CORES_PER_PROC cfg]"]
    by (auto simp: processor_run_def split: prod.splits)
  then show ?thesis using assms(2) by (auto simp: child_status_def)
qed

section \<open>The socket\<close>

lemma socket_calls_spec:
  assumes "Close \<notin> set cs"
  shows "case socket_calls res cs of (made, ok) \<Rightarrow>
     (ok \<longleftrightarrow> (\<forall>c\<in>set cs. c = SetReusePort \<or> 0 \<le> res c))
     \<and> (if ok then made = cs else \<exists>k<length cs. made = take (Suc k) cs @ [Close])"
  using assms
proof (induction cs)
  case (Cons c cs)
  obtain made ok where m: "socket_calls res cs = (made, ok)" by fastforce
  have "\<exists>k<length (c # cs). c # made = take (Suc k) (c # cs) @ [Close]"
    if "\<exists>k<length cs. made = take (Suc k) cs @ [Close]"
    using that by (metis Suc_less_eq append_Cons length_Cons take_Suc_Cons)
  then show ?case using Cons m by (auto simp: not_less intro!: exI [of _ 0] split: if_splits)
qed simp

text \<open>The socket is never leaked: the process goes on exactly when every required call
  succeeded (an unsupported SO_REUSEPORT is ignored), and then the descriptor is open; otherwise it
  ends, having closed the descriptor as its last call if it was opened. Cleaning up closes an open
  descriptor once, and a second time does nothing.\<close>

theorem socket_not_leaked:
  shows "case ipc_open_socket res of (sockfd, made, ok) \<Rightarrow>
     (ok \<longleftrightarrow> (\<forall>c. c \<notin> {SetReusePort, DropMembership, Close} \<longrightarrow> 0 \<le> res c))
     \<and> (Close \<in> set made \<longleftrightarrow> \<not> ok \<and> 0 \<le> res Socket) \<and> (Close \<in> set made \<longleftrightarrow> last made = Close)
     \<and> (if ok then ipc_cleanup sockfd = (- 1, [DropMembership, Close]) else True)
     \<and> ipc_cleanup (fst (ipc_cleanup sockfd)) = (fst (ipc_cleanup sockfd), [])"
proof -
  let ?cs = "[SetReuseAddr, SetReusePort, Bind, AddMembership, GetFlags, SetNonblock, MulticastIf,
      MulticastTtl, MulticastLoop]"
  have all: "(\<forall>c. c \<notin> {SetReusePort, DropMembership, Close} \<longrightarrow> 0 \<le> res c)
      \<longleftrightarrow> 0 \<le> res Socket \<and> (\<forall>c\<in>set ?cs. c = SetReusePort \<or> 0 \<le> res c)"
  proof -
    have "c \<in> {SetReusePort, DropMembership, Close} \<or> c = Socket \<or> c \<in> set ?cs" for c
      by (cases c) simp_all
    then show ?thesis by fastforce
  qed
  obtain made ok where m: "socket_calls res ?cs = (made, ok)" by fastforce
  have S: "(ok \<longleftrightarrow> (\<forall>c\<in>set ?cs. c = SetReusePort \<or> 0 \<le> res c))"
    "if ok then made = ?cs else \<exists>k<length ?cs. made = take (Suc k) ?cs @ [Close]"
  proof -
    have "Close \<notin> set ?cs" by simp
    from socket_calls_spec [OF this, of res] show "ok \<longleftrightarrow> (\<forall>c\<in>set ?cs. c = SetReusePort \<or> 0 \<le> res c)"
      and "if ok then made = ?cs else \<exists>k<length ?cs. made = take (Suc k) ?cs @ [Close]"
      unfolding m prod.case by blast+
  qed
  show ?thesis
  proof (cases "res Socket < 0")
    case True
    then show ?thesis unfolding all by (simp add: ipc_open_socket_def ipc_cleanup_def)
  next
    case False
    then have o: "ipc_open_socket res = (res Socket, Socket # made, ok)"
      using m by (simp add: ipc_open_socket_def)
    have "Close \<in> set made \<longleftrightarrow> \<not> ok" "\<not> ok \<Longrightarrow> made \<noteq> [] \<and> last made = Close" "ok \<Longrightarrow> made = ?cs"
      using S(2) by (auto split: if_splits)
    then show ?thesis unfolding o all using False S(1)
      by (auto simp: ipc_cleanup_def not_less)
  qed
qed

theorem socket_not_leaked_witness:
  "case ipc_open_socket (\<lambda>c. if c = Bind then - 1 else 3) of (sockfd, made, ok) \<Rightarrow>
     \<not> ok \<and> Close \<in> set made \<and> last made = Close"
proof -
  let ?res = "\<lambda>c. if c = Bind then - 1 else 3 :: int"
  have "\<not> (\<forall>c. c \<notin> {SetReusePort, DropMembership, Close} \<longrightarrow> 0 \<le> ?res c)"
    by (auto intro!: exI [of _ Bind])
  then show ?thesis using socket_not_leaked [of ?res] by (auto split: prod.splits)
qed

end
