(* ===== verification/Examples.thy ===== *)
theory Examples
  imports Demo Supervisor
begin

text \<open>
  The analysis and power properties applied to the small system: the state after the start-up, the
  state with one new job in hand, and that job running.
\<close>

section \<open>The clock is far from its end\<close>

lemma demo_tasks [simp]: "find_task_by_id demo_cfg 1 demo0 = Some demo_task"
    "find_task_by_id demo_cfg 1 demo_held = Some demo_task"
    "find_task_by_id demo_cfg 1 demo_running = Some demo_task"
  using demo0_tasks create_job_sys_fields [OF demo_create]
  by (simp_all add: find_task_by_id_def demo_held_def demo_running_def start_job_def)

lemma demo_calendar:
  assumes "unat (calculate_horizon 0 s) \<le> 5000" and "now s = 0"
    and "find_task_by_id demo_cfg 1 s = Some demo_task" and "l < 2"
  shows "calendar_ok demo_cfg 0 s l 0 5000"
proof -
  have "l = 0 \<or> l = 1" using assms(4) by auto
  then show ?thesis using assms by (auto simp: calendar_ok_def)
qed

lemma demo_horizon:
  "unat (calculate_horizon 0 demo0) \<le> 5000" "unat (calculate_horizon 0 demo_held) \<le> 5000"
proof -
  have "unat (cached_slack_horizon (cstate demo0 0)) \<le> unat (5000 :: u32)"
    using demo0_ids(5) [of 0] by (simp add: word_le_nat_alt)
  then show "unat (calculate_horizon 0 demo0) \<le> 5000" "unat (calculate_horizon 0 demo_held) \<le> 5000"
    by (simp_all add: calculate_horizon_def demo0_core demo0(4) demo_held)
qed

lemma demo_deadlines:
  assumes "l < 2"
  shows "unat (get_job_deadline (jobs demo_held demo_p) l) \<le> 5000"
proof -
  have "l = 0 \<or> l = 1" using assms by auto
  then show ?thesis by (auto simp: get_job_deadline_def demo_job demo_fields_def)
qed

lemma demo_calm:
  shows "calm demo_cfg 0 0 None demo0 5000" and "calm demo_cfg 0 0 (Some demo_p) demo_held 5000"
proof -
  show "calm demo_cfg 0 0 None demo0 5000"
    using demo_calendar [OF demo_horizon(1)]
    by (simp add: calm_def demo0 jobs_due_by_def analysed_jobs_def opt_list_def demo0_core)
  show "calm demo_cfg 0 0 (Some demo_p) demo_held 5000"
    using demo_calendar [OF demo_horizon(2)] demo_deadlines
    by (simp add: calm_def demo_held demo0 jobs_due_by_def analysed_jobs_def opt_list_def demo0_core)
qed

lemma demo0_free: "\<not> rq_lock (cstate demo0 0)" "\<not> rq_lock (cstate demo_held 0)"
  using tick_invD(2) [OF demo0(2), of 0] by (simp_all add: demo_held)

lemma demo_running_calm: "calm demo_cfg 0 0 None demo_running 5000"
proof -
  have "calculate_horizon 0 demo_running
      = safe_lcm (cached_slack_horizon (cstate demo_running 0)) (t_period (ptask (jobs demo_running demo_p))) 5000"
    using demo_running by (simp add: calculate_horizon_def SLACK_CALC_HORIZON_TICKS_CAP_def)
  then have "unat (calculate_horizon 0 demo_running) \<le> 5000"
    using safe_lcm_le_cap [of "cached_slack_horizon (cstate demo_running 0)" _ 5000]
    by (simp add: word_le_nat_alt)
  moreover have "get_job_deadline (jobs demo_running demo_p) l = get_job_deadline (jobs demo_held demo_p) l" for l
    by (simp add: demo_running get_job_deadline_def)
  ultimately show ?thesis using demo_calendar demo_deadlines
    by (simp add: calm_def demo0 demo_running jobs_due_by_def analysed_jobs_def opt_list_def)
qed

section \<open>Witnesses\<close>

lemma demo_rand: "rand_ok demo_cfg" "powf_unit demo_cfg"
  by (simp_all add: rand_ok_def demo_cfg_def demo_powf_unit)

theorem generate_acet_bounds_witness:
  "\<exists>a level. generate_acet demo_cfg demo_p demo0 = Some (a, demo0\<lparr>rand_count := rand_count demo0 + 2\<rparr>)
     \<and> level < 2 \<and> f_le (Fin 0) a \<and> f_le a (of_u32 (t_wcet (ptask (jobs demo0 demo_p)) ! level))"
  using generate_acet_bounds [OF demo_rand, of demo0 demo_p] by (auto simp: demo0)

theorem find_slack_bounds_every_deadline_witness:
  "\<exists>r ds. find_slack_core demo_cfg 0 1 0 (lit 1 1) (Some demo_p) demo_held = Some r
     \<and> f_le (lit 0 1) r \<and> sorted_wrt (<) ds
     \<and> (\<forall>d\<in>set ds. \<exists>dem. demand_by demo_cfg 0 1 0 (lit 1 1) (Some demo_p) d demo_held = Some dem
          \<and> (r = lit 0 1 \<or> \<not> f_lt (f_sub (of_u32 (d - 0)) dem) r))"
proof -
  have n: "now demo_held = 0" by (simp add: demo_held demo0)
  have g: "\<not> f_le (lit 1 1) (lit 0 1)" by code_simp
  have "calendar_ok demo_cfg 0 demo_held 1 0 5000"
    "jobs_due_by 1 (analysed_jobs 0 (Some demo_p) demo_held) demo_held 5000"
    using demo_calm(2) n by (simp_all add: calm_def)
  then show ?thesis
    using find_slack_bounds_every_deadline [of demo_cfg 0 demo_held 1 0 5000 "Some demo_p" "lit 1 1"] n g
    by (auto simp: n)
qed

theorem admission_checks_every_level_witness:
  "\<exists>b. is_admissible demo_cfg 0 demo_p (lit 0 1) demo_held = Some (b, demo_held)
     \<and> (b \<longleftrightarrow> (\<forall>l\<in>{0..<2}. level_admits demo_cfg 0 demo_p (lit 0 1) demo_held l))"
proof -
  have a: "arrival_time (jobs demo_held demo_p) = 0" by (simp add: demo_job demo_fields_def)
  have l: "local_criticality_level (cstate demo_held 0) = 0" by (simp add: demo_held demo0_core)
  show ?thesis
    using admission_checks_every_level [OF demo0_free(2), of demo_cfg demo_p 5000 "lit 0 1"] demo_calm(2)
    unfolding a l by auto
qed

theorem dvfs_level_is_slowest_safe_witness:
  "(\<exists>l<6. calc_required_dvfs_level demo_cfg 0 demo_running = Some (l, demo_running)
     \<and> (if level_has_slack demo_cfg 0 demo_running 0
        then (\<forall>i\<le>l. level_has_slack demo_cfg 0 demo_running i) else l = 0))
   \<and> calc_required_dvfs_level demo_cfg 0 demo0 = Some (5, demo0)"
proof -
  have f: "\<not> rq_lock (cstate demo_running 0)" "\<not> is_idle (cstate demo_running 0)"
    using tick_invD(2,4) [OF demo_running(1), of 0] demo_running(3) by auto
  have "calm demo_cfg 0 (now demo_running) None demo_running 5000"
    using demo_running_calm by (simp add: demo_running demo0)
  from dvfs_level_is_slowest_safe [OF f(1) this] f(2) demo_running(3)
  have "\<exists>l<6. calc_required_dvfs_level demo_cfg 0 demo_running = Some (l, demo_running)
     \<and> (if level_has_slack demo_cfg 0 demo_running 0
        then (\<forall>i\<le>l. level_has_slack demo_cfg 0 demo_running i) else l = 0)"
    by (auto simp: NUM_DVFS_LEVELS_def split: if_splits)
  moreover have "calc_required_dvfs_level demo_cfg 0 demo0 = Some (5, demo0)"
    using dvfs_level_is_slowest_safe [OF demo0_free(1), of demo_cfg 5000] demo_calm(1)
    by (auto simp: demo0 demo0_core NUM_DVFS_LEVELS_def)
  ultimately show ?thesis by blast
qed

theorem sleep_until_next_arrival_witness:
  "power_management_set_dpm_interval 0 10 demo0 = Some (enter_low_power 0 0 10 demo0)
   \<and> power_management_set_dpm_interval 0 3 demo0 = Some demo0
   \<and> power_management_set_dpm_interval 0 (2 ^ 24 + 3) demo0 = Some (enter_low_power 0 0 (2 ^ 24 + 4) demo0)"
proof -
  have i: "is_idle (cstate demo0 0)" using demo0(3) [of 0] by (simp add: core_fresh_def)
  note S = sleep_until_next_arrival [OF i demo0_ids(3) [of 0]]
  show ?thesis
    using S [of 10] S [of 3] S [of "2 ^ 24 + 3"] by (simp add: demo0)
qed

theorem next_arrival_is_future_witness:
  "0 < find_next_effective_arrival_time demo_cfg 0 demo0"
  using next_arrival_is_future [of demo0 demo_cfg 0] demo0_tasks
  by (auto simp: demo0 arrivals_fit_def demo0_ids)

section \<open>A thread that cannot be created\<close>

theorem thread_failure_reported_as_success_witness:
  "child_status demo_cfg (\<lambda>_. 3) (\<lambda>t. t = TimerThread) False = EXIT_SUCCESS"
proof (rule conjunct1 [OF thread_failure_reported_as_success])
  show "\<not> TimerThread = TimerThread \<or> (\<exists>i<NUM_CORES_PER_PROC demo_cfg. \<not> CoreThread i = TimerThread)"
    by (auto simp: demo_cfg_def intro: exI [of _ 0])
qed (simp add: ipc_open_socket_def)

end
