(* ===== verification/MigrationProps.thy ===== *)
theory MigrationProps
  imports Examples
begin

text \<open>
  The properties of the migration between the cores of a processor: what the answer to a request does
  in each of its cases, that it always returns, and what the offer of a job does.
\<close>

section \<open>The answer to a request\<close>

text \<open>The acknowledgements that wait for a core, and what an accepted job is given.\<close>

definition acks :: "sys \<Rightarrow> nat \<Rightarrow> delegation_ack list" where
  "acks s d = rb_contents (delegation_ack_queue (cstate s d))"

definition retuned_to :: "nat \<Rightarrow> u32 \<Rightarrow> job_struct \<Rightarrow> job_struct \<Rightarrow> bool" where
  "retuned_to l t j k \<longleftrightarrow> virtual_deadline k = arrival_time j + relative_tuned_deadlines j ! l
     \<and> wcet k = of_u32 (t_wcet (ptask j) ! l)
     \<and> next_migration_eligible_tick k = t + JOB_MIGRATION_COOLDOWN_TICKS"

text \<open>The answer of core \<open>c\<close> to the request for job \<open>p\<close> from core \<open>f\<close>, with \<open>ok\<close> for the admission.\<close>

definition answered :: "nat \<Rightarrow> nat \<Rightarrow> jptr \<Rightarrow> bool \<Rightarrow> sys \<Rightarrow> sys \<Rightarrow> bool" where
  "answered c f p ok s t \<longleftrightarrow>
     (let j = jobs s p; l = local_criticality_level (cstate s c);
          future = (ok \<and> state j = JOB_STATE_IDLE \<and> now s < arrival_time j);
          queued = (ok \<and> \<not> future \<and> job_link j \<noteq> LinkNull \<and> state j = JOB_STATE_READY) in
      \<not> is_being_offered (jobs t p) \<and> (\<forall>x. x \<noteq> p \<longrightarrow> jobs t x = jobs s x)
      \<and> refcount (jobs t p) = (if future then refcount j else refcount j - 1)
      \<and> (\<forall>d. acks t d = acks s d @ (if future \<and> d = f then [ack_for j] else []))
      \<and> (future \<or> queued \<longrightarrow> retuned_to l (now s) j (jobs t p))
      \<and> (\<forall>q. if future then mset (queues t q) = mset (queues s q) + (if q = PendingQ c then {#p#} else {#})
            else if queued
            then mset (queues t q) + (if job_link j = LinkIn q then {#p#} else {#})
                 = mset (queues s q) + (if q = arrival_queue c l j then {#p#} else {#})
            else queues t q = queues s q))"

lemma put_job_ref_self:
  "refcount (jobs (put_job_ref (Some p) c s) p) = refcount (jobs s p) - 1"
  "is_being_offered (jobs (put_job_ref (Some p) c s) p) = is_being_offered (jobs s p)"
  "virtual_deadline (jobs (put_job_ref (Some p) c s) p) = virtual_deadline (jobs s p)"
  "wcet (jobs (put_job_ref (Some p) c s) p) = wcet (jobs s p)"
  by (simp_all add: put_job_ref_def release_job_to_pool_def push_free_def push_remote_free_def Let_def)

lemma acks_double_unlock [simp]: "acks (double_rq_unlock c f s) d = acks s d"
  by (simp add: acks_def double_rq_unlock_def UNLOCK_RQ_def)

lemma drop_request_answered:
  assumes "\<not> (ok \<and> state (jobs s p) = JOB_STATE_IDLE \<and> now s < arrival_time (jobs s p))"
    and "\<not> (ok \<and> job_link (jobs s p) \<noteq> LinkNull \<and> state (jobs s p) = JOB_STATE_READY)"
  shows "answered c f p ok s (drop_request c f p s)"
proof -
  have "acks (drop_request c f p s) d = acks s d" for d by (simp add: drop_request_def, simp add: acks_def)
  then show ?thesis using assms
    by (auto simp: answered_def Let_def drop_request_def put_job_ref_self put_job_ref_other)
qed

lemma accepted_future_answered:
  assumes "state (jobs s p) = JOB_STATE_IDLE" and "now s < arrival_time (jobs s p)"
    and q: "rb_contents q = acks s f @ [ack_for (jobs s p)]"
  shows "answered c f p True s (accepted_future c f p q s)"
proof -
  have "acks (accepted_future c f p q s) d = acks s d @ (if d = f then [ack_for (jobs s p)] else [])" for d
    using q by (simp add: accepted_future_def, simp add: acks_def)
  then show ?thesis using assms
    by (simp add: answered_def Let_def accepted_future_def linked_state_def retuned_to_def
        accepted_fields_def retune_def)
qed

lemma accepted_queued_answered:
  assumes r: "state (jobs s p) = JOB_STATE_READY" and q: "job_link (jobs s p) = LinkIn q" "p \<in> set (queues s q)"
  shows "answered c f p True s (accepted_queued c f p q s)"
proof -
  let ?a = "arrival_queue c (local_criticality_level (cstate s c)) (jobs s p)"
  have a: "acks (accepted_queued c f p q s) d = acks s d" for d
    by (simp add: accepted_queued_def Let_def, simp add: acks_def)
  have j: "jobs (accepted_queued c f p q s) x = jobs s x" if "x \<noteq> p" for x
    using that by (simp add: accepted_queued_def Let_def put_job_ref_other)
  have m: "mset (queues (accepted_queued c f p q s) x) + (if q = x then {#p#} else {#})
      = mset (queues s x) + (if x = ?a then {#p#} else {#})" for x
  proof -
    have "add_mset p (mset (queues s q) - {#p#}) = mset (queues s q)" using q(2) by simp
    then show ?thesis by (auto simp: accepted_queued_def Let_def linked_state_def unlinked_state_def)
  qed
  show ?thesis using r q(1) a j m
    by (simp add: answered_def Let_def retuned_to_def)
      (simp add: accepted_queued_def Let_def put_job_ref_self moved_fields_def retune_def unlinked_state_def)
qed

lemma answer_request_answered:
  assumes L: "pair_held N B {#p#} c f s" and o: "offer_ok (jobs s p)"
    and ack: "rb_live n b (delegation_ack_queue (cstate s f))" "0 < rb_room (delegation_ack_queue (cstate s f))"
    and e: "answer_request c f p ok s = Some t"
  shows "answered c f p ok s t"
proof -
  let ?fut = "state (jobs s p) = JOB_STATE_IDLE \<and> now s < arrival_time (jobs s p)"
  let ?que = "job_link (jobs s p) \<noteq> LinkNull \<and> state (jobs s p) = JOB_STATE_READY"
  consider "ok" ?fut | "ok" "\<not> ?fut" ?que | "\<not> (ok \<and> ?fut)" "\<not> (ok \<and> ?que)" by blast
  then show ?thesis
  proof cases
    case 1
    let ?q = "rb_push (ack_for (jobs s p)) (delegation_ack_queue (cstate s f))"
    have "refs N s p = 0"
      using private_refs [OF pair_heldD(1) [OF L], of p] o 1(2) by (simp add: offer_ok_def)
    then have "unlinked (jobs s p)" by (auto simp: refs_def)
    moreover have "ring_buffer_enqueue (ack_for (jobs s p)) (delegation_ack_queue (cstate s f)) = Some (0, ?q)"
      using rb_live_put(1) [OF ack(1)] ack(2) by simp
    ultimately have "t = accepted_future c f p ?q s"
      using e 1 accept_future_eq [of s p f 0 ?q c] by (simp add: answer_request_def)
    moreover have "rb_contents ?q = acks s f @ [ack_for (jobs s p)]"
      using rb_live_put(3) [OF ack] by (simp add: acks_def)
    ultimately show ?thesis using accepted_future_answered 1 by simp
  next
    case 2
    obtain q where q: "job_link (jobs s p) = LinkIn q"
      using o 2 by (cases "job_link (jobs s p)") (simp_all add: offer_ok_def)
    have "p \<in> set (queues s q)" using queue_okD(2) [OF sys_invD(1) [OF pair_heldD(1) [OF L]]] q by blast
    moreover have "t = accepted_queued c f p q s"
      using e 2 accept_queued_eq [OF q] by (auto simp: answer_request_def)
    ultimately show ?thesis using accepted_queued_answered q 2 by simp
  next
    case 3
    then have "t = drop_request c f p s" using e by (auto simp: answer_request_def split: if_splits)
    then show ?thesis using drop_request_answered 3 by blast
  qed
qed

text \<open>C16: functional. While the clock is far from its end and the sender can take one more
  acknowledgement, a core answers every migration request it takes from its queue, with all locks
  released and the invariant kept. In every case the job is no longer marked as offered, and no other
  job changes. A job of the future that it admits becomes one of its pending jobs, keeps its reference,
  and exactly one acknowledgement, with its task and arrival time, goes to the core that sent it. A
  waiting job that it admits leaves the queue it was in and enters that of the receiving core for its
  kind, or its discard list if it is less critical than the core; both get the deadline, the budget and
  the cooldown of the new core. Any other job stays where it is. Except for the job of the future the
  reference of the request is dropped and no acknowledgement is sent.\<close>

theorem migration_request_answered:
  fixes cfg :: config
  assumes T: "tick_held N B {#req_job r#} s" and c: "c < N" and f: "from_core r < N"
    and o: "offer_ok (jobs s (req_job r))"
    and C: "calm cfg c (arrival_time (jobs s (req_job r))) (Some (req_job r)) s D"
    and ack: "rb_live 200 b (delegation_ack_queue (cstate s (from_core r)))"
      "0 < rb_room (delegation_ack_queue (cstate s (from_core r)))"
  defines "p \<equiv> req_job r" and "j \<equiv> jobs s (req_job r)" and "l \<equiv> local_criticality_level (cstate s c)"
  shows "\<exists>t ok future queued. process_request cfg c r s = Some t
     \<and> (ok \<longleftrightarrow> (\<forall>k\<in>{l..<MAX_CRITICALITY_LEVELS cfg}. level_admits cfg c p MIGRATION_PENALTY_TICKS s k))
     \<and> (future \<longleftrightarrow> ok \<and> state j = JOB_STATE_IDLE \<and> now s < arrival_time j)
     \<and> (queued \<longleftrightarrow> ok \<and> \<not> future \<and> job_link j \<noteq> LinkNull \<and> state j = JOB_STATE_READY)
     \<and> tick_inv N B t \<and> proc_state t = proc_state s \<and> (\<forall>d. requests (cstate t d) = requests (cstate s d))
     \<and> \<not> is_being_offered (jobs t p) \<and> (\<forall>x. x \<noteq> p \<longrightarrow> jobs t x = jobs s x)
     \<and> refcount (jobs t p) = (if future then refcount j else refcount j - 1)
     \<and> (\<forall>d. acks t d = acks s d @ (if future \<and> d = from_core r then [ack_for j] else []))
     \<and> (future \<or> queued \<longrightarrow> retuned_to l (now s) j (jobs t p))
     \<and> (\<forall>q. if future then mset (queues t q) = mset (queues s q) + (if q = PendingQ c then {#p#} else {#})
           else if queued
           then mset (queues t q) + (if job_link j = LinkIn q then {#p#} else {#})
                = mset (queues s q) + (if q = arrival_queue c l j then {#p#} else {#})
           else queues t q = queues s q)"
proof -
  let ?f = "from_core r"
  let ?ls = "[l..<MAX_CRITICALITY_LEVELS cfg]"
  obtain ok where a: "is_admissible_levels cfg c p MIGRATION_PENALTY_TICKS s ?ls = Some ok"
    using is_admissible_returns [OF C] unfolding p_def by blast
  then have ok: "ok \<longleftrightarrow> (\<forall>k\<in>set ?ls. level_admits cfg c p MIGRATION_PENALTY_TICKS s k)"
    using is_admissible_levels_iff [of cfg c p MIGRATION_PENALTY_TICKS s ?ls] by auto
  have adm: "is_admissible_locked cfg c p MIGRATION_PENALTY_TICKS t = Some ok" if S: "same_but_locks s t" for t
    using a by (simp add: is_admissible_locked_def is_admissible_core_def analysis_locks(5) [OF S]
        same_but_locksD [OF S] l_def)
  have "wp (process_request cfg c r s) (\<lambda>t. tick_inv N B t \<and> proc_state t = proc_state s
       \<and> (\<forall>d. requests (cstate t d) = requests (cstate s d)))"
    by (rule process_request_returns [OF T c f o _ ack]) (simp add: adm [unfolded p_def])
  then obtain t where t: "process_request cfg c r s = Some t" "tick_inv N B t"
    "proc_state t = proc_state s" "\<forall>d. requests (cstate t d) = requests (cstate s d)"
    by (auto simp: wp_iff)
  obtain u where u: "double_rq_lock c ?f s = Some u" "pair_held N B {#p#} c ?f u" "same_but_locks s u"
    unfolding p_def by (rule same_but_locks_pair [OF T c f])
  note S = same_but_locksD [OF u(3)]
  have e: "answer_request c ?f p ok u = Some t"
    using t(1) u(1) adm [OF u(3)] by (simp add: process_request_alt p_def)
  have "answered c ?f p ok u t"
    by (rule answer_request_answered [OF u(2) _ _ _ e]) (use o ack in \<open>simp_all add: S p_def\<close>)
  moreover have A: "acks u = acks s" by (simp add: fun_eq_iff acks_def S)
  ultimately have "answered c ?f p ok s t" by (simp only: answered_def S A)
  note H = this [unfolded answered_def Let_def, folded j_def [folded p_def] l_def]
  show ?thesis
    by (rule exI [of _ t], rule exI [of _ ok], rule exI, rule exI)
      (use t ok H in \<open>simp only: set_upt; blast\<close>)
qed

section \<open>The offer of a job\<close>

text \<open>C25: functional. The offer of a queued job returns when the request queues have room. It either
  changes no job and sends nothing, or sends exactly one request, to another core that is busy and has
  slack for the remaining work of the job, marks the job as offered and counts the reference in the
  request; the job stays in its queue until the other core answers.\<close>

theorem offer_goes_to_eligible_core:
  assumes L: "locked_held N B H c s" and c: "c < N" and N: "N = NUM_CORES_PER_PROC cfg"
    and link: "job_link (jobs s p) = LinkIn (kind_queue c (jobs s p))"
    and room: "\<forall>d<N. 0 < rb_room (migration_request_queue (cstate s d))"
  shows "wp (try_offload_job cfg c p s) (\<lambda>t. locked_held N B H c t \<and> queues t = queues s
     \<and> (jobs t = jobs s \<and> core_states t = core_states s
        \<or> (\<exists>d<N. d \<noteq> c \<and> eligible s (f_sub (wcet (jobs s p)) (executed_time (jobs s p))) d
             \<and> \<not> is_being_offered (jobs s p)
             \<and> jobs t = (jobs s)(p := (jobs s p)\<lparr>is_being_offered := True, refcount := refcount (jobs s p) + 1\<rparr>)
             \<and> (\<forall>i. requests (cstate t i)
                   = requests (cstate s i) @ (if i = d then [\<lparr>req_job = p, from_core = c\<rparr>] else [])))))"
proof -
  note D = locked_heldD [OF L]
  let ?s = "upd_job p (is_being_offered_update (\<lambda>_. True)) s"
  let ?d = "find_best_core_for_migration cfg p c ?s"
  let ?r = "\<lparr>req_job = p, from_core = c\<rparr>"
  let ?g = "upd_job p (refcount_update (\<lambda>r. r + 1)) ?s"
  let ?q = "migration_request_queue (cstate s ?d)"
  have d: "?d < N" using find_best_core_range [of c cfg p ?s] c N by simp
  have "rb_live 32 (B ?d) ?q" using sys_invD(4) [OF D(1) d] .
  note Q = rb_live_put(1,3) [OF this]
  have r: "0 < rb_room ?q" using room d by blast
  have undo: "jobs (upd_job p (is_being_offered_update (\<lambda>_. v)) s) = jobs s"
    if "is_being_offered (jobs s p) = v" for v
    using that by (auto simp: upd_job_def)
  have send: "try_offload_job cfg c p s
      = (if \<not> is_migration_profitable (jobs s p) (now s) then Some s
         else if is_being_offered (jobs s p) then Some ?s
         else if ?d = c then Some (upd_job p (is_being_offered_update (\<lambda>_. False)) ?s)
         else Some (upd_core ?d (migration_request_queue_update (\<lambda>_. rb_push ?r ?q)) ?g))"
    using Q(1) r by (simp add: try_offload_job_def Let_def send_request_def get_job_ref_def)
  then obtain t where t: "try_offload_job cfg c p s = Some t" by (auto split: if_splits)
  have K: "locked_held N B H c t" "queues t = queues s"
    using try_offload_job_ok [OF L c N link] t by (simp_all add: wlp_iff)
  have "jobs t = jobs s \<and> core_states t = core_states s
      \<or> (?d \<noteq> c \<and> \<not> is_being_offered (jobs s p)
         \<and> t = upd_core ?d (migration_request_queue_update (\<lambda>_. rb_push ?r ?q)) ?g)"
    using t undo [of True] undo [of False] by (auto simp: send upd_job_def split: if_splits)
  then show ?thesis
  proof (elim disjE conjE)
    assume "jobs t = jobs s" "core_states t = core_states s"
    then show ?thesis using t K by simp
  next
    assume n: "?d \<noteq> c" "\<not> is_being_offered (jobs s p)"
      and e: "t = upd_core ?d (migration_request_queue_update (\<lambda>_. rb_push ?r ?q)) ?g"
    have "eligible s (f_sub (wcet (jobs s p)) (executed_time (jobs s p))) ?d"
      using find_best_core_eligible [OF n(1)] by (simp add: eligible_def)
    moreover have f: "(jobs s p)\<lparr>is_being_offered := True, refcount := refcount (jobs s p) + 1\<rparr>
        = refcount_update (\<lambda>r. r + 1) ((jobs s p)\<lparr>is_being_offered := True\<rparr>)"
      by (rule job_struct.equality) simp_all
    have "jobs t = (jobs s)(p := (jobs s p)\<lparr>is_being_offered := True, refcount := refcount (jobs s p) + 1\<rparr>)"
      unfolding f e by (simp add: upd_job_def upd_core_def)
    moreover have "requests (cstate t i) = requests (cstate s i) @ (if i = ?d then [?r] else [])" for i
      using Q(2) [OF r] by (simp add: e requests_def)
    ultimately show ?thesis using t K n d by (auto intro!: exI [of _ ?d])
  qed
qed

section \<open>Witnesses\<close>

lemma demo_acks:
  "rb_live 200 200 (delegation_ack_queue (cstate demo_held 1))"
  "0 < rb_room (delegation_ack_queue (cstate demo_held 1))"
proof -
  have A: "acks_fresh (delegation_ack_queue (cstate demo_held 1))"
    using demo0_ids(7) [of 1] by (simp add: demo_held)
  then show L: "rb_live 200 200 (delegation_ack_queue (cstate demo_held 1))" by (simp add: acks_fresh_def)
  show "0 < rb_room (delegation_ack_queue (cstate demo_held 1))"
    using rb_live_length [OF L] A by (simp add: acks_fresh_def)
qed

text \<open>The offered job arrives at tick 5; core 1 offers it to core 0.\<close>

lemma demo_idle_calm: "calm demo_cfg 0 5 (Some demo_p) (demo_idle 5 True) 5005"
proof -
  have t: "find_task_by_id demo_cfg 1 (demo_idle 5 True) = Some demo_task"
    using demo_tasks(2) by (simp add: find_task_by_id_def demo_idle_def)
  have "unat (calculate_horizon 0 (demo_idle 5 True)) \<le> 5000"
    using demo_horizon(2) by (simp add: calculate_horizon_def demo_idle demo_held demo0_core demo0(4))
  moreover have "unat (get_job_deadline (jobs (demo_idle 5 True) demo_p) l) \<le> 5005" if "l < 2" for l
  proof -
    have "l = 0 \<or> l = 1" using that by auto
    then show ?thesis by (auto simp: get_job_deadline_def demo_idle demo_job demo_fields_def)
  qed
  moreover have "unat ([6, 10 :: u32] ! l) \<le> 10" if "l < 2" for l :: nat
  proof -
    have "l = 0 \<or> l = 1" using that by auto
    then show ?thesis by auto
  qed
  moreover have "unat ([6, 10 :: u32] ! l) < 4294967281" if "l < 2" for l :: nat
    using calculation(3) [OF that] by simp
  ultimately show ?thesis
    by (auto simp: calm_def calendar_ok_def t demo_idle demo0 jobs_due_by_def analysed_jobs_def opt_list_def
        demo0_core)
qed

theorem migration_request_answered_witness:
  "\<exists>t ok. process_request demo_cfg 0 \<lparr>req_job = demo_p, from_core = 1\<rparr> (demo_idle 5 True) = Some t
     \<and> tick_inv 2 (\<lambda>_. demo_budget) t
     \<and> is_being_offered (jobs (demo_idle 5 True) demo_p) \<and> \<not> is_being_offered (jobs t demo_p)
     \<and> acks t 1 = (if ok then [\<lparr>ack_task_id = 1, ack_arrival_tick = 5, ack_accepted = True\<rparr>] else [])
     \<and> mset (queues t (PendingQ 0)) = (if ok then {#demo_p#} else {#})
     \<and> refcount (jobs t demo_p) = (if ok then 1 else 0)"
proof -
  let ?s = "demo_idle 5 True"
  let ?r = "\<lparr>req_job = demo_p, from_core = 1\<rparr>"
  have j: "arrival_time (jobs ?s demo_p) = 5" "state (jobs ?s demo_p) = JOB_STATE_IDLE"
    "refcount (jobs ?s demo_p) = 1" "t_id (ptask (jobs ?s demo_p)) = 1" "is_being_offered (jobs ?s demo_p)"
    by (simp_all add: demo_idle demo_job demo_fields_def new_job_fields_def)
  have o: "offer_ok (jobs ?s (req_job ?r))" using j by (simp add: offer_ok_def)
  have h: "tick_held 2 (\<lambda>_. demo_budget) {#req_job ?r#} ?s" using demo_idle(1) by simp
  have C: "calm demo_cfg 0 (arrival_time (jobs ?s (req_job ?r))) (Some (req_job ?r)) ?s 5005"
    using demo_idle_calm j by simp
  have q: "delegation_ack_queue (cstate ?s 1) = delegation_ack_queue (cstate demo_held 1)"
    by (simp add: demo_idle demo_held)
  have A: "acks ?s 1 = []" using demo0_ids(7) [of 1] by (simp add: acks_def demo_idle acks_fresh_def)
  have n: "now ?s = 0" "queues ?s (PendingQ 0) = []" by (simp_all add: demo_idle demo0 demo_held)
  have R: "rb_live 200 200 (delegation_ack_queue (cstate ?s (from_core ?r)))"
    "0 < rb_room (delegation_ack_queue (cstate ?s (from_core ?r)))" using demo_acks q by simp_all
  have "0 < (2 :: nat)" "from_core ?r < 2" by simp_all
  from migration_request_answered [OF h this o C R] obtain t ok future queued where
    t: "process_request demo_cfg 0 ?r ?s = Some t" "tick_inv 2 (\<lambda>_. demo_budget) t"
    "\<not> is_being_offered (jobs t (req_job ?r))"
    "refcount (jobs t (req_job ?r)) = (if future then refcount (jobs ?s (req_job ?r))
       else refcount (jobs ?s (req_job ?r)) - 1)"
    and F: "future \<longleftrightarrow> ok \<and> state (jobs ?s (req_job ?r)) = JOB_STATE_IDLE \<and> now ?s < arrival_time (jobs ?s (req_job ?r))"
      "queued \<longleftrightarrow> ok \<and> \<not> future \<and> job_link (jobs ?s (req_job ?r)) \<noteq> LinkNull
         \<and> state (jobs ?s (req_job ?r)) = JOB_STATE_READY"
    and K: "\<forall>d. acks t d = acks ?s d @ (if future \<and> d = from_core ?r then [ack_for (jobs ?s (req_job ?r))] else [])"
    and M: "\<forall>q. if future then mset (queues t q) = mset (queues ?s q) + (if q = PendingQ 0 then {#req_job ?r#} else {#})
         else if queued
         then mset (queues t q) + (if job_link (jobs ?s (req_job ?r)) = LinkIn q then {#req_job ?r#} else {#})
              = mset (queues ?s q) + (if q = arrival_queue 0 (local_criticality_level (cstate ?s 0))
                  (jobs ?s (req_job ?r)) then {#req_job ?r#} else {#})
         else queues t q = queues ?s q"
    by blast
  have f: "future = ok" "queued = False" using F j n by auto
  have "acks t 1 = (if ok then [ack_for (jobs ?s demo_p)] else [])" using K A f by simp
  moreover have "mset (queues t (PendingQ 0)) = (if ok then {#demo_p#} else {#})"
    using spec [OF M, of "PendingQ 0"] n f by (simp split: if_splits)
  ultimately show ?thesis
    by (intro exI [of _ t] exI [of _ ok]) (use t j f in \<open>auto simp: ack_for_def\<close>)
qed

theorem offer_goes_to_eligible_core_witness:
  "\<exists>t. try_offload_job demo_cfg 0 demo_p (upd_core 0 (rq_lock_update (\<lambda>_. True)) demo_queued) = Some t
     \<and> queues t (ReadyQ 0) = [demo_p]
     \<and> (\<forall>r\<in>set (requests (cstate t 1)). r = \<lparr>req_job = demo_p, from_core = 0\<rparr>)"
proof -
  let ?s = "upd_core 0 (rq_lock_update (\<lambda>_. True)) demo_queued"
  have L: "locked_held 2 (\<lambda>_. demo_budget) {#} 0 ?s"
    using lock_rq(2) [OF demo_queued(1), of 0] by simp
  have m: "job_link (jobs demo_queued demo_p) = LinkIn (ReadyQ 0)"
    using queue_okD(2) [OF sys_invD(1) [OF tick_invD(1) [OF demo_queued(1)]], of demo_p "ReadyQ 0"]
      demo_queued(3) by simp
  have "entry_ok (ReadyQ 0) (jobs demo_queued demo_p)"
    by (rule linked_entry_ok [OF sys_invD(1) [OF tick_invD(1) [OF demo_queued(1)]] m])
  then have k: "job_link (jobs ?s demo_p) = LinkIn (kind_queue 0 (jobs ?s demo_p))"
    using m by (simp add: kind_queue_def)
  have e: "requests (cstate demo_queued d) = []" if "d < 2" for d
    using demo_queued(5) [of d] demo0_core [OF that] by simp
  have r: "\<forall>d<2. 0 < rb_room (migration_request_queue (cstate ?s d))"
  proof (intro allI impI)
    fix d :: nat assume d: "d < 2"
    have "rb_live 32 demo_budget (migration_request_queue (cstate ?s d))"
      using sys_invD(4) [OF locked_heldD(1) [OF L] d] .
    then show "0 < rb_room (migration_request_queue (cstate ?s d))"
      using rb_live_length [of 32 demo_budget "migration_request_queue (cstate ?s d)"] e [OF d]
      by (simp add: requests_def upd_core_def split: if_splits)
  qed
  have N: "2 = NUM_CORES_PER_PROC demo_cfg" by simp
  have "requests (cstate ?s 1) = []" using e [of 1] by (simp add: requests_def)
  then show ?thesis
    using offer_goes_to_eligible_core [OF L _ N k r] demo_queued(3) by (auto simp: wp_iff requests_def)
qed

end
