(* ===== verification/LogInv.thy ===== *)
theory LogInv
  imports Log
begin

text \<open>
  The invariants of the log: the lines that reach the file are the accepted lines, in order and none
  twice, and the flag \<^verbatim>\<open>log_wakeup_pending\<close> never suppresses a wake-up of a logger that sleeps. The
  lengths of the texts that are logged, and the steps of one caller and the logger, for the
  executions of the properties.
\<close>

section \<open>Lines\<close>

lemma snprintf_length: "0 < n \<Longrightarrow> length (snprintf n text) < n"
  by (simp add: snprintf_def)

lemma append_str_length: "length q < 256 \<Longrightarrow> length (append_str q text) < 256"
  using snprintf_length [of "256 - length q" "text"] by (simp add: append_str_def)

lemma queue_entries_length: "length q < 256 \<Longrightarrow> length (queue_entries s ps q) < 256"
proof (induction ps arbitrary: q)
  case (Cons p ps)
  have "length (append_str q (job_to_str (jobs s p) 64)) < 256"
    using Cons.prems by (rule append_str_length)
  then show ?case using Cons.IH by (simp add: Let_def)
qed simp

text \<open>A line of 255 characters or more loses its end, and with it the newline.\<close>

lemma long_line_loses_newline:
  "log_line ctx time level file line body
   = (if length (log_prefix ctx time level file line @ body) < 255
      then log_prefix ctx time level file line @ body @ [CHR 0x0A]
      else take 255 (log_prefix ctx time level file line @ body))"
  by (auto simp: log_line_def snprintf_def MAX_LOG_MSG_SIZE_def)

lemma log_job_queue_length:
  assumes "(l, text) \<in> set (log_job_queue level name q s)"
  shows "length text < 256"
proof -
  let ?h = "snprintf 256 (''Queue '' @ [CHR 0x27] @ name @ [CHR 0x27] @ '': '')"
  have "length ?h < 256" by (rule snprintf_length) simp
  moreover from this have "length (append_str ?h ''(Empty)'') < 256" by (rule append_str_length)
  ultimately show ?thesis using assms
    by (auto simp: log_job_queue_def Let_def queue_entries_length simp del: append.simps
        split: if_splits)
qed

section \<open>The shared state\<close>

definition log_init :: "log_threads \<Rightarrow> bool" where
  "log_init t \<longleftrightarrow>
     (\<exists>opened buffer seq z. length buffer = 512 \<and> length seq = 512 \<and> \<not> log_shutdown_requested z
        \<and> log_system_init opened buffer seq z = Some (lt_sys t))
     \<and> (\<forall>i. lt_callers t i = LIdle) \<and> lt_logger t = GStart \<and> lt_main t = MRun
     \<and> lt_accepted t = [] \<and> lt_written t = []"

definition lines_ok :: "nat \<Rightarrow> log_threads \<Rightarrow> bool" where
  "lines_ok n t \<longleftrightarrow> rb_live 512 (2 ^ 63 - n) (log_queue (lt_sys t))
     \<and> lt_accepted t = lt_written t @ rb_contents (log_queue (lt_sys t))
     \<and> (\<forall>f. log_file (lt_sys t) = Some f \<longrightarrow> f = concat (lt_written t))"

definition wakeup_ok :: "log_threads \<Rightarrow> bool" where
  "wakeup_ok t \<longleftrightarrow> (if lt_main t = MDone then lt_logger t = GExit
     else log_sem (lt_sys t) \<noteq> None
       \<and> (log_wakeup_pending (lt_sys t) \<noteq> 0 \<longrightarrow> 0 < sem_value (log_sem (lt_sys t))
            \<or> (\<exists>i. lt_callers t i = LPost) \<or> lt_logger t \<in> {GStart, GDrain, GClear}))"

lemma log_init_state:
  assumes "log_init t"
  shows "lines_ok 0 t" and "log_sem (lt_sys t) = Some 0" and "log_wakeup_pending (lt_sys t) = 0"
    and "rb_contents (log_queue (lt_sys t)) = []" and "\<not> log_shutdown_requested (lt_sys t)"
proof -
  obtain opened buffer seq z where l: "length buffer = 512" "length seq = 512"
    and i: "log_system_init opened buffer seq z = Some (lt_sys t)"
    and z: "\<not> log_shutdown_requested z"
    and e: "lt_accepted t = []" "lt_written t = []"
    using assms by (auto simp: log_init_def)
  obtain q where q: "ring_buffer_init (log_queue z) 512 buffer seq (of_nat MAX_LOG_MSG_SIZE) = Some (0, q)"
    "rb_inv (2 ^ 63) q" "rb_contents q = []" "unat (rb_buf_size q) = 512"
    using ring_buffer_init_ok [of 512 buffer seq "2 ^ 63" "log_queue z" "of_nat MAX_LOG_MSG_SIZE"] l by auto
  have "lt_sys t = z\<lparr>log_file := if opened then Some '''' else None, log_queue := q, log_sem := Some 0,
      log_wakeup_pending := 0\<rparr>"
    using i q(1) by (simp add: log_system_init_def LOG_QUEUE_SIZE_def platform_sem_init_def)
  then show "lines_ok 0 t" "log_sem (lt_sys t) = Some 0" "log_wakeup_pending (lt_sys t) = 0"
    "rb_contents (log_queue (lt_sys t)) = []" "\<not> log_shutdown_requested (lt_sys t)"
    using q e z by (auto simp: lines_ok_def rb_live_def)
qed

lemma log_enqueue_ok:
  assumes "rb_live 512 b (log_queue s)"
  shows "log_enqueue msg s
     = Some (if rb_room (log_queue s) = 0 then (- ENOSPC, s)
             else (0, s\<lparr>log_queue := rb_push msg (log_queue s)\<rparr>))"
proof -
  obtain a where "rb_inv a (log_queue s)" using assms by (auto simp: rb_live_def)
  from ring_buffer_try_enqueue_eq [OF this] show ?thesis by (simp add: log_enqueue_def)
qed

lemma logger_take_ok:
  assumes "rb_live 512 b (log_queue s)"
  shows "logger_take s
     = Some (if rb_contents (log_queue s) = [] then (- EAGAIN, None, s)
             else (0, Some (hd (rb_contents (log_queue s))),
                   write_line (hd (rb_contents (log_queue s))) (s\<lparr>log_queue := rb_pop (log_queue s)\<rparr>)))"
  using rb_live_take(1) [OF assms, of "''''"] by (simp add: logger_take_def EAGAIN_def)

lemma lines_ok_mono:
  assumes "lines_ok n t" and "n < 2 ^ 62"
    and "log_queue (lt_sys u) = log_queue (lt_sys t)" and "lt_accepted u = lt_accepted t"
    and "lt_written u = lt_written t"
    and "log_file (lt_sys u) = log_file (lt_sys t) \<or> log_file (lt_sys u) = None"
  shows "lines_ok (Suc n) u"
proof -
  have "rb_live 512 (2 ^ 63 - n) (log_queue (lt_sys t))" using assms(1) by (simp add: lines_ok_def)
  then have "rb_live 512 (2 ^ 63 - Suc n) (log_queue (lt_sys t))"
    by (rule rb_live_mono) (use assms(2) in simp_all)
  then show ?thesis using assms(1) unfolding lines_ok_def assms(3-5)
    using assms(6) by (elim disjE) simp_all
qed

lemma lines_ok_step:
  assumes L: "lines_ok n t" and st: "lstep t u" and n: "n < 2 ^ 62"
  shows "lines_ok (Suc n) u"
proof -
  have q: "rb_live 512 (2 ^ 63 - n) (log_queue (lt_sys t))" using L by (simp add: lines_ok_def)
  have big: "512 < (2 :: nat) ^ 63 - n" using n by simp
  note same = lines_ok_mono [OF L n]
  from st show ?thesis
  proof (cases rule: lstep.cases)
    case (log_accepted i level msg ctx time "file" line body r s)
    then have r: "0 < rb_room (log_queue (lt_sys t))"
      and s: "s = (lt_sys t)\<lparr>log_queue := rb_push msg (log_queue (lt_sys t))\<rparr>"
      by (simp_all add: log_enqueue_ok [OF q] ENOSPC_def split: if_splits)
    have "rb_live 512 (2 ^ 63 - Suc n) (rb_push msg (log_queue (lt_sys t)))"
      by (rule rb_live_mono [OF rb_live_put(2) [OF q r]]) (use n in simp_all)
    then show ?thesis using L log_accepted(1) s rb_live_put(3) [OF q r] by (simp add: lines_ok_def)
  next
    case (log_refused i msg r s)
    then have "s = lt_sys t" by (simp add: log_enqueue_ok [OF q] split: if_splits)
    then show ?thesis using log_refused(1) by (intro same) simp_all
  next
    case (logger_line r msg s)
    then have c: "rb_contents (log_queue (lt_sys t)) \<noteq> []"
      and m: "msg = hd (rb_contents (log_queue (lt_sys t)))"
      and s: "s = write_line msg ((lt_sys t)\<lparr>log_queue := rb_pop (log_queue (lt_sys t))\<rparr>)"
      by (auto simp: logger_take_ok [OF q] split: if_splits)
    have "rb_live 512 (2 ^ 63 - Suc n) (rb_pop (log_queue (lt_sys t)))"
      using rb_live_take(2) [OF q c big] by simp
    then show ?thesis using L logger_line(1) s m c rb_live_take(3) [OF q c]
      by (auto simp: lines_ok_def write_line_def)
  next
    case (logger_empty r m s)
    then have "s = lt_sys t" by (simp add: logger_take_ok [OF q] split: if_splits)
    then show ?thesis using logger_empty(1) by (intro same) simp_all
  qed (auto intro!: same simp: log_exchange_def log_post_iff log_destroy_iff log_request_shutdown_def log_close_file_def)
qed

lemma wakeup_ok_step:
  assumes W: "wakeup_ok t" and L: "lines_ok n t" and st: "lstep t u"
  shows "wakeup_ok u"
proof -
  have q: "rb_live 512 (2 ^ 63 - n) (log_queue (lt_sys t))" using L by (simp add: lines_ok_def)
  from st show ?thesis
  proof (cases rule: lstep.cases)
    case (log_accepted i level msg ctx time "file" line body r s)
    then have s: "s = (lt_sys t)\<lparr>log_queue := rb_push msg (log_queue (lt_sys t))\<rparr>"
      by (simp add: log_enqueue_ok [OF q] ENOSPC_def split: if_splits)
    have "\<exists>j. lt_callers u j = LPost" if "lt_callers t j = LPost" for j
      using that log_accepted(1,2) by (intro exI [of _ j]) auto
    moreover have k: "log_wakeup_pending (lt_sys u) = log_wakeup_pending (lt_sys t)"
      "log_sem (lt_sys u) = log_sem (lt_sys t)" "lt_logger u = lt_logger t" "lt_main u = lt_main t"
      using log_accepted(1) s by simp_all
    ultimately show ?thesis using W unfolding wakeup_ok_def k by (auto split: if_splits)
  next
    case (log_refused i msg r s)
    then have "s = lt_sys t" by (simp add: log_enqueue_ok [OF q] split: if_splits)
    then show ?thesis using W log_refused(1) by (simp add: wakeup_ok_def)
  next
    case (log_exchanged i old s)
    have e: "\<exists>j. lt_callers u j = LPost" if "old \<noteq> 0 \<longrightarrow> lt_callers t j = LPost" for j
      using that log_exchanged(1,2) by (intro exI [of _ "if old = 0 then i else j"]) auto
    have k: "old = log_wakeup_pending (lt_sys t)" "log_sem (lt_sys u) = log_sem (lt_sys t)"
      "lt_logger u = lt_logger t" "lt_main u = lt_main t"
      using log_exchanged(1,3) by (auto simp: log_exchange_def)
    show ?thesis using W e unfolding wakeup_ok_def k by (auto split: if_splits)
  next
    case (logger_line r msg s)
    then show ?thesis using W
      by (auto simp: wakeup_ok_def logger_take_ok [OF q] write_line_def split: if_splits)
  next
    case (logger_empty r m s)
    then show ?thesis using W by (auto simp: wakeup_ok_def logger_take_ok [OF q] split: if_splits)
  next
    case (logger_wake "is" m)
    then show ?thesis using W by (auto simp: wakeup_ok_def platform_sem_wait_eq split: if_splits)
  qed (use W in \<open>auto simp: wakeup_ok_def log_post_iff log_destroy_iff
      log_request_shutdown_def log_close_file_def\<close>)
qed

interpretation log_run: inductive_invariant
  "\<lambda>(n, t). n = 0 \<and> log_init t"
  "\<lambda>(n, t) (m, u). m = Suc n \<and> n < 2 ^ 62 \<and> lstep t u"
  "\<lambda>(n, t). lines_ok n t \<and> wakeup_ok t"
proof
  fix s :: "nat \<times> log_threads" assume "case s of (n, t) \<Rightarrow> n = 0 \<and> log_init t"
  then have "fst s = 0" and i: "log_init (snd s)" by auto
  moreover have "lt_main (snd s) = MRun" using i by (simp add: log_init_def)
  ultimately show "case s of (n, t) \<Rightarrow> lines_ok n t \<and> wakeup_ok t"
    using log_init_state(1-3) [OF i] by (simp add: split_beta wakeup_ok_def)
next
  fix s u :: "nat \<times> log_threads"
  assume "case s of (n, t) \<Rightarrow> lines_ok n t \<and> wakeup_ok t"
    and "(case s of (n, t) \<Rightarrow> \<lambda>(m, u). m = Suc n \<and> n < 2 ^ 62 \<and> lstep t u) u"
  then show "case u of (n, t) \<Rightarrow> lines_ok n t \<and> wakeup_ok t"
    using lines_ok_step wakeup_ok_step by auto
qed

text \<open>The executions, with the number of their steps.\<close>

definition log_runs :: "nat \<Rightarrow> log_threads \<Rightarrow> bool" where
  "log_runs n t \<longleftrightarrow> reachable (\<lambda>(n, t). n = 0 \<and> log_init t)
     (\<lambda>(n, t) (m, u). m = Suc n \<and> n < 2 ^ 62 \<and> lstep t u) (n, t)"

lemma log_runs_inv: "log_runs n t \<Longrightarrow> lines_ok n t \<and> wakeup_ok t"
  using log_run.inv_reachable [of "(n, t)"] by (simp add: log_runs_def)

lemma log_runs_init: "log_init t \<Longrightarrow> log_runs 0 t"
  by (simp add: log_runs_def reachable.start)

lemma log_runs_step: "log_runs n t \<Longrightarrow> lstep t u \<Longrightarrow> n < 2 ^ 62 \<Longrightarrow> log_runs (Suc n) u"
  unfolding log_runs_def by (rule reachable.move) auto

text \<open>When the logger sleeps on the semaphore and no thread is about to post it, a call
  of \<^verbatim>\<open>LOG\<close> that finds room in the queue returns with the semaphore above zero, so that the logger
  will run: the flag never suppresses a wake-up that is needed.\<close>

theorem log_call_wakes_logger:
  assumes "log_runs n t" and "lt_logger t = GWait" and "\<forall>i. lt_callers t i \<noteq> LPost"
    and "0 < rb_room (log_queue (lt_sys t))"
  shows "\<exists>s. LOG ctx time level file line body (lt_sys t) = Some s \<and> 0 < sem_value (log_sem s)
     \<and> rb_contents (log_queue s)
       = rb_contents (log_queue (lt_sys t)) @ [log_line ctx time level file line body]"
proof -
  let ?s = "lt_sys t" and ?m = "log_line ctx time level file line body"
  have L: "rb_live 512 (2 ^ 63 - n) (log_queue ?s)" and W: "wakeup_ok t"
    using log_runs_inv [OF assms(1)] by (simp_all add: lines_ok_def)
  have l: "current_log_level \<le> level"
    by (cases level) (simp_all add: current_log_level_def less_eq_log_level_def)
  have w: "log_wakeup_pending ?s \<noteq> 0 \<longrightarrow> 0 < sem_value (log_sem ?s)" using W assms(2,3) by (auto simp: wakeup_ok_def split: if_splits)
  have e: "log_enqueue ?m ?s = Some (0, ?s\<lparr>log_queue := rb_push ?m (log_queue ?s)\<rparr>)"
    using log_enqueue_ok [OF L, of ?m] assms(4) by simp
  obtain v where v: "log_sem ?s = Some v" using W assms(2) by (auto simp: wakeup_ok_def split: if_splits)
  show ?thesis using w rb_live_put(3) [OF L assms(4)]
    by (auto simp: LOG_def l e v log_exchange_def log_post_def platform_sem_post_eq)
qed

section \<open>One caller and the logger\<close>

definition log_at ::
  "log_system \<Rightarrow> log_pc \<Rightarrow> logger_pc \<Rightarrow> string list \<Rightarrow> string list \<Rightarrow> log_threads" where
  "log_at s c l a w = \<lparr>lt_sys = s, lt_callers = (\<lambda>i. if i = 0 then c else LIdle), lt_logger = l,
     lt_main = MRun, lt_accepted = a, lt_written = w\<rparr>"

text \<open>The steps of one caller and the logger, on states of this form.\<close>

lemma log_at_steps:
  shows "lstep (log_at s c GStart a w) (log_at (s\<lparr>log_wakeup_pending := 0\<rparr>) c GTop a w)"
    and "\<not> log_shutdown_requested s \<Longrightarrow> lstep (log_at s c GTop a w) (log_at s c GWait a w)"
    and "log_enqueue (log_line ctx time level file line body) s = Some (0, s') \<Longrightarrow>
      lstep (log_at s LIdle l a w)
            (log_at s' LExchange l (a @ [log_line ctx time level file line body]) w)"
    and "lstep (log_at s LExchange l a w)
      (log_at (s\<lparr>log_wakeup_pending := 1\<rparr>) (if log_wakeup_pending s = 0 then LPost else LIdle) l a w)"
    and "log_post s = Some s' \<Longrightarrow> lstep (log_at s LPost l a w) (log_at s' LIdle l a w)"
    and "log_sem s = Some (Suc n) \<Longrightarrow>
      lstep (log_at s c GWait a w) (log_at (s\<lparr>log_sem := Some n\<rparr>) c GDrain a w)"
    and "logger_take s = Some (0, Some msg, s') \<Longrightarrow>
      lstep (log_at s c GDrain a w) (log_at s' c GDrain a (w @ [msg]))"
    and "logger_take s = Some (- EAGAIN, None, s) \<Longrightarrow> lstep (log_at s c GDrain a w) (log_at s c GClear a w)"
    and "lstep (log_at s c GClear a w) (log_at (s\<lparr>log_wakeup_pending := 0\<rparr>) c GTop a w)"
proof -
  have upd: "(\<lambda>i :: nat. if i = 0 then c else LIdle)(0 := d) = (\<lambda>i. if i = 0 then d else LIdle)"
    "(\<lambda>i :: nat. LIdle)(0 := d) = (\<lambda>i. if i = 0 then d else LIdle)" for c d
    by auto
  have lv: "current_log_level \<le> level"
    by (cases level) (simp_all add: current_log_level_def less_eq_log_level_def)
  show "lstep (log_at s c GStart a w) (log_at (s\<lparr>log_wakeup_pending := 0\<rparr>) c GTop a w)"
    using lstep.logger_start [of "log_at s c GStart a w"] by (simp add: log_at_def)
  show "lstep (log_at s c GTop a w) (log_at s c GWait a w)" if "\<not> log_shutdown_requested s"
    using lstep.logger_check [of "log_at s c GTop a w"] that by (simp add: log_at_def)
  show "lstep (log_at s LIdle l a w)
      (log_at s' LExchange l (a @ [log_line ctx time level file line body]) w)"
    if "log_enqueue (log_line ctx time level file line body) s = Some (0, s')"
    using lstep.log_accepted [of "log_at s LIdle l a w" 0 level _ ctx time "file" line body 0 s'] that lv
    by (simp add: log_at_def upd)
  show "lstep (log_at s LExchange l a w)
      (log_at (s\<lparr>log_wakeup_pending := 1\<rparr>) (if log_wakeup_pending s = 0 then LPost else LIdle) l a w)"
    using lstep.log_exchanged [of "log_at s LExchange l a w" 0]
    by (simp add: log_at_def upd log_exchange_def)
  show "lstep (log_at s LPost l a w) (log_at s' LIdle l a w)" if "log_post s = Some s'"
    using lstep.log_posted [of "log_at s LPost l a w" 0 s'] that by (simp add: log_at_def upd)
  show "lstep (log_at s c GWait a w) (log_at (s\<lparr>log_sem := Some n\<rparr>) c GDrain a w)"
    if "log_sem s = Some (Suc n)"
    using lstep.logger_wake [of "log_at s c GWait a w" "[]" "Some n"] that
    by (simp add: log_at_def sem_wait_def)
  show "lstep (log_at s c GDrain a w) (log_at s' c GDrain a (w @ [msg]))"
    if "logger_take s = Some (0, Some msg, s')"
    using lstep.logger_line [of "log_at s c GDrain a w" 0 msg s'] that by (simp add: log_at_def)
  show "lstep (log_at s c GDrain a w) (log_at s c GClear a w)" if "logger_take s = Some (- EAGAIN, None, s)"
    using lstep.logger_empty [of "log_at s c GDrain a w" "- EAGAIN" None s] that
    by (simp add: log_at_def EAGAIN_def)
  show "lstep (log_at s c GClear a w) (log_at (s\<lparr>log_wakeup_pending := 0\<rparr>) c GTop a w)"
    using lstep.logger_clear [of "log_at s c GClear a w"] by (simp add: log_at_def)
qed

end
