(* ===== verification/LogDrain.thy ===== *)
theory LogDrain
  imports LogInv
begin

text \<open>
  The end of the log, after the threads that log have ended: the steps that accept no line
  (\<open>quiet\<close>). A logger that sleeps or drains when the shutdown begins empties the queue before it
  exits, and the thread that shuts the log down waits for it only a bounded number of steps of the
  logger.
\<close>

definition quiet :: "log_threads \<Rightarrow> log_threads \<Rightarrow> bool" where
  "quiet t u \<longleftrightarrow> lstep t u \<and> lt_accepted u = lt_accepted t"

lemma quietI: "lstep t u \<Longrightarrow> lt_accepted u = lt_accepted t \<Longrightarrow> quiet t u"
  by (simp add: quiet_def)

lemma quiet_accepted: "(quiet ^^ k) t u \<Longrightarrow> lt_accepted u = lt_accepted t"
  by (induction k arbitrary: u) (auto simp: quiet_def)

lemma quiet_runs: "log_runs n t \<Longrightarrow> (quiet ^^ k) t u \<Longrightarrow> n + k \<le> 2 ^ 62 \<Longrightarrow> log_runs (n + k) u"
proof (induction k arbitrary: u)
  case (Suc k)
  then obtain v where v: "(quiet ^^ k) t v" "quiet v u" by auto
  then have "lstep v u" by (simp add: quiet_def)
  then show ?case using Suc v(1) log_runs_step [of "n + k" v u] by simp
qed simp

section \<open>Nothing is left behind\<close>

definition drains :: "log_threads \<Rightarrow> bool" where
  "drains t \<longleftrightarrow> lt_logger t \<in> {GWait, GDrain} \<or> rb_contents (log_queue (lt_sys t)) = []"

lemma drains_quiet:
  assumes D: "drains t" and L: "lines_ok n t" and st: "quiet t u"
  shows "drains u"
proof -
  have q: "rb_live 512 (2 ^ 63 - n) (log_queue (lt_sys t))" using L by (simp add: lines_ok_def)
  have "lstep t u" and a: "lt_accepted u = lt_accepted t" using st by (simp_all add: quiet_def)
  from this(1) show ?thesis
  proof (cases rule: lstep.cases)
    case (log_refused i msg r s)
    then have "s = lt_sys t" by (simp add: log_enqueue_ok [OF q] split: if_splits)
    then show ?thesis using D log_refused(1) by (simp add: drains_def)
  next
    case (logger_empty r m s)
    then show ?thesis by (auto simp: drains_def logger_take_ok [OF q] split: if_splits)
  qed (use D a in \<open>auto simp: drains_def log_exchange_def log_post_iff log_destroy_iff log_request_shutdown_def
      log_close_file_def\<close>)
qed

lemma drains_run:
  assumes "log_runs n t" and "drains t" and "(quiet ^^ k) t u" and "n + k \<le> 2 ^ 62"
  shows "drains u"
  using assms(3,4)
proof (induction k arbitrary: u)
  case (Suc k)
  then obtain v where v: "(quiet ^^ k) t v" "quiet v u" by auto
  have "log_runs (n + k) v" using quiet_runs [OF assms(1) v(1)] Suc.prems(2) by simp
  then have "lines_ok (n + k) v" by (simp add: log_runs_inv)
  moreover have "drains v" using Suc.IH [OF v(1)] Suc.prems(2) by simp
  ultimately show ?case using drains_quiet v(2) by blast
qed (simp add: assms(2))

section \<open>The join returns\<close>

text \<open>Once the shutdown has been requested and posted, the logger does not sleep for ever.\<close>

definition shut_ok :: "log_threads \<Rightarrow> bool" where
  "shut_ok t \<longleftrightarrow> (lt_main t \<noteq> MRun \<longrightarrow> log_shutdown_requested (lt_sys t))
     \<and> (lt_main t = MJoin \<longrightarrow> lt_logger t = GWait \<longrightarrow> 0 < sem_value (log_sem (lt_sys t)))"

lemma shut_ok_step:
  assumes S: "shut_ok t" and L: "lines_ok n t" and st: "lstep t u"
  shows "shut_ok u"
proof -
  have q: "rb_live 512 (2 ^ 63 - n) (log_queue (lt_sys t))" using L by (simp add: lines_ok_def)
  from st show ?thesis
  proof (cases rule: lstep.cases)
    case (log_accepted i level msg ctx time "file" line body r s)
    then have "s = (lt_sys t)\<lparr>log_queue := rb_push msg (log_queue (lt_sys t))\<rparr>"
      by (simp add: log_enqueue_ok [OF q] ENOSPC_def split: if_splits)
    then show ?thesis using S log_accepted(1) by (simp add: shut_ok_def)
  next
    case (log_refused i msg r s)
    then have "s = lt_sys t" by (simp add: log_enqueue_ok [OF q] split: if_splits)
    then show ?thesis using S log_refused(1) by (simp add: shut_ok_def)
  next
    case (logger_line r msg s)
    then show ?thesis using S
      by (auto simp: shut_ok_def logger_take_ok [OF q] write_line_def split: if_splits)
  next
    case (logger_empty r m s)
    then show ?thesis using S by (auto simp: shut_ok_def logger_take_ok [OF q] split: if_splits)
  qed (use S in \<open>auto simp: shut_ok_def log_exchange_def log_post_iff log_destroy_iff
      log_request_shutdown_def log_close_file_def\<close>)
qed

interpretation shut_run: inductive_invariant
  "\<lambda>(n, t). n = 0 \<and> log_init t"
  "\<lambda>(n, t) (m, u). m = Suc n \<and> n < 2 ^ 62 \<and> lstep t u"
  "\<lambda>(n, t). lines_ok n t \<and> shut_ok t"
proof
  fix s :: "nat \<times> log_threads" assume "case s of (n, t) \<Rightarrow> n = 0 \<and> log_init t"
  then have "fst s = 0" "log_init (snd s)" by auto
  moreover from this(2) have "shut_ok (snd s)" by (simp add: shut_ok_def log_init_def)
  ultimately show "case s of (n, t) \<Rightarrow> lines_ok n t \<and> shut_ok t"
    using log_init_state(1) [of "snd s"] by (simp add: split_beta)
next
  fix s u :: "nat \<times> log_threads"
  assume "case s of (n, t) \<Rightarrow> lines_ok n t \<and> shut_ok t"
    and "(case s of (n, t) \<Rightarrow> \<lambda>(m, u). m = Suc n \<and> n < 2 ^ 62 \<and> lstep t u) u"
  then show "case u of (n, t) \<Rightarrow> lines_ok n t \<and> shut_ok t"
    using lines_ok_step shut_ok_step by auto
qed

lemma log_runs_shut: "log_runs n t \<Longrightarrow> shut_ok t"
  using shut_run.inv_reachable [of "(n, t)"] by (simp add: log_runs_def)

text \<open>The steps the logger has left.\<close>

fun logger_left :: "log_threads \<Rightarrow> nat" where
  "logger_left t = (case lt_logger t of
     GExit \<Rightarrow> 0 | GStart \<Rightarrow> 2 | GTop \<Rightarrow> 1 | GClear \<Rightarrow> 2
   | GDrain \<Rightarrow> 3 + length (rb_contents (log_queue (lt_sys t)))
   | GWait \<Rightarrow> 4 + length (rb_contents (log_queue (lt_sys t))))"

declare logger_left.simps [simp del]

lemma logger_moves:
  assumes S: "shut_ok t" and L: "lines_ok n t" and m: "lt_main t = MJoin" and g: "lt_logger t \<noteq> GExit"
  shows "\<exists>u. quiet t u \<and> lt_main u = MJoin \<and> logger_left u < logger_left t"
proof -
  have q: "rb_live 512 (2 ^ 63 - n) (log_queue (lt_sys t))" using L by (simp add: lines_ok_def)
  let ?c = "rb_contents (log_queue (lt_sys t))"
  have go: ?thesis if "lstep t u" "lt_accepted u = lt_accepted t" "lt_main u = MJoin"
    "logger_left u < logger_left t" for u using that quietI by blast
  show ?thesis
  proof (cases "lt_logger t")
    case GStart
    show ?thesis by (rule go [OF lstep.logger_start [OF GStart]]) (simp_all add: logger_left.simps GStart m)
  next
    case GTop
    have "log_shutdown_requested (lt_sys t)" using S m by (simp add: shut_ok_def)
    then show ?thesis
      by (intro go [OF lstep.logger_check [OF GTop]]) (simp_all add: logger_left.simps GTop m)
  next
    case GWait
    then have w: "platform_sem_wait [] (log_sem (lt_sys t)) = Some (Some (sem_value (log_sem (lt_sys t)) - 1))"
      using S m unfolding platform_sem_wait_eq by (auto simp: shut_ok_def)
    show ?thesis by (rule go [OF lstep.logger_wake [OF GWait w]]) (simp_all add: logger_left.simps GWait m)
  next
    case GDrain
    show ?thesis
    proof (cases "?c = []")
      case True
      then have e: "logger_take (lt_sys t) = Some (- EAGAIN, None, lt_sys t)"
        by (simp add: logger_take_ok [OF q])
      show ?thesis
        by (rule go [OF lstep.logger_empty [OF GDrain e]])
          (simp_all add: logger_left.simps GDrain m EAGAIN_def)
    next
      case False
      let ?s = "write_line (hd ?c) ((lt_sys t)\<lparr>log_queue := rb_pop (log_queue (lt_sys t))\<rparr>)"
      have l: "logger_take (lt_sys t) = Some (0, Some (hd ?c), ?s)"
        using False by (simp add: logger_take_ok [OF q])
      show ?thesis
        by (rule go [OF lstep.logger_line [OF GDrain l]])
          (simp_all add: logger_left.simps GDrain m False write_line_def rb_live_take(3) [OF q False])
    qed
  next
    case GClear
    show ?thesis by (rule go [OF lstep.logger_clear [OF GClear]]) (simp_all add: logger_left.simps GClear m)
  qed (use g in simp)
qed

lemma join_returns:
  assumes "log_runs n t" and "lt_main t = MJoin" and "n + Suc (logger_left t) \<le> 2 ^ 62"
  shows "\<exists>k u. k \<le> Suc (logger_left t) \<and> (quiet ^^ k) t u \<and> lt_main u = MDone \<and> lt_logger u = GExit"
  using assms
proof (induction "logger_left t" arbitrary: n t rule: less_induct)
  case less
  show ?case
  proof (cases "lt_logger t = GExit")
    case True
    let ?s = "(lt_sys t)\<lparr>log_sem := None\<rparr>"
    let ?u = "t\<lparr>lt_sys := log_close_file ?s, lt_main := MDone\<rparr>"
    have "wakeup_ok t" using log_runs_inv [OF less.prems(1)] by simp
    then have "log_destroy (lt_sys t) = Some ?s"
      using less.prems(2) by (simp add: wakeup_ok_def log_destroy_iff)
    then have "(quiet ^^ Suc 0) t ?u" using quietI [OF lstep.shutdown_join [OF less.prems(2) True]] by (simp add: eq_OO)
    then show ?thesis by (intro exI [of _ "Suc 0"] exI [of _ ?u]) (simp add: True)
  next
    case False
    have I: "shut_ok t" "lines_ok n t" using less.prems(1) log_runs_shut log_runs_inv by auto
    obtain u where u: "quiet t u" "lt_main u = MJoin" "logger_left u < logger_left t"
      using logger_moves [OF I less.prems(2) False] by blast
    have "log_runs (Suc n) u" using quiet_runs [OF less.prems(1), of 1 u] u(1) less.prems(3) by (simp add: eq_OO)
    then obtain k v where "k \<le> Suc (logger_left u)" "(quiet ^^ k) u v"
      "lt_main v = MDone" "lt_logger v = GExit"
      using less.hyps [OF u(3) _ u(2)] u(3) less.prems(3) by fastforce
    then show ?thesis using u(1,3) relpowp_Suc_I2 [of quiet t u k v]
      by (intro exI [of _ "Suc k"] exI [of _ v]) auto
  qed
qed

lemma logger_left_bound: "lines_ok n t \<Longrightarrow> logger_left t \<le> 516"
  using rb_live_length [of 512 "2 ^ 63 - n" "log_queue (lt_sys t)"]
  by (auto simp: logger_left.simps lines_ok_def split: logger_pc.splits)

lemma drains_exit: "drains u \<Longrightarrow> lt_logger u = GExit \<Longrightarrow> rb_contents (log_queue (lt_sys u)) = []"
  by (auto simp: drains_def)

section \<open>A line that is lost\<close>

text \<open>A logger that has not begun to drain when the shutdown is requested exits at once, whatever is
  in the queue.\<close>

lemma log_at_shutdown:
  assumes "\<not> log_shutdown_requested s" and "log_sem s = Some n"
  shows "\<exists>u. lstep\<^sup>*\<^sup>* (log_at s LIdle GStart a w) u \<and> lt_main u = MDone
     \<and> (\<forall>i. lt_callers u i = LIdle) \<and> lt_accepted u = a \<and> lt_written u = w
     \<and> rb_contents (log_queue (lt_sys u)) = rb_contents (log_queue s)"
proof -
  define t0 where "t0 = log_at s LIdle GStart a w"
  define t1 where "t1 = t0\<lparr>lt_sys := log_request_shutdown (lt_sys t0), lt_main := MPost\<rparr>"
  define t2 where "t2 = t1\<lparr>lt_sys := (lt_sys t1)\<lparr>log_sem := Some (Suc n)\<rparr>, lt_main := MJoin\<rparr>"
  define t3 where "t3 = t2\<lparr>lt_sys := (lt_sys t2)\<lparr>log_wakeup_pending := 0\<rparr>, lt_logger := GTop\<rparr>"
  define t4 where "t4 = t3\<lparr>lt_logger := GExit\<rparr>"
  define t5 where "t5 = t4\<lparr>lt_sys := log_close_file ((lt_sys t4)\<lparr>log_sem := None\<rparr>), lt_main := MDone\<rparr>"
  note defs = t0_def t1_def t2_def t3_def t4_def t5_def log_at_def log_request_shutdown_def
    log_close_file_def
  have "lstep t0 t1" unfolding t1_def by (rule lstep.shutdown_flag) (simp add: t0_def log_at_def)
  moreover have "lstep t1 t2" unfolding t2_def
    by (rule lstep.shutdown_post) (simp_all add: defs log_post_iff assms(2))
  moreover have "lstep t2 t3" unfolding t3_def
    by (rule lstep.logger_start) (simp add: t2_def t1_def t0_def log_at_def)
  moreover have "lstep t3 t4" using lstep.logger_check [of t3] by (simp add: defs)
  moreover have "lstep t4 t5" unfolding t5_def
    by (rule lstep.shutdown_join) (simp_all add: defs log_destroy_iff)
  ultimately have "lstep\<^sup>*\<^sup>* t0 t5" by (meson converse_rtranclp_into_rtranclp rtranclp.rtrancl_refl)
  then show ?thesis by (intro exI [of _ t5]) (simp add: defs)
qed

lemma shutdown_loses_line:
  assumes "log_init t"
  shows "\<exists>u. lstep\<^sup>*\<^sup>* t u \<and> lt_main u = MDone \<and> (\<forall>i. lt_callers u i = LIdle)
     \<and> lt_accepted u = [log_line ctx time level file line body] \<and> lt_written u = []
     \<and> rb_contents (log_queue (lt_sys u)) = [log_line ctx time level file line body]"
proof -
  let ?m = "log_line ctx time level file line body"
  define s where "s = lt_sys t"
  have t: "t = log_at s LIdle GStart [] []"
    using assms by (auto simp: log_init_def log_at_def s_def intro!: log_threads.equality)
  note I = log_init_state [OF assms, folded s_def]
  have L: "rb_live 512 (2 ^ 63) (log_queue s)" using I(1) by (simp add: lines_ok_def s_def)
  then have room: "0 < rb_room (log_queue s)" using rb_live_length [OF L] I(4) by simp
  define s1 where "s1 = s\<lparr>log_queue := rb_push ?m (log_queue s)\<rparr>"
  define s2 where "s2 = s1\<lparr>log_wakeup_pending := 1, log_sem := Some 1\<rparr>"
  have "lstep t (log_at s1 LExchange GStart ([] @ [?m]) [])"
    unfolding t by (rule log_at_steps(3)) (use log_enqueue_ok [OF L] room in \<open>simp add: s1_def\<close>)
  moreover have "lstep (log_at s1 LExchange GStart [?m] []) (log_at (s1\<lparr>log_wakeup_pending := 1\<rparr>) LPost GStart [?m] [])"
    using log_at_steps(4) [of s1 GStart "[?m]" "[]"] I(3) by (simp add: s1_def)
  moreover have "lstep (log_at (s1\<lparr>log_wakeup_pending := 1\<rparr>) LPost GStart [?m] [])
      (log_at s2 LIdle GStart [?m] [])"
    using I(2) by (intro log_at_steps(5)) (simp add: s2_def s1_def log_post_iff)
  moreover have "\<not> log_shutdown_requested s2" "rb_contents (log_queue s2) = [?m]"
    using I(4,5) rb_live_put(3) [OF L room, of ?m] by (simp_all add: s2_def s1_def)
  moreover from this(1) obtain u where "lstep\<^sup>*\<^sup>* (log_at s2 LIdle GStart [?m] []) u"
    "lt_main u = MDone" "\<forall>i. lt_callers u i = LIdle" "lt_accepted u = [?m]" "lt_written u = []"
    "rb_contents (log_queue (lt_sys u)) = rb_contents (log_queue s2)"
    using log_at_shutdown [of s2 1 "[?m]" "[]"] by (auto simp: s2_def)
  ultimately show ?thesis
    by (intro exI [of _ u]) (auto intro: converse_rtranclp_into_rtranclp)
qed

end
