(* ===== verification/LogProps.thy ===== *)
theory LogProps
  imports LogDrain
begin

text \<open>
  The properties of the log: it writes the accepted lines in order and, when the logger sleeps or
  drains as the shutdown begins, all of them; but a line can be stranded in the queue, and a
  shutdown that finds the logger before its loop loses what is in the queue.
\<close>

section \<open>Properties\<close>

text \<open>C31: refinement. After any interleaving of logging threads, logger and shutdown, the lines
  accepted so far are those written so far followed by those in the queue, in the order in which they
  were accepted; the file is the concatenation of the lines written, and at most 512 wait. When no
  thread logs any more, a logger that sleeps or drains has written every accepted line by the time it
  exits; and a shutdown that waits for the logger returns within 517 steps.\<close>

theorem log_file_is_fifo:
  assumes "log_runs n t"
  shows "lt_accepted t = lt_written t @ rb_contents (log_queue (lt_sys t))
     \<and> (\<forall>f. log_file (lt_sys t) = Some f \<longrightarrow> f = concat (lt_written t))
     \<and> length (rb_contents (log_queue (lt_sys t))) \<le> 512
     \<and> (\<forall>k u. lt_logger t \<in> {GWait, GDrain} \<longrightarrow> (quiet ^^ k) t u \<longrightarrow> n + k \<le> 2 ^ 62
          \<longrightarrow> lt_logger u = GExit
          \<longrightarrow> lt_written u = lt_accepted t \<and> rb_contents (log_queue (lt_sys u)) = [])
     \<and> (lt_main t = MJoin \<longrightarrow> n + 517 \<le> 2 ^ 62
          \<longrightarrow> (\<exists>k u. k \<le> 517 \<and> (quiet ^^ k) t u \<and> lt_main u = MDone \<and> lt_logger u = GExit))"
proof (intro conjI allI impI)
  have L: "lines_ok n t" using log_runs_inv [OF assms] by simp
  then have "rb_room (log_queue (lt_sys t)) + length (rb_contents (log_queue (lt_sys t))) = 512"
    by (intro rb_live_length [of _ "2 ^ 63 - n"]) (simp add: lines_ok_def)
  then show "length (rb_contents (log_queue (lt_sys t))) \<le> 512" by simp
  show "lt_accepted t = lt_written t @ rb_contents (log_queue (lt_sys t))"
    using L by (simp add: lines_ok_def)
  show "f = concat (lt_written t)" if "log_file (lt_sys t) = Some f" for f
    using L that by (simp add: lines_ok_def)
  show "\<exists>k u. k \<le> 517 \<and> (quiet ^^ k) t u \<and> lt_main u = MDone \<and> lt_logger u = GExit"
    if j: "lt_main t = MJoin" "n + 517 \<le> 2 ^ 62"
  proof -
    note b = logger_left_bound [OF L]
    then have "n + Suc (logger_left t) \<le> 2 ^ 62" using j(2) by linarith
    from join_returns [OF assms j(1) this] obtain k u where "k \<le> Suc (logger_left t)"
      "(quiet ^^ k) t u" "lt_main u = MDone" "lt_logger u = GExit" by blast
    then show ?thesis using b by (intro exI [of _ k] exI [of _ u]) linarith
  qed
  fix k u
  assume t: "lt_logger t \<in> {GWait, GDrain}" and k: "(quiet ^^ k) t u" "n + k \<le> 2 ^ 62"
    and u: "lt_logger u = GExit"
  have "drains u" by (rule drains_run [OF assms _ k]) (use t in \<open>simp add: drains_def\<close>)
  then show e: "rb_contents (log_queue (lt_sys u)) = []" using u by (rule drains_exit)
  have "lines_ok (n + k) u" using quiet_runs [OF assms k] by (simp add: log_runs_inv)
  then show "lt_written u = lt_accepted t" using e quiet_accepted [OF k(1)] by (simp add: lines_ok_def)
qed

text \<open>C39: error. A line can be left in the queue: accepted between the end of a drain and the reset of
  the flag, it finds the flag set and wakes nobody, and the logger goes back to sleep. All threads are
  then at rest, the semaphore is zero and the line waits for the next call. And a line is lost for good
  when the shutdown is requested before the logger has begun to drain: the logger tests the flag first
  and exits with the line in the queue.\<close>

theorem log_line_stranded:
  assumes "log_init t"
  shows "(\<exists>u. lstep\<^sup>*\<^sup>* t u \<and> lt_logger u = GWait \<and> log_sem (lt_sys u) = Some 0
     \<and> (\<forall>i. lt_callers u i = LIdle) \<and> \<not> log_shutdown_requested (lt_sys u)
     \<and> rb_contents (log_queue (lt_sys u)) = [log_line ctx time level file line body])
     \<and> (\<exists>u. lstep\<^sup>*\<^sup>* t u \<and> lt_main u = MDone \<and> (\<forall>i. lt_callers u i = LIdle)
          \<and> lt_accepted u = [log_line ctx time level file line body] \<and> lt_written u = [])"
proof -
  let ?m = "log_line ctx time level file line body"
  define s where "s = lt_sys t"
  have t: "t = log_at s LIdle GStart [] []"
    using assms by (auto simp: log_init_def log_at_def s_def intro!: log_threads.equality)
  note I = log_init_state [OF assms, folded s_def]
  have L: "rb_live 512 (2 ^ 63) (log_queue s)" using I(1) by (simp add: lines_ok_def s_def)
  then have room: "rb_room (log_queue s) = 512" using rb_live_length I(4) by fastforce
  define q1 where "q1 = rb_push ?m (log_queue s)"
  define q2 where "q2 = rb_pop q1"
  have L1: "rb_live 512 (2 ^ 63) q1" and c1: "rb_contents q1 = [?m]"
    using rb_live_put(2,3) [OF L, of ?m] room I(4) by (simp_all add: q1_def)
  have L2: "rb_live 512 (2 ^ 63 - 1) q2" and c2: "rb_contents q2 = []"
    using rb_live_take(2,3) [OF L1] c1 by (simp_all add: q2_def)
  have room2: "rb_room q2 = 512" using rb_live_length [OF L2] c2 by simp
  define s1 where "s1 = s\<lparr>log_wakeup_pending := 0\<rparr>"
  define s2 where "s2 = s\<lparr>log_queue := q1, log_wakeup_pending := 1, log_sem := Some 1\<rparr>"
  define s3 where "s3 = write_line ?m (s2\<lparr>log_sem := Some 0, log_queue := q2\<rparr>)"
  define s4 where "s4 = s3\<lparr>log_queue := rb_push ?m q2\<rparr>"
  have S: "log_sem s = Some 0" "\<not> log_shutdown_requested s" using I by (simp_all add: s_def)
  note then_step = rtranclp.rtrancl_into_rtrancl
  have sem: "platform_sem_post (Some 0) = Some (Some 1)" by (simp add: platform_sem_post_def)
  have "lstep\<^sup>*\<^sup>* t (log_at s1 LIdle GTop [] [])"
    unfolding t s1_def by (rule r_into_rtranclp, rule log_at_steps(1))
  then have "lstep\<^sup>*\<^sup>* t (log_at s1 LIdle GWait [] [])"
    by (rule then_step) (rule log_at_steps(2), simp add: s1_def S)
  then have "lstep\<^sup>*\<^sup>* t (log_at (s1\<lparr>log_queue := q1\<rparr>) LExchange GWait ([] @ [?m]) [])"
    by (rule then_step, intro log_at_steps(3))
      (use log_enqueue_ok [of _ s1 ?m] L room in \<open>simp add: s1_def q1_def\<close>)
  then have "lstep\<^sup>*\<^sup>* t (log_at (s1\<lparr>log_queue := q1, log_wakeup_pending := 1\<rparr>) LPost GWait [?m] [])"
    by (rule then_step) (use log_at_steps(4) [of "s1\<lparr>log_queue := q1\<rparr>"] in \<open>simp add: s1_def\<close>)
  then have "lstep\<^sup>*\<^sup>* t (log_at s2 LIdle GWait [?m] [])"
    by (rule then_step) (use log_at_steps(5) [of "s1\<lparr>log_queue := q1, log_wakeup_pending := 1\<rparr>"] S(1) sem
      in \<open>simp add: s1_def s2_def log_post_def\<close>)
  then have "lstep\<^sup>*\<^sup>* t (log_at (s2\<lparr>log_sem := Some 0\<rparr>) LIdle GDrain [?m] [])"
    by (rule then_step) (rule log_at_steps(6), simp add: s2_def)
  then have "lstep\<^sup>*\<^sup>* t (log_at s3 LIdle GDrain [?m] ([] @ [?m]))"
    by (rule then_step, intro log_at_steps(7))
      (use logger_take_ok [of _ "s2\<lparr>log_sem := Some 0\<rparr>"] L1 c1 S(1)
       in \<open>simp add: s2_def s3_def q2_def\<close>)
  then have "lstep\<^sup>*\<^sup>* t (log_at s3 LIdle GClear [?m] [?m])"
    by (rule then_step) (use log_at_steps(8) [of s3] logger_take_ok [of _ s3] L2 c2
       in \<open>simp add: s3_def s2_def write_line_def\<close>)
  then have "lstep\<^sup>*\<^sup>* t (log_at s4 LExchange GClear ([?m] @ [?m]) [?m])"
    by (rule then_step, intro log_at_steps(3))
      (use log_enqueue_ok [of _ s3 ?m] L2 room2 in \<open>simp add: s3_def s4_def write_line_def\<close>)
  moreover have p4: "log_wakeup_pending s4 = 1" "s4\<lparr>log_wakeup_pending := 1\<rparr> = s4"
    by (auto simp: s4_def s3_def s2_def write_line_def intro!: log_system.equality)
  ultimately have "lstep\<^sup>*\<^sup>* t (log_at s4 LIdle GClear [?m, ?m] [?m])"
    using log_at_steps(4) [of s4 GClear "[?m, ?m]" "[?m]", unfolded p4]
    by (simp add: rtranclp.rtrancl_into_rtrancl)
  then have "lstep\<^sup>*\<^sup>* t (log_at (s4\<lparr>log_wakeup_pending := 0\<rparr>) LIdle GTop [?m, ?m] [?m])"
    by (rule then_step) (rule log_at_steps(9))
  then have "lstep\<^sup>*\<^sup>* t (log_at (s4\<lparr>log_wakeup_pending := 0\<rparr>) LIdle GWait [?m, ?m] [?m])"
    by (rule then_step) (rule log_at_steps(2), simp add: s4_def s3_def s2_def write_line_def S)
  moreover have "rb_contents (rb_push ?m q2) = [?m]" using rb_live_put(3) [OF L2] room2 c2 by simp
  moreover define v where "v = log_at (s4\<lparr>log_wakeup_pending := 0\<rparr>) LIdle GWait [?m, ?m] [?m]"
  ultimately have "\<exists>u. lstep\<^sup>*\<^sup>* t u \<and> lt_logger u = GWait \<and> log_sem (lt_sys u) = Some 0
     \<and> (\<forall>i. lt_callers u i = LIdle) \<and> \<not> log_shutdown_requested (lt_sys u)
     \<and> rb_contents (log_queue (lt_sys u)) = [?m]"
    by (intro exI [of _ v]) (simp add: log_at_def s4_def s3_def s2_def write_line_def S)
  then show ?thesis using shutdown_loses_line [OF assms] by blast
qed

section \<open>Witnesses\<close>

definition log_zero :: log_system where
  "log_zero = \<lparr>log_queue = \<lparr>rb_head = 0, rb_tail = 0, rb_seq = [], rb_buf_size = 0,
     rb_buf_elem_size = 0, rb_buffer = []\<rparr>, log_sem = None, log_wakeup_pending = 0,
     log_shutdown_requested = False, log_file = None\<rparr>"

definition log_demo :: log_threads where
  "log_demo = \<lparr>lt_sys = the (log_system_init True (replicate 512 []) (replicate 512 0) log_zero),
     lt_callers = (\<lambda>_. LIdle), lt_logger = GStart, lt_main = MRun, lt_accepted = [], lt_written = []\<rparr>"

lemma log_demo: "log_init log_demo"
proof -
  have "\<exists>s. log_system_init True (replicate 512 []) (replicate 512 0) log_zero = Some s"
    using ring_buffer_init_ok [of 512 "replicate 512 []" "replicate 512 0" 0 "log_queue log_zero"
        "of_nat MAX_LOG_MSG_SIZE"]
    by (auto simp: log_system_init_def LOG_QUEUE_SIZE_def)
  then obtain s where "log_system_init True (replicate 512 []) (replicate 512 0) log_zero = Some s" by blast
  moreover have "\<not> log_shutdown_requested log_zero" by (simp add: log_zero_def)
  ultimately show ?thesis unfolding log_init_def log_demo_def
    by (auto intro!: exI [of _ True] exI [of _ "replicate 512 []"] exI [of _ "replicate 512 (0 :: u64)"]
        exI [of _ log_zero])
qed

text \<open>A line that is logged while the logger sleeps, then the shutdown.\<close>

definition demo_line :: string where
  "demo_line = log_line \<lparr>ctx_proc_id = 0, ctx_core_id = 1, is_set = True\<rparr> 7 LOG_LEVEL_INFO ''ipc.c'' 12 ''ok''"

lemma log_demo_shut:
  "\<exists>t. log_runs 7 t \<and> lt_logger t = GWait \<and> lt_main t = MJoin
     \<and> lt_accepted t = [demo_line]"
proof -
  let ?m = demo_line
  define s where "s = (lt_sys log_demo)\<lparr>log_wakeup_pending := 0\<rparr>"
  note I = log_init_state [OF log_demo]
  have L: "rb_live 512 (2 ^ 63) (log_queue s)" using I(1) by (simp add: lines_ok_def s_def)
  have room: "0 < rb_room (log_queue s)" using rb_live_length [OF L] I(4) by (simp add: s_def)
  define s1 where "s1 = s\<lparr>log_queue := rb_push ?m (log_queue s)\<rparr>"
  define s2 where "s2 = s1\<lparr>log_wakeup_pending := 1, log_sem := Some 1\<rparr>"
  have p: "log_post (s1\<lparr>log_wakeup_pending := 1\<rparr>) = Some s2"
    using log_init_state(2) [OF log_demo] by (simp add: s2_def s1_def s_def log_post_iff)
  define t5 where "t5 = log_at s2 LIdle GWait [?m] []"
  define t6 where "t6 = t5\<lparr>lt_sys := log_request_shutdown (lt_sys t5), lt_main := MPost\<rparr>"
  define t7 where "t7 = t6\<lparr>lt_sys := (lt_sys t6)\<lparr>log_sem := Some 2\<rparr>, lt_main := MJoin\<rparr>"
  have d: "log_demo = log_at (lt_sys log_demo) LIdle GStart [] []"
    using log_demo by (auto simp: log_init_def log_at_def intro!: log_threads.equality)
  have "lstep log_demo (log_at s LIdle GTop [] [])"
    unfolding s_def by (subst d) (rule log_at_steps(1))
  from log_runs_step [OF log_runs_init [OF log_demo] this]
  have "log_runs (Suc 0) (log_at s LIdle GTop [] [])" by simp
  from log_runs_step [OF this log_at_steps(2)]
  have "log_runs (Suc (Suc 0)) (log_at s LIdle GWait [] [])" using I(5) by (simp add: s_def)
  moreover have "lstep (log_at s LIdle GWait [] []) (log_at s1 LExchange GWait ([] @ [?m]) [])"
    unfolding demo_line_def
    by (rule log_at_steps(3)) (use log_enqueue_ok [OF L] room in \<open>simp add: s1_def demo_line_def\<close>)
  ultimately have "log_runs (Suc (Suc (Suc 0))) (log_at s1 LExchange GWait ([] @ [?m]) [])"
    using log_runs_step by simp
  from log_runs_step [OF this log_at_steps(4)]
  have "log_runs (Suc (Suc (Suc (Suc 0)))) (log_at (s1\<lparr>log_wakeup_pending := 1\<rparr>) LPost GWait [?m] [])"
    by (simp add: s1_def s_def)
  from log_runs_step [OF this log_at_steps(5) [OF p]]
  have "log_runs (Suc (Suc (Suc (Suc (Suc 0))))) t5" by (simp add: t5_def)
  moreover have "lstep t5 t6" unfolding t6_def by (rule lstep.shutdown_flag) (simp add: t5_def log_at_def)
  moreover have "lstep t6 t7" unfolding t7_def
    by (rule lstep.shutdown_post)
      (simp_all add: t6_def t5_def log_at_def s2_def log_post_iff log_request_shutdown_def)
  ultimately have "log_runs (Suc (Suc (Suc (Suc (Suc (Suc (Suc 0))))))) t7"
    by (intro log_runs_step [of _ t6 t7] log_runs_step [of _ t5 t6]) simp_all
  then have "log_runs 7 t7" by (simp add: numeral_eq_Suc)
  then show ?thesis by (intro exI [of _ t7]) (simp add: t7_def t6_def t5_def log_at_def)
qed

theorem log_file_is_fifo_witness:
  "\<exists>u :: log_threads. lt_main u = MDone \<and> rb_contents (log_queue (lt_sys u)) = []
     \<and> lt_written u = [demo_line]"
proof -
  obtain t where t: "log_runs 7 t" "lt_logger t = GWait" "lt_main t = MJoin"
    "lt_accepted t = [demo_line]"
    using log_demo_shut by blast
  note T = log_file_is_fifo [OF t(1)]
  obtain k u where u: "k \<le> 517" "(quiet ^^ k) t u" "lt_main u = MDone" "lt_logger u = GExit"
    using T t(3) by auto
  have "7 + k \<le> 2 ^ 62" using u(1) by simp
  then have "lt_written u = lt_accepted t \<and> rb_contents (log_queue (lt_sys u)) = []"
    using T t(2) u(2,4) by blast
  then show ?thesis using u(3) t(4) by metis
qed

lemma log_demo_waits:
  "\<exists>n u. log_runs n u \<and> lt_logger u = GWait \<and> (\<forall>i. lt_callers u i \<noteq> LPost)
     \<and> 0 < rb_room (log_queue (lt_sys u)) \<and> log_sem (lt_sys u) = Some 0"
proof -
  note I = log_init_state [OF log_demo]
  define u where "u = log_demo\<lparr>lt_sys := (lt_sys log_demo)\<lparr>log_wakeup_pending := 0\<rparr>, lt_logger := GTop\<rparr>"
  define v where "v = u\<lparr>lt_logger := GWait\<rparr>"
  have "lstep log_demo u" unfolding u_def by (rule lstep.logger_start) (simp add: log_demo_def)
  moreover have "lstep u v" using lstep.logger_check [of u] I(5) by (simp add: u_def v_def)
  ultimately have "log_runs (Suc (Suc 0)) v"
    using log_runs_step [OF log_runs_step [OF log_runs_init [OF log_demo]]] by simp
  moreover have "rb_room (log_queue (lt_sys v)) = 512"
    using rb_live_length [of 512 "2 ^ 63" "log_queue (lt_sys log_demo)"] I(1,4)
    by (simp add: lines_ok_def u_def v_def)
  moreover have "lt_logger v = GWait" "\<forall>i. lt_callers v i \<noteq> LPost" "log_sem (lt_sys v) = Some 0"
    using log_demo I(2) by (simp_all add: log_init_def u_def v_def)
  ultimately show ?thesis by (metis zero_less_numeral)
qed

theorem log_call_wakes_logger_witness:
  "\<exists>(t :: log_threads) s. log_sem (lt_sys t) = Some 0 \<and> sem_value (log_sem s) > 0
     \<and> LOG \<lparr>ctx_proc_id = 0, ctx_core_id = 1, is_set = True\<rparr> 7 LOG_LEVEL_INFO ''ipc.c'' 12 ''ok'' (lt_sys t)
       = Some s"
proof -
  obtain n u where u: "log_runs n u" "lt_logger u = GWait" "\<forall>i. lt_callers u i \<noteq> LPost"
    "0 < rb_room (log_queue (lt_sys u))" "log_sem (lt_sys u) = Some 0"
    using log_demo_waits by blast
  obtain s where "LOG \<lparr>ctx_proc_id = 0, ctx_core_id = 1, is_set = True\<rparr> 7 LOG_LEVEL_INFO ''ipc.c'' 12
      ''ok'' (lt_sys u) = Some s" "0 < sem_value (log_sem s)"
    using log_call_wakes_logger [OF u(1-4)] by blast
  then show ?thesis using u(5) by blast
qed

theorem log_line_stranded_witness:
  "\<exists>u. lstep\<^sup>*\<^sup>* log_demo u \<and> lt_logger u = GWait \<and> log_sem (lt_sys u) = Some 0
     \<and> rb_contents (log_queue (lt_sys u))
       = [log_line \<lparr>ctx_proc_id = 0, ctx_core_id = 1, is_set = True\<rparr> 7 LOG_LEVEL_INFO ''ipc.c'' 12 ''ok'']"
  using log_line_stranded [OF log_demo] by blast

end
