(* ===== verification/Machine.thy ===== *)
theory Machine
  imports ThreadInv Supervisor
begin

text \<open>
  All processors of the machine, each with its own state and threads, whose timers meet at the barrier
  \<^verbatim>\<open>proc_barrier\<close> that the parent process shares among them. Packets between processors may be lost,
  repeated and reordered: a timer may receive any datagrams.
\<close>

section \<open>The steps\<close>

type_synonym machine = "nat \<Rightarrow> threads"

inductive mstep :: "config \<Rightarrow> nat \<Rightarrow> machine \<Rightarrow> machine \<Rightarrow> bool"
  for cfg :: config and P :: nat where
  local: "\<lbrakk>i < P; pstep cfg True (m i) u\<rbrakk> \<Longrightarrow> mstep cfg P m (m(i := u))"
| proc_barrier:
    "\<forall>i<P. th_timer (m i) = TProc
     \<Longrightarrow> mstep cfg P m (\<lambda>i. if i < P then (m i)\<lparr>th_timer := TTop\<rparr> else m i)"

definition machine_init :: "config \<Rightarrow> nat \<Rightarrow> machine \<Rightarrow> bool" where
  "machine_init cfg P m \<longleftrightarrow> (\<forall>i<P. threads_init cfg (m i))"

section \<open>Steps of one processor\<close>

text \<open>How a step changes the clock and the place of the timer.\<close>

definition clock_of :: "threads \<Rightarrow> u32" where "clock_of t = now (th_sys t)"

definition after_tick :: "threads \<Rightarrow> bool" where "after_tick t \<longleftrightarrow> th_timer t \<in> {TSync, TProc}"

lemma state_ok_stay: "state_ok cfg n t \<Longrightarrow> state_ok cfg (Suc n) t"
  by (rule state_ok_move) simp_all

lemma pstep_clock:
  assumes S: "state_ok cfg n t" and P: "phases_ok cfg t" and st: "pstep cfg True t u"
    and G: "acet_returns cfg" and N: "NUM_CORES_PER_PROC cfg \<le> 64" and n: "n < 2 ^ 50"
  shows "clock_of u = (if \<not> after_tick t \<and> after_tick u then clock_of t + 1 else clock_of t)"
    and "after_tick t \<Longrightarrow> after_tick u"
proof -
  have k: "128 \<le> lifetime - 64 * n" using n by simp
  note A = S [unfolded state_ok_alive]
  have "clock_of u = (if \<not> after_tick t \<and> after_tick u then clock_of t + 1 else clock_of t)
    \<and> (after_tick t \<longrightarrow> after_tick u)"
    using st
  proof cases
    case (core_tick c s)
    have room: "length (outgoing (th_sys t)) < 64"
      using A past_tick_room [OF core_tick(2,3) N] by simp
    show ?thesis using alive_tick(3) [OF conjunct1 [OF A] G core_tick(2,4) room k] core_tick(1)
      by (auto simp: clock_of_def after_tick_def)
  next
    case (timer_run ds buf s)
    then show ?thesis using alive_timer(3) [OF conjunct1 [OF A] timer_run(3) k]
      by (simp add: clock_of_def after_tick_def ticked_def)
  qed (auto simp: clock_of_def after_tick_def)
  then show "clock_of u = (if \<not> after_tick t \<and> after_tick u then clock_of t + 1 else clock_of t)"
    and "after_tick t \<Longrightarrow> after_tick u" by blast+
qed

lemma timer_stays:
  assumes "pstep cfg True t u"
  shows "th_timer t = TExit \<Longrightarrow> th_timer u = TExit" and "th_timer t = TProc \<Longrightarrow> th_timer u = TProc"
  using assms by (cases; simp)+

section \<open>The invariant\<close>

text \<open>All processors are in the same round \<open>r\<close>; those whose timer has done its work show the next one.\<close>

definition in_round :: "nat \<Rightarrow> u32 \<Rightarrow> machine \<Rightarrow> bool" where
  "in_round P r m \<longleftrightarrow> (\<forall>i<P. clock_of (m i) = (if after_tick (m i) then r + 1 else r))"

definition machine_ok :: "config \<Rightarrow> nat \<Rightarrow> nat \<Rightarrow> machine \<Rightarrow> bool" where
  "machine_ok cfg P n m \<longleftrightarrow> (\<forall>i<P. state_ok cfg n (m i) \<and> phases_ok cfg (m i))
     \<and> (\<exists>r. in_round P r m)"

definition sound_cfg :: "config \<Rightarrow> bool" where
  "sound_cfg cfg \<longleftrightarrow> acet_returns cfg \<and> NUM_CORES_PER_PROC cfg \<le> 64"

lemma local_round:
  assumes M: "machine_ok cfg P n m" and R: "in_round P r m" and G: "sound_cfg cfg" and n: "n < 2 ^ 50"
    and i: "i < P" and st: "pstep cfg True (m i) u"
  shows "in_round P r (m(i := u))"
proof -
  have S: "state_ok cfg n (m i)" "phases_ok cfg (m i)" "acet_returns cfg" "NUM_CORES_PER_PROC cfg \<le> 64"
    using M G i by (simp_all add: machine_ok_def sound_cfg_def)
  note C = pstep_clock [OF S(1,2) st S(3,4) n]
  have "clock_of (m i) = (if after_tick (m i) then r + 1 else r)" using R i by (simp add: in_round_def)
  then have "clock_of u = (if after_tick u then r + 1 else r)" using C by (cases "after_tick (m i)") simp_all
  then show ?thesis using R by (simp add: in_round_def)
qed

lemma machine_ok_step:
  assumes M: "machine_ok cfg P n m" and G: "sound_cfg cfg" and n: "n < 2 ^ 50" and st: "mstep cfg P m m'"
  shows "machine_ok cfg P (Suc n) m'"
  using st
proof cases
  case (local i u)
  have S: "state_ok cfg n (m i)" "phases_ok cfg (m i)" "acet_returns cfg" "NUM_CORES_PER_PROC cfg \<le> 64"
    using M G local(2) by (simp_all add: machine_ok_def sound_cfg_def)
  have "state_ok cfg (Suc n) u" by (rule state_ok_step [OF S(1,2) local(3) S(3,4) n])
  moreover have "phases_ok cfg u" by (rule phases.inv_step [OF S(2) local(3)])
  moreover have "\<exists>r. in_round P r (m(i := u))"
    using M local_round [OF M _ G n local(2,3)] unfolding machine_ok_def by blast
  ultimately show ?thesis using M state_ok_stay by (simp add: machine_ok_def local(1))
next
  case proc_barrier
  from M obtain r where r: "in_round P r m" by (auto simp: machine_ok_def)
  have "state_ok cfg (Suc n) ((m i)\<lparr>th_timer := TTop\<rparr>) \<and> phases_ok cfg ((m i)\<lparr>th_timer := TTop\<rparr>)"
    if "i < P" for i
  proof
    show "state_ok cfg (Suc n) ((m i)\<lparr>th_timer := TTop\<rparr>)"
      by (rule state_ok_move [of cfg n "m i"]) (use M that in \<open>simp_all add: machine_ok_def\<close>)
    show "phases_ok cfg ((m i)\<lparr>th_timer := TTop\<rparr>)"
      using M that proc_barrier(2) by (auto simp: machine_ok_def phases_ok_def)
  qed
  moreover have "in_round P (r + 1) m'"
    using r proc_barrier by (simp add: in_round_def clock_of_def after_tick_def)
  ultimately show ?thesis using proc_barrier(1) by (auto simp: machine_ok_def)
qed

lemma machine_ok_init:
  assumes "machine_init cfg P m"
  shows "machine_ok cfg P 0 m"
proof -
  have "clock_of (m i) = (if after_tick (m i) then 0 + 1 else 0)" if "i < P" for i
  proof -
    obtain pid s where "boot s" "processor_init cfg pid s = Some (th_sys (m i))" "th_timer (m i) = TTop"
      using assms \<open>i < P\<close> by (auto simp: machine_init_def threads_init_def)
    then show ?thesis using processor_init_inv [of s 32 cfg pid]
      by (simp add: wp_iff clock_of_def after_tick_def)
  qed
  then have "in_round P 0 m" by (simp add: in_round_def)
  moreover have "state_ok cfg 0 (m i)" "phases_ok cfg (m i)" if "i < P" for i
    using assms that state_ok_init phases.inv_init by (auto simp: machine_init_def)
  ultimately show ?thesis by (auto simp: machine_ok_def)
qed

interpretation machine_run: inductive_invariant
  "\<lambda>(n, m). n = 0 \<and> machine_init cfg P m \<and> sound_cfg cfg"
  "\<lambda>(n, m) (n', m'). n' = Suc n \<and> n < 2 ^ 50 \<and> mstep cfg P m m'"
  "\<lambda>(n, m). machine_ok cfg P n m \<and> sound_cfg cfg"
  for cfg P
  by unfold_locales (auto intro: machine_ok_init machine_ok_step)

text \<open>The machines that executions of at most \<open>2 ^ 50\<close> steps reach, with the number of steps.\<close>

definition machine_runs :: "config \<Rightarrow> nat \<Rightarrow> nat \<Rightarrow> machine \<Rightarrow> bool" where
  "machine_runs cfg P n m \<longleftrightarrow> sound_cfg cfg \<and>
     reachable (\<lambda>(n, m). n = 0 \<and> machine_init cfg P m \<and> sound_cfg cfg)
       (\<lambda>(n, m) (n', m'). n' = Suc n \<and> n < 2 ^ 50 \<and> mstep cfg P m m') (n, m)"

lemma machine_runs_ok: "machine_runs cfg P n m \<Longrightarrow> machine_ok cfg P n m \<and> sound_cfg cfg"
  using machine_run.inv_reachable [where s = "(n, m)"] unfolding machine_runs_def by (elim conjE) simp

lemma machine_runs_start: "machine_init cfg P m \<Longrightarrow> sound_cfg cfg \<Longrightarrow> machine_runs cfg P 0 m"
  unfolding machine_runs_def by (intro conjI reachable.start) simp_all

lemma machine_runs_move:
  assumes "machine_runs cfg P n m" and "n < 2 ^ 50" and "mstep cfg P m m'"
  shows "machine_runs cfg P (Suc n) m'"
  unfolding machine_runs_def
proof
  show "sound_cfg cfg" using assms(1) by (simp add: machine_runs_def)
  show "reachable (\<lambda>(n, m). n = 0 \<and> machine_init cfg P m \<and> sound_cfg cfg)
       (\<lambda>(n, m) (n', m'). n' = Suc n \<and> n < 2 ^ 50 \<and> mstep cfg P m m') (Suc n, m')"
  proof (rule reachable.move)
    show "reachable (\<lambda>(n, m). n = 0 \<and> machine_init cfg P m \<and> sound_cfg cfg)
       (\<lambda>(n, m) (n', m'). n' = Suc n \<and> n < 2 ^ 50 \<and> mstep cfg P m m') (n, m)"
      using assms(1) unfolding machine_runs_def by (rule conjunct2)
  qed (use assms(2,3) in simp)
qed

section \<open>Properties\<close>

text \<open>C1: invariant. In every state that an execution of the whole machine reaches, every processor
  satisfies the invariant of the shared state, with at least \<open>2 ^ 61\<close> messages left before a queue
  counter wraps; its outgoing queue holds at most one message per core that has finished its tick; and
  while the timer works on the shared state, every core of the processor waits at the barrier.\<close>

theorem machine_keeps_invariant:
  assumes "machine_runs cfg P n m" and "n \<le> 2 ^ 50" and "i < P"
  shows "(\<exists>B b. (\<forall>c. 2 ^ 61 \<le> B c) \<and> 2 ^ 61 \<le> b \<and> tick_ready (NUM_CORES_PER_PROC cfg) B b (th_sys (m i)))
    \<and> length (outgoing (th_sys (m i))) \<le> card (past_tick cfg (m i))
    \<and> (th_timer (m i) = TBody \<longrightarrow> (\<forall>c<NUM_CORES_PER_PROC cfg. th_core (m i) c = CSync))"
proof -
  have S: "state_ok cfg n (m i)" "phases_ok cfg (m i)"
    using machine_runs_ok [OF assms(1)] assms(3) by (simp_all add: machine_ok_def)
  have k: "2 ^ 61 \<le> lifetime - 64 * n" using assms(2) by simp
  obtain B a b where B: "\<forall>c. lifetime - 64 * n \<le> B c" "lifetime - 64 * n \<le> b"
    and T: "tick_ready (NUM_CORES_PER_PROC cfg) B b (th_sys (m i))"
    using S(1) unfolding state_ok_def by blast
  have "\<forall>c. 2 ^ 61 \<le> B c" "2 ^ 61 \<le> b" using B k by (meson order_trans)+
  then show ?thesis using T S unfolding state_ok_def phases_ok_def by blast
qed

text \<open>C23: safety. The processors of a machine run in lockstep: in every state that an execution of at
  most \<open>2 ^ 50\<close> steps reaches, whatever packets are lost and whichever of them are told to stop, the
  clocks of two processors are equal or one tick apart.\<close>

theorem processors_in_lockstep:
  assumes "machine_runs cfg P n m" and "i < P" and "j < P"
  shows "clock_of (m i) = clock_of (m j) \<or> clock_of (m i) = clock_of (m j) + 1
    \<or> clock_of (m j) = clock_of (m i) + 1"
proof -
  obtain r where "in_round P r m" using machine_runs_ok [OF assms(1)] by (auto simp: machine_ok_def)
  then show ?thesis using assms(2,3) by (auto simp: in_round_def)
qed

lemma exit_freezes:
  assumes i: "i < P" "th_timer (m i) = TExit" and st: "mstep cfg P m m'"
  shows "th_timer (m' i) = TExit" and "th_timer (m j) = TProc \<Longrightarrow> th_timer (m' j) = TProc"
proof -
  have "th_timer (m' i) = TExit \<and> (th_timer (m j) = TProc \<longrightarrow> th_timer (m' j) = TProc)"
    using st
  proof cases
    case (local k u)
    then show ?thesis using timer_stays [OF local(3)] i by auto
  next
    case proc_barrier
    then show ?thesis using i by force
  qed
  then show "th_timer (m' i) = TExit" "th_timer (m j) = TProc \<Longrightarrow> th_timer (m' j) = TProc" by blast+
qed

lemma exit_freezes_clock:
  assumes M: "machine_ok cfg P n m" and R: "in_round P r m" and G: "sound_cfg cfg" and n: "n < 2 ^ 50"
    and i: "i < P" "th_timer (m i) = TExit" and st: "mstep cfg P m m'"
  shows "in_round P r m'" and "after_tick (m j) \<Longrightarrow> after_tick (m' j)"
proof -
  have "in_round P r m' \<and> (after_tick (m j) \<longrightarrow> after_tick (m' j))"
    using st
  proof cases
    case (local k u)
    have "state_ok cfg n (m k)" "phases_ok cfg (m k)" using M local(2) by (simp_all add: machine_ok_def)
    then show ?thesis
      using local_round [OF M R G n local(2,3)] pstep_clock(2) [OF _ _ local(3) _ _ n] G local(1)
      by (auto simp: sound_cfg_def)
  next
    case proc_barrier
    then show ?thesis using i by force
  qed
  then show "in_round P r m'" "after_tick (m j) \<Longrightarrow> after_tick (m' j)" by blast+
qed

text \<open>The states that \<open>k\<close> more steps reach.\<close>

definition steps_from :: "config \<Rightarrow> nat \<Rightarrow> machine \<Rightarrow> nat \<Rightarrow> machine \<Rightarrow> bool" where
  "steps_from cfg P m k m' \<longleftrightarrow> (mstep cfg P ^^ k) m m'"

lemma exit_strands:
  assumes "i < P" and "th_timer (m i) = TExit" and "steps_from cfg P m k m'"
  shows "th_timer (m' i) = TExit" and "th_timer (m j) = TProc \<Longrightarrow> th_timer (m' j) = TProc"
proof -
  have "th_timer (m' i) = TExit \<and> (th_timer (m j) = TProc \<longrightarrow> th_timer (m' j) = TProc)"
    using assms(3)
  proof (induction k arbitrary: m')
    case 0
    then show ?case using assms(2) by (simp add: steps_from_def)
  next
    case (Suc k)
    then obtain m1 where m1: "steps_from cfg P m k m1" "mstep cfg P m1 m'" by (auto simp: steps_from_def)
    then show ?case using Suc.IH [OF m1(1)] exit_freezes [OF assms(1) _ m1(2)] by blast
  qed
  then show "th_timer (m' i) = TExit" "th_timer (m j) = TProc \<Longrightarrow> th_timer (m' j) = TProc" by blast+
qed

lemma exit_strands_clock:
  assumes M: "machine_ok cfg P n m" and R: "in_round P r m" and G: "sound_cfg cfg"
    and i: "i < P" "th_timer (m i) = TExit" and "n + k \<le> 2 ^ 50" and "steps_from cfg P m k m'"
  shows "machine_ok cfg P (n + k) m' \<and> in_round P r m' \<and> (after_tick (m j) \<longrightarrow> after_tick (m' j))"
  using assms(6,7)
proof (induction k arbitrary: m')
  case 0
  then show ?case using M R by (simp add: steps_from_def)
next
  case (Suc k)
  then obtain m1 where m1: "steps_from cfg P m k m1" "mstep cfg P m1 m'" by (auto simp: steps_from_def)
  have k: "n + k < 2 ^ 50" using Suc.prems(1) by simp
  have J: "machine_ok cfg P (n + k) m1" "in_round P r m1" "after_tick (m j) \<longrightarrow> after_tick (m1 j)"
    using Suc.IH [OF _ m1(1)] k by simp_all
  note E = exit_freezes_clock [OF J(1,2) G k i(1) exit_strands(1) [OF i m1(1)] m1(2)]
  then show ?case using machine_ok_step [OF J(1) G k m1(2)] J(3) by simp
qed

text \<open>C37: error. Once the timer of one processor has ended, a timer that waits at the barrier of the
  processors waits there for ever, however many steps follow, so its thread is never joined and its
  process never exits. A clock that has done its tick of this round never advances again; any other
  advances at most once more, when its own timer does that tick (for the clocks the executions are
  those of at most \<open>2 ^ 50\<close> steps).\<close>

theorem exited_processor_strands_others:
  assumes "machine_runs cfg P n m" and "i < P" and "th_timer (m i) = TExit" and "j < P"
    and "steps_from cfg P m k m'"
  shows "(th_timer (m j) = TProc \<longrightarrow> th_timer (m' j) = TProc)
    \<and> (n + k \<le> 2 ^ 50 \<longrightarrow> (after_tick (m j) \<longrightarrow> after_tick (m' j) \<and> clock_of (m' j) = clock_of (m j))
         \<and> clock_of (m' j) = (if \<not> after_tick (m j) \<and> after_tick (m' j) then clock_of (m j) + 1 else clock_of (m j)))"
proof -
  from machine_runs_ok [OF assms(1)] obtain r where M: "machine_ok cfg P n m" and G: "sound_cfg cfg"
    and R: "in_round P r m" by (auto simp: machine_ok_def)
  have "in_round P r m' \<and> (after_tick (m j) \<longrightarrow> after_tick (m' j))" if "n + k \<le> 2 ^ 50"
    using exit_strands_clock [OF M R G assms(2,3) that assms(5)] by blast
  then show ?thesis using exit_strands(2) [OF assms(2,3,5)] R assms(4) by (auto simp: in_round_def)
qed

section \<open>Stopping a processor\<close>

lemma timer_gone:
  assumes "(pstep cfg shared)\<^sup>*\<^sup>* t u" and "th_timer t = TExit" and "th_core t c \<in> {CTick, CCompletion, CSync}"
  shows "th_timer u = TExit \<and> th_core u c \<in> {CTick, CCompletion, CSync}"
  using assms(1)
proof induction
  case base
  then show ?case using assms(2,3) by simp
next
  case (step u v)
  from step.hyps(2) show ?case using step.IH by (cases) auto
qed

text \<open>C38: error. SIGUSR1, with which the parent stops a processor, can leave it hanging. If it comes
  while the timer is at the top of its loop and a core is in its tick, or between the two barriers,
  the timer can end before the core, and from then on the core stays in the loop for ever: its thread
  never ends, and neither does the process that joins it.\<close>

theorem signal_strands_core:
  assumes "th_timer t = TTop \<and> th_core t c \<in> {CTick, CCompletion} \<or> th_timer t = TCheck \<and> th_core t c = CSync"
  shows "\<exists>u. (pstep cfg shared)\<^sup>*\<^sup>* t u \<and> th_timer u = TExit
     \<and> (\<forall>v. (pstep cfg shared)\<^sup>*\<^sup>* u v \<longrightarrow> th_core v c \<noteq> CExit \<and> th_timer v = TExit)"
proof -
  define s where "s = t\<lparr>th_sys := (th_sys t)\<lparr>proc_shutdown_requested := True\<rparr>\<rparr>"
  define u where "u = s\<lparr>th_timer := TExit\<rparr>"
  have "pstep cfg shared t s" unfolding s_def by (rule pstep.sigusr1)
  moreover have "pstep cfg shared s u"
  proof (cases "th_timer t = TTop")
    case True
    then show ?thesis unfolding u_def by (intro pstep.timer_leave) (simp_all add: s_def)
  next
    case False
    then show ?thesis unfolding u_def using assms by (intro pstep.timer_break) (simp_all add: s_def)
  qed
  ultimately have "(pstep cfg shared)\<^sup>*\<^sup>* t u" by (meson r_into_rtranclp rtranclp.rtrancl_into_rtrancl)
  moreover have U: "th_timer u = TExit" "th_core u c \<in> {CTick, CCompletion, CSync}"
    using assms by (auto simp: u_def s_def)
  moreover have "th_core v c \<noteq> CExit \<and> th_timer v = TExit" if "(pstep cfg shared)\<^sup>*\<^sup>* u v" for v
    using timer_gone [OF that U] by auto
  ultimately show ?thesis by (intro exI [of _ u]) simp
qed

end
