(* ===== verification/Levels.thy ===== *)
theory Levels
  imports Frames InitInv Machine
begin

text \<open>
  The criticality level and the frequency level of every core, which index the tables of the program:
  the budgets and deadlines of a task, and \<^verbatim>\<open>dvfs_levels\<close>. Only a mode change and the frequency scaling
  set them, to a level that exists.
\<close>

section \<open>The projection\<close>

definition core_levels :: "sys \<Rightarrow> nat \<Rightarrow> nat \<times> nat" where
  "core_levels s = (\<lambda>c. (local_criticality_level (cstate s c), current_dvfs_level (cstate s c)))"

interpretation levels: job_frame core_levels
  by unfold_locales (auto simp: core_levels_def fun_eq_iff)

lemma core_levels_simps [simp]:
  "core_levels (upd_job p f s) = core_levels s"
  by (simp add: core_levels_def)

section \<open>Levels that exist\<close>

definition levels_ok :: "config \<Rightarrow> sys \<Rightarrow> bool" where
  "levels_ok cfg s \<longleftrightarrow> system_criticality_level (proc_state s) < MAX_CRITICALITY_LEVELS cfg
     \<and> (\<forall>c<NUM_CORES_PER_PROC cfg. local_criticality_level (cstate s c) < MAX_CRITICALITY_LEVELS cfg
          \<and> current_dvfs_level (cstate s c) < NUM_DVFS_LEVELS)"

lemma levels_ok_core:
  "levels_ok cfg s \<longleftrightarrow> system_criticality_level (proc_state s) < MAX_CRITICALITY_LEVELS cfg
     \<and> (\<forall>c<NUM_CORES_PER_PROC cfg. case core_levels s c of
          (l, v) \<Rightarrow> l < MAX_CRITICALITY_LEVELS cfg \<and> v < NUM_DVFS_LEVELS)"
  by (simp add: levels_ok_def core_levels_def)

lemma levels_ok_same:
  assumes "levels_ok cfg s" and "core_levels t = core_levels s"
    and "system_criticality_level (proc_state t) = system_criticality_level (proc_state s)"
  shows "levels_ok cfg t"
  using assms by (simp add: levels_ok_core)

text \<open>Setting the level of a core, or its frequency, to one that exists.\<close>

lemma levels_ok_set:
  assumes "levels_ok cfg s"
    and "core_levels t = core_levels (upd_core c (local_criticality_level_update (\<lambda>_. l)) s)
       \<or> core_levels t = core_levels (upd_core c (current_dvfs_level_update (\<lambda>_. v)) s)"
    and "l < MAX_CRITICALITY_LEVELS cfg" and "v < NUM_DVFS_LEVELS"
    and "system_criticality_level (proc_state t) < MAX_CRITICALITY_LEVELS cfg"
  shows "levels_ok cfg t"
proof -
  have "core_levels (upd_core c (local_criticality_level_update (\<lambda>_. l)) s)
      = (core_levels s)(c := (l, snd (core_levels s c)))"
    "core_levels (upd_core c (current_dvfs_level_update (\<lambda>_. v)) s)
      = (core_levels s)(c := (fst (core_levels s c), v))"
    by (auto simp: core_levels_def fun_eq_iff)
  then show ?thesis using assms unfolding levels_ok_core by (auto simp: split_beta)
qed

lemma next_criticality_lt:
  assumes "l < MAX_CRITICALITY_LEVELS cfg"
  shows "next_criticality cfg l j < MAX_CRITICALITY_LEVELS cfg"
  using assms by (auto simp: next_criticality_def find_Some_iff split: option.split)

lemma mode_change_levels:
  assumes e: "handle_mode_change c l s = Some t" and L: "levels_ok cfg s" and l: "l < MAX_CRITICALITY_LEVELS cfg"
    and p: "system_criticality_level (proc_state t) < MAX_CRITICALITY_LEVELS cfg"
  shows "levels_ok cfg t"
proof (rule levels_ok_set [OF L _ l _ p])
  show "core_levels t = core_levels (upd_core c (local_criticality_level_update (\<lambda>_. l)) s)
       \<or> core_levels t = core_levels (upd_core c (current_dvfs_level_update (\<lambda>_. 0)) s)"
    using levels.mode_change [OF e] by (auto simp: core_levels_def set_decision_point_def fun_eq_iff)
qed (simp add: NUM_DVFS_LEVELS_def)

lemma mode_check_levels:
  assumes T: "tick_inv N B s" and c: "c < N" and e: "mode_check c s = Some t" and L: "levels_ok cfg s"
  shows "levels_ok cfg t"
proof -
  have p: "proc_state t = proc_state s" using mode_check_ok [OF T c] e by (simp add: wp_iff)
  show ?thesis
  proof (cases "t = s")
    case False
    then have h: "handle_mode_change c (system_criticality_level (proc_state s)) s = Some t"
      using e by (simp add: mode_check_def Let_def split: if_splits)
    show ?thesis by (rule mode_change_levels [OF h L]) (use L p in \<open>simp_all add: levels_ok_def\<close>)
  qed (use L in simp)
qed

lemma stopped_levels: "core_levels (stopped c p s) = core_levels s"
  by (simp add: stopped_def)

lemma running_levels:
  assumes T: "tick_inv N B s" and c: "c < N" and N: "N = NUM_CORES_PER_PROC cfg"
    and W: "wp (handle_running_job cfg c s) (\<lambda>t. case running_job (cstate s c) of
       None \<Rightarrow> t = s | Some p \<Rightarrow> run_effect cfg c p s t)"
    and e: "handle_running_job cfg c s = Some t" and L: "levels_ok cfg s"
  shows "levels_ok cfg t"
proof (cases "running_job (cstate s c)")
  case None
  then show ?thesis using W e L by simp
next
  case (Some p)
  let ?s = "upd_job p (charged c s) s"
  let ?l = "next_criticality cfg (local_criticality_level (cstate s c)) (jobs ?s p)"
  let ?b = "ipc_broadcast_criticality_change ?l ?s"
  have R: "run_effect cfg c p s t" using W e Some by simp
  have l: "?l < MAX_CRITICALITY_LEVELS cfg"
    using L c N by (intro next_criticality_lt) (simp add: levels_ok_def)
  let ?j = "jobs ?s p"
  have e': "(if missed (now s) ?j then Some ((stopped c p ?s)\<lparr>core_fatal_shutdown_requested := True\<rparr>)
      else if finished ?j then handle_job_completion c ?s
      else if over_budget ?j then handle_mode_change c ?l ?b else Some ?s) = Some t"
    using e Some unfolding handle_running_job_eq [OF T c] by (simp only: option.case Let_def)
  have R': "if missed (now s) ?j then proc_state t = proc_state s
      else if finished ?j then \<exists>q. proc_state t = (proc_state s)\<lparr>outgoing_completion_msg_queue := q\<rparr>
      else if over_budget ?j then mode_changed c ?l ?b t else t = ?s"
    using R unfolding run_effect_def Let_def by (simp split: if_splits)
  consider "missed (now s) ?j" | "\<not> missed (now s) ?j" "finished ?j"
    | "\<not> missed (now s) ?j" "\<not> finished ?j" "over_budget ?j"
    | "\<not> missed (now s) ?j" "\<not> finished ?j" "\<not> over_budget ?j" by blast
  then show ?thesis
  proof cases
    case 1
    have "core_levels t = core_levels (stopped c p ?s)" using e' 1 by (auto simp: core_levels_def)
    also have "\<dots> = core_levels s" by (simp add: stopped_levels)
    finally show ?thesis using R' 1 by (intro levels_ok_same [OF L]) simp_all
  next
    case 2
    then have h: "handle_job_completion c ?s = Some t" using e' by simp
    show ?thesis using levels.completion [OF h] R' 2 by (intro levels_ok_same [OF L]) auto
  next
    case 3
    then have h: "handle_mode_change c ?l ?b = Some t" using e' by simp
    have "mode_changed c ?l ?b t" using R' 3 by simp
    then have "system_criticality_level (proc_state t) = ?l" by (simp add: mode_changed_def)
    moreover have "levels_ok cfg ?b"
      using L by (simp add: levels_ok_def ipc_broadcast_criticality_change_def sendto_def)
    ultimately show ?thesis using l by (intro mode_change_levels [OF h]) simp_all
  next
    case 4
    then show ?thesis using R' L by (simp add: levels_ok_def)
  qed
qed

lemma power_phase_levels:
  assumes T: "tick_inv N B s" and c: "c < N" and e: "power_phase cfg c s = Some t"
  shows "core_levels t = core_levels s
    \<or> (\<exists>v<NUM_DVFS_LEVELS. core_levels t = core_levels (upd_core c (current_dvfs_level_update (\<lambda>_. v)) s))"
proof -
  note ul = tick_invD(2) [OF T c]
  obtain b u where b: "(if ENABLE_PROCRASTINATION cfg
      then power_management_try_procrastination cfg c s else Some (False, s)) = Some (b, u)"
    using e by (auto simp: power_phase_def bind_Some_iff)
  have u: "core_levels u = core_levels s" "b \<or> u = s"
    using b levels.procrastination try_procrastination_ok [OF T c, of cfg]
    by (auto simp: wlp_iff split: if_splits)
  show ?thesis
  proof (cases b)
    case True
    then show ?thesis using e b u(1) by (simp add: power_phase_def)
  next
    case False
    then have "u = s" using u(2) by simp
    with e b False obtain v where v: "(if ENABLE_DVFS cfg \<and> decision_point (cstate s c)
        then do { (l, s) \<leftarrow> calc_required_dvfs_level cfg c s; Some (power_set_dvfs_level c l s) }
        else Some s) = Some v"
      and t: "(if ENABLE_DPM cfg \<and> is_idle (cstate v c)
        then power_management_set_dpm_interval c (find_next_effective_arrival_time cfg c v) v
        else Some v) = Some t"
      by (auto simp: power_phase_def bind_Some_iff)
    have "v = s \<or> (\<exists>l<NUM_DVFS_LEVELS. v = upd_core c (current_dvfs_level_update (\<lambda>_. l)) s)"
      using v calc_required_dvfs_level_same [OF ul]
      by (auto simp: bind_Some_iff power_set_dvfs_level_def split: if_splits)
    moreover have "core_levels t = core_levels v" using t levels.dpm by (auto split: if_splits)
    ultimately show ?thesis by auto
  qed
qed

section \<open>The tick\<close>

text \<open>The phases before the power phase keep the levels of all cores, the last ones set a frequency.\<close>

lemma later_phases_levels:
  assumes G: "acet_returns cfg" and T: "tick_inv N B s" and c: "c < N"
    and N: "N = NUM_CORES_PER_PROC cfg" and b: "64 \<le> B c" and e: "later_phases cfg c s = Some t"
    and L: "levels_ok cfg s"
  shows "levels_ok cfg t"
proof -
  let ?mig = "\<lambda>u. if ENABLE_MIGRATION cfg
          then do {
            s \<leftarrow> update_delegations c u;
            s \<leftarrow> attempt_migration_push cfg c s;
            process_migration_requests cfg c s }
          else Some u"
  obtain u v w x y where u: "handle_job_arrivals cfg c s = Some u" and v: "reclaim_discarded_jobs cfg c u = Some v"
    and w: "?mig v = Some w" and x: "dispatch_phase c w = Some x" and y: "power_phase cfg c x = Some y"
    and t: "end_of_tick cfg c y = Some t"
    using e unfolding later_phases_def bind_Some_iff by blast
  have U: "tick_inv N B u" using handle_job_arrivals_ok [OF G T c] u by (simp add: wp_iff)
  have V: "tick_inv N B v" using reclaim_discarded_jobs_ok [OF U c, of cfg] v by (simp add: wlp_iff)
  have "core_levels w = core_levels v \<and> (\<exists>B'. tick_inv N B' w)"
  proof (cases "ENABLE_MIGRATION cfg")
    case True
    then obtain v1 v2 where m: "update_delegations c v = Some v1" "attempt_migration_push cfg c v1 = Some v2"
      "process_migration_requests cfg c v2 = Some w" using w by (auto simp: bind_Some_iff)
    have V1: "tick_inv N B v1" using update_delegations_ok [OF V] m(1) by (simp add: wlp_iff)
    have "\<exists>B'. tick_inv N B' w" using migration_phase_ok [OF V c N b] m by (auto simp: wlp_iff)
    then show ?thesis
      using levels.update_delegations [OF m(1)] levels.push [OF m(2)]
        levels.process_requests [OF m(3)] by simp
  qed (use w V in auto)
  then obtain B' where W: "tick_inv N B' w" and lw: "core_levels w = core_levels v" by blast
  have X: "tick_inv N B' x" using dispatch_phase_ok [OF W c] x by (simp add: wp_iff)
  have Y: "tick_inv N B' y" using power_phase_ok [OF X c, of cfg] y by (simp add: wlp_iff)
  have "core_levels x = core_levels s"
    using levels.arrivals [OF u] levels.reclaim [OF v] lw levels.dispatch_phase [OF x] by simp
  then have X': "core_levels (upd_core c (current_dvfs_level_update f) x)
      = core_levels (upd_core c (current_dvfs_level_update f) s)" for f
    by (auto simp: core_levels_def fun_eq_iff)
  have p: "proc_state t = proc_state s"
    using later_phases_ok [OF G T c N b] e by (simp add: wlp_iff)
  have ty: "core_levels t = core_levels y" by (rule levels.end_of_tick [OF Y c t])
  from power_phase_levels [OF X c y] show ?thesis
  proof
    assume "core_levels y = core_levels x"
    then show ?thesis using ty \<open>core_levels x = core_levels s\<close> p by (intro levels_ok_same [OF L]) simp_all
  next
    assume "\<exists>v<NUM_DVFS_LEVELS. core_levels y = core_levels (upd_core c (current_dvfs_level_update (\<lambda>_. v)) x)"
    then obtain v where v: "v < NUM_DVFS_LEVELS"
      "core_levels t = core_levels (upd_core c (current_dvfs_level_update (\<lambda>_. v)) s)"
      using ty X' by auto
    have "system_criticality_level (proc_state s) < MAX_CRITICALITY_LEVELS cfg" using L by (simp add: levels_ok_def)
    then show ?thesis using v p by (intro levels_ok_set [OF L, where c = c and v = v and l = 0]) auto
  qed
qed

lemma tick_levels:
  assumes G: "acet_returns cfg" and T: "tick_ready N B b s" and c: "c < N"
    and N: "N = NUM_CORES_PER_PROC cfg" and B: "64 \<le> B c"
    and room: "0 < rb_room (outgoing_completion_msg_queue (proc_state s))"
    and inc: "rb_inv a (incoming_completion_msg_queue (proc_state s))"
    and L: "levels_ok cfg s" and e: "scheduler_tick cfg c s = Some t"
  shows "levels_ok cfg t"
proof -
  let ?wake = "upd_core c (dpm_block_update (in_low_power_state_update (\<lambda>_. False)))"
  have T': "tick_inv N B s" using T by (simp add: tick_ready_def)
  obtain u v where u: "(if ENABLE_ECC cfg then remove_completed_jobs c s else Some s) = Some u"
    and v: "mode_check c u = Some v"
    and t: "(if in_low_power_state (dpm_block (cstate v c))
      then if dpm_end_time (dpm_block (cstate v c)) \<le> now v then active_tick cfg c (?wake v) else Some v
      else active_tick cfg c v) = Some t"
    using e unfolding scheduler_tick_def bind_Some_iff by blast
  have U: "tick_inv N B u \<and> proc_state u = proc_state s"
    using remove_completed_jobs_ok [OF T' c inc] u T' by (auto simp: wp_iff split: if_splits)
  have lu: "core_levels u = core_levels s" using u levels.remove_completed by (auto split: if_splits)
  have V: "tick_inv N B v \<and> proc_state v = proc_state s"
    using mode_check_ok [of N B u c] U c v by (simp add: wp_iff)
  have "levels_ok cfg u" using U lu by (intro levels_ok_same [OF L]) simp_all
  then have LV: "levels_ok cfg v" using mode_check_levels [OF _ c v] U by blast
  have active: "levels_ok cfg t" if a: "active_tick cfg c w = Some t" and W: "tick_inv N B w"
    "proc_state w = proc_state s" "levels_ok cfg w" for w
  proof -
    obtain x where x: "handle_running_job cfg c w = Some x" "later_phases cfg c x = Some t"
      using a by (auto simp: active_tick_alt bind_Some_iff)
    have Q: "rb_live 64 b (outgoing_completion_msg_queue (proc_state w))"
      "0 < rb_room (outgoing_completion_msg_queue (proc_state w))"
      using T room W(2) by (simp_all add: tick_ready_def)
    note R = handle_running_job_ok [OF W(1) c Q, of cfg]
    have "tick_inv N B x" using R x(1) by (simp add: wp_iff)
    moreover have "levels_ok cfg x"
      by (rule running_levels [OF W(1) c N _ x(1) W(3)]) (use R in \<open>auto elim: wp_mono\<close>)
    ultimately show ?thesis using later_phases_levels [where B = B, OF G _ c N B x(2)] by blast
  qed
  have "levels_ok cfg (?wake v)" using LV by (intro levels_ok_same [OF LV]) simp_all
  then show ?thesis using t active [of v] active [of "?wake v"] V LV by (auto split: if_splits)
qed

section \<open>The machine\<close>

lemma levels_init:
  assumes "threads_init cfg t" and "0 < MAX_CRITICALITY_LEVELS cfg"
  shows "levels_ok cfg (th_sys t)"
proof -
  obtain pid s where b: "boot s" and e: "processor_init cfg pid s = Some (th_sys t)"
    using assms(1) by (auto simp: threads_init_def)
  have I: "\<forall>i<NUM_CORES_PER_PROC cfg. core_fresh 32 (cstate (th_sys t) i)"
    "system_criticality_level (proc_state (th_sys t)) = 0"
    using processor_init_inv [OF b, of 32 cfg pid] e by (simp_all add: wp_iff)
  then show ?thesis using processor_init_ids(6) [OF e] assms(2)
    by (auto simp: levels_ok_def core_fresh_def NUM_DVFS_LEVELS_def)
qed

lemma timer_levels:
  assumes "timer_body cfg ds buf s = Some t" and "levels_ok cfg s" and "ticked cfg s t"
  shows "levels_ok cfg t"
proof -
  obtain u v w where u: "clear_incoming s = Some u" and v: "ipc_receive_completion_messages cfg ds buf u = Some v"
    and w: "release_expired_jobs cfg v = Some w" and t: "ipc_send_completion_messages (advance_time cfg w) = Some t"
    using assms(1) by (auto simp: timer_body_def bind_Some_iff)
  have "core_levels u = core_levels s" using u by (auto simp: clear_incoming_def bind_Some_iff)
  moreover have "core_levels v = core_levels u"
    using ipc_receive_level [OF v] by (auto simp: level_ok_def core_levels_def)
  moreover have "core_levels w = core_levels v" by (rule levels.release_expired [OF w])
  moreover have "core_levels (advance_time cfg w) = core_levels w"
    by (simp add: advance_time_def core_levels_def Let_def)
  moreover have "core_levels t = core_levels (advance_time cfg w)"
    using t by (auto simp: ipc_send_completion_messages_def sendto_def Let_def bind_Some_iff)
  ultimately have "core_levels t = core_levels s" by simp
  then show ?thesis using assms(2,3) by (simp add: levels_ok_core ticked_def)
qed

lemma pstep_levels:
  assumes S: "state_ok cfg n t" and st: "pstep cfg shared t u" and G: "sound_cfg cfg"
    and n: "n < 2 ^ 50" and L: "levels_ok cfg (th_sys t)"
  shows "levels_ok cfg (th_sys u)"
  using st
proof cases
  case (core_tick c s)
  have G': "acet_returns cfg" "NUM_CORES_PER_PROC cfg \<le> 64" using G by (simp_all add: sound_cfg_def)
  have k: "64 \<le> lifetime - 64 * n" using n by simp
  obtain B a b where B: "\<forall>c. lifetime - 64 * n \<le> B c"
    and T: "tick_ready (NUM_CORES_PER_PROC cfg) B b (th_sys t)"
    and I: "rb_live 64 a (incoming_completion_msg_queue (proc_state (th_sys t)))"
    using S unfolding state_ok_def by blast
  have "rb_live 64 b (outgoing_completion_msg_queue (proc_state (th_sys t)))" using T by (simp add: tick_ready_def)
  moreover have "length (outgoing (th_sys t)) < 64"
    using S past_tick_room [OF core_tick(2,3) G'(2)] by (auto simp: state_ok_def)
  ultimately have r: "0 < rb_room (outgoing_completion_msg_queue (proc_state (th_sys t)))"
    using rb_live_length [of 64 b] by fastforce
  obtain i where i: "rb_inv i (incoming_completion_msg_queue (proc_state (th_sys t)))"
    using rb_live_inv [OF I] by blast
  have "64 \<le> B c" using B k by (meson order_trans)
  from tick_levels [OF G'(1) T core_tick(2) refl this r i L core_tick(4)] show ?thesis
    by (simp add: core_tick(1))
next
  case (timer_run ds buf s)
  have k: "128 \<le> lifetime - 64 * n" using n by simp
  have "alive cfg (lifetime - 64 * n) (th_sys t)" using S unfolding state_ok_alive by (rule conjunct1)
  from alive_timer(3) [OF this timer_run(3) k] have "ticked cfg (th_sys t) s" .
  then show ?thesis using timer_levels [OF timer_run(3) L] by (simp add: timer_run(1))
next
  case sigusr1
  then show ?thesis using L by (simp add: levels_ok_def)
qed (use L in simp_all)

definition machine_levels :: "config \<Rightarrow> nat \<Rightarrow> nat \<Rightarrow> machine \<Rightarrow> bool" where
  "machine_levels cfg P n m \<longleftrightarrow> machine_ok cfg P n m \<and> sound_cfg cfg
     \<and> (0 < MAX_CRITICALITY_LEVELS cfg \<longrightarrow> (\<forall>i<P. levels_ok cfg (th_sys (m i))))"

lemma machine_levels_step:
  assumes M: "machine_levels cfg P n m" and n: "n < 2 ^ 50" and st: "mstep cfg P m m'"
  shows "machine_levels cfg P (Suc n) m'"
proof -
  note M' = M [unfolded machine_levels_def]
  have "levels_ok cfg (th_sys (m' i))" if i: "i < P" and z: "0 < MAX_CRITICALITY_LEVELS cfg" for i
    using st
  proof cases
    case (local j u)
    have "state_ok cfg n (m j)" using M' local(2) by (simp add: machine_ok_def)
    from pstep_levels [OF this local(3) _ n] show ?thesis
      using M' i z local(1,2) by (cases "i = j") simp_all
  next
    case proc_barrier
    then show ?thesis using M' i z by simp
  qed
  moreover have "machine_ok cfg P (Suc n) m'" using M' machine_ok_step [OF _ _ n st] by blast
  ultimately show ?thesis using M' by (simp add: machine_levels_def)
qed

interpretation levels_run: inductive_invariant
  "\<lambda>(n, m). n = 0 \<and> machine_init cfg P m \<and> sound_cfg cfg"
  "\<lambda>(n, m) (n', m'). n' = Suc n \<and> n < 2 ^ 50 \<and> mstep cfg P m m'"
  "\<lambda>(n, m). machine_levels cfg P n m"
  for cfg P
proof unfold_locales
  show "(\<lambda>(n, m). machine_levels cfg P n m) x"
    if "(\<lambda>(n, m). n = 0 \<and> machine_init cfg P m \<and> sound_cfg cfg) x" for x :: "nat \<times> machine"
    using that machine_ok_init [of cfg P "snd x"] levels_init [of cfg]
    by (auto simp: machine_levels_def machine_init_def split: prod.splits)
  show "(\<lambda>(n, m). machine_levels cfg P n m) y"
    if "(\<lambda>(n, m). machine_levels cfg P n m) x"
      "(\<lambda>(n, m) (n', m'). n' = Suc n \<and> n < 2 ^ 50 \<and> mstep cfg P m m') x y" for x y :: "nat \<times> machine"
    using that machine_levels_step by (auto split: prod.splits)
qed

lemma machine_runs_levels: "machine_runs cfg P n m \<Longrightarrow> machine_levels cfg P n m"
  using levels_run.inv_reachable [where s = "(n, m)"] unfolding machine_runs_def by (elim conjE) simp

end
