(* ===== verification/MessageProps.thy ===== *)
theory MessageProps
  imports MigrationProps LogProps Levels
begin

text \<open>
  The properties of the messages between processors, and the properties of the whole machine applied
  to the small system.
\<close>

section \<open>Completion messages\<close>

lemma foldM_append_bind: "foldM f (xs @ ys) s = Option.bind (foldM f xs s) (foldM f ys)"
  by (induction xs arbitrary: s) (auto split: Option.bind_splits)

text \<open>A sequence of packets puts all their messages into the incoming queue.\<close>

lemma receive_packets:
  assumes "\<forall>ms\<in>set mss. length ms \<le> 64" and "packet_buf_size \<le> length buf"
  shows "receive_loop cfg (map completion_packet mss) buf s = foldM put_incoming (concat mss) s"
  using assms
proof (induction mss arbitrary: s buf)
  case (Cons ms mss)
  let ?p = "completion_packet ms"
  have l: "length ?p \<le> packet_buf_size" "length (payload ms) < 2 ^ 60"
    using Cons.prems(1) payload_length [of ms]
    by (simp_all add: completion_packet_def packet_buf_size_def MESSAGE_QUEUE_SIZE_def
        sizeof_completion_message_def)
  have h: "handle_packet cfg (length ?p) (?p @ drop (length ?p) buf) s = foldM put_incoming ms s"
    by (rule handle_completion_packet [OF l(2)]) simp
  have b: "packet_buf_size \<le> length (?p @ drop (length ?p) buf)" using Cons.prems(2) by simp
  have IH: "receive_loop cfg (map completion_packet mss) (?p @ drop (length ?p) buf)
      = foldM put_incoming (concat mss)"
    using Cons.IH [OF _ b] Cons.prems(1) by (simp add: fun_eq_iff)
  show ?case using l(1) by (simp add: h IH foldM_append_bind)
qed simp

text \<open>C20: roundtrip. The completion messages of a processor arrive at every other one as they were: the
  send phase empties the outgoing queue into one datagram, and the receive phase appends the messages
  of the datagrams it gets to the incoming queue, in their order. When they are more than the queue has
  room for, the receive phase never returns.\<close>

theorem completion_messages_roundtrip:
  assumes "rb_live 64 a (outgoing_completion_msg_queue (proc_state s))" and "128 \<le> a"
    and "outgoing s \<noteq> []"
    and "rb_live 64 b (incoming_completion_msg_queue (proc_state t))"
    and "\<forall>ms\<in>set mss. length ms \<le> 64" and "packet_buf_size \<le> length buf"
  shows "\<exists>s' d. ipc_send_completion_messages s = Some s' \<and> outgoing s' = []
     \<and> sent_packets s' = sent_packets s @ [d]
     \<and> (if length (outgoing s @ concat mss) \<le> rb_room (incoming_completion_msg_queue (proc_state t))
        then \<exists>q. ipc_receive_completion_messages cfg (d # map completion_packet mss) buf t
                 = Some (upd_proc (incoming_completion_msg_queue_update (\<lambda>_. q)) t)
               \<and> rb_contents q = rb_contents (incoming_completion_msg_queue (proc_state t))
                   @ outgoing s @ concat mss
        else ipc_receive_completion_messages cfg (d # map completion_packet mss) buf t = None)"
proof -
  let ?q = "incoming_completion_msg_queue (proc_state t)"
  let ?ms = "outgoing s @ concat mss"
  obtain q where q: "rb_contents q = []" "ipc_send_completion_messages s = Some
      ((upd_proc (outgoing_completion_msg_queue_update (\<lambda>_. q)) s)
        \<lparr>sent_packets := sent_packets s @ [completion_packet (outgoing s)]\<rparr>)"
    using ipc_send_ok [OF assms(1,2)] assms(3) by (auto simp: Let_def)
  have "length (outgoing s) \<le> 64" using rb_live_length [OF assms(1)] by simp
  then have "receive_loop cfg (map completion_packet (outgoing s # mss)) buf t
      = foldM put_incoming (concat (outgoing s # mss)) t"
    using assms(5) by (intro receive_packets [OF _ assms(6)]) simp
  then have r: "ipc_receive_completion_messages cfg (completion_packet (outgoing s) # map completion_packet mss) buf t
      = foldM put_incoming ?ms t"
    by (simp add: ipc_receive_completion_messages_def)
  have "if length ?ms \<le> rb_room ?q
      then \<exists>q. foldM put_incoming ?ms t = Some (upd_proc (incoming_completion_msg_queue_update (\<lambda>_. q)) t)
             \<and> rb_contents q = rb_contents ?q @ ?ms
      else foldM put_incoming ?ms t = None"
    using put_incoming_fold [OF assms(4), of ?ms] put_incoming_blocks [OF assms(4), of ?ms] by auto
  then show ?thesis using q unfolding r [symmetric]
    by (intro exI [of _ "(upd_proc (outgoing_completion_msg_queue_update (\<lambda>_. q)) s)
        \<lparr>sent_packets := sent_packets s @ [completion_packet (outgoing s)]\<rparr>"]
        exI [of _ "completion_packet (outgoing s)"]) simp
qed

lemma demo_message_queues:
  "rb_live 64 demo_budget (rb_push m (outgoing_completion_msg_queue (proc_state demo0)))"
  "rb_contents (rb_push m (outgoing_completion_msg_queue (proc_state demo0))) = [m]"
  "rb_room (incoming_completion_msg_queue (proc_state demo0)) = 64"
proof -
  have "0 < rb_room (outgoing_completion_msg_queue (proc_state demo0))"
    using rb_live_length [OF demo0_messages(2)] demo0_messages(3) by simp
  then show "rb_live 64 demo_budget (rb_push m (outgoing_completion_msg_queue (proc_state demo0)))"
    "rb_contents (rb_push m (outgoing_completion_msg_queue (proc_state demo0))) = [m]"
    using rb_live_put(2,3) [OF demo0_messages(2)] demo0_messages(3) by simp_all
  show "rb_room (incoming_completion_msg_queue (proc_state demo0)) = 64"
    using rb_live_length [OF demo0_messages(1)] demo0_messages(4) by simp
qed

theorem completion_messages_roundtrip_witness:
  "\<exists>s m d q t. outgoing s = [m]
     \<and> ipc_receive_completion_messages demo_cfg [d] (replicate 769 0) demo0 = Some t
     \<and> rb_contents (incoming_completion_msg_queue (proc_state t)) = [m] \<and> d = last (sent_packets q)
     \<and> ipc_send_completion_messages s = Some q
     \<and> ipc_receive_completion_messages demo_cfg [d, completion_packet (replicate 64 m)] (replicate 769 0) demo0
       = None"
proof -
  define m where "m = \<lparr>completed_task_id = 1, job_arrival_time = 20, msg_system_time = 26\<rparr>"
  define s where "s = upd_proc (outgoing_completion_msg_queue_update
      (\<lambda>_. rb_push m (outgoing_completion_msg_queue (proc_state demo0)))) demo0"
  have o: "outgoing s = [m]" and L: "rb_live 64 demo_budget (outgoing_completion_msg_queue (proc_state s))"
    using demo_message_queues by (simp_all add: s_def)
  have b: "packet_buf_size \<le> length (replicate 769 (0 :: u8))"
    by (simp add: packet_buf_size_def MESSAGE_QUEUE_SIZE_def sizeof_completion_message_def)
  note R = completion_messages_roundtrip [OF L demo_budget(1) _ demo0_messages(1) _ b, where cfg = demo_cfg]
  obtain s1 d1 where 1: "ipc_send_completion_messages s = Some s1" "sent_packets s1 = sent_packets s @ [d1]"
    "\<exists>q. ipc_receive_completion_messages demo_cfg [d1] (replicate 769 0) demo0
        = Some (upd_proc (incoming_completion_msg_queue_update (\<lambda>_. q)) demo0) \<and> rb_contents q = [m]"
    using R [of "[]"] o demo_message_queues(3) demo0_messages(4) by auto
  obtain s2 d2 where 2: "ipc_send_completion_messages s = Some s2" "sent_packets s2 = sent_packets s @ [d2]"
    "ipc_receive_completion_messages demo_cfg [d2, completion_packet (replicate 64 m)] (replicate 769 0) demo0
       = None"
    using R [of "[replicate 64 m]"] o demo_message_queues(3) by auto
  have "d1 = d2" using 1(1,2) 2(1,2) by simp
  moreover obtain q where q: "ipc_receive_completion_messages demo_cfg [d1] (replicate 769 0) demo0
        = Some (upd_proc (incoming_completion_msg_queue_update (\<lambda>_. q)) demo0)" "rb_contents q = [m]"
    using 1(3) by blast
  ultimately have "outgoing s = [m]
     \<and> ipc_receive_completion_messages demo_cfg [d1] (replicate 769 0) demo0
       = Some (upd_proc (incoming_completion_msg_queue_update (\<lambda>_. q)) demo0)
     \<and> rb_contents (incoming_completion_msg_queue (proc_state
         (upd_proc (incoming_completion_msg_queue_update (\<lambda>_. q)) demo0))) = [m]
     \<and> d1 = last (sent_packets s1) \<and> ipc_send_completion_messages s = Some s1
     \<and> ipc_receive_completion_messages demo_cfg [d1, completion_packet (replicate 64 m)] (replicate 769 0) demo0
       = None"
    using o 1(1,2) 2(3) by simp
  then show ?thesis by blast
qed

section \<open>Criticality changes\<close>

text \<open>C33: roundtrip. A broadcast criticality level is understood by the receiver, which adopts it when it
  is above its own and known to its configuration; and no sequence of datagrams, whatever their
  contents, ever lowers the level or sets one the configuration does not have.\<close>

theorem criticality_broadcast_only_rises:
  assumes "l < 2 ^ 32" and "packet_buf_size \<le> length buf"
  shows "ipc_receive_completion_messages cfg
       [last (sent_packets (ipc_broadcast_criticality_change l s))] buf t
     = Some (if system_criticality_level (proc_state t) < l \<and> l < MAX_CRITICALITY_LEVELS cfg
             then upd_proc (system_criticality_level_update (\<lambda>_. l)) t else t)
   \<and> (\<forall>ds u. ipc_receive_completion_messages cfg ds buf t = Some u \<longrightarrow>
        system_criticality_level (proc_state t) \<le> system_criticality_level (proc_state u)
        \<and> (system_criticality_level (proc_state t) < MAX_CRITICALITY_LEVELS cfg \<longrightarrow>
             system_criticality_level (proc_state u) < MAX_CRITICALITY_LEVELS cfg))"
  using receive_criticality_packet [OF assms, of cfg t] ipc_receive_level
  by (fastforce simp: ipc_broadcast_criticality_change_def sendto_def level_ok_def)

theorem criticality_broadcast_only_rises_witness:
  "ipc_receive_completion_messages demo_cfg
       [last (sent_packets (ipc_broadcast_criticality_change 1 demo0))] (replicate 769 0) demo0
     = Some (upd_proc (system_criticality_level_update (\<lambda>_. 1)) demo0)"
  using criticality_broadcast_only_rises [of 1 "replicate 769 0" demo_cfg demo0 demo0]
  by (simp add: demo0 packet_buf_size_def MESSAGE_QUEUE_SIZE_def sizeof_completion_message_def)

section \<open>The machine\<close>

definition demo_threads :: threads where
  "demo_threads = \<lparr>th_sys = demo0, th_core = (\<lambda>_. CTop), th_timer = TTop\<rparr>"

lemma demo_threads: "threads_init demo_cfg demo_threads"
  using demo_boot demo0(1,9) by (auto simp: threads_init_def demo_threads_def)

lemma demo_machine: "machine_runs demo_cfg 2 0 (\<lambda>_. demo_threads)"
  unfolding machine_runs_def
proof
  show s: "sound_cfg demo_cfg" by (simp add: sound_cfg_def demo_acet)
  show "reachable (\<lambda>(n, m). n = 0 \<and> machine_init demo_cfg 2 m \<and> sound_cfg demo_cfg)
       (\<lambda>(n, m) (n', m'). n' = Suc n \<and> n < 2 ^ 50 \<and> mstep demo_cfg 2 m m') (0, \<lambda>_. demo_threads)"
    by (rule reachable.start) (simp add: s machine_init_def demo_threads)
qed

text \<open>C5: type. In every state that an execution of the whole machine reaches, every level by which
  the program indexes a table exists, whatever datagrams the processors receive: the criticality level
  of each processor and that of each of its cores are below the number of levels, to which the budgets
  and deadlines of the tasks are declared, and the frequency level of each core is an entry of
  \<^verbatim>\<open>dvfs_levels\<close>.\<close>

theorem levels_exist:
  assumes "machine_runs cfg P n m" and "0 < MAX_CRITICALITY_LEVELS cfg" and "i < P"
    and "c < NUM_CORES_PER_PROC cfg"
  shows "system_criticality_level (proc_state (th_sys (m i))) < MAX_CRITICALITY_LEVELS cfg
    \<and> local_criticality_level (cstate (th_sys (m i)) c) < MAX_CRITICALITY_LEVELS cfg
    \<and> current_dvfs_level (cstate (th_sys (m i)) c) < length dvfs_levels"
proof -
  have "levels_ok cfg (th_sys (m i))"
    using machine_runs_levels [OF assms(1)] assms(2,3) by (simp add: machine_levels_def)
  moreover have "length dvfs_levels = NUM_DVFS_LEVELS" by (simp add: dvfs_levels_def NUM_DVFS_LEVELS_def)
  ultimately show ?thesis using assms(4) by (simp add: levels_ok_def)
qed

theorem levels_exist_witness:
  "local_criticality_level (cstate (th_sys demo_threads) 1) < 2
    \<and> current_dvfs_level (cstate (th_sys demo_threads) 1) < 6"
  using levels_exist [OF demo_machine, of 0 1] by (simp add: dvfs_levels_def)

theorem machine_keeps_invariant_witness:
  "\<exists>B b. tick_ready 2 B b (th_sys demo_threads)"
  using machine_keeps_invariant [OF demo_machine, of 0] by auto

text \<open>The first processor is told to stop and its timer ends; the second goes on.\<close>

definition demo_stopped :: threads where
  "demo_stopped = demo_threads\<lparr>th_sys := demo0\<lparr>proc_shutdown_requested := True\<rparr>\<rparr>"

lemma demo_machine_stopped:
  "machine_runs demo_cfg 2 (Suc (Suc 0)) ((\<lambda>_. demo_threads)(0 := demo_stopped\<lparr>th_timer := TExit\<rparr>))"
proof -
  let ?m = "\<lambda>_ :: nat. demo_threads"
  have "mstep demo_cfg 2 ?m (?m(0 := demo_stopped))"
    unfolding demo_stopped_def
    using mstep.local [of 0 2 demo_cfg ?m] pstep.sigusr1 [of demo_cfg True demo_threads]
    by (simp add: demo_threads_def)
  moreover have "mstep demo_cfg 2 (?m(0 := demo_stopped)) ((?m(0 := demo_stopped))(0 := demo_stopped\<lparr>th_timer := TExit\<rparr>))"
    using mstep.local [of 0 2 demo_cfg "?m(0 := demo_stopped)"] pstep.timer_leave [of demo_stopped demo_cfg True]
    by (simp add: demo_stopped_def demo_threads_def)
  ultimately have "machine_runs demo_cfg 2 (Suc (Suc 0)) ((?m(0 := demo_stopped))(0 := demo_stopped\<lparr>th_timer := TExit\<rparr>))"
    by (intro machine_runs_move [OF machine_runs_move [OF demo_machine]]) simp_all
  then show ?thesis by (simp only: fun_upd_upd)
qed

theorem exited_processor_strands_others_witness:
  "\<exists>m'. steps_from demo_cfg 2 ((\<lambda>_. demo_threads)(0 := demo_stopped\<lparr>th_timer := TExit\<rparr>)) 1 m'
     \<and> th_timer (m' 1) = TCompletion \<and> clock_of (m' 1) = 0"
proof -
  let ?m = "(\<lambda>_ :: nat. demo_threads)(0 := demo_stopped\<lparr>th_timer := TExit\<rparr>)"
  let ?n = "?m(1 := demo_threads\<lparr>th_timer := TCompletion\<rparr>)"
  have "mstep demo_cfg 2 ?m ?n"
    using mstep.local [of 1 2 demo_cfg ?m] pstep.timer_enter [of demo_threads demo_cfg True]
    by (simp add: demo_threads_def demo0)
  then have s: "steps_from demo_cfg 2 ?m 1 ?n" by (auto simp: steps_from_def)
  have "\<not> after_tick (?n 1)" by (simp add: after_tick_def)
  then have "clock_of (?n 1) = clock_of (?m 1)"
    using exited_processor_strands_others [OF demo_machine_stopped _ _ _ s, of 0 1] by simp
  then show ?thesis using s by (intro exI [of _ ?n]) (simp add: clock_of_def demo_threads_def demo0)
qed

theorem signal_strands_core_witness:
  "\<exists>t u. (pstep demo_cfg True)\<^sup>*\<^sup>* demo_threads t \<and> (pstep demo_cfg True)\<^sup>*\<^sup>* t u
     \<and> (\<forall>v. (pstep demo_cfg True)\<^sup>*\<^sup>* u v \<longrightarrow> th_core v 0 \<noteq> CExit)"
proof -
  let ?t = "demo_threads\<lparr>th_core := (th_core demo_threads)(0 := CTick)\<rparr>"
  have "pstep demo_cfg True demo_threads ?t"
    by (rule pstep.core_enter) (simp_all add: demo_threads_def demo0)
  then have "(pstep demo_cfg True)\<^sup>*\<^sup>* demo_threads ?t" by blast
  moreover have "th_timer ?t = TTop \<and> th_core ?t 0 \<in> {CTick, CCompletion}
      \<or> th_timer ?t = TCheck \<and> th_core ?t 0 = CSync"
    by (simp add: demo_threads_def)
  from signal_strands_core [OF this, of demo_cfg True]
  obtain u where "(pstep demo_cfg True)\<^sup>*\<^sup>* ?t u" "\<forall>v. (pstep demo_cfg True)\<^sup>*\<^sup>* u v \<longrightarrow> th_core v 0 \<noteq> CExit"
    by blast
  ultimately show ?thesis by blast
qed

end
