(* ===== verification/TimerReturns.thy ===== *)
theory TimerReturns
  imports TimedStart
begin

text \<open>
  The body of the timer returns when the datagrams of a tick hold no more messages than the incoming
  queue has slots, and it keeps the calendar.
\<close>

section \<open>Datagrams that fit\<close>

text \<open>The completion messages the receiver reads from a datagram, which it cuts at the size of its buffer.\<close>

definition messages_in :: "u8 list \<Rightarrow> nat" where
  "messages_in d = (if hd d = PACKET_TYPE_COMPLETION
     then (min packet_buf_size (length d) - 1) div sizeof_completion_message else 0)"

definition datagrams_fit :: "nat \<Rightarrow> u8 list list \<Rightarrow> bool" where
  "datagrams_fit k ds \<longleftrightarrow> (\<forall>d\<in>set ds. d \<noteq> []) \<and> sum_list (map messages_in ds) \<le> k"

definition incoming_room :: "nat \<Rightarrow> nat \<Rightarrow> sys \<Rightarrow> bool" where
  "incoming_room a k s \<longleftrightarrow> rb_live 64 a (incoming_completion_msg_queue (proc_state s))
     \<and> k \<le> rb_room (incoming_completion_msg_queue (proc_state s))"

lemma read_completions_return:
  assumes "incoming_room a (k + length is) s"
    and "\<And>i. i \<in> set is \<Longrightarrow> 1 + i * sizeof_completion_message + sizeof_completion_message \<le> length buf"
  shows "wp (foldM (read_completion buf) is s) (incoming_room a k)"
  using assms
proof (induction "is" arbitrary: s)
  case (Cons i "is")
  let ?q = "incoming_completion_msg_queue (proc_state s)"
  have L: "rb_live 64 a ?q" "Suc (k + length is) \<le> rb_room ?q"
    using Cons.prems(1) by (simp_all add: incoming_room_def)
  note put = rb_live_put [OF L(1)]
  obtain bs where bs: "read_buf buf (1 + i * sizeof_completion_message) sizeof_completion_message = Some bs"
    using Cons.prems(2) [of i] by (simp add: read_buf_def)
  let ?m = "bytes_completion bs"
  let ?s = "upd_proc (incoming_completion_msg_queue_update (\<lambda>_. rb_push ?m ?q)) s"
  have e: "read_completion buf i s = Some ?s"
    using put(1) [of ?m] L(2) bs by (simp add: read_completion_def put_incoming_def)
  have "incoming_room a (k + length is) ?s"
    using put(2) [of ?m] rb_room_push [OF L(1), of ?m] L(2) by (simp add: incoming_room_def)
  then show ?case using Cons.IH [of ?s] Cons.prems(2) e by simp
qed simp

lemma handle_packet_returns:
  assumes d: "d \<noteq> []" and R: "incoming_room a (k + messages_in d) s"
    and b: "packet_buf_size \<le> length rest"
  shows "wp (let got = take packet_buf_size d
      in handle_packet cfg (length got) (got @ drop (length got) rest) s) (incoming_room a k)"
proof -
  let ?got = "take packet_buf_size d"
  let ?buf = "?got @ drop (length ?got) rest"
  let ?n = "length ?got"
  have n: "0 < ?n" "?n \<le> packet_buf_size" using d by (simp_all add: packet_buf_size_def)
  have len: "packet_buf_size \<le> length ?buf" using b n by simp
  have h: "?buf ! 0 = hd d" using d n(1) by (simp add: nth_append hd_conv_nth)
  have small: "?n < 2 ^ 64" using n(2) by (simp add: packet_buf_size_def MESSAGE_QUEUE_SIZE_def sizeof_completion_message_def)
  have pl: "unat ((of_nat ?n :: u64) - 1) = ?n - 1"
  proof -
    have "(of_nat ?n :: u64) - 1 = of_nat (?n - 1)" using n(1) by (cases ?n) (simp_all del: length_take)
    then show ?thesis using small by (simp add: unat_of_nat take_bit_nat_eq_self_iff del: length_take)
  qed
  let ?N = "(?n - 1) div sizeof_completion_message"
  have num: "unat (((of_nat ?n :: u64) - 1) div of_nat sizeof_completion_message) = ?N"
    using pl by (simp add: unat_div sizeof_completion_message_def)
  have room: "incoming_room a k s" using R by (simp add: incoming_room_def)
  have level: "\<exists>bs. read_buf ?buf 1 sizeof_criticality_change_message = Some bs"
    using len by (simp add: read_buf_def packet_buf_size_def MESSAGE_QUEUE_SIZE_def
        sizeof_completion_message_def sizeof_criticality_change_message_def)
  have comp: "wp (foldM (read_completion ?buf) [0..<?N] s) (incoming_room a k)" if "hd d = PACKET_TYPE_COMPLETION"
  proof (rule read_completions_return)
    have "messages_in d = ?N" using that by (simp add: messages_in_def min.commute)
    then show "incoming_room a (k + length [0..<?N]) s" using R by simp
    fix i assume "i \<in> set [0..<?N]"
    then have "i * sizeof_completion_message + sizeof_completion_message \<le> ?n - 1"
      using mult_le_mono1 [of "Suc i" ?N sizeof_completion_message]
        div_times_less_eq_dividend [of "?n - 1" sizeof_completion_message]
      by (simp del: length_take div_times_less_eq_dividend)
    then show "1 + i * sizeof_completion_message + sizeof_completion_message \<le> length ?buf"
      using n len by linarith
  qed
  show ?thesis
    unfolding Let_def handle_packet_def h num
    using level comp room by (auto simp: incoming_room_def)
qed

lemma receive_returns:
  assumes "datagrams_fit k ds" and "incoming_room a k s" and "packet_buf_size \<le> length buf"
  shows "ipc_receive_completion_messages cfg ds buf s \<noteq> None"
proof -
  have "receive_loop cfg ds buf s \<noteq> None" using assms
  proof (induction ds arbitrary: k s buf)
    case (Cons d ds)
    let ?got = "take packet_buf_size d"
    let ?buf = "?got @ drop (length ?got) buf"
    have d: "d \<noteq> []" and f: "messages_in d \<le> k" "datagrams_fit (k - messages_in d) ds"
      using Cons.prems(1) by (auto simp: datagrams_fit_def)
    have "incoming_room a (k - messages_in d + messages_in d) s" using Cons.prems(2) f(1) by simp
    from handle_packet_returns [OF d this Cons.prems(3), of cfg]
    obtain t where "handle_packet cfg (length ?got) ?buf s = Some t" "incoming_room a (k - messages_in d) t"
      by (auto simp: Let_def wp_iff)
    moreover have "packet_buf_size \<le> length ?buf" using Cons.prems(3) by simp
    ultimately show ?case using Cons.IH [OF f(2)] by (simp add: Let_def)
  qed simp
  then show ?thesis by (simp add: ipc_receive_completion_messages_def)
qed

section \<open>The timer body\<close>

lemma timing_level_ok: "level_ok cfg s t \<Longrightarrow> timing t = timing s"
  by (auto simp: level_ok_def timing_def calendar_def)

lemma timed_advance:
  assumes T: "timed cfg P s" and room: "unat (now s) + 3 * P + 5001 < 2 ^ 32"
  shows "timed cfg P (advance_time cfg s)"
proof (rule timed_later [OF T _ room])
  show "now (advance_time cfg s) = now s + 1" using advance_time_ok(2) [of cfg s] by simp
qed (simp_all add: advance_time_def Let_def)

lemma timed_send:
  assumes "timed cfg P s" and "ipc_send_completion_messages s = Some t"
  shows "timed cfg P t"
proof -
  have "timing t = timing s"
    using assms(2) by (auto simp: ipc_send_completion_messages_def sendto_def Let_def bind_Some_iff)
  then show ?thesis using timed_cong assms(1) by blast
qed

lemma timer_body_timed:
  assumes e: "timer_body cfg ds buf s = Some t" and T: "timed cfg P s"
    and room: "unat (now s) + 3 * P + 5001 < 2 ^ 32"
  shows "timed cfg P t"
proof -
  obtain u v w where u: "clear_incoming s = Some u" and v: "ipc_receive_completion_messages cfg ds buf u = Some v"
    and w: "release_expired_jobs cfg v = Some w" and t: "ipc_send_completion_messages (advance_time cfg w) = Some t"
    using e by (auto simp: timer_body_def bind_Some_iff)
  have "timing u = timing s" using u by (auto simp: clear_incoming_def bind_Some_iff)
  moreover have "timing v = timing u" using ipc_receive_level [OF v] by (rule timing_level_ok)
  moreover have "timing w = timing v" by (rule clocked.release_expired [OF w])
  ultimately have W: "timing w = timing s" by simp
  have "timed cfg P w" using timed_cong [OF W] T by simp
  moreover have "now w = now s" using timing_mail(3) [OF W] .
  ultimately show ?thesis using timed_send [OF timed_advance t] room by simp
qed

lemma timer_body_returns:
  assumes T: "tick_ready N B b s" and L: "rb_live 64 a (incoming_completion_msg_queue (proc_state s))"
    and a: "128 \<le> a" and b: "128 \<le> b" and ds: "datagrams_fit 64 ds" and buf: "packet_buf_size \<le> length buf"
  shows "timer_body cfg ds buf s \<noteq> None"
proof -
  have T': "tick_inv N B s" and Q: "rb_live 64 b (outgoing_completion_msg_queue (proc_state s))"
    using T by (simp_all add: tick_ready_def)
  let ?q = "incoming_completion_msg_queue (proc_state s)"
  have n: "length (rb_contents ?q) \<le> 64" using rb_live_length [OF L] by simp
  obtain q where q: "ring_buffer_clear ?q = Some q" "rb_live 64 (a - length (rb_contents ?q)) q"
    "rb_contents q = []" using rb_live_clear [OF L] n a by auto
  let ?s = "upd_proc (incoming_completion_msg_queue_update (\<lambda>_. q)) s"
  have u: "clear_incoming s = Some ?s" using q(1) by (simp add: clear_incoming_def)
  have "incoming_room (a - length (rb_contents ?q)) 64 ?s"
    using q rb_live_length [OF q(2)] by (simp add: incoming_room_def)
  from receive_returns [OF ds this buf] obtain v where v: "ipc_receive_completion_messages cfg ds buf ?s = Some v"
    by blast
  have "tick_inv N B v" "outgoing_completion_msg_queue (proc_state v) = outgoing_completion_msg_queue (proc_state s)"
    using ipc_receive_level [OF v] T' by (auto simp: level_ok_def timer_frames)
  then obtain w where w: "release_expired_jobs cfg v = Some w" "proc_state w = proc_state v"
    using release_expired_jobs_ok [of N B v cfg] by (auto simp: wp_iff)
  have "ipc_send_completion_messages (advance_time cfg w) \<noteq> None"
    using ipc_send_ok [of b "advance_time cfg w"] Q b w(2)
      \<open>outgoing_completion_msg_queue (proc_state v) = outgoing_completion_msg_queue (proc_state s)\<close>
    by (auto simp: advance_time_ok(2))
  then show ?thesis using u v w(1) by (simp add: timer_body_def)
qed

end
