(* ===== verification/Progress.thy ===== *)
theory Progress
  imports TimerReturns Machine
begin

text \<open>
  The machine does not get stuck: with migration compiled out, while the clock is more than three
  periods from its end, and as long as at most 64 completion messages wait at a socket, every tick and
  every timer body returns, so every processor that does not wait for the others can take a step until
  threads exit.
\<close>

section \<open>Early executions\<close>

definition early :: "nat \<Rightarrow> threads \<Rightarrow> bool" where
  "early K t \<longleftrightarrow> unat (clock_of t) + 3 * K + 5001 < 2 ^ 32"

definition quiet_cfg :: "config \<Rightarrow> nat \<Rightarrow> bool" where
  "quiet_cfg cfg K \<longleftrightarrow> sound_cfg cfg \<and> tables_fit cfg K \<and> \<not> ENABLE_MIGRATION cfg"

text \<open>Each processor starts from memory that is zero.\<close>

definition machine_start :: "config \<Rightarrow> nat \<Rightarrow> machine \<Rightarrow> bool" where
  "machine_start cfg P m \<longleftrightarrow> machine_init cfg P m
     \<and> (\<forall>i<P. \<exists>pid s. static_zero s \<and> processor_init cfg pid s = Some (th_sys (m i)))"

definition machine_timed :: "config \<Rightarrow> nat \<Rightarrow> nat \<Rightarrow> nat \<Rightarrow> machine \<Rightarrow> bool" where
  "machine_timed cfg P K n m \<longleftrightarrow> machine_ok cfg P n m \<and> quiet_cfg cfg K
     \<and> (\<forall>i<P. timed cfg K (th_sys (m i)))"

text \<open>The states of executions of at most \<open>2 ^ 50\<close> steps in which every clock is early at each step.\<close>

definition early_runs :: "config \<Rightarrow> nat \<Rightarrow> nat \<Rightarrow> nat \<Rightarrow> machine \<Rightarrow> bool" where
  "early_runs cfg P K n m \<longleftrightarrow>
     reachable (\<lambda>(n, m). n = 0 \<and> machine_start cfg P m \<and> quiet_cfg cfg K)
       (\<lambda>(n, m) (n', m'). n' = Suc n \<and> n < 2 ^ 50 \<and> (\<forall>i<P. early K (m i)) \<and> mstep cfg P m m') (n, m)"

section \<open>Ticks return\<close>

lemma alive_tick_returns:
  assumes A: "alive cfg k s" and Q: "quiet_cfg cfg K" and c: "c < NUM_CORES_PER_PROC cfg"
    and room: "length (outgoing s) < 64" and k: "128 \<le> k" and tm: "timed cfg K s"
  shows "wp (scheduler_tick cfg c s) (timed cfg K)"
proof -
  obtain B a b where B: "\<forall>c. k \<le> B c" and T: "tick_ready (NUM_CORES_PER_PROC cfg) B b s"
    and L: "rb_live 64 a (incoming_completion_msg_queue (proc_state s))"
    using A unfolding alive_def by blast
  have "rb_live 64 b (outgoing_completion_msg_queue (proc_state s))" using T by (simp add: tick_ready_def)
  then have r: "0 < rb_room (outgoing_completion_msg_queue (proc_state s))"
    using rb_live_length [of 64 b] room by fastforce
  obtain i where i: "rb_inv i (incoming_completion_msg_queue (proc_state s))"
    using rb_live_inv [OF L] by blast
  have "64 \<le> B c" using B k order_trans [of 64 k "B c"] by simp
  with Q show ?thesis
    by (intro scheduler_tick_returns [OF _ T c refl _ r i tm]) (simp_all add: quiet_cfg_def sound_cfg_def)
qed

lemma tick_returns:
  assumes S: "state_ok cfg n t" and Q: "quiet_cfg cfg K" and n: "n < 2 ^ 50" and tm: "timed cfg K (th_sys t)"
    and c: "c < NUM_CORES_PER_PROC cfg" "th_core t c = CTick"
  shows "wp (scheduler_tick cfg c (th_sys t)) (timed cfg K)"
proof -
  have "NUM_CORES_PER_PROC cfg \<le> 64" using Q by (simp add: quiet_cfg_def sound_cfg_def)
  then have "length (outgoing (th_sys t)) < 64"
    using S past_tick_room [OF c] by (auto simp: state_ok_alive)
  then show ?thesis using S n
    by (intro alive_tick_returns [OF _ Q c(1) _ _ tm, of "lifetime - 64 * n"]) (simp_all add: state_ok_alive)
qed

lemma timer_returns:
  assumes S: "state_ok cfg n t" and n: "n < 2 ^ 50" and "datagrams_fit 64 ds" and "packet_buf_size \<le> length buf"
  shows "timer_body cfg ds buf (th_sys t) \<noteq> None"
proof -
  obtain B a b where "128 \<le> a" "128 \<le> b" "tick_ready (NUM_CORES_PER_PROC cfg) B b (th_sys t)"
    "rb_live 64 a (incoming_completion_msg_queue (proc_state (th_sys t)))"
  proof -
    have "128 \<le> lifetime - 64 * n" using n by simp
    then show ?thesis using that S unfolding state_ok_alive alive_def by (meson order_trans)
  qed
  then show ?thesis using timer_body_returns assms(3,4) by blast
qed

section \<open>The invariant\<close>

lemma pstep_timed:
  assumes S: "state_ok cfg n t" and Q: "quiet_cfg cfg K" and n: "n < 2 ^ 50"
    and tm: "timed cfg K (th_sys t)" and E: "early K t" and st: "pstep cfg shared t u"
  shows "timed cfg K (th_sys u)"
  using st
proof cases
  case (core_tick c s)
  then show ?thesis using wpD [OF tick_returns [OF S Q n tm core_tick(2,3)]] by simp
next
  case (timer_run ds buf s)
  then show ?thesis using timer_body_timed [OF timer_run(3) tm] E by (simp add: early_def clock_of_def)
next
  case sigusr1
  have "timing (th_sys u) = timing (th_sys t)" by (simp add: sigusr1 timing_def calendar_def)
  then show ?thesis using tm timed_cong by blast
qed (use tm in simp_all)

lemma machine_timed_start:
  assumes "machine_start cfg P m" and "quiet_cfg cfg K"
  shows "machine_timed cfg P K 0 m"
proof -
  have "timed cfg K (th_sys (m i))" if i: "i < P" for i
  proof -
    obtain pid s where s: "static_zero s" "processor_init cfg pid s = Some (th_sys (m i))"
      using assms(1) i unfolding machine_start_def by blast
    have "boot s" using s(1) by (simp add: static_zero_def)
    then have "now (th_sys (m i)) = 0"
      using processor_init_inv [of s 32 cfg pid] s(2) by (simp add: wp_iff)
    then show ?thesis using processor_init_timed [OF s] assms(2) by (simp add: quiet_cfg_def)
  qed
  then show ?thesis using assms machine_ok_init by (simp add: machine_timed_def machine_start_def)
qed

lemma machine_timed_step:
  assumes M: "machine_timed cfg P K n m" and n: "n < 2 ^ 50" and E: "\<forall>i<P. early K (m i)"
    and st: "mstep cfg P m m'"
  shows "machine_timed cfg P K (Suc n) m'"
proof -
  note M' = M [unfolded machine_timed_def]
  have "machine_ok cfg P (Suc n) m'"
    using M' by (intro machine_ok_step [OF _ _ n st]) (simp_all add: quiet_cfg_def)
  moreover have "timed cfg K (th_sys (m' i))" if i: "i < P" for i
    using st
  proof cases
    case (local j u)
    have "state_ok cfg n (m j)" using M' local(2) by (simp add: machine_ok_def)
    from pstep_timed [OF this _ n _ _ local(3)] show ?thesis
      using M' E i local(1,2) by (cases "i = j") simp_all
  next
    case proc_barrier
    then show ?thesis using M' i by simp
  qed
  ultimately show ?thesis using M' by (simp add: machine_timed_def)
qed

interpretation early_run: inductive_invariant
  "\<lambda>(n, m). n = 0 \<and> machine_start cfg P m \<and> quiet_cfg cfg K"
  "\<lambda>(n, m) (n', m'). n' = Suc n \<and> n < 2 ^ 50 \<and> (\<forall>i<P. early K (m i)) \<and> mstep cfg P m m'"
  "\<lambda>(n, m). machine_timed cfg P K n m"
  for cfg P K
  by unfold_locales (auto intro: machine_timed_start machine_timed_step)

lemma early_runs_timed: "early_runs cfg P K n m \<Longrightarrow> machine_timed cfg P K n m"
  using early_run.inv_reachable [where s = "(n, m)"] unfolding early_runs_def by simp

lemma early_runs_move:
  assumes "early_runs cfg P K n m" and "n < 2 ^ 50" and "\<forall>i<P. early K (m i)" and "mstep cfg P m m'"
  shows "early_runs cfg P K (Suc n) m'"
  unfolding early_runs_def
  by (rule reachable.move [OF assms(1) [unfolded early_runs_def]]) (use assms(2-4) in simp)

interpretation early_is_run: inductive_invariant
  "\<lambda>(n, m). n = 0 \<and> machine_start cfg P m \<and> quiet_cfg cfg K"
  "\<lambda>(n, m) (n', m'). n' = Suc n \<and> n < 2 ^ 50 \<and> (\<forall>i<P. early K (m i)) \<and> mstep cfg P m m'"
  "\<lambda>(n, m). machine_runs cfg P n m"
  for cfg P K
  by unfold_locales
    (auto intro: machine_runs_start machine_runs_move simp: machine_start_def quiet_cfg_def)

lemma early_runs_machine_runs: "early_runs cfg P K n m \<Longrightarrow> machine_runs cfg P n m"
  using early_is_run.inv_reachable [where s = "(n, m)"] unfolding early_runs_def by simp

section \<open>Progress\<close>

text \<open>A step of a thread: a core or the timer moves on. The signal alone moves none.\<close>

definition moves :: "threads \<Rightarrow> threads \<Rightarrow> bool" where
  "moves t u \<longleftrightarrow> th_timer u \<noteq> th_timer t \<or> th_core u \<noteq> th_core t"

definition no_exit :: "config \<Rightarrow> threads \<Rightarrow> bool" where
  "no_exit cfg t \<longleftrightarrow> th_timer t \<noteq> TExit \<and> (\<forall>c<NUM_CORES_PER_PROC cfg. th_core t c \<noteq> CExit)"

lemma core_moves:
  assumes c: "c < NUM_CORES_PER_PROC cfg" and k: "th_core t c = CTop \<or>
      th_core t c = CTick \<and> scheduler_tick cfg c (th_sys t) \<noteq> None"
  shows "\<exists>u. pstep cfg shared t u \<and> moves t u"
proof -
  have m: "moves t (t\<lparr>th_sys := s, th_core := (th_core t)(c := k)\<rparr>)"
    "moves t (t\<lparr>th_core := (th_core t)(c := k)\<rparr>)" if "k \<noteq> th_core t c" for s k
    using that by (auto simp: moves_def fun_eq_iff)
  from k show ?thesis
  proof
    assume t: "th_core t c = CTop"
    then show ?thesis
      using core_enter [OF c t, of shared] core_leave [OF c t, of shared] m(2) [of CTick] m(2) [of CExit] by fastforce
  next
    assume t: "th_core t c = CTick \<and> scheduler_tick cfg c (th_sys t) \<noteq> None"
    then obtain s where "scheduler_tick cfg c (th_sys t) = Some s" by blast
    then show ?thesis using core_tick [OF c, of t s shared] t m(1) [of CCompletion s] by fastforce
  qed
qed

text \<open>A timer that receives does so from the datagrams \<open>ds\<close> that wait at its socket.\<close>

lemma processor_moves:
  assumes S: "state_ok cfg n t" and P: "phases_ok cfg t" and Q: "quiet_cfg cfg K" and n: "n < 2 ^ 50"
    and tm: "timed cfg K (th_sys t)" and X: "no_exit cfg t" and T: "th_timer t \<noteq> TProc"
    and ds: "datagrams_fit 64 ds" "packet_buf_size \<le> length buf"
  shows "\<exists>u. pstep cfg shared t u \<and> moves t u
    \<and> (th_timer t = TBody \<longrightarrow> timer_body cfg ds buf (th_sys t) = Some (th_sys u))"
proof (cases "\<exists>c<NUM_CORES_PER_PROC cfg. th_core t c \<in> {CTop, CTick}")
  case True
  then obtain c where c: "c < NUM_CORES_PER_PROC cfg" "th_core t c = CTop \<or> th_core t c = CTick" by blast
  have "scheduler_tick cfg c (th_sys t) \<noteq> None" if "th_core t c = CTick"
    using tick_returns [OF S Q n tm c(1) that] by (auto simp: wp_iff)
  then have "\<exists>u. pstep cfg shared t u \<and> moves t u" using c by (intro core_moves [OF c(1)]) blast
  moreover have "th_timer t \<noteq> TBody" using P c by (auto simp: phases_ok_def)
  ultimately show ?thesis by blast
next
  case False
  have core: "th_core t c = CCompletion \<or> th_core t c = CSync" if "c < NUM_CORES_PER_PROC cfg" for c
    using False X that by (cases "th_core t c") (auto simp: no_exit_def)
  show ?thesis
  proof (cases "th_timer t")
    case TTop
    then show ?thesis using timer_enter [OF TTop] timer_leave [OF TTop] by (fastforce simp: moves_def)
  next
    case TCompletion
    then have "\<forall>c<NUM_CORES_PER_PROC cfg. th_core t c = CCompletion"
      using core P by (auto simp: phases_ok_def)
    from completion_barrier [OF this TCompletion] show ?thesis using TCompletion by (fastforce simp: moves_def)
  next
    case TCheck
    then show ?thesis using timer_go [OF TCheck] timer_break [OF TCheck] by (fastforce simp: moves_def)
  next
    case TBody
    obtain s where s: "timer_body cfg ds buf (th_sys t) = Some s" using timer_returns [OF S n ds] by blast
    from timer_run [OF TBody s] show ?thesis using TBody s by (fastforce simp: moves_def)
  next
    case TSync
    then have "\<forall>c<NUM_CORES_PER_PROC cfg. th_core t c = CSync" using P by (auto simp: phases_ok_def)
    from sync_barrier [OF this TSync] show ?thesis using TSync by (fastforce simp: moves_def)
  qed (use T X in \<open>simp_all add: no_exit_def\<close>)
qed

text \<open>The machine: the last barrier, of all timers, is a step too.\<close>

lemma machine_moves:
  assumes R: "early_runs cfg P K n m" and n: "n < 2 ^ 50" and X: "no_exit cfg (m i)"
    and i: "i < P" "th_timer (m i) \<noteq> TProc"
    and ds: "datagrams_fit 64 ds" "packet_buf_size \<le> length buf"
  shows "\<exists>u. mstep cfg P m (m(i := u)) \<and> moves (m i) u
    \<and> (th_timer (m i) = TBody \<longrightarrow> timer_body cfg ds buf (th_sys (m i)) = Some (th_sys u))"
proof -
  note M = early_runs_timed [OF R, unfolded machine_timed_def]
  then have "state_ok cfg n (m i)" "phases_ok cfg (m i)" "quiet_cfg cfg K" "timed cfg K (th_sys (m i))"
    using i by (simp_all add: machine_ok_def)
  from processor_moves [OF this(1-3) n this(4) X i(2) ds] show ?thesis
    using mstep.local [where m = m, OF i(1)] by blast
qed

lemma barrier_moves:
  assumes "\<forall>i<P. th_timer (m i) = TProc"
  shows "\<exists>m'. mstep cfg P m m' \<and> (\<forall>i<P. moves (m i) (m' i))"
  using mstep.proc_barrier [OF assms] assms
  by (intro exI [of _ "\<lambda>i. if i < P then (m i)\<lparr>th_timer := TTop\<rparr> else m i"]) (simp add: moves_def)

section \<open>The clock advances\<close>

text \<open>How far a processor is in the tick under way. Between two advances of its clock this only grows.\<close>

fun timer_stage :: "timer_pc \<Rightarrow> nat" where
  "timer_stage TSync = 0" | "timer_stage TProc = 1" | "timer_stage TTop = 2"
| "timer_stage TCompletion = 3" | "timer_stage TCheck = 4" | "timer_stage TBody = 5" | "timer_stage TExit = 0"

fun core_stage :: "core_pc \<Rightarrow> nat" where
  "core_stage CTop = 0" | "core_stage CTick = 1" | "core_stage CCompletion = 2" | "core_stage CSync = 3"
| "core_stage CExit = 0"

definition stage :: "config \<Rightarrow> threads \<Rightarrow> nat" where
  "stage cfg t = timer_stage (th_timer t)
     + (if th_timer t = TSync then 0 else \<Sum>c<NUM_CORES_PER_PROC cfg. core_stage (th_core t c))"

lemma stage_le: "stage cfg t \<le> 5 + 3 * NUM_CORES_PER_PROC cfg"
proof -
  have "core_stage k \<le> 3" for k by (cases k) simp_all
  then have "(\<Sum>c<NUM_CORES_PER_PROC cfg. core_stage (th_core t c)) \<le> (\<Sum>c<NUM_CORES_PER_PROC cfg. 3)"
    by (intro sum_mono)
  moreover have "timer_stage k \<le> 5" for k by (cases k) simp_all
  ultimately show ?thesis by (simp add: stage_def add_mono mult.commute)
qed

lemma core_stage_step:
  assumes "c < NUM_CORES_PER_PROC cfg" and "core_stage (th_core t c) < core_stage k" and "th_timer t \<noteq> TSync"
    and "th_core u = (th_core t)(c := k)" and "th_timer u = th_timer t"
  shows "stage cfg t < stage cfg u"
proof -
  have "(\<Sum>d<NUM_CORES_PER_PROC cfg. core_stage (th_core t d)) < (\<Sum>d<NUM_CORES_PER_PROC cfg. core_stage (th_core u d))"
    using assms by (intro sum_strict_mono_ex1) (auto intro: less_imp_le)
  then show ?thesis using assms by (simp add: stage_def)
qed

lemma stage_step:
  assumes P: "phases_ok cfg t" and st: "pstep cfg True t u" and M: "moves t u" and X: "no_exit cfg u"
    and C: "th_timer t = TBody \<Longrightarrow> th_timer u = TBody"
  shows "stage cfg t < stage cfg u"
  using st
proof cases
  case (core_enter c)
  then have "th_timer t \<noteq> TSync" using P by (auto simp: phases_ok_def)
  then show ?thesis using core_enter by (intro core_stage_step [of c _ _ CTick]) simp_all
next
  case (core_tick c s)
  then have "th_timer t \<noteq> TSync" using P by (auto simp: phases_ok_def)
  then show ?thesis using core_tick by (intro core_stage_step [of c _ _ CCompletion]) simp_all
next
  case completion_barrier
  then have "(\<Sum>d<NUM_CORES_PER_PROC cfg. core_stage (th_core t d)) \<le> (\<Sum>d<NUM_CORES_PER_PROC cfg. core_stage (th_core u d))"
    by (intro sum_mono) simp
  then show ?thesis using completion_barrier by (simp add: stage_def)
next
  case sigusr1
  then show ?thesis using M by (simp add: moves_def)
qed (use X M C in \<open>auto simp: stage_def no_exit_def moves_def\<close>)

text \<open>A step on which a thread moves, none exits and no clock advances.\<close>

definition stalls :: "config \<Rightarrow> nat \<Rightarrow> nat \<Rightarrow> nat \<times> machine \<Rightarrow> nat \<times> machine \<Rightarrow> bool" where
  "stalls cfg P K = (\<lambda>(n, m) (n', m'). n' = Suc n \<and> n < 2 ^ 50 \<and> (\<forall>i<P. early K (m i))
     \<and> mstep cfg P m m' \<and> (\<exists>i<P. moves (m i) (m' i))
     \<and> (\<forall>i<P. no_exit cfg (m' i) \<and> clock_of (m' i) = clock_of (m i)))"

lemma timer_run_clock:
  assumes S: "state_ok cfg n t" and P: "phases_ok cfg t" and st: "pstep cfg True t u"
    and Q: "quiet_cfg cfg K" and n: "n < 2 ^ 50" and c: "clock_of u = clock_of t" and T: "th_timer t = TBody"
    and X: "no_exit cfg u"
  shows "th_timer u = TBody"
proof (rule ccontr)
  assume "th_timer u \<noteq> TBody"
  with st T X have "after_tick u" by cases (auto simp: after_tick_def no_exit_def)
  then have "clock_of u = clock_of t + 1"
    using pstep_clock(1) [OF S P st _ _ n] Q T by (simp add: quiet_cfg_def sound_cfg_def after_tick_def)
  then show False using c by simp
qed

lemma stalls_stage:
  assumes R: "early_runs cfg P K n m" and st: "stalls cfg P K (n, m) (n', m')"
  shows "early_runs cfg P K n' m'" and "(\<Sum>i<P. stage cfg (m i)) < (\<Sum>i<P. stage cfg (m' i))"
proof -
  have s: "n' = Suc n" "n < 2 ^ 50" "\<forall>i<P. early K (m i)" "mstep cfg P m m'" "\<exists>i<P. moves (m i) (m' i)"
    and X: "\<forall>i<P. no_exit cfg (m' i) \<and> clock_of (m' i) = clock_of (m i)"
    using st by (simp_all add: stalls_def)
  show "early_runs cfg P K n' m'" using early_runs_move [OF R s(2-4)] s(1) by simp
  note M = early_runs_timed [OF R, unfolded machine_timed_def]
  show "(\<Sum>i<P. stage cfg (m i)) < (\<Sum>i<P. stage cfg (m' i))"
    using s(4)
  proof cases
    case (local i u)
    have S: "state_ok cfg n (m i)" "phases_ok cfg (m i)" using M local(2) by (simp_all add: machine_ok_def)
    have u: "no_exit cfg u" "clock_of u = clock_of (m i)" using X local(1,2) by force+
    have mv: "moves (m i) u" using s(5) local(1) by (auto simp: moves_def split: if_splits)
    have "th_timer u = TBody" if "th_timer (m i) = TBody"
      using timer_run_clock [OF S local(3) _ s(2) u(2) that u(1)] M by blast
    then have "stage cfg (m i) < stage cfg u" using stage_step [OF S(2) local(3) mv u(1)] by blast
    then show ?thesis using local(1,2) by (intro sum_strict_mono_ex1) (auto intro: less_imp_le)
  next
    case proc_barrier
    have "stage cfg (m i) < stage cfg (m' i)" if "i < P" for i
      using proc_barrier that by (simp add: stage_def)
    moreover have "{..<P} \<noteq> {}" using s(5) by auto
    ultimately show ?thesis by (intro sum_strict_mono) simp_all
  qed
qed

lemma stalls_grow:
  assumes "early_runs cfg P K n m" and "(stalls cfg P K ^^ k) (n, m) x"
  shows "early_runs cfg P K (fst x) (snd x)
    \<and> (\<Sum>i<P. stage cfg (m i)) + k \<le> (\<Sum>i<P. stage cfg (snd x i))"
  using assms(2)
proof (induction k arbitrary: x)
  case 0
  then have "x = (n, m)" by simp
  then show ?case using assms(1) by simp
next
  case (Suc k)
  obtain z where z: "(stalls cfg P K ^^ k) (n, m) z" "stalls cfg P K z x"
    using Suc.prems by (rule relpowp_Suc_E)
  have I: "early_runs cfg P K (fst z) (snd z)"
    "(\<Sum>i<P. stage cfg (m i)) + k \<le> (\<Sum>i<P. stage cfg (snd z i))" using Suc.IH [OF z(1)] by blast+
  have "stalls cfg P K (fst z, snd z) (fst x, snd x)" using z(2) by simp
  from stalls_stage [OF I(1) this] I(2) show ?case by linarith
qed

lemma stalls_bounded:
  assumes "early_runs cfg P K n m" and "(stalls cfg P K ^^ k) (n, m) x"
  shows "k \<le> P * (5 + 3 * NUM_CORES_PER_PROC cfg)"
proof -
  have "k \<le> (\<Sum>i<P. stage cfg (snd x i))" using stalls_grow [OF assms] by linarith
  also have "\<dots> \<le> (\<Sum>i<P. 5 + 3 * NUM_CORES_PER_PROC cfg)" by (intro sum_mono stage_le)
  finally show ?thesis by simp
qed

end
