(* ===== verification/Stopping.thy ===== *)
theory Stopping
  imports Frames
begin

text \<open>
  The request to stop a processor. No handler of a tick makes it: a core that finds a missed deadline
  asks the timer, and only the timer and the signal handler set \<^verbatim>\<open>proc_shutdown_requested\<close>.
\<close>

interpretation stopping: job_frame proc_shutdown_requested
  by unfold_locales simp_all

lemma stopping_mode_change [frame_ops]:
  "handle_mode_change c l s = Some t \<Longrightarrow> proc_shutdown_requested t = proc_shutdown_requested s"
  by (drule stopping.mode_change) (simp add: set_decision_point_def)

lemma stopping_running [frame_ops]:
  "handle_running_job cfg c s = Some t \<Longrightarrow> proc_shutdown_requested t = proc_shutdown_requested s"
  by (auto simp: handle_running_job_def ipc_broadcast_criticality_change_def sendto_def bind_Some_iff Let_def
      split: option.splits if_splits dest!: frame_ops)

lemma stopping_dvfs_search [frame_ops]:
  "dvfs_search cfg c ls b s = Some (l, t) \<Longrightarrow> proc_shutdown_requested t = proc_shutdown_requested s"
  by (induction ls arbitrary: b s) (auto simp: bind_Some_iff split: if_splits dest!: frame_ops)

lemma stopping_power [frame_ops]:
  "power_phase cfg c s = Some t \<Longrightarrow> proc_shutdown_requested t = proc_shutdown_requested s"
  by (auto simp: power_phase_def calc_required_dvfs_level_def power_set_dvfs_level_def bind_Some_iff
      split: if_splits dest!: frame_ops)

lemma stopping_end [frame_ops]:
  "end_of_tick cfg c s = Some t \<Longrightarrow> proc_shutdown_requested t = proc_shutdown_requested s"
  by (auto simp: end_of_tick_def update_core_summary_def log_core_state_def bind_Some_iff Let_def
      dest!: frame_ops)

lemma stopping_active [frame_ops]:
  "active_tick cfg c s = Some t \<Longrightarrow> proc_shutdown_requested t = proc_shutdown_requested s"
  by (auto simp: active_tick_def bind_Some_iff split: if_splits dest!: frame_ops)

lemma tick_keeps_shutdown:
  "scheduler_tick cfg c s = Some t \<Longrightarrow> proc_shutdown_requested t = proc_shutdown_requested s"
  by (auto simp: scheduler_tick_def mode_check_def bind_Some_iff Let_def split: if_splits dest!: frame_ops)

end
