(* ===== verification/LiveProps.thy ===== *)
theory LiveProps
  imports Progress Demo Stopping
begin

text \<open>
  The timer's tick returns, and the machine does not get stuck. The witnesses run the small system with
  migration compiled out.
\<close>

section \<open>The timer\<close>

text \<open>C4: functional. Between two barriers the timer, alone with the state, returns whenever the
  datagrams that wait hold at most 64 completion messages and none is empty. Then the clock is one tick
  later, exactly the jobs discarded by the processor whose deadline has come are gone from its queue,
  the outgoing messages have left in one packet (none when there were none), the level has not fallen,
  shutdown is requested if it was, if a core asked for it or if the last tick is reached, the queues,
  counts and locks are well-formed, and the times of all jobs still lie within \<open>P\<close> of the clock.\<close>

theorem timer_advances_clock:
  assumes "tick_ready N B b s" and "rb_live 64 a (incoming_completion_msg_queue (proc_state s))"
    and "128 \<le> a" and "128 \<le> b" and "datagrams_fit 64 ds" and "packet_buf_size \<le> length buf"
    and "timed cfg P s" and "unat (now s) + 3 * P + 5001 < 2 ^ 32"
  shows "wp (timer_body cfg ds buf s) (\<lambda>t. tick_ready N B (b - 64) t
     \<and> rb_live 64 (a - 64) (incoming_completion_msg_queue (proc_state t))
     \<and> outgoing t = [] \<and> ticked cfg s t \<and> timed cfg P t)"
proof -
  have "wp (timer_body cfg ds buf s) (timed cfg P)"
    using timer_body_returns [where cfg = cfg, OF assms(1-6)] timer_body_timed [where cfg = cfg and ds = ds and buf = buf, OF _ assms(7,8)]
    by (auto simp: wp_iff)
  from wp_conj_wlp [OF this timer_body_ok [OF assms(1-4)]] show ?thesis
    by (rule wp_mono) simp
qed

text \<open>The other processor reports the completion of a task, and the clock of the small system moves on.\<close>

definition demo_report :: completion_message where
  "demo_report = \<lparr>completed_task_id = 2, job_arrival_time = 0, msg_system_time = 0\<rparr>"

theorem timer_advances_clock_witness:
  "wp (timer_body demo_cfg [completion_packet [demo_report]] (replicate packet_buf_size 0) demo_running)
     (\<lambda>t. now t = 1 \<and> outgoing t = [] \<and> timed demo_cfg 20 t)"
proof (rule wp_mono [OF timer_advances_clock])
  show "tick_ready 2 (\<lambda>_. demo_budget) demo_budget demo_running"
    using demo_running(1,2) demo0_messages(2) by (simp add: tick_ready_def)
  show "rb_live 64 demo_budget (incoming_completion_msg_queue (proc_state demo_running))"
    using demo0_messages(1) by (simp add: demo_running(2))
  show "datagrams_fit 64 [completion_packet [demo_report]]"
    by (simp add: datagrams_fit_def messages_in_def completion_packet_def packet_buf_size_def
        MESSAGE_QUEUE_SIZE_def sizeof_completion_message_def)
  show "timed demo_cfg 20 demo_running" by (rule demo_running_timed)
qed (use demo0(6) in \<open>simp_all add: demo_budget demo_running(2) ticked_def\<close>)

section \<open>The machine\<close>

text \<open>C3: liveness. A machine whose jobs do not migrate does not get stuck: in every state that an
  execution reaches with the clocks more than three periods from their end, as long as no thread has
  exited, and whatever datagrams wait at the sockets as long as they hold at most 64 completion
  messages for each processor and none is empty, every processor can take a step of its own, its timer
  with just these datagrams, unless its timer waits for the other processors; and when all of them
  wait, the barrier opens. However the threads are scheduled and whatever they receive, at most
  \<open>P * (5 + 3 * N)\<close> of these steps pass, for \<open>P\<close> processors of \<open>N\<close> cores, before a clock advances.
  (With more than 64 messages the timer can wait for ever.)\<close>

theorem machine_never_stalls:
  assumes "early_runs cfg P K n m" and "n < 2 ^ 50" and "\<forall>i<P. no_exit cfg (m i)"
    and "\<forall>i<P. datagrams_fit 64 (net i) \<and> packet_buf_size \<le> length (buf i)"
  shows "(\<forall>i<P. th_timer (m i) \<noteq> TProc \<longrightarrow> (\<exists>u. mstep cfg P m (m(i := u)) \<and> moves (m i) u
        \<and> (th_timer (m i) = TBody \<longrightarrow> timer_body cfg (net i) (buf i) (th_sys (m i)) = Some (th_sys u))))
    \<and> ((\<forall>i<P. th_timer (m i) = TProc) \<longrightarrow> (\<exists>m'. mstep cfg P m m' \<and> (\<forall>i<P. moves (m i) (m' i))))
    \<and> ((stalls cfg P K ^^ k) (n, m) x \<longrightarrow> k \<le> P * (5 + 3 * NUM_CORES_PER_PROC cfg))"
  using machine_moves [OF assms(1,2)] barrier_moves stalls_bounded [OF assms(1)] assms(3,4) by metis

section \<open>A run of two processors\<close>

text \<open>The first processor of the small system, with migration compiled out, goes through its first tick
  until its timer receives; the second has not started.\<close>

definition quiet_demo :: config where
  "quiet_demo = demo_cfg\<lparr>ENABLE_MIGRATION := False\<rparr>"

lemma quiet_cores [simp]: "NUM_CORES_PER_PROC quiet_demo = 2"
  by (simp add: quiet_demo_def)

lemma quiet_demo: "quiet_cfg quiet_demo 20"
proof -
  have "acet_returns quiet_demo"
  proof (rule acet_returnsI)
    show "rand_ok quiet_demo" by (simp add: rand_ok_def quiet_demo_def demo_cfg_def)
    show "powf_unit quiet_demo" by (rule demo_powf_unit) (simp add: quiet_demo_def demo_cfg_def)
  qed (simp_all add: quiet_demo_def)
  then show ?thesis
    using demo_tables by (simp add: quiet_cfg_def sound_cfg_def quiet_demo_def tables_fit_def tables_ok_def)
qed

definition quiet_threads :: threads where
  "quiet_threads = \<lparr>th_sys = the (processor_init quiet_demo 0 demo_boot), th_core = \<lambda>_. CTop, th_timer = TTop\<rparr>"

lemma quiet_threads:
  "processor_init quiet_demo 0 demo_boot = Some (th_sys quiet_threads)" "clock_of quiet_threads = 0"
  "\<not> proc_shutdown_requested (th_sys quiet_threads)"
  using processor_init_inv [OF demo_boot demo_budget(3,5), of quiet_demo 0]
  by (auto simp: wp_iff quiet_threads_def clock_of_def demo_boot_def)

lemma quiet_machine: "early_runs quiet_demo 2 20 0 (\<lambda>_. quiet_threads)"
proof -
  have "machine_start quiet_demo 2 (\<lambda>_. quiet_threads)"
    using quiet_threads demo_static demo_boot
    by (auto simp: machine_start_def machine_init_def threads_init_def) (simp_all add: quiet_threads_def)
  then show ?thesis unfolding early_runs_def by (intro reachable.start) (simp add: quiet_demo)
qed

definition first_tick :: "nat \<Rightarrow> core_pc \<Rightarrow> core_pc \<Rightarrow> timer_pc \<Rightarrow> threads \<Rightarrow> bool" where
  "first_tick n x y z t \<longleftrightarrow> early_runs quiet_demo 2 20 n ((\<lambda>_. quiet_threads)(0 := t)) \<and> clock_of t = 0
     \<and> \<not> proc_shutdown_requested (th_sys t) \<and> th_core t 0 = x \<and> th_core t 1 = y \<and> th_timer t = z"

lemma quiet_step:
  assumes R: "early_runs quiet_demo 2 20 n ((\<lambda>_. quiet_threads)(0 := t))" and c: "clock_of t = 0"
    and n: "n < 2 ^ 50" and st: "pstep quiet_demo True t u"
  shows "early_runs quiet_demo 2 20 (Suc n) ((\<lambda>_. quiet_threads)(0 := u))"
    and "clock_of u = (if \<not> after_tick t \<and> after_tick u then 1 else 0)"
proof -
  let ?m = "(\<lambda>_ :: nat. quiet_threads)(0 := t)"
  have "\<forall>i<2. early 20 (?m i)" using c quiet_threads(2) by (simp add: early_def)
  moreover have "mstep quiet_demo 2 ?m (?m(0 := u))" using mstep.local [of 0 2 quiet_demo ?m u] st by simp
  ultimately show "early_runs quiet_demo 2 20 (Suc n) ((\<lambda>_. quiet_threads)(0 := u))"
    using early_runs_move [OF R n] by simp
  have "state_ok quiet_demo n t \<and> phases_ok quiet_demo t"
    using early_runs_timed [OF R] by (auto simp: machine_timed_def machine_ok_def dest: spec [where x = 0])
  then show "clock_of u = (if \<not> after_tick t \<and> after_tick u then 1 else 0)"
    using pstep_clock(1) [OF _ _ st _ _ n] quiet_demo c by (simp add: quiet_cfg_def sound_cfg_def)
qed

lemma first_tick_step:
  assumes "first_tick n x y z t" and "n < 2 ^ 50" and "pstep quiet_demo True t u"
    and "\<not> proc_shutdown_requested (th_sys u)" and "th_timer u \<notin> {TSync, TProc}"
  shows "first_tick (Suc n) (th_core u 0) (th_core u 1) (th_timer u) u"
  using assms quiet_step [of n t u] by (simp add: first_tick_def after_tick_def)

lemma first_tick_core:
  assumes F: "first_tick n x y z t" and n: "n < 2 ^ 50" and c: "c < 2" "th_core t c = CTick"
    and z: "z \<notin> {TSync, TProc}"
  shows "\<exists>u. first_tick (Suc n) (if c = 0 then CCompletion else x) (if c = 1 then CCompletion else y) z u"
proof -
  let ?m = "(\<lambda>_ :: nat. quiet_threads)(0 := t)"
  have R: "early_runs quiet_demo 2 20 n ?m" using F by (simp add: first_tick_def)
  have S: "state_ok quiet_demo n t" "timed quiet_demo 20 (th_sys t)"
    using early_runs_timed [OF R] by (auto simp: machine_timed_def machine_ok_def dest: spec [where x = 0])
  obtain s where s: "scheduler_tick quiet_demo c (th_sys t) = Some s"
    using tick_returns [OF S(1) quiet_demo n S(2) _ c(2)] c(1) by (auto simp: wp_iff)
  have "\<not> proc_shutdown_requested s" using tick_keeps_shutdown [OF s] F by (simp add: first_tick_def)
  from first_tick_step [OF F n pstep.core_tick [OF _ c(2) s]] this show ?thesis
    using c(1) z F by (auto simp: first_tick_def)
qed

lemma first_tick_moves:
  assumes F: "first_tick n x y z t" and n: "n < 2 ^ 50"
  shows "x = CTop \<Longrightarrow> z \<notin> {TSync, TProc} \<Longrightarrow> \<exists>u. first_tick (Suc n) CTick y z u"
    and "y = CTop \<Longrightarrow> z \<notin> {TSync, TProc} \<Longrightarrow> \<exists>u. first_tick (Suc n) x CTick z u"
    and "z = TTop \<Longrightarrow> \<exists>u. first_tick (Suc n) x y TCompletion u"
    and "x = CCompletion \<Longrightarrow> y = CCompletion \<Longrightarrow> z = TCompletion \<Longrightarrow> \<exists>u. first_tick (Suc n) CSync CSync TCheck u"
    and "z = TCheck \<Longrightarrow> \<exists>u. first_tick (Suc n) x y TBody u"
proof -
  note D = F [unfolded first_tick_def]
  have one: "c = 0 \<or> c = 1" if "c < 2" for c :: nat using that by auto
  show "\<exists>u. first_tick (Suc n) CTick y z u" if "x = CTop" "z \<notin> {TSync, TProc}"
    using first_tick_step [OF F n pstep.core_enter [of 0 quiet_demo t True]] D that
    by (intro exI [of _ "t\<lparr>th_core := (th_core t)(0 := CTick)\<rparr>"]) simp
  show "\<exists>u. first_tick (Suc n) x CTick z u" if "y = CTop" "z \<notin> {TSync, TProc}"
    using first_tick_step [OF F n pstep.core_enter [of 1 quiet_demo t True]] D that
    by (intro exI [of _ "t\<lparr>th_core := (th_core t)(1 := CTick)\<rparr>"]) simp
  show "\<exists>u. first_tick (Suc n) x y TCompletion u" if "z = TTop"
    using first_tick_step [OF F n pstep.timer_enter [of t quiet_demo True]] D that
    by (intro exI [of _ "t\<lparr>th_timer := TCompletion\<rparr>"]) simp
  show "\<exists>u. first_tick (Suc n) CSync CSync TCheck u" if "x = CCompletion" "y = CCompletion" "z = TCompletion"
  proof -
    have "\<forall>c<NUM_CORES_PER_PROC quiet_demo. th_core t c = CCompletion" using D that one by auto
    from first_tick_step [OF F n pstep.completion_barrier [OF this, of True]] show ?thesis using D that
      by (intro exI [of _ "t\<lparr>th_core := (\<lambda>c. if c < NUM_CORES_PER_PROC quiet_demo then CSync else th_core t c),
        th_timer := TCheck\<rparr>"]) simp
  qed
  show "\<exists>u. first_tick (Suc n) x y TBody u" if "z = TCheck"
    using first_tick_step [OF F n pstep.timer_go [of t quiet_demo True]] D that
    by (intro exI [of _ "t\<lparr>th_timer := TBody\<rparr>"]) simp
qed

lemma first_tick_receives: "\<exists>t. first_tick 7 CSync CSync TBody t"
proof -
  have "(\<lambda>_ :: nat. quiet_threads)(0 := quiet_threads) = (\<lambda>_. quiet_threads)" by auto
  moreover have "th_core quiet_threads c = CTop" "th_timer quiet_threads = TTop" for c
    by (simp_all add: quiet_threads_def)
  ultimately have "first_tick 0 CTop CTop TTop quiet_threads"
    using quiet_machine quiet_threads(2,3) by (simp add: first_tick_def)
  then obtain t1 where t1: "first_tick (0 + 1) CTick CTop TTop t1"
    using first_tick_moves(1) [of 0 CTop CTop TTop] by auto
  then obtain t2 where t2: "first_tick 2 CTick CTick TTop t2"
    using first_tick_moves(2) [of 1 CTick CTop TTop, unfolded Suc_1] by auto
  then obtain t3 where t3: "first_tick 3 CTick CTick TCompletion t3"
    using first_tick_moves(3) [of 2 CTick CTick TTop] by auto
  then obtain t4 where t4: "first_tick 4 CCompletion CTick TCompletion t4"
    using first_tick_core [OF t3, of 0] by (auto simp: first_tick_def [of 3])
  then obtain t5 where t5: "first_tick 5 CCompletion CCompletion TCompletion t5"
    using first_tick_core [OF t4, of 1] by (auto simp: first_tick_def [of 4])
  then obtain t6 where "first_tick 6 CSync CSync TCheck t6"
    using first_tick_moves(4) [OF t5] by auto
  then show ?thesis using first_tick_moves(5) [of 6 CSync CSync TCheck] by auto
qed

section \<open>Witnesses\<close>

text \<open>The timer of the first processor can receive the report of a completed task; and from the start no
  schedule has 23 steps without an advance of a clock, though there is one with a step.\<close>

theorem machine_never_stalls_witness:
  "(\<exists>n m u. early_runs quiet_demo 2 20 n m \<and> th_timer (m 0) = TBody
      \<and> mstep quiet_demo 2 m (m(0 := u)) \<and> moves (m 0) u
      \<and> timer_body quiet_demo [completion_packet [demo_report]] (replicate packet_buf_size 0) (th_sys (m 0))
        = Some (th_sys u))
   \<and> (\<forall>x. \<not> (stalls quiet_demo 2 20 ^^ 23) (0, \<lambda>_. quiet_threads) x)
   \<and> (\<exists>x. stalls quiet_demo 2 20 (0, \<lambda>_. quiet_threads) x)"
proof (intro conjI allI)
  define net :: "nat \<Rightarrow> u8 list list" where "net = (\<lambda>_. [completion_packet [demo_report]])"
  define buf :: "nat \<Rightarrow> u8 list" where "buf = (\<lambda>_. replicate packet_buf_size 0)"
  have net: "\<forall>i<2 :: nat. datagrams_fit 64 (net i) \<and> packet_buf_size \<le> length (buf i)"
    by (simp add: net_def buf_def datagrams_fit_def messages_in_def completion_packet_def packet_buf_size_def
        MESSAGE_QUEUE_SIZE_def sizeof_completion_message_def)
  have q: "no_exit quiet_demo quiet_threads" by (simp add: no_exit_def quiet_threads_def)
  note W = machine_never_stalls [OF quiet_machine _ _ net]
  show "\<not> (stalls quiet_demo 2 20 ^^ 23) (0, \<lambda>_. quiet_threads) x" for x
    using W [of 23 x] q by simp
  obtain t where t: "first_tick 7 CSync CSync TBody t" using first_tick_receives by blast
  let ?m = "(\<lambda>_ :: nat. quiet_threads)(0 := t)"
  have R: "early_runs quiet_demo 2 20 7 ?m" "th_timer t = TBody" using t by (simp_all add: first_tick_def)
  have "no_exit quiet_demo t" using t by (auto simp: first_tick_def no_exit_def numeral_2_eq_2 less_Suc_eq)
  then have X: "\<forall>i<2. no_exit quiet_demo (?m i)" using q by simp
  obtain u where u: "mstep quiet_demo 2 ?m (?m(0 := u))" "moves (?m 0) u"
    "timer_body quiet_demo (net 0) (buf 0) (th_sys (?m 0)) = Some (th_sys u)"
    using conjunct1 [OF machine_never_stalls [OF R(1) _ X net], rule_format, of 0] R(2) by auto
  show "\<exists>n m u. early_runs quiet_demo 2 20 n m \<and> th_timer (m 0) = TBody
      \<and> mstep quiet_demo 2 m (m(0 := u)) \<and> moves (m 0) u
      \<and> timer_body quiet_demo [completion_packet [demo_report]] (replicate packet_buf_size 0) (th_sys (m 0))
        = Some (th_sys u)"
    by (rule exI [of _ 7], rule exI [of _ ?m], rule exI [of _ u])
      (use R u in \<open>simp add: net_def buf_def\<close>)
  let ?t = "quiet_threads\<lparr>th_timer := TCompletion\<rparr>"
  let ?n = "(\<lambda>_ :: nat. quiet_threads)(0 := ?t)"
  have "pstep quiet_demo True quiet_threads ?t"
    by (rule pstep.timer_enter) (simp_all add: quiet_threads(3), simp add: quiet_threads_def)
  then have "mstep quiet_demo 2 (\<lambda>_. quiet_threads) ?n"
    using mstep.local [of 0 2 quiet_demo "\<lambda>_. quiet_threads"] by simp
  moreover have "moves quiet_threads ?t" by (simp add: moves_def quiet_threads_def)
  moreover have "no_exit quiet_demo ?t" using q by (simp add: no_exit_def)
  ultimately have "stalls quiet_demo 2 20 (0, \<lambda>_. quiet_threads) (1, ?n)"
    using q quiet_threads(2) by (auto simp: stalls_def early_def clock_of_def intro!: exI [of _ 0])
  then show "\<exists>x. stalls quiet_demo 2 20 (0, \<lambda>_. quiet_threads) x" by blast
qed

text \<open>The first processor has done its tick, the second has not started: their clocks show 1 and 0.\<close>

theorem processors_in_lockstep_witness:
  "\<exists>n m. machine_runs quiet_demo 2 n m \<and> th_timer (m 0) = TSync \<and> th_timer (m 1) = TTop
     \<and> clock_of (m 0) = 1 \<and> clock_of (m 1) = 0
     \<and> (clock_of (m 0) = clock_of (m 1) \<or> clock_of (m 0) = clock_of (m 1) + 1
          \<or> clock_of (m 1) = clock_of (m 0) + 1)"
proof -
  obtain t where t: "first_tick 7 CSync CSync TBody t" using first_tick_receives by blast
  let ?m = "(\<lambda>_ :: nat. quiet_threads)(0 := t)"
  have R: "early_runs quiet_demo 2 20 7 ?m" "clock_of t = 0" "th_timer t = TBody"
    using t by (simp_all add: first_tick_def)
  have "state_ok quiet_demo 7 t"
    using early_runs_timed [OF R(1)] by (auto simp: machine_timed_def machine_ok_def dest: spec [where x = 0])
  then obtain s where s: "timer_body quiet_demo [] (replicate packet_buf_size 0) (th_sys t) = Some s"
    using timer_returns [of quiet_demo 7 t "[]" "replicate packet_buf_size 0"] by (auto simp: datagrams_fit_def)
  let ?u = "t\<lparr>th_sys := s, th_timer := TSync\<rparr>"
  note Q = quiet_step [OF R(1,2) _ pstep.timer_run [OF R(3) s]]
  let ?n = "(\<lambda>_ :: nat. quiet_threads)(0 := ?u)"
  have M: "machine_runs quiet_demo 2 8 ?n" using early_runs_machine_runs [OF Q(1)] by simp
  have "clock_of (?n 0) = 1" using Q(2) R(3) by (simp add: after_tick_def)
  moreover have "clock_of (?n 1) = 0" "th_timer (?n 1) = TTop"
    using quiet_threads(2) by (simp_all add: quiet_threads_def)
  ultimately show ?thesis using processors_in_lockstep [OF M, of 0 1] M
    by (intro exI [of _ 8] exI [of _ ?n]) simp
qed

end
