(* ===== verification/Spec2Isabelle.thy ===== *)
theory Spec2Isabelle
  imports Barrier ListHead MPMCProps PoolThreads SchedProps MessageProps LiveProps
begin

text \<open>
  A model of EEFT-Sched, a simulator of mixed-criticality scheduling on several multi-core
  processors, and the theorems that make it correct. This header is the guide to the development.

  \<^bold>\<open>The program.\<close> The parent process (\<^verbatim>\<open>src/src/main.c\<close>) forks one process per simulated processor and
  waits for them. A processor (\<^verbatim>\<open>processor.c\<close>) runs one thread per core and a timer thread. In every
  tick each core runs \<^verbatim>\<open>scheduler_tick\<close> (\<^verbatim>\<open>scheduler/sched_core.c\<close>); then all meet at a barrier, the
  timer alone moves the messages and the clock, and all meet at a second barrier; the timers of
  the processors meet at a third one in shared memory. Jobs come from pools and carry reference
  counts (\<^verbatim>\<open>task_management.c\<close>); they are linked into the sorted queues of a core by intrusive lists
  (\<^verbatim>\<open>lib/list.h\<close>). The cores of a processor exchange jobs through lock-free ring buffers
  (\<^verbatim>\<open>lib/ring_buffer.h\<close>, \<^verbatim>\<open>scheduler/sched_migration.c\<close>); processors exchange completions and
  criticality levels by multicast datagrams (\<^verbatim>\<open>ipc.c\<close>). Admission and frequency scaling rest on a
  slack analysis in binary32 arithmetic (\<^verbatim>\<open>scheduler/sched_util.c\<close>, \<^verbatim>\<open>power_management.c\<close>).

  \<^bold>\<open>The theories and the code.\<close>

  \<^item> \<open>Prelude\<close>: machine integers, the option monad (\<open>None\<close>: the call does not return, because of an
    invalid access, a lock already held or a loop that spins), the rules \<open>wp\<close> (returns, and then)
    and \<open>wlp\<close> (if it returns, then), loops over lists, and the locale of inductive invariants.
  \<^item> \<open>Float32\<close>: binary32 with round to nearest even, infinities and NaN, executable; a locale of
    monotone roundings interpreted on it. \<open>CMath\<close>: \<^verbatim>\<open>lib/math.h\<close>.
  \<^item> \<open>ListHead\<close>: \<^verbatim>\<open>lib/list.h\<close> on a store of \<^verbatim>\<open>next\<close> and
    \<^verbatim>\<open>prev\<close> pointers. Its lemmas justify the abstract lists that stand for queues in the other
    theories.
  \<^item> \<open>RingBuffer\<close>: \<^verbatim>\<open>lib/ring_buffer.h\<close> with 64-bit positions and sequence numbers, as functions of one
    thread; the locale \<open>fifo_queue\<close> is its contract. \<open>RingBufferMPMC\<close>: the same operations as atomic
    accesses of any number of threads. \<open>Barrier\<close>: \<^verbatim>\<open>lib/barrier.c\<close> as steps of \<open>N\<close> threads
    that sleep on its condition variable.
  \<^item> \<open>Jobs\<close>: \<^verbatim>\<open>task_management.c\<close> and \<^verbatim>\<open>.h\<close>. \<open>SysState\<close>: the global
    variables of one processor as the record \<open>sys\<close> (which extends the heap of jobs), the generated
    tables as the record \<open>config\<close>.
  \<^item> \<open>PoolThreads\<close>: the job pools and reference counts of \<^verbatim>\<open>task_management.c\<close> as accesses of the cores
    and the timer that interleave. \<open>PlatformSem\<close>: both branches of \<^verbatim>\<open>lib/platform_sem.h\<close>.
  \<^item> \<open>SchedUtil\<close>, \<open>PowerMgmt\<close>, \<open>Migration\<close>, \<open>Ipc\<close>, \<open>Log\<close>,
    \<open>SchedCore\<close>, \<open>Processor\<close>, \<open>Supervisor\<close>: \<^verbatim>\<open>scheduler/sched_util.c\<close>,
    \<^verbatim>\<open>power_management.c\<close>, \<^verbatim>\<open>scheduler/sched_migration.c\<close>, \<^verbatim>\<open>ipc.c\<close>,
    \<^verbatim>\<open>lib/log.c\<close> with \<^verbatim>\<open>lib/log.h\<close>, \<^verbatim>\<open>scheduler/sched_core.c\<close>,
    \<^verbatim>\<open>processor.c\<close>, \<^verbatim>\<open>main.c\<close>. A definition has the name of the C function; a \<open>_locked\<close>,
    \<open>_core\<close> or \<open>_step\<close> name is the part of a function inside a lock, of the inner function with two
    leading underscores, or the body of a loop.
  \<^item> \<open>Machine\<close>: all processors and the barrier between them as one step relation.

  \<^bold>\<open>The lemmas.\<close>

  \<^item> \<open>RingBufferMPMC\<close> and \<open>MPMCProps\<close>: what a thread in the ring buffer knows at each point whatever the
    others do; elements come out once and in the order of their places, copies do not race,
    threads wait only for a full or an empty buffer, and an operation that runs alone is the
    sequential one.
  \<^item> \<open>JobInv\<close> and \<open>PoolInv\<close>: queues are sorted and a job is linked where its link says; the reference
    count of a job is the number of its holders, and a slot is free, waiting to be refilled or
    live. \<open>PoolThreads\<close> shows the same for interleaved accesses, and that no job is in the hands of
    two threads.
  \<^item> \<open>SysInv\<close> defines the invariant \<open>sys_inv N B H s\<close> of a processor with \<open>N\<close> cores, ring buffers with a
    budget \<open>B\<close> and jobs \<open>H\<close> in the hands of the running code. \<open>CoreInv\<close>, \<open>ModeInv\<close>,
    \<open>DispatchInv\<close>, \<open>RunInv\<close>, \<open>ReclaimInv\<close>, \<open>ArrivalInv\<close>, \<open>MigrationInv\<close>,
    \<open>AcceptInv\<close>, \<open>IpcInv\<close>, \<open>TimerInv\<close> and \<open>InitInv\<close> show for one group of operations what each
    does on every branch and that it keeps the invariant; \<open>TickInv\<close> composes them to a tick,
    \<open>ThreadInv\<close> to the threads of a processor.
  \<^item> \<open>Frames\<close> is the locale of a view of the state that most handlers leave alone, and its extension
    for views that do not depend on jobs; they are interpreted on the calendar (\<open>Timing\<close>: clock,
    periods, arrival times and deadlines), on the levels (\<open>Levels\<close>, which shows that every level used
    as an index exists in all reachable states) and on the request to stop (\<open>Stopping\<close>: no tick
    makes it).
  \<^item> That the code returns: \<open>Returns\<close> for the analyses and the power phase, \<open>MailReturns\<close> for migration,
    \<open>Load\<close> counts the jobs that can be offered in one tick, \<open>TickReturns\<close> puts them together to a
    tick, \<open>TimedStart\<close> shows that start-up gives a calendar, \<open>TimerReturns\<close> treats the body of the
    timer, and \<open>Progress\<close> concludes that a processor of a machine without migration can always take
    a step before a thread exits, unless it waits for the other processors, and whatever
    datagrams wait at its socket as long as they hold at most 64 completion messages (with more
    the receive loop can block for ever, which is proved too).
  \<^item> \<open>ExecTime\<close>, \<open>UtilInv\<close>, \<open>PowerInv\<close>: bounds of the drawn execution time, the meaning and the
    termination of the slack analysis, the choice of frequency and of the sleep interval.
  \<^item> \<open>LogInv\<close>, \<open>LogDrain\<close>, \<open>LogProps\<close>: the log file as a FIFO of the accepted lines, the end of the log,
    its lost wake-up and the lines a shutdown can lose.
  \<^item> \<open>SchedProps\<close>, \<open>MigrationProps\<close>, \<open>MessageProps\<close>, \<open>LiveProps\<close> state the properties of the
    scheduler, of migration, of messages and levels, and of progress. \<open>Demo\<close> and \<open>Examples\<close> hold the
    small system on which hypotheses are discharged.

  \<^bold>\<open>Bounds.\<close> The positions of a ring buffer are 64 bits wide; an execution is followed for \<open>2 ^ 50\<close>
  steps, each of which uses at most 64 positions of a buffer, out of a budget of \<open>2 ^ 62\<close>, so no
  position comes near \<open>2 ^ 64\<close>. The barrier is correct below \<open>2 ^ 32\<close> cycles and wrong there, which is
  proved. A machine has at most 64 cores per processor (\<open>sound_cfg\<close>), because the queue of outgoing
  completions has 64 places. Loops are structural recursions or \<open>partial_function\<close>s, for which a
  separate lemma shows that they return; no fuel is used. The clock has 32 bits: \<open>calm\<close>,
  \<open>calendar_ok\<close>, \<open>arrivals_fit\<close> and \<open>timed cfg P\<close> say that it is far enough from its end, the last one
  that \<open>P\<close> bounds all periods and deadlines, that jobs arrive within \<open>P\<close> of now, and that three times
  \<open>P\<close> and the 5000 ticks of the slack horizon still fit; \<open>tables_fit\<close> is what the generated tables
  must satisfy for it. Where the code needs such a bound a property shows what happens at the end.
  Requests and answers are enqueued by a blocking call, so that a tick with migration returns is
  stated for mailboxes with room (\<open>mail_ready\<close>): a request for each job of the core and two for each
  allocated task, and 32 answers. A machine of \<open>P\<close> processors with \<open>N\<close> cores makes at most \<open>P * (5 + 3
  * N)\<close> steps between two ticks of a clock.

  \<^bold>\<open>Assumptions.\<close> \<^verbatim>\<open>rand\<close>, \<^verbatim>\<open>powf\<close>, libdispatch, the datagrams that arrive, the
  results of the calls to the operating system and the configuration are parameters. \<open>rand_ok\<close> is
  the range the C standard gives \<^verbatim>\<open>rand\<close>; \<open>powf_unit\<close> says that squaring keeps the unit interval;
  \<open>dispatch_ok\<close> is what libdispatch documents of its semaphores.

  \<^bold>\<open>Not modelled.\<close> A tick of a core and the body of the timer are single steps: cores interleave
  between ticks, not within one, so the properties of the machine say nothing on races inside a
  tick (the locks are part of the state, and a handler that takes a lock twice does not return).
  What the cores share inside a tick without a run-queue lock, the ring buffers and the job pools,
  is treated at the granularity of its accesses in \<open>RingBufferMPMC\<close> and \<open>PoolThreads\<close>, and the barrier
  in \<open>Barrier\<close>, all under sequential consistency. The log has a model of its own (\<open>Log\<close>); of the log
  calls inside a tick only the report at its end is in the model of the tick, the others only
  write text. The generated files \<^verbatim>\<open>sys_config.h\<close> and \<^verbatim>\<open>task_alloc.c\<close> (parameters), the tests and the
  Python tools are left out.

  \<^bold>\<open>Plan.\<close> What is left: progress of a machine with migration, which needs a bound on the requests
  that wait for a core over several ticks (two cores can block each other, as the queues have 32
  places); a log that is drained when its lines are accepted during the shutdown (it is not in
  general); a finer interleaving of the cores inside a tick.
\<close>

end
